(* ===== verification/Ngx_Prelude.thy ===== *)
theory Ngx_Prelude
  imports Main "HOL-Library.Word"
begin

unbundle bit_operations_syntax

text \<open>
  Shared vocabulary of the development: the byte type and its literals, the return codes of
  \<^verbatim>\<open>src/reference/nginx-master/src/core/ngx_core.h\<close> and \<^verbatim>\<open>ngx_http_request.h\<close>, the
  \<^verbatim>\<open>ngx_str_t\<close> view of a string, and the generic list and word lemmas the components use.
  Pointers into a buffer are offsets from the start of the buffer (\<^typ>\<open>nat\<close>), a pointer
  that may be \<^verbatim>\<open>NULL\<close> is a \<^typ>\<open>nat option\<close>.
\<close>

named_theorems ngx_step_defs \<open>the per-state definitions of the byte-driven parsers\<close>

subsection \<open>Types\<close>

type_synonym u_char = "8 word"
type_synonym ngx_uint_t = "64 word"
type_synonym ptr = "nat option"

subsection \<open>Byte literals, named after the C character constants\<close>

abbreviation ch_nul :: u_char where "ch_nul \<equiv> 0x00"
abbreviation ch_bs :: u_char where "ch_bs \<equiv> 0x08"
abbreviation ch_tab :: u_char where "ch_tab \<equiv> 0x09"
abbreviation LF :: u_char where "LF \<equiv> 0x0a"
abbreviation ch_ff :: u_char where "ch_ff \<equiv> 0x0c"
abbreviation CR :: u_char where "CR \<equiv> 0x0d"
abbreviation ch_sp :: u_char where "ch_sp \<equiv> 0x20"
abbreviation ch_bang :: u_char where "ch_bang \<equiv> 0x21"
abbreviation ch_dquote :: u_char where "ch_dquote \<equiv> 0x22"
abbreviation ch_hash :: u_char where "ch_hash \<equiv> 0x23"
abbreviation ch_dollar :: u_char where "ch_dollar \<equiv> 0x24"
abbreviation ch_percent :: u_char where "ch_percent \<equiv> 0x25"
abbreviation ch_amp :: u_char where "ch_amp \<equiv> 0x26"
abbreviation ch_squote :: u_char where "ch_squote \<equiv> 0x27"
abbreviation ch_lpar :: u_char where "ch_lpar \<equiv> 0x28"
abbreviation ch_rpar :: u_char where "ch_rpar \<equiv> 0x29"
abbreviation ch_star :: u_char where "ch_star \<equiv> 0x2a"
abbreviation ch_plus :: u_char where "ch_plus \<equiv> 0x2b"
abbreviation ch_comma :: u_char where "ch_comma \<equiv> 0x2c"
abbreviation ch_dash :: u_char where "ch_dash \<equiv> 0x2d"
abbreviation ch_dot :: u_char where "ch_dot \<equiv> 0x2e"
abbreviation ch_slash :: u_char where "ch_slash \<equiv> 0x2f"
abbreviation ch_colon :: u_char where "ch_colon \<equiv> 0x3a"
abbreviation ch_semi :: u_char where "ch_semi \<equiv> 0x3b"
abbreviation ch_lt :: u_char where "ch_lt \<equiv> 0x3c"
abbreviation ch_eq :: u_char where "ch_eq \<equiv> 0x3d"
abbreviation ch_gt :: u_char where "ch_gt \<equiv> 0x3e"
abbreviation ch_qmark :: u_char where "ch_qmark \<equiv> 0x3f"
abbreviation ch_lbrack :: u_char where "ch_lbrack \<equiv> 0x5b"
abbreviation ch_bslash :: u_char where "ch_bslash \<equiv> 0x5c"
abbreviation ch_rbrack :: u_char where "ch_rbrack \<equiv> 0x5d"
abbreviation ch_under :: u_char where "ch_under \<equiv> 0x5f"
abbreviation ch_tilde :: u_char where "ch_tilde \<equiv> 0x7e"
abbreviation ch_0 :: u_char where "ch_0 \<equiv> 0x30"
abbreviation ch_1 :: u_char where "ch_1 \<equiv> 0x31"
abbreviation ch_2 :: u_char where "ch_2 \<equiv> 0x32"
abbreviation ch_3 :: u_char where "ch_3 \<equiv> 0x33"
abbreviation ch_4 :: u_char where "ch_4 \<equiv> 0x34"
abbreviation ch_5 :: u_char where "ch_5 \<equiv> 0x35"
abbreviation ch_6 :: u_char where "ch_6 \<equiv> 0x36"
abbreviation ch_7 :: u_char where "ch_7 \<equiv> 0x37"
abbreviation ch_8 :: u_char where "ch_8 \<equiv> 0x38"
abbreviation ch_9 :: u_char where "ch_9 \<equiv> 0x39"
abbreviation ch_A :: u_char where "ch_A \<equiv> 0x41"
abbreviation ch_B :: u_char where "ch_B \<equiv> 0x42"
abbreviation ch_C :: u_char where "ch_C \<equiv> 0x43"
abbreviation ch_D :: u_char where "ch_D \<equiv> 0x44"
abbreviation ch_E :: u_char where "ch_E \<equiv> 0x45"
abbreviation ch_F :: u_char where "ch_F \<equiv> 0x46"
abbreviation ch_G :: u_char where "ch_G \<equiv> 0x47"
abbreviation ch_H :: u_char where "ch_H \<equiv> 0x48"
abbreviation ch_I :: u_char where "ch_I \<equiv> 0x49"
abbreviation ch_J :: u_char where "ch_J \<equiv> 0x4a"
abbreviation ch_K :: u_char where "ch_K \<equiv> 0x4b"
abbreviation ch_L :: u_char where "ch_L \<equiv> 0x4c"
abbreviation ch_M :: u_char where "ch_M \<equiv> 0x4d"
abbreviation ch_N :: u_char where "ch_N \<equiv> 0x4e"
abbreviation ch_O :: u_char where "ch_O \<equiv> 0x4f"
abbreviation ch_P :: u_char where "ch_P \<equiv> 0x50"
abbreviation ch_Q :: u_char where "ch_Q \<equiv> 0x51"
abbreviation ch_R :: u_char where "ch_R \<equiv> 0x52"
abbreviation ch_S :: u_char where "ch_S \<equiv> 0x53"
abbreviation ch_T :: u_char where "ch_T \<equiv> 0x54"
abbreviation ch_U :: u_char where "ch_U \<equiv> 0x55"
abbreviation ch_V :: u_char where "ch_V \<equiv> 0x56"
abbreviation ch_W :: u_char where "ch_W \<equiv> 0x57"
abbreviation ch_X :: u_char where "ch_X \<equiv> 0x58"
abbreviation ch_Y :: u_char where "ch_Y \<equiv> 0x59"
abbreviation ch_Z :: u_char where "ch_Z \<equiv> 0x5a"
abbreviation ch_a :: u_char where "ch_a \<equiv> 0x61"
abbreviation ch_b :: u_char where "ch_b \<equiv> 0x62"
abbreviation ch_c :: u_char where "ch_c \<equiv> 0x63"
abbreviation ch_d :: u_char where "ch_d \<equiv> 0x64"
abbreviation ch_e :: u_char where "ch_e \<equiv> 0x65"
abbreviation ch_f :: u_char where "ch_f \<equiv> 0x66"
abbreviation ch_g :: u_char where "ch_g \<equiv> 0x67"
abbreviation ch_h :: u_char where "ch_h \<equiv> 0x68"
abbreviation ch_i :: u_char where "ch_i \<equiv> 0x69"
abbreviation ch_j :: u_char where "ch_j \<equiv> 0x6a"
abbreviation ch_k :: u_char where "ch_k \<equiv> 0x6b"
abbreviation ch_l :: u_char where "ch_l \<equiv> 0x6c"
abbreviation ch_m :: u_char where "ch_m \<equiv> 0x6d"
abbreviation ch_n :: u_char where "ch_n \<equiv> 0x6e"
abbreviation ch_o :: u_char where "ch_o \<equiv> 0x6f"
abbreviation ch_p :: u_char where "ch_p \<equiv> 0x70"
abbreviation ch_q :: u_char where "ch_q \<equiv> 0x71"
abbreviation ch_r :: u_char where "ch_r \<equiv> 0x72"
abbreviation ch_s :: u_char where "ch_s \<equiv> 0x73"
abbreviation ch_t :: u_char where "ch_t \<equiv> 0x74"
abbreviation ch_u :: u_char where "ch_u \<equiv> 0x75"
abbreviation ch_v :: u_char where "ch_v \<equiv> 0x76"
abbreviation ch_w :: u_char where "ch_w \<equiv> 0x77"
abbreviation ch_x :: u_char where "ch_x \<equiv> 0x78"
abbreviation ch_y :: u_char where "ch_y \<equiv> 0x79"
abbreviation ch_z :: u_char where "ch_z \<equiv> 0x7a"

text \<open>A string constant of the C source as bytes.\<close>

definition str :: "string \<Rightarrow> u_char list" where
  "str s = map of_char s"

lemma str_simps [simp]:
  "str [] = []"
  "str (c # cs) = of_char c # str cs"
  by (simp_all add: str_def)

lemma length_str [simp]: "length (str s) = length s"
  by (simp add: str_def)

subsection \<open>Return codes\<close>

abbreviation (input) NGX_OK :: int where "NGX_OK \<equiv> 0"
abbreviation (input) NGX_ERROR :: int where "NGX_ERROR \<equiv> -1"
abbreviation (input) NGX_AGAIN :: int where "NGX_AGAIN \<equiv> -2"
abbreviation (input) NGX_DONE :: int where "NGX_DONE \<equiv> -4"
abbreviation (input) NGX_DECLINED :: int where "NGX_DECLINED \<equiv> -5"

abbreviation (input) NGX_HTTP_PARSE_HEADER_DONE :: int where "NGX_HTTP_PARSE_HEADER_DONE \<equiv> 1"
abbreviation (input) NGX_HTTP_PARSE_INVALID_METHOD :: int where "NGX_HTTP_PARSE_INVALID_METHOD \<equiv> 10"
abbreviation (input) NGX_HTTP_PARSE_INVALID_REQUEST :: int where "NGX_HTTP_PARSE_INVALID_REQUEST \<equiv> 11"
abbreviation (input) NGX_HTTP_PARSE_INVALID_VERSION :: int where "NGX_HTTP_PARSE_INVALID_VERSION \<equiv> 12"
abbreviation (input) NGX_HTTP_PARSE_INVALID_09_METHOD :: int where "NGX_HTTP_PARSE_INVALID_09_METHOD \<equiv> 13"
abbreviation (input) NGX_HTTP_PARSE_INVALID_HEADER :: int where "NGX_HTTP_PARSE_INVALID_HEADER \<equiv> 14"

subsection \<open>Character classes\<close>

text \<open>The test \<^verbatim>\<open>ch >= '0' && ch <= '9'\<close> and the folded letter tests
  \<^verbatim>\<open>c = (u_char) (ch | 0x20)\<close> followed by \<^verbatim>\<open>c >= 'a' && c <= 'z'\<close> (or \<^verbatim>\<open>'f'\<close>).\<close>

abbreviation is_digit :: "u_char \<Rightarrow> bool" where
  "is_digit ch \<equiv> ch_0 \<le> ch \<and> ch \<le> ch_9"

abbreviation fold_case :: "u_char \<Rightarrow> u_char" where
  "fold_case ch \<equiv> ch OR 0x20"

abbreviation is_alpha :: "u_char \<Rightarrow> bool" where
  "is_alpha ch \<equiv> ch_a \<le> fold_case ch \<and> fold_case ch \<le> ch_z"

abbreviation is_hex_alpha :: "u_char \<Rightarrow> bool" where
  "is_hex_alpha ch \<equiv> ch_a \<le> fold_case ch \<and> fold_case ch \<le> ch_f"

text \<open>The bitmap test \<^verbatim>\<open>map[ch >> 5] & (1U << (ch & 0x1f))\<close> on a table of eight 32-bit words.\<close>

definition in_bitmap :: "32 word list \<Rightarrow> u_char \<Rightarrow> bool" where
  "in_bitmap m ch \<longleftrightarrow>
     (m ! unat (drop_bit 5 ch)) AND push_bit (unat (ch AND 0x1f)) 1 \<noteq> 0"

subsection \<open>Generic lemmas\<close>

text \<open>A decidable property of one byte is checked on all 256 values by kernel evaluation.\<close>

lemma byte_all:
  assumes "list_all (\<lambda>n. P (word_of_int n)) [0..255]"
  shows "P (x :: u_char)"
proof -
  have "uint x \<in> {0..255}" using uint_range_size [of x] by (auto simp: word_size)
  moreover from assms have "\<forall>n\<in>{0..255}. P (word_of_int n)" by (simp add: list_all_iff)
  ultimately have "P (word_of_int (uint x))" by (rule bspec [rotated])
  then show ?thesis by simp
qed

text \<open>The bytes between two pointers of a buffer.\<close>

definition subbuf :: "'a list \<Rightarrow> nat \<Rightarrow> nat \<Rightarrow> 'a list" where
  "subbuf m i j = take (j - i) (drop i m)"

lemma subbuf_empty [simp]: "j \<le> i \<Longrightarrow> subbuf m i j = []"
  by (simp add: subbuf_def)

lemma subbuf_Suc: "i \<le> p \<Longrightarrow> p < length m \<Longrightarrow> subbuf m i (Suc p) = subbuf m i p @ [m ! p]"
  by (simp add: subbuf_def Suc_diff_le take_Suc_conv_app_nth)

lemma length_subbuf [simp]: "j \<le> length m \<Longrightarrow> length (subbuf m i j) = j - i"
  by (simp add: subbuf_def)

lemma nth_subbuf [simp]: "i + k < j \<Longrightarrow> j \<le> length m \<Longrightarrow> subbuf m i j ! k = m ! (i + k)"
  by (simp add: subbuf_def)

lemma last_subbuf: "i < p \<Longrightarrow> p \<le> length m \<Longrightarrow> last (subbuf m i p) = m ! (p - 1)"
  by (cases p) (simp_all add: subbuf_Suc)

lemma subbuf_one: "p < length m \<Longrightarrow> subbuf m p (Suc p) = [m ! p]"
  by (simp add: subbuf_Suc)

text \<open>All elements between two indices lie in a set.\<close>

definition all_in :: "'a list \<Rightarrow> nat \<Rightarrow> nat \<Rightarrow> 'a set \<Rightarrow> bool" where
  "all_in m a b S \<longleftrightarrow> (\<forall>k. a \<le> k \<and> k < b \<longrightarrow> m ! k \<in> S)"

lemma all_in_Suc:
  "all_in m a (Suc p) S \<longleftrightarrow> all_in m a p S \<and> (a \<le> p \<longrightarrow> m ! p \<in> S)"
  by (auto simp: all_in_def less_Suc_eq)

lemma subbuf_eq_map: "b \<le> length m \<Longrightarrow> subbuf m a b = map ((!) m) [a..<b]"
  by (rule nth_equalityI) simp_all

lemma all_in_subbuf: "b \<le> length m \<Longrightarrow> all_in m a b S \<longleftrightarrow> set (subbuf m a b) \<subseteq> S"
  by (auto simp: all_in_def subbuf_eq_map)

lemma all_in_empty [simp]: "q \<le> p \<Longrightarrow> all_in m p q S"
  by (auto simp: all_in_def)

text \<open>A given text stands at an index.\<close>

definition found_at :: "'a list \<Rightarrow> nat \<Rightarrow> 'a list \<Rightarrow> bool" where
  "found_at m p xs \<longleftrightarrow> take (length xs) (drop p m) = xs"

lemma found_at_Nil [simp]: "found_at m p []"
  by (simp add: found_at_def)

lemma found_at_Cons [simp]:
  "found_at m p (x # xs) \<longleftrightarrow> p < length m \<and> m ! p = x \<and> found_at m (Suc p) xs"
  by (cases "p < length m") (auto simp: found_at_def simp flip: Cons_nth_drop_Suc)

lemma found_at_append [simp]:
  "found_at m p (xs @ ys) \<longleftrightarrow> found_at m p xs \<and> found_at m (p + length xs) ys"
  by (induction xs arbitrary: p) simp_all

lemma found_at_nth: "found_at m p xs \<Longrightarrow> k < length xs \<Longrightarrow> p + k < length m \<and> m ! (p + k) = xs ! k"
proof (induction xs arbitrary: p k)
  case (Cons x xs)
  then show ?case using Cons.IH [of "Suc p" "k - 1"] by (cases k) auto
qed simp

lemma found_at_whole: "found_at (xs @ ys @ zs) (length xs) ys"
  by (simp add: found_at_def)

text \<open>Widening a byte keeps its value.\<close>

lemma unat_ucast_byte [simp]:
  "unat (ucast (c :: u_char) :: 16 word) = unat c"
  "unat (ucast (c :: u_char) :: 32 word) = unat c"
  "unat (ucast (c :: u_char) :: 64 word) = unat c"
proof -
  have "unat c < 256" using unsigned_less [of c] by simp
  then show "unat (ucast c :: 16 word) = unat c" "unat (ucast c :: 32 word) = unat c"
      "unat (ucast c :: 64 word) = unat c"
    by (simp_all add: unsigned_ucast_eq take_bit_nat_eq_self)
qed

lemma unat_ucast_16_64 [simp]: "unat (ucast (v :: 16 word) :: 64 word) = unat v"
proof -
  have "unat v < 65536" using unsigned_less [of v] by simp
  then show ?thesis by (simp add: unsigned_ucast_eq take_bit_nat_eq_self)
qed

lemma ucast_ucast_byte [simp]: "(ucast (ucast (c :: u_char) :: 16 word) :: 64 word) = ucast c"
  by (simp add: word_unat_eq_iff)

lemma unat_digit:
  assumes "is_digit c"
  shows "unat (c - ch_0) = unat c - 48" and "48 \<le> unat c" and "unat c \<le> 57" and "unat (c - ch_0) \<le> 9"
proof -
  from assms show le: "48 \<le> unat c" "unat c \<le> 57" by (simp_all add: word_le_nat_alt)
  from assms show eq: "unat (c - ch_0) = unat c - 48" by (simp add: unat_sub)
  show "unat (c - ch_0) \<le> 9" unfolding eq using le by linarith
qed

lemma digit_widened:
  assumes "is_digit c"
  shows "ucast (c - ch_0) \<le> (9 :: 16 word)" and "ucast (c - ch_0) = (0 :: 16 word) \<longleftrightarrow> c = ch_0"
proof -
  show "ucast (c - ch_0) \<le> (9 :: 16 word)"
    using unat_digit(4) [OF assms] by (simp only: word_le_nat_alt unat_ucast_byte) simp
  show "ucast (c - ch_0) = (0 :: 16 word) \<longleftrightarrow> c = ch_0"
    using unat_digit(1,2) [OF assms] by (simp only: word_unat_eq_iff unat_ucast_byte) auto
qed

lemma in_bitmap_bit:
  "in_bitmap m ch \<longleftrightarrow> bit (m ! unat (drop_bit 5 ch)) (unat (ch AND 0x1f))"
proof -
  have "unat (ch AND 0x1f) < 32"
    using word_and_le1 [of ch "0x1f"] by (simp add: word_le_nat_alt)
  then show ?thesis by (simp add: in_bitmap_def and_exp_eq_0_iff_not_bit)
qed

text \<open>A bitmap as the table of its 256 bits, and properties of tables by evaluation.\<close>

definition bitmap_bits :: "32 word list \<Rightarrow> bool list" where
  "bitmap_bits m = map (\<lambda>i. bit (m ! (i div 32)) (i mod 32)) [0..<256]"

lemma in_bitmap_bits: "in_bitmap m c \<longleftrightarrow> bitmap_bits m ! unat c"
proof -
  have "unat c < 256" using unsigned_less [of c] by simp
  moreover have "unat (drop_bit 5 c) = unat c div 32"
    by (simp only: drop_bit_eq_div unat_div) simp
  moreover have "c AND 0x1f = take_bit 5 c" by (simp add: take_bit_eq_mask mask_eq_decr_exp)
  then have "unat (c AND 0x1f) = take_bit 5 (unat c)" by (simp only: unsigned_take_bit_eq)
  then have "unat (c AND 0x1f) = unat c mod 32" by (simp add: take_bit_eq_mod)
  ultimately show ?thesis by (simp add: in_bitmap_bit bitmap_bits_def)
qed

lemma byte_table:
  assumes "length t = 256" "list_all (\<lambda>(n, v). Q (word_of_int n) v) (zip [0..255] t)"
  shows "Q (c :: u_char) (t ! unat c)"
proof -
  have c: "unat c < 256" using unsigned_less [of c] by simp
  then have "int (unat c) \<le> 255" by linarith
  then have "[0..255] ! unat c = int (unat c)" using nth_upto [of 0 "unat c" 255] by auto
  with c have "zip [0..255] t ! unat c = (int (unat c), t ! unat c)" using assms(1) by simp
  moreover have "zip [0..255] t ! unat c \<in> set (zip [0..255] t)" using c assms(1) by (intro nth_mem) simp
  ultimately have "Q (word_of_int (int (unat c))) (t ! unat c)" using assms(2) by (auto simp: list_all_iff)
  then show ?thesis by simp
qed

lemma bitmap_table:
  assumes "list_all (\<lambda>(n, v). Q (word_of_int n) v) (zip [0..255] (bitmap_bits m))"
  shows "Q c (in_bitmap m c)"
proof -
  have "length (bitmap_bits m) = 256" by (simp add: bitmap_bits_def)
  then show ?thesis using assms unfolding in_bitmap_bits by (rule byte_table)
qed

end
