(* ===== verification/Ngx_Scan.thy ===== *)
theory Ngx_Scan
  imports Ngx_Prelude
begin

text \<open>
  The control skeleton shared by the byte-driven parsers of
  \<^verbatim>\<open>src/reference/nginx-master/src/http/ngx_http_parse.c\<close>:
  \<^verbatim>\<open>for (p = b->pos; p < b->last; p++) { ch = *p; switch (state) ... }\<close>.
  One byte either continues with new local variables (\<^verbatim>\<open>break\<close>) or leaves the loop through a
  label or a \<^verbatim>\<open>return\<close>. The locale \<open>resumable_parser\<close> states what such a parser must
  promise so that a caller may hand it the input in pieces (\<^verbatim>\<open>NGX_AGAIN\<close>), and proves once
  that every way of cutting the input gives the same outcome.
\<close>

section \<open>Buffers\<close>

text \<open>\<^verbatim>\<open>ngx_buf_t\<close>: the bytes between \<^verbatim>\<open>b->start\<close> and \<^verbatim>\<open>b->last\<close>, and \<^verbatim>\<open>b->pos\<close> as an
  offset; \<^verbatim>\<open>b->last\<close> is therefore the length of \<open>mem\<close>.\<close>

record ngx_buf_t =
  mem :: "u_char list"
  pos :: nat

definition buf_append :: "ngx_buf_t \<Rightarrow> u_char list \<Rightarrow> ngx_buf_t" where
  "buf_append b xs = b\<lparr>mem := mem b @ xs\<rparr>"

section \<open>The loop\<close>

datatype ('s, 'r, 'x) act =
    Next 's 'r   \<comment> \<open>\<^verbatim>\<open>break\<close> out of the switch: go on with the next byte\<close>
  | Exit 'x 'r   \<comment> \<open>\<^verbatim>\<open>goto\<close> a label after the loop, or \<^verbatim>\<open>return\<close>\<close>

datatype ('s, 'r, 'x) scan_result =
    Exhausted nat 's 'r
  | Stopped nat 'x 'r

type_synonym ('s, 'r, 'x) step =
  "u_char list \<Rightarrow> nat \<Rightarrow> u_char \<Rightarrow> 's \<Rightarrow> 'r \<Rightarrow> ('s, 'r, 'x) act"

function scan :: "('s, 'r, 'x) step \<Rightarrow> u_char list \<Rightarrow> nat \<Rightarrow> 's \<Rightarrow> 'r \<Rightarrow> ('s, 'r, 'x) scan_result" where
  "scan step m p s r =
     (if p < length m then
        (case step m p (m ! p) s r of
           Next s' r' \<Rightarrow> scan step m (Suc p) s' r'
         | Exit x r' \<Rightarrow> Stopped p x r')
      else Exhausted p s r)"
  by pat_completeness auto
termination
  by (relation "measure (\<lambda>(step, m, p, s, r). length m - p)") auto

declare scan.simps [simp del]

lemma scan_end [simp]: "length m \<le> p \<Longrightarrow> scan step m p s r = Exhausted p s r"
  by (subst scan.simps) simp

lemma scan_Next:
  "p < length m \<Longrightarrow> step m p (m ! p) s r = Next s' r' \<Longrightarrow>
   scan step m p s r = scan step m (Suc p) s' r'"
  by (subst scan.simps) simp

lemma scan_Exit:
  "p < length m \<Longrightarrow> step m p (m ! p) s r = Exit x r' \<Longrightarrow> scan step m p s r = Stopped p x r'"
  by (subst scan.simps) simp

text \<open>When the input runs out, the loop stands at its end.\<close>

lemma scan_exhausts: "scan step m p s r = Exhausted q s' r' \<Longrightarrow> p \<le> length m \<Longrightarrow> q = length m"
proof (induction "length m - p" arbitrary: p s r)
  case 0
  then show ?case by simp
next
  case (Suc k)
  then have p: "p < length m" by simp
  show ?case
  proof (cases "step m p (m ! p) s r")
    case (Exit x r'')
    with Suc.prems p show ?thesis by (simp add: scan_Exit)
  next
    case (Next s'' r'')
    show ?thesis
    proof (rule Suc.hyps(1))
      show "k = length m - Suc p" using Suc.hyps(2) by simp
      show "scan step m (Suc p) s'' r'' = Exhausted q s' r'"
        using Suc.prems(1) scan_Next [of p m step s r s'' r''] p Next by simp
      show "Suc p \<le> length m" using p by simp
    qed
  qed
qed

text \<open>A run of bytes on which the step changes nothing is skipped.\<close>

lemma scan_run:
  assumes "\<And>i. p \<le> i \<Longrightarrow> i < q \<Longrightarrow> step m i (m ! i) s r = Next s r" "p \<le> q" "q \<le> length m"
  shows "scan step m p s r = scan step m q s r"
  using assms
proof (induction "q - p" arbitrary: p)
  case 0
  then show ?case by simp
next
  case (Suc k)
  then have "scan step m p s r = scan step m (Suc p) s r" by (simp add: scan_Next)
  also have "\<dots> = scan step m q s r" using Suc by simp
  finally show ?case .
qed

text \<open>An update of the data that commutes with every step commutes with the loop.\<close>

lemma scan_commute:
  assumes "\<And>p c s r. step m p c s (f r) = map_act id f id (step m p c s r)"
  shows "scan step m p s (f r) =
     (case scan step m p s r of
        Exhausted q s' r' \<Rightarrow> Exhausted q s' (f r')
      | Stopped q x r' \<Rightarrow> Stopped q x (f r'))"
proof (induction "length m - p" arbitrary: p s r rule: less_induct)
  case less
  show ?case
  proof (cases "p < length m")
    case False
    then show ?thesis by simp
  next
    case True
    show ?thesis
    proof (cases "step m p (m ! p) s r")
      case (Exit x r')
      with True show ?thesis by (simp add: scan_Exit assms)
    next
      case (Next s' r')
      with True have "scan step m p s (f r) = scan step m (Suc p) s' (f r')"
        by (simp add: scan_Next assms)
      with True Next less [of "Suc p" s' r'] show ?thesis by (simp add: scan_Next)
    qed
  qed
qed

text \<open>An invariant of one byte is an invariant of the loop.\<close>

lemma scan_invariant:
  assumes keep: "\<And>p s r s' r'. p < length m \<Longrightarrow> I p s r \<Longrightarrow> step m p (m ! p) s r = Next s' r' \<Longrightarrow>
      I (Suc p) s' r'"
    and leave: "\<And>p s r x r'. p < length m \<Longrightarrow> I p s r \<Longrightarrow> step m p (m ! p) s r = Exit x r' \<Longrightarrow> Q p x r'"
    and init: "I p s r"
  shows "case scan step m p s r of
      Exhausted q s' r' \<Rightarrow> I q s' r' \<and> length m \<le> q \<and> p \<le> q
    | Stopped q x r' \<Rightarrow> Q q x r' \<and> p \<le> q \<and> q < length m"
  using init
proof (induction "length m - p" arbitrary: p s r rule: less_induct)
  case less
  show ?case
  proof (cases "p < length m")
    case False
    with less.prems show ?thesis by simp
  next
    case True
    show ?thesis
    proof (cases "step m p (m ! p) s r")
      case (Exit x r')
      with True leave less.prems show ?thesis by (simp add: scan_Exit)
    next
      case (Next s' r')
      with True less.prems keep have "I (Suc p) s' r'" by blast
      then show ?thesis using less.hyps [of "Suc p" s' r'] True Next
        by (fastforce simp: scan_Next split: scan_result.splits)
    qed
  qed
qed

section \<open>The contract of a resumable parser\<close>

text \<open>
  A step may read the buffer only up to the current byte, so bytes that arrive later do not change
  what it does with the present one.
\<close>

locale byte_parser =
  fixes step :: "('s, 'r, 'x) step"
  assumes step_local: "p < length xs \<Longrightarrow> step (xs @ ys) p c s r = step xs p c s r"
begin

lemma scan_append:
  "scan step (xs @ ys) p s r =
     (case scan step xs p s r of
        Exhausted q s' r' \<Rightarrow> scan step (xs @ ys) q s' r'
      | Stopped q x r' \<Rightarrow> Stopped q x r')"
proof (induction "length xs - p" arbitrary: p s r rule: less_induct)
  case less
  show ?case
  proof (cases "p < length xs")
    case False
    then show ?thesis by simp
  next
    case True
    then have eq: "step (xs @ ys) p ((xs @ ys) ! p) s r = step xs p (xs ! p) s r"
      by (simp add: step_local nth_append)
    show ?thesis
    proof (cases "step xs p (xs ! p) s r")
      case (Exit x r')
      with True eq show ?thesis by (simp add: scan_Exit)
    next
      case (Next s' r')
      with True eq less [of "Suc p"] show ?thesis by (simp add: scan_Next)
    qed
  qed
qed

end

text \<open>
  The calling convention: the local variables are loaded from the request on entry (\<open>load\<close>),
  stored back when the input runs out (\<open>save\<close>), and the code after the loop's labels is
  \<open>finish\<close>. The stored copies are scratch: no step looks at them.
\<close>

definition run_parser ::
  "('s, 'r, 'x) step \<Rightarrow> ('r \<Rightarrow> 's) \<Rightarrow> ('s \<Rightarrow> 'r \<Rightarrow> 'r) \<Rightarrow>
   (nat \<Rightarrow> 'x \<Rightarrow> ngx_buf_t \<Rightarrow> 'r \<Rightarrow> int \<times> ngx_buf_t \<times> 'r) \<Rightarrow> ngx_buf_t \<Rightarrow> 'r \<Rightarrow> int \<times> ngx_buf_t \<times> 'r" where
  "run_parser step load save finish b r =
     (case scan step (mem b) (pos b) (load r) r of
        Exhausted p s r' \<Rightarrow> (NGX_AGAIN, b\<lparr>pos := p\<rparr>, save s r')
      | Stopped p x r' \<Rightarrow> finish p x b r')"

text \<open>The caller's side: append the next piece, call the parser, stop at any answer other than
  \<^verbatim>\<open>NGX_AGAIN\<close>. The pieces not yet read are appended at the end, so that results compare.\<close>

fun feed ::
  "(ngx_buf_t \<Rightarrow> 'r \<Rightarrow> int \<times> ngx_buf_t \<times> 'r) \<Rightarrow> ngx_buf_t \<Rightarrow> 'r \<Rightarrow> u_char list list \<Rightarrow>
   int \<times> ngx_buf_t \<times> 'r" where
  "feed parse b r [] = parse b r"
| "feed parse b r (c # cs) =
     (case parse b r of (rc, b', r') \<Rightarrow>
        if rc = NGX_AGAIN then feed parse (buf_append b' c) r' cs
        else (rc, buf_append b' (concat (c # cs)), r'))"

text \<open>
  What a caller observes of an answer: the code, the request without the scratch copies that
  carry no meaning for that code (\<open>erase\<close>) and, where the code says that input was consumed, the
  position. (An error return leaves \<^verbatim>\<open>b->pos\<close>
  where the last \<^verbatim>\<open>NGX_AGAIN\<close> put it.)
\<close>

definition observe ::
  "(int \<Rightarrow> bool) \<Rightarrow> (int \<Rightarrow> 'r \<Rightarrow> 'r) \<Rightarrow> int \<times> ngx_buf_t \<times> 'r \<Rightarrow> int \<times> u_char list \<times> nat option \<times> 'r" where
  "observe consumes erase a =
     (case a of (rc, b, r) \<Rightarrow>
        (rc, mem b, if consumes rc then Some (pos b) else None, erase rc r))"

locale resumable_parser = byte_parser step
  for step :: "('s, 'r, 'x) step" +
  fixes load :: "'r \<Rightarrow> 's"
    and save :: "'s \<Rightarrow> 'r \<Rightarrow> 'r"
    and finish :: "nat \<Rightarrow> 'x \<Rightarrow> ngx_buf_t \<Rightarrow> 'r \<Rightarrow> int \<times> ngx_buf_t \<times> 'r"
    and consumes :: "int \<Rightarrow> bool"
    and erase :: "int \<Rightarrow> 'r \<Rightarrow> 'r"
  assumes load_save: "load (save s r) = s"
    and save_save: "save s (save t r) = save s r"
    and step_save: "step m p c s (save t r) = map_act id (save t) id (step m p c s r)"
    and finish_save: "observe consumes erase (finish p x (b\<lparr>pos := n\<rparr>) (save s r)) =
      observe consumes erase (finish p x b r)"
    and finish_append: "finish p x (buf_append b ys) r =
      map_prod id (map_prod (\<lambda>b'. buf_append b' ys) id) (finish p x b r)"
    and finish_decides: "fst (finish p x b r) \<noteq> NGX_AGAIN"
begin

lemma scan_save:
  "scan step m p s (save t r) =
     (case scan step m p s r of
        Exhausted q s' r' \<Rightarrow> Exhausted q s' (save t r')
      | Stopped q x r' \<Rightarrow> Stopped q x (save t r'))"
  by (rule scan_commute) (rule step_save)

abbreviation parse :: "ngx_buf_t \<Rightarrow> 'r \<Rightarrow> int \<times> ngx_buf_t \<times> 'r" where
  "parse \<equiv> run_parser step load save finish"

lemma parse_AGAIN:
  assumes "parse b r = (NGX_AGAIN, b', r')"
  obtains p s q where "scan step (mem b) (pos b) (load r) r = Exhausted p s q"
    and "b' = b\<lparr>pos := p\<rparr>" and "r' = save s q"
proof (cases "scan step (mem b) (pos b) (load r) r")
  case (Exhausted p s q)
  with assms that show thesis by (auto simp: run_parser_def)
next
  case (Stopped p x q)
  with assms finish_decides [of p x b q] show thesis by (simp add: run_parser_def)
qed

text \<open>One interruption: going on from the saved state is the same as never having stopped.\<close>

lemma parse_resume:
  assumes "parse b r = (NGX_AGAIN, b', r')"
  shows "observe consumes erase (parse (buf_append b' xs) r') =
    observe consumes erase (parse (buf_append b xs) r)"
proof -
  from assms obtain p s q
    where scan: "scan step (mem b) (pos b) (load r) r = Exhausted p s q"
      and b': "b' = b\<lparr>pos := p\<rparr>" and r': "r' = save s q"
    by (rule parse_AGAIN)
  have whole: "scan step (mem b @ xs) (pos b) (load r) r = scan step (mem b @ xs) p s q"
    using scan by (simp add: scan_append [of "mem b" xs "pos b"])
  show ?thesis
  proof (cases "scan step (mem b @ xs) p s q")
    case (Exhausted n t u)
    with whole show ?thesis
      by (simp add: run_parser_def b' r' buf_append_def load_save scan_save save_save observe_def)
  next
    case (Stopped n x u)
    have "buf_append (b\<lparr>pos := p\<rparr>) xs = (buf_append b xs)\<lparr>pos := p\<rparr>"
      by (simp add: buf_append_def)
    with Stopped whole show ?thesis
      by (simp add: run_parser_def b' r' load_save scan_save finish_save)
        (simp add: buf_append_def finish_save)
  qed
qed

lemma parse_append_decided:
  assumes "parse b r = (rc, b', r')" and "rc \<noteq> NGX_AGAIN"
  shows "parse (buf_append b xs) r = (rc, buf_append b' xs, r')"
proof (cases "scan step (mem b) (pos b) (load r) r")
  case (Exhausted p s q)
  with assms show ?thesis by (simp add: run_parser_def)
next
  case (Stopped p x q)
  then have "scan step (mem b @ xs) (pos b) (load r) r = Stopped p x q"
    by (simp add: scan_append [of "mem b" xs "pos b"])
  with Stopped assms show ?thesis
    using finish_append [of p x b xs q] by (simp add: run_parser_def buf_append_def)
qed

text \<open>Any number of interruptions.\<close>

lemma buf_append_append: "buf_append (buf_append b xs) ys = buf_append b (xs @ ys)"
  by (simp add: buf_append_def)

lemma feed_eq_parse:
  "observe consumes erase (feed parse b r cs) =
   observe consumes erase (parse (buf_append b (concat cs)) r)"
proof (induction cs arbitrary: b r)
  case Nil
  then show ?case by (simp add: buf_append_def)
next
  case (Cons c cs)
  obtain rc b' r' where first: "parse b r = (rc, b', r')" by (cases "parse b r")
  show ?case
  proof (cases "rc = NGX_AGAIN")
    case True
    with first have "feed parse b r (c # cs) = feed parse (buf_append b' c) r' cs" by simp
    also have "observe consumes erase \<dots> =
        observe consumes erase (parse (buf_append (buf_append b' c) (concat cs)) r')"
      by (rule Cons.IH)
    also have "\<dots> = observe consumes erase (parse (buf_append b (concat (c # cs))) r)"
      using parse_resume [of b r b' r' "c @ concat cs"] first True
      by (simp add: buf_append_append)
    finally show ?thesis .
  next
    case False
    with first parse_append_decided [OF first False] show ?thesis by simp
  qed
qed

end

end
