(* ===== verification/Ngx_Request.thy ===== *)
theory Ngx_Request
  imports Ngx_Scan
begin

text \<open>
  The part of \<^verbatim>\<open>struct ngx_http_request_s\<close>
  (\<^verbatim>\<open>src/reference/nginx-master/src/http/ngx_http_request.h\<close>) that the HTTP/1 parsers read
  and write, the method codes, and the \<^verbatim>\<open>usual[]\<close> bitmap of \<^verbatim>\<open>ngx_http_parse.c\<close>
  (the build without \<^verbatim>\<open>NGX_WIN32\<close>). A bit field of width one is a \<^typ>\<open>bool\<close>, the two
  16-bit version fields are \<^typ>\<open>16 word\<close>.
\<close>

section \<open>Method codes\<close>

abbreviation (input) NGX_HTTP_UNKNOWN :: ngx_uint_t where "NGX_HTTP_UNKNOWN \<equiv> 0x00000001"
abbreviation (input) NGX_HTTP_GET :: ngx_uint_t where "NGX_HTTP_GET \<equiv> 0x00000002"
abbreviation (input) NGX_HTTP_HEAD :: ngx_uint_t where "NGX_HTTP_HEAD \<equiv> 0x00000004"
abbreviation (input) NGX_HTTP_POST :: ngx_uint_t where "NGX_HTTP_POST \<equiv> 0x00000008"
abbreviation (input) NGX_HTTP_PUT :: ngx_uint_t where "NGX_HTTP_PUT \<equiv> 0x00000010"
abbreviation (input) NGX_HTTP_DELETE :: ngx_uint_t where "NGX_HTTP_DELETE \<equiv> 0x00000020"
abbreviation (input) NGX_HTTP_MKCOL :: ngx_uint_t where "NGX_HTTP_MKCOL \<equiv> 0x00000040"
abbreviation (input) NGX_HTTP_COPY :: ngx_uint_t where "NGX_HTTP_COPY \<equiv> 0x00000080"
abbreviation (input) NGX_HTTP_MOVE :: ngx_uint_t where "NGX_HTTP_MOVE \<equiv> 0x00000100"
abbreviation (input) NGX_HTTP_OPTIONS :: ngx_uint_t where "NGX_HTTP_OPTIONS \<equiv> 0x00000200"
abbreviation (input) NGX_HTTP_PROPFIND :: ngx_uint_t where "NGX_HTTP_PROPFIND \<equiv> 0x00000400"
abbreviation (input) NGX_HTTP_PROPPATCH :: ngx_uint_t where "NGX_HTTP_PROPPATCH \<equiv> 0x00000800"
abbreviation (input) NGX_HTTP_LOCK :: ngx_uint_t where "NGX_HTTP_LOCK \<equiv> 0x00001000"
abbreviation (input) NGX_HTTP_UNLOCK :: ngx_uint_t where "NGX_HTTP_UNLOCK \<equiv> 0x00002000"
abbreviation (input) NGX_HTTP_PATCH :: ngx_uint_t where "NGX_HTTP_PATCH \<equiv> 0x00004000"
abbreviation (input) NGX_HTTP_TRACE :: ngx_uint_t where "NGX_HTTP_TRACE \<equiv> 0x00008000"
abbreviation (input) NGX_HTTP_CONNECT :: ngx_uint_t where "NGX_HTTP_CONNECT \<equiv> 0x00010000"

section \<open>The request\<close>

text \<open>A string of the request lies in the header buffer or in the block allocated for
  \<^verbatim>\<open>r->uri.data\<close>; \<open>off\<close> is the offset of \<^verbatim>\<open>data\<close> in that region.\<close>

datatype region = Header_in | Uri_block

record ngx_str_t =
  str_region :: region
  off :: nat
  len :: nat

definition ngx_null_string :: ngx_str_t where
  "ngx_null_string = \<lparr>str_region = Header_in, off = 0, len = 0\<rparr>"

abbreviation (input) NGX_HTTP_LC_HEADER_LEN :: nat where "NGX_HTTP_LC_HEADER_LEN \<equiv> 32"

record ngx_http_request_t =
  upstream :: bool
  http_method :: ngx_uint_t
  http_version :: ngx_uint_t
  uri :: ngx_str_t
  args :: ngx_str_t
  exten :: ngx_str_t
  unparsed_uri :: ngx_str_t
  http_protocol :: ptr
  complex_uri :: bool
  quoted_uri :: bool
  plus_in_uri :: bool
  empty_path_in_uri :: bool
  invalid_header :: bool
  valid_unparsed_uri :: bool
  state :: nat
  header_hash :: ngx_uint_t
  lowcase_index :: ngx_uint_t
  lowcase_header :: "u_char list"
  header_name_start :: ptr
  header_name_end :: ptr
  header_start :: ptr
  header_end :: ptr
  uri_start :: ptr
  uri_end :: ptr
  uri_ext :: ptr
  args_start :: ptr
  request_start :: ptr
  request_end :: ptr
  method_end :: ptr
  schema_start :: ptr
  schema_end :: ptr
  host_start :: ptr
  host_end :: ptr
  http_minor :: "16 word"
  http_major :: "16 word"

text \<open>A request as \<^verbatim>\<open>ngx_http_alloc_request\<close> hands it out: zeroed by \<^verbatim>\<open>ngx_pcalloc\<close>, and
  the method set to \<^verbatim>\<open>NGX_HTTP_UNKNOWN\<close> and the version to \<^verbatim>\<open>NGX_HTTP_VERSION_10\<close>.\<close>

definition fresh_request :: ngx_http_request_t where
  "fresh_request =
     \<lparr>upstream = False, http_method = NGX_HTTP_UNKNOWN, http_version = 1000,
      uri = ngx_null_string, args = ngx_null_string, exten = ngx_null_string,
      unparsed_uri = ngx_null_string, http_protocol = None,
      complex_uri = False, quoted_uri = False, plus_in_uri = False, empty_path_in_uri = False,
      invalid_header = False, valid_unparsed_uri = False,
      state = 0, header_hash = 0, lowcase_index = 0,
      lowcase_header = replicate NGX_HTTP_LC_HEADER_LEN 0,
      header_name_start = None, header_name_end = None, header_start = None, header_end = None,
      uri_start = None, uri_end = None, uri_ext = None, args_start = None,
      request_start = None, request_end = None, method_end = None,
      schema_start = None, schema_end = None, host_start = None, host_end = None,
      http_minor = 0, http_major = 0\<rparr>"

text \<open>The three fields a parser uses only to carry its local variables from one call to the next
  commute with every other assignment.\<close>

lemma state_upd_commute:
  "r\<lparr>state := t, http_method := x_method\<rparr> = r\<lparr>http_method := x_method, state := t\<rparr>"
  "r\<lparr>state := t, http_version := x_http_version\<rparr> = r\<lparr>http_version := x_http_version, state := t\<rparr>"
  "r\<lparr>state := t, http_protocol := x_http_protocol\<rparr> = r\<lparr>http_protocol := x_http_protocol, state := t\<rparr>"
  "r\<lparr>state := t, complex_uri := x_complex_uri\<rparr> = r\<lparr>complex_uri := x_complex_uri, state := t\<rparr>"
  "r\<lparr>state := t, quoted_uri := x_quoted_uri\<rparr> = r\<lparr>quoted_uri := x_quoted_uri, state := t\<rparr>"
  "r\<lparr>state := t, plus_in_uri := x_plus_in_uri\<rparr> = r\<lparr>plus_in_uri := x_plus_in_uri, state := t\<rparr>"
  "r\<lparr>state := t, empty_path_in_uri := x_empty_path_in_uri\<rparr> = r\<lparr>empty_path_in_uri := x_empty_path_in_uri, state := t\<rparr>"
  "r\<lparr>state := t, uri_start := x_uri_start\<rparr> = r\<lparr>uri_start := x_uri_start, state := t\<rparr>"
  "r\<lparr>state := t, uri_end := x_uri_end\<rparr> = r\<lparr>uri_end := x_uri_end, state := t\<rparr>"
  "r\<lparr>state := t, uri_ext := x_uri_ext\<rparr> = r\<lparr>uri_ext := x_uri_ext, state := t\<rparr>"
  "r\<lparr>state := t, args_start := x_args_start\<rparr> = r\<lparr>args_start := x_args_start, state := t\<rparr>"
  "r\<lparr>state := t, request_start := x_request_start\<rparr> = r\<lparr>request_start := x_request_start, state := t\<rparr>"
  "r\<lparr>state := t, request_end := x_request_end\<rparr> = r\<lparr>request_end := x_request_end, state := t\<rparr>"
  "r\<lparr>state := t, method_end := x_method_end\<rparr> = r\<lparr>method_end := x_method_end, state := t\<rparr>"
  "r\<lparr>state := t, schema_start := x_schema_start\<rparr> = r\<lparr>schema_start := x_schema_start, state := t\<rparr>"
  "r\<lparr>state := t, schema_end := x_schema_end\<rparr> = r\<lparr>schema_end := x_schema_end, state := t\<rparr>"
  "r\<lparr>state := t, host_start := x_host_start\<rparr> = r\<lparr>host_start := x_host_start, state := t\<rparr>"
  "r\<lparr>state := t, host_end := x_host_end\<rparr> = r\<lparr>host_end := x_host_end, state := t\<rparr>"
  "r\<lparr>state := t, http_minor := x_http_minor\<rparr> = r\<lparr>http_minor := x_http_minor, state := t\<rparr>"
  "r\<lparr>state := t, http_major := x_http_major\<rparr> = r\<lparr>http_major := x_http_major, state := t\<rparr>"
  "r\<lparr>state := t, invalid_header := x_invalid_header\<rparr> = r\<lparr>invalid_header := x_invalid_header, state := t\<rparr>"
  "r\<lparr>state := t, lowcase_header := x_lowcase_header\<rparr> = r\<lparr>lowcase_header := x_lowcase_header, state := t\<rparr>"
  "r\<lparr>state := t, header_name_start := x_header_name_start\<rparr> = r\<lparr>header_name_start := x_header_name_start, state := t\<rparr>"
  "r\<lparr>state := t, header_name_end := x_header_name_end\<rparr> = r\<lparr>header_name_end := x_header_name_end, state := t\<rparr>"
  "r\<lparr>state := t, header_start := x_header_start\<rparr> = r\<lparr>header_start := x_header_start, state := t\<rparr>"
  "r\<lparr>state := t, header_end := x_header_end\<rparr> = r\<lparr>header_end := x_header_end, state := t\<rparr>"
  by simp_all

lemma scratch_upd_commute:
  "r\<lparr>state := t, header_hash := h, lowcase_index := i, invalid_header := x_invalid_header\<rparr> =
   r\<lparr>invalid_header := x_invalid_header, state := t, header_hash := h, lowcase_index := i\<rparr>"
  "r\<lparr>state := t, header_hash := h, lowcase_index := i, lowcase_header := x_lowcase_header\<rparr> =
   r\<lparr>lowcase_header := x_lowcase_header, state := t, header_hash := h, lowcase_index := i\<rparr>"
  "r\<lparr>state := t, header_hash := h, lowcase_index := i, header_name_start := x_header_name_start\<rparr> =
   r\<lparr>header_name_start := x_header_name_start, state := t, header_hash := h, lowcase_index := i\<rparr>"
  "r\<lparr>state := t, header_hash := h, lowcase_index := i, header_name_end := x_header_name_end\<rparr> =
   r\<lparr>header_name_end := x_header_name_end, state := t, header_hash := h, lowcase_index := i\<rparr>"
  "r\<lparr>state := t, header_hash := h, lowcase_index := i, header_start := x_header_start\<rparr> =
   r\<lparr>header_start := x_header_start, state := t, header_hash := h, lowcase_index := i\<rparr>"
  "r\<lparr>state := t, header_hash := h, lowcase_index := i, header_end := x_header_end\<rparr> =
   r\<lparr>header_end := x_header_end, state := t, header_hash := h, lowcase_index := i\<rparr>"
  by simp_all

section \<open>The bitmap of usual URI bytes\<close>

definition usual :: "32 word list" where
  "usual = [0x00000000, 0x7fff37d6, 0xffffffff, 0x7fffffff,
            0xffffffff, 0xffffffff, 0xffffffff, 0xffffffff]"

definition is_usual :: "u_char \<Rightarrow> bool" where
  "is_usual ch \<longleftrightarrow> in_bitmap usual ch"

text \<open>The bitmap is exactly the bytes above the space, without \<open>#\<close>, \<open>%\<close>, \<open>+\<close>,
  \<open>.\<close>, \<open>/\<close>, \<open>?\<close> and DEL.\<close>

lemma is_usual_iff:
  "is_usual ch \<longleftrightarrow> ch_sp < ch \<and>
     ch \<notin> set [ch_hash, ch_percent, ch_plus, ch_dot, ch_slash, ch_qmark, 0x7f]"
  by (rule byte_all [of "\<lambda>ch. is_usual ch \<longleftrightarrow> ch_sp < ch \<and>
     ch \<notin> set [ch_hash, ch_percent, ch_plus, ch_dot, ch_slash, ch_qmark, 0x7f]"]) code_simp

lemma is_usual_literals [simp]:
  "\<not> is_usual ch_slash" "\<not> is_usual ch_percent" "\<not> is_usual ch_qmark" "\<not> is_usual ch_hash"
  "\<not> is_usual ch_dot" "\<not> is_usual ch_plus" "\<not> is_usual ch_sp" "\<not> is_usual CR" "\<not> is_usual LF"
  "\<not> is_usual ch_nul"
  by (simp_all add: is_usual_iff)

end
