(* ===== verification/Ngx_Request_Line.thy ===== *)
theory Ngx_Request_Line
  imports Ngx_Request
begin

text \<open>
  \<^verbatim>\<open>ngx_http_parse_request_line\<close> of
  \<^verbatim>\<open>src/reference/nginx-master/src/http/ngx_http_parse.c\<close>: the state machine that reads
  \<^verbatim>\<open>METHOD URI HTTP/x.y\<close>, one definition per \<^verbatim>\<open>case\<close> of its switch (a fall-through is a
  call of the next case), the code after the label \<^verbatim>\<open>done\<close>, and the whole function. The
  build is the one without \<^verbatim>\<open>NGX_WIN32\<close>; the method comparison is modelled for both
  definitions of the \<^verbatim>\<open>ngx_strNcmp\<close> macros.
\<close>

section \<open>States\<close>

datatype rl_state =
    sw_start | sw_method | sw_spaces_before_uri | sw_schema | sw_schema_slash
  | sw_schema_slash_slash | sw_host_start | sw_host | sw_host_end | sw_host_ip_literal | sw_port
  | sw_after_slash_in_uri | sw_check_uri | sw_uri | sw_http_09 | sw_http_H | sw_http_HT
  | sw_http_HTT | sw_http_HTTP | sw_first_major_digit | sw_major_digit | sw_first_minor_digit
  | sw_minor_digit | sw_spaces_after_digit | sw_almost_done

text \<open>The enumerators in their order: \<^verbatim>\<open>r->state\<close> holds the number.\<close>

definition rl_states :: "rl_state list" where
  "rl_states =
     [sw_start, sw_method, sw_spaces_before_uri, sw_schema, sw_schema_slash,
      sw_schema_slash_slash, sw_host_start, sw_host, sw_host_end, sw_host_ip_literal, sw_port,
      sw_after_slash_in_uri, sw_check_uri, sw_uri, sw_http_09, sw_http_H, sw_http_HT,
      sw_http_HTT, sw_http_HTTP, sw_first_major_digit, sw_major_digit, sw_first_minor_digit,
      sw_minor_digit, sw_spaces_after_digit, sw_almost_done]"

text \<open>A number outside the enumeration (\<^verbatim>\<open>None\<close>) selects no case of the switch.\<close>

definition rl_dec :: "nat \<Rightarrow> rl_state option" where
  "rl_dec n = (if n < length rl_states then Some (rl_states ! n) else None)"

primrec rl_enc :: "rl_state \<Rightarrow> nat" where
  "rl_enc sw_start = 0"
| "rl_enc sw_method = 1"
| "rl_enc sw_spaces_before_uri = 2"
| "rl_enc sw_schema = 3"
| "rl_enc sw_schema_slash = 4"
| "rl_enc sw_schema_slash_slash = 5"
| "rl_enc sw_host_start = 6"
| "rl_enc sw_host = 7"
| "rl_enc sw_host_end = 8"
| "rl_enc sw_host_ip_literal = 9"
| "rl_enc sw_port = 10"
| "rl_enc sw_after_slash_in_uri = 11"
| "rl_enc sw_check_uri = 12"
| "rl_enc sw_uri = 13"
| "rl_enc sw_http_09 = 14"
| "rl_enc sw_http_H = 15"
| "rl_enc sw_http_HT = 16"
| "rl_enc sw_http_HTT = 17"
| "rl_enc sw_http_HTTP = 18"
| "rl_enc sw_first_major_digit = 19"
| "rl_enc sw_major_digit = 20"
| "rl_enc sw_first_minor_digit = 21"
| "rl_enc sw_minor_digit = 22"
| "rl_enc sw_spaces_after_digit = 23"
| "rl_enc sw_almost_done = 24"

lemma rl_dec_enc [simp]: "rl_dec (rl_enc s) = Some s"
  by (cases s) (simp_all add: rl_dec_def rl_states_def)

text \<open>How the loop is left: \<^verbatim>\<open>goto done\<close>, or one of its three error returns.\<close>

datatype rl_exit = RL_done | RL_invalid_method | RL_invalid_request | RL_invalid_version

type_synonym rl_act = "(rl_state, ngx_http_request_t, rl_exit) act"

abbreviation (input) rl_invalid :: "ngx_http_request_t \<Rightarrow> rl_act" where
  "rl_invalid r \<equiv> Exit RL_invalid_request r"

section \<open>Method names\<close>

text \<open>The macros of the build without unaligned access: byte by byte. Here \<open>m\<close> is the
  tail of the buffer that starts at \<^verbatim>\<open>r->request_start\<close>.\<close>

definition ngx_str3_cmp :: "u_char list \<Rightarrow> u_char \<Rightarrow> u_char \<Rightarrow> u_char \<Rightarrow> u_char \<Rightarrow> bool" where
  "ngx_str3_cmp m c0 c1 c2 c3 \<longleftrightarrow> m ! 0 = c0 \<and> m ! 1 = c1 \<and> m ! 2 = c2"

definition ngx_str3Ocmp :: "u_char list \<Rightarrow> u_char \<Rightarrow> u_char \<Rightarrow> u_char \<Rightarrow> u_char \<Rightarrow> bool" where
  "ngx_str3Ocmp m c0 c1 c2 c3 \<longleftrightarrow> m ! 0 = c0 \<and> m ! 2 = c2 \<and> m ! 3 = c3"

definition ngx_str4cmp :: "u_char list \<Rightarrow> u_char \<Rightarrow> u_char \<Rightarrow> u_char \<Rightarrow> u_char \<Rightarrow> bool" where
  "ngx_str4cmp m c0 c1 c2 c3 \<longleftrightarrow> m ! 0 = c0 \<and> m ! 1 = c1 \<and> m ! 2 = c2 \<and> m ! 3 = c3"

definition ngx_str5cmp :: "u_char list \<Rightarrow> u_char \<Rightarrow> u_char \<Rightarrow> u_char \<Rightarrow> u_char \<Rightarrow> u_char \<Rightarrow> bool" where
  "ngx_str5cmp m c0 c1 c2 c3 c4 \<longleftrightarrow> ngx_str4cmp m c0 c1 c2 c3 \<and> m ! 4 = c4"

definition ngx_str6cmp ::
  "u_char list \<Rightarrow> u_char \<Rightarrow> u_char \<Rightarrow> u_char \<Rightarrow> u_char \<Rightarrow> u_char \<Rightarrow> u_char \<Rightarrow> bool" where
  "ngx_str6cmp m c0 c1 c2 c3 c4 c5 \<longleftrightarrow>
     ngx_str4cmp m c0 c1 c2 c3 \<and> m ! 4 = c4 \<and> m ! 5 = c5"

definition ngx_str7_cmp ::
  "u_char list \<Rightarrow> u_char \<Rightarrow> u_char \<Rightarrow> u_char \<Rightarrow> u_char \<Rightarrow> u_char \<Rightarrow> u_char \<Rightarrow> u_char \<Rightarrow> u_char \<Rightarrow> bool" where
  "ngx_str7_cmp m c0 c1 c2 c3 c4 c5 c6 c7 \<longleftrightarrow>
     ngx_str4cmp m c0 c1 c2 c3 \<and> m ! 4 = c4 \<and> m ! 5 = c5 \<and> m ! 6 = c6"

definition ngx_str8cmp ::
  "u_char list \<Rightarrow> u_char \<Rightarrow> u_char \<Rightarrow> u_char \<Rightarrow> u_char \<Rightarrow> u_char \<Rightarrow> u_char \<Rightarrow> u_char \<Rightarrow> u_char \<Rightarrow> bool" where
  "ngx_str8cmp m c0 c1 c2 c3 c4 c5 c6 c7 \<longleftrightarrow>
     ngx_str4cmp m c0 c1 c2 c3 \<and> m ! 4 = c4 \<and> m ! 5 = c5 \<and> m ! 6 = c6 \<and> m ! 7 = c7"

definition ngx_str9cmp ::
  "u_char list \<Rightarrow> u_char \<Rightarrow> u_char \<Rightarrow> u_char \<Rightarrow> u_char \<Rightarrow> u_char \<Rightarrow> u_char \<Rightarrow> u_char \<Rightarrow> u_char \<Rightarrow>
   u_char \<Rightarrow> bool" where
  "ngx_str9cmp m c0 c1 c2 c3 c4 c5 c6 c7 c8 \<longleftrightarrow>
     ngx_str8cmp m c0 c1 c2 c3 c4 c5 c6 c7 \<and> m ! 8 = c8"

lemmas ngx_str_cmp_defs = ngx_str3_cmp_def ngx_str3Ocmp_def ngx_str4cmp_def ngx_str5cmp_def
  ngx_str6cmp_def ngx_str7_cmp_def ngx_str8cmp_def ngx_str9cmp_def

text \<open>The inner \<^verbatim>\<open>switch (p - m)\<close>: the method code for a name of length \<open>n\<close>, the old
  code \<open>old\<close> where no name matches.\<close>

definition rl_method_code :: "u_char list \<Rightarrow> nat \<Rightarrow> ngx_uint_t \<Rightarrow> ngx_uint_t" where
  "rl_method_code m n old =
     (if n = 3 then
        (if ngx_str3_cmp m ch_G ch_E ch_T ch_sp then NGX_HTTP_GET
         else if ngx_str3_cmp m ch_P ch_U ch_T ch_sp then NGX_HTTP_PUT
         else old)
      else if n = 4 then
        (if m ! 1 = ch_O then
           (if ngx_str3Ocmp m ch_P ch_O ch_S ch_T then NGX_HTTP_POST
            else if ngx_str3Ocmp m ch_C ch_O ch_P ch_Y then NGX_HTTP_COPY
            else if ngx_str3Ocmp m ch_M ch_O ch_V ch_E then NGX_HTTP_MOVE
            else if ngx_str3Ocmp m ch_L ch_O ch_C ch_K then NGX_HTTP_LOCK
            else old)
         else (if ngx_str4cmp m ch_H ch_E ch_A ch_D then NGX_HTTP_HEAD else old))
      else if n = 5 then
        (if ngx_str5cmp m ch_M ch_K ch_C ch_O ch_L then NGX_HTTP_MKCOL
         else if ngx_str5cmp m ch_P ch_A ch_T ch_C ch_H then NGX_HTTP_PATCH
         else if ngx_str5cmp m ch_T ch_R ch_A ch_C ch_E then NGX_HTTP_TRACE
         else old)
      else if n = 6 then
        (if ngx_str6cmp m ch_D ch_E ch_L ch_E ch_T ch_E then NGX_HTTP_DELETE
         else if ngx_str6cmp m ch_U ch_N ch_L ch_O ch_C ch_K then NGX_HTTP_UNLOCK
         else old)
      else if n = 7 then
        (let old = (if ngx_str7_cmp m ch_O ch_P ch_T ch_I ch_O ch_N ch_S ch_sp
                    then NGX_HTTP_OPTIONS else old)
         in if ngx_str7_cmp m ch_C ch_O ch_N ch_N ch_E ch_C ch_T ch_sp
            then NGX_HTTP_CONNECT else old)
      else if n = 8 then
        (if ngx_str8cmp m ch_P ch_R ch_O ch_P ch_F ch_I ch_N ch_D then NGX_HTTP_PROPFIND else old)
      else if n = 9 then
        (if ngx_str9cmp m ch_P ch_R ch_O ch_P ch_P ch_A ch_T ch_C ch_H
         then NGX_HTTP_PROPPATCH else old)
      else old)"

subsection \<open>The word-wide comparison macros\<close>

text \<open>The other build (\<^verbatim>\<open>NGX_HAVE_LITTLE_ENDIAN && NGX_HAVE_NONALIGNED\<close>) compares four bytes at a
  time: \<^verbatim>\<open>*(uint32_t *) m\<close> on a little-endian machine against a packed constant. The six-byte
  macro also loads the two bytes after the name and masks them out.\<close>

definition pack32 :: "u_char \<Rightarrow> u_char \<Rightarrow> u_char \<Rightarrow> u_char \<Rightarrow> 32 word" where
  "pack32 c0 c1 c2 c3 =
     push_bit 24 (ucast c3) OR push_bit 16 (ucast c2) OR push_bit 8 (ucast c1) OR ucast c0"

definition load32 :: "u_char list \<Rightarrow> nat \<Rightarrow> 32 word" where
  "load32 m i = pack32 (m ! i) (m ! (i + 1)) (m ! (i + 2)) (m ! (i + 3))"

definition le_str4cmp :: "u_char list \<Rightarrow> u_char \<Rightarrow> u_char \<Rightarrow> u_char \<Rightarrow> u_char \<Rightarrow> bool" where
  "le_str4cmp m c0 c1 c2 c3 \<longleftrightarrow> load32 m 0 = pack32 c0 c1 c2 c3"

definition le_str5cmp :: "u_char list \<Rightarrow> u_char \<Rightarrow> u_char \<Rightarrow> u_char \<Rightarrow> u_char \<Rightarrow> u_char \<Rightarrow> bool" where
  "le_str5cmp m c0 c1 c2 c3 c4 \<longleftrightarrow> load32 m 0 = pack32 c0 c1 c2 c3 \<and> m ! 4 = c4"

definition le_str6cmp ::
  "u_char list \<Rightarrow> u_char \<Rightarrow> u_char \<Rightarrow> u_char \<Rightarrow> u_char \<Rightarrow> u_char \<Rightarrow> u_char \<Rightarrow> bool" where
  "le_str6cmp m c0 c1 c2 c3 c4 c5 \<longleftrightarrow>
     load32 m 0 = pack32 c0 c1 c2 c3 \<and> load32 m 4 AND 0xffff = push_bit 8 (ucast c5) OR ucast c4"

definition le_str8cmp ::
  "u_char list \<Rightarrow> u_char \<Rightarrow> u_char \<Rightarrow> u_char \<Rightarrow> u_char \<Rightarrow> u_char \<Rightarrow> u_char \<Rightarrow> u_char \<Rightarrow> u_char \<Rightarrow> bool" where
  "le_str8cmp m c0 c1 c2 c3 c4 c5 c6 c7 \<longleftrightarrow>
     load32 m 0 = pack32 c0 c1 c2 c3 \<and> load32 m 4 = pack32 c4 c5 c6 c7"

definition le_str9cmp ::
  "u_char list \<Rightarrow> u_char \<Rightarrow> u_char \<Rightarrow> u_char \<Rightarrow> u_char \<Rightarrow> u_char \<Rightarrow> u_char \<Rightarrow> u_char \<Rightarrow> u_char \<Rightarrow>
   u_char \<Rightarrow> bool" where
  "le_str9cmp m c0 c1 c2 c3 c4 c5 c6 c7 c8 \<longleftrightarrow>
     load32 m 0 = pack32 c0 c1 c2 c3 \<and> load32 m 4 = pack32 c4 c5 c6 c7 \<and> m ! 8 = c8"

text \<open>The switch on the length with these macros: here \<^verbatim>\<open>ngx_str3_cmp\<close>, \<^verbatim>\<open>ngx_str3Ocmp\<close> and
  \<^verbatim>\<open>ngx_str4cmp\<close> are the same comparison, and so are \<^verbatim>\<open>ngx_str7_cmp\<close> and \<^verbatim>\<open>ngx_str8cmp\<close>.\<close>

definition rl_method_code_le :: "u_char list \<Rightarrow> nat \<Rightarrow> ngx_uint_t \<Rightarrow> ngx_uint_t" where
  "rl_method_code_le m n old =
     (if n = 3 then
        (if le_str4cmp m ch_G ch_E ch_T ch_sp then NGX_HTTP_GET
         else if le_str4cmp m ch_P ch_U ch_T ch_sp then NGX_HTTP_PUT
         else old)
      else if n = 4 then
        (if m ! 1 = ch_O then
           (if le_str4cmp m ch_P ch_O ch_S ch_T then NGX_HTTP_POST
            else if le_str4cmp m ch_C ch_O ch_P ch_Y then NGX_HTTP_COPY
            else if le_str4cmp m ch_M ch_O ch_V ch_E then NGX_HTTP_MOVE
            else if le_str4cmp m ch_L ch_O ch_C ch_K then NGX_HTTP_LOCK
            else old)
         else (if le_str4cmp m ch_H ch_E ch_A ch_D then NGX_HTTP_HEAD else old))
      else if n = 5 then
        (if le_str5cmp m ch_M ch_K ch_C ch_O ch_L then NGX_HTTP_MKCOL
         else if le_str5cmp m ch_P ch_A ch_T ch_C ch_H then NGX_HTTP_PATCH
         else if le_str5cmp m ch_T ch_R ch_A ch_C ch_E then NGX_HTTP_TRACE
         else old)
      else if n = 6 then
        (if le_str6cmp m ch_D ch_E ch_L ch_E ch_T ch_E then NGX_HTTP_DELETE
         else if le_str6cmp m ch_U ch_N ch_L ch_O ch_C ch_K then NGX_HTTP_UNLOCK
         else old)
      else if n = 7 then
        (let old = (if le_str8cmp m ch_O ch_P ch_T ch_I ch_O ch_N ch_S ch_sp
                    then NGX_HTTP_OPTIONS else old)
         in if le_str8cmp m ch_C ch_O ch_N ch_N ch_E ch_C ch_T ch_sp
            then NGX_HTTP_CONNECT else old)
      else if n = 8 then
        (if le_str8cmp m ch_P ch_R ch_O ch_P ch_F ch_I ch_N ch_D then NGX_HTTP_PROPFIND else old)
      else if n = 9 then
        (if le_str9cmp m ch_P ch_R ch_O ch_P ch_P ch_A ch_T ch_C ch_H
         then NGX_HTTP_PROPPATCH else old)
      else old)"

section \<open>One definition per case\<close>

abbreviation rl_method_char :: "u_char \<Rightarrow> bool" where
  "rl_method_char ch \<equiv> \<not> ((ch < ch_A \<or> ch > ch_Z) \<and> ch \<noteq> ch_under \<and> ch \<noteq> ch_dash)"

definition rl_start :: "nat \<Rightarrow> u_char \<Rightarrow> ngx_http_request_t \<Rightarrow> rl_act" where
  [ngx_step_defs]: "rl_start p ch r =
     (let r = r\<lparr>request_start := Some p\<rparr> in
      if ch = CR \<or> ch = LF then Next sw_start r
      else if \<not> rl_method_char ch then Exit RL_invalid_method r
      else Next sw_method r)"

definition rl_method :: "u_char list \<Rightarrow> nat \<Rightarrow> u_char \<Rightarrow> ngx_http_request_t \<Rightarrow> rl_act" where
  [ngx_step_defs]: "rl_method buf p ch r =
     (if ch = ch_sp then
        (let r = r\<lparr>method_end := Some (p - 1)\<rparr>;
             m = the (request_start r)
         in Next sw_spaces_before_uri (r\<lparr>http_method := rl_method_code (drop m buf) (p - m) (http_method r)\<rparr>))
      else if \<not> rl_method_char ch then Exit RL_invalid_method r
      else Next sw_method r)"

definition rl_spaces_before_uri :: "nat \<Rightarrow> u_char \<Rightarrow> ngx_http_request_t \<Rightarrow> rl_act" where
  [ngx_step_defs]: "rl_spaces_before_uri p ch r =
     (if ch = ch_slash then Next sw_after_slash_in_uri (r\<lparr>uri_start := Some p\<rparr>)
      else if is_alpha ch then Next sw_schema (r\<lparr>schema_start := Some p\<rparr>)
      else if ch = ch_sp then Next sw_spaces_before_uri r
      else rl_invalid r)"

definition rl_schema :: "nat \<Rightarrow> u_char \<Rightarrow> ngx_http_request_t \<Rightarrow> rl_act" where
  [ngx_step_defs]: "rl_schema p ch r =
     (if is_alpha ch then Next sw_schema r
      else if is_digit ch \<or> ch = ch_plus \<or> ch = ch_dash \<or> ch = ch_dot then Next sw_schema r
      else if ch = ch_colon then Next sw_schema_slash (r\<lparr>schema_end := Some p\<rparr>)
      else rl_invalid r)"

text \<open>The cases that expect one given byte: \<^verbatim>\<open>sw_schema_slash\<close>, \<^verbatim>\<open>sw_schema_slash_slash\<close>
  and, further down, the letters of \<^verbatim>\<open>HTTP/\<close>.\<close>

definition rl_schema_slash :: "u_char \<Rightarrow> ngx_http_request_t \<Rightarrow> rl_act" where
  [ngx_step_defs]: "rl_schema_slash ch r =
     (if ch = ch_slash then Next sw_schema_slash_slash r else rl_invalid r)"

definition rl_schema_slash_slash :: "u_char \<Rightarrow> ngx_http_request_t \<Rightarrow> rl_act" where
  [ngx_step_defs]: "rl_schema_slash_slash ch r =
     (if ch = ch_slash then Next sw_host_start r else rl_invalid r)"

definition rl_host_end :: "nat \<Rightarrow> u_char \<Rightarrow> ngx_http_request_t \<Rightarrow> rl_act" where
  [ngx_step_defs]: "rl_host_end p ch r =
     (let r = r\<lparr>host_end := Some p\<rparr> in
      if ch = ch_colon then Next sw_port r
      else if ch = ch_slash then Next sw_after_slash_in_uri (r\<lparr>uri_start := Some p\<rparr>)
      else if ch = ch_qmark then
        Next sw_uri (r\<lparr>uri_start := Some p, args_start := Some (p + 1), empty_path_in_uri := True\<rparr>)
      else if ch = ch_sp then
        Next sw_http_09 (r\<lparr>uri_start := Some (the (schema_end r) + 1),
                           uri_end := Some (the (schema_end r) + 2)\<rparr>)
      else rl_invalid r)"

definition rl_host :: "nat \<Rightarrow> u_char \<Rightarrow> ngx_http_request_t \<Rightarrow> rl_act" where
  [ngx_step_defs]: "rl_host p ch r =
     (if is_alpha ch then Next sw_host r
      else if is_digit ch \<or> ch = ch_dot \<or> ch = ch_dash then Next sw_host r
      else rl_host_end p ch r)"

definition rl_host_start :: "nat \<Rightarrow> u_char \<Rightarrow> ngx_http_request_t \<Rightarrow> rl_act" where
  [ngx_step_defs]: "rl_host_start p ch r =
     (let r = r\<lparr>host_start := Some p\<rparr> in
      if ch = ch_lbrack then Next sw_host_ip_literal r
      else rl_host p ch r)"

definition rl_host_ip_literal :: "u_char \<Rightarrow> ngx_http_request_t \<Rightarrow> rl_act" where
  [ngx_step_defs]: "rl_host_ip_literal ch r =
     (if is_digit ch then Next sw_host_ip_literal r
      else if is_alpha ch then Next sw_host_ip_literal r
      else if ch = ch_colon then Next sw_host_ip_literal r
      else if ch = ch_rbrack then Next sw_host_end r
      else if ch = ch_dash \<or> ch = ch_dot \<or> ch = ch_under \<or> ch = ch_tilde then
        Next sw_host_ip_literal r
      else if ch = ch_bang \<or> ch = ch_dollar \<or> ch = ch_amp \<or> ch = ch_squote \<or> ch = ch_lpar \<or>
              ch = ch_rpar \<or> ch = ch_star \<or> ch = ch_plus \<or> ch = ch_comma \<or> ch = ch_semi \<or>
              ch = ch_eq then
        Next sw_host_ip_literal r
      else rl_invalid r)"

definition rl_port :: "nat \<Rightarrow> u_char \<Rightarrow> ngx_http_request_t \<Rightarrow> rl_act" where
  [ngx_step_defs]: "rl_port p ch r =
     (if is_digit ch then Next sw_port r
      else if ch = ch_slash then Next sw_after_slash_in_uri (r\<lparr>uri_start := Some p\<rparr>)
      else if ch = ch_qmark then
        Next sw_uri (r\<lparr>uri_start := Some p, args_start := Some (p + 1), empty_path_in_uri := True\<rparr>)
      else if ch = ch_sp then
        Next sw_http_09 (r\<lparr>uri_start := Some (the (schema_end r) + 1),
                           uri_end := Some (the (schema_end r) + 2)\<rparr>)
      else rl_invalid r)"

definition rl_after_slash_in_uri :: "nat \<Rightarrow> u_char \<Rightarrow> ngx_http_request_t \<Rightarrow> rl_act" where
  [ngx_step_defs]: "rl_after_slash_in_uri p ch r =
     (if is_usual ch then Next sw_check_uri r
      else if ch = ch_sp then Next sw_http_09 (r\<lparr>uri_end := Some p\<rparr>)
      else if ch = CR then Next sw_almost_done (r\<lparr>uri_end := Some p, http_minor := 9\<rparr>)
      else if ch = LF then Exit RL_done (r\<lparr>uri_end := Some p, http_minor := 9\<rparr>)
      else if ch = ch_dot then Next sw_uri (r\<lparr>complex_uri := True\<rparr>)
      else if ch = ch_percent then Next sw_uri (r\<lparr>quoted_uri := True\<rparr>)
      else if ch = ch_slash then Next sw_uri (r\<lparr>complex_uri := True\<rparr>)
      else if ch = ch_qmark then Next sw_uri (r\<lparr>args_start := Some (p + 1)\<rparr>)
      else if ch = ch_hash then Next sw_uri (r\<lparr>complex_uri := True\<rparr>)
      else if ch = ch_plus then Next sw_after_slash_in_uri (r\<lparr>plus_in_uri := True\<rparr>)
      else if ch < 0x20 \<or> ch = 0x7f then rl_invalid r
      else Next sw_check_uri r)"

definition rl_check_uri :: "nat \<Rightarrow> u_char \<Rightarrow> ngx_http_request_t \<Rightarrow> rl_act" where
  [ngx_step_defs]: "rl_check_uri p ch r =
     (if is_usual ch then Next sw_check_uri r
      else if ch = ch_slash then Next sw_after_slash_in_uri (r\<lparr>uri_ext := None\<rparr>)
      else if ch = ch_dot then Next sw_check_uri (r\<lparr>uri_ext := Some (p + 1)\<rparr>)
      else if ch = ch_sp then Next sw_http_09 (r\<lparr>uri_end := Some p\<rparr>)
      else if ch = CR then Next sw_almost_done (r\<lparr>uri_end := Some p, http_minor := 9\<rparr>)
      else if ch = LF then Exit RL_done (r\<lparr>uri_end := Some p, http_minor := 9\<rparr>)
      else if ch = ch_percent then Next sw_uri (r\<lparr>quoted_uri := True\<rparr>)
      else if ch = ch_qmark then Next sw_uri (r\<lparr>args_start := Some (p + 1)\<rparr>)
      else if ch = ch_hash then Next sw_uri (r\<lparr>complex_uri := True\<rparr>)
      else if ch = ch_plus then Next sw_check_uri (r\<lparr>plus_in_uri := True\<rparr>)
      else if ch < 0x20 \<or> ch = 0x7f then rl_invalid r
      else Next sw_check_uri r)"

definition rl_uri :: "nat \<Rightarrow> u_char \<Rightarrow> ngx_http_request_t \<Rightarrow> rl_act" where
  [ngx_step_defs]: "rl_uri p ch r =
     (if is_usual ch then Next sw_uri r
      else if ch = ch_sp then Next sw_http_09 (r\<lparr>uri_end := Some p\<rparr>)
      else if ch = CR then Next sw_almost_done (r\<lparr>uri_end := Some p, http_minor := 9\<rparr>)
      else if ch = LF then Exit RL_done (r\<lparr>uri_end := Some p, http_minor := 9\<rparr>)
      else if ch = ch_hash then Next sw_uri (r\<lparr>complex_uri := True\<rparr>)
      else if ch < 0x20 \<or> ch = 0x7f then rl_invalid r
      else Next sw_uri r)"

definition rl_http_09 :: "nat \<Rightarrow> u_char \<Rightarrow> ngx_http_request_t \<Rightarrow> rl_act" where
  [ngx_step_defs]: "rl_http_09 p ch r =
     (if ch = ch_sp then Next sw_http_09 r
      else if ch = CR then Next sw_almost_done (r\<lparr>http_minor := 9\<rparr>)
      else if ch = LF then Exit RL_done (r\<lparr>http_minor := 9\<rparr>)
      else if ch = ch_H then Next sw_http_H (r\<lparr>http_protocol := Some p\<rparr>)
      else rl_invalid r)"

definition rl_expect :: "u_char \<Rightarrow> rl_state \<Rightarrow> u_char \<Rightarrow> ngx_http_request_t \<Rightarrow> rl_act" where
  [ngx_step_defs]: "rl_expect c next ch r = (if ch = c then Next next r else rl_invalid r)"

definition rl_first_major_digit :: "u_char \<Rightarrow> ngx_http_request_t \<Rightarrow> rl_act" where
  [ngx_step_defs]: "rl_first_major_digit ch r =
     (if ch < ch_1 \<or> ch > ch_9 then rl_invalid r
      else (let r = r\<lparr>http_major := ucast (ch - ch_0)\<rparr> in
        if http_major r > 1 then Exit RL_invalid_version r
        else Next sw_major_digit r))"

definition rl_major_digit :: "u_char \<Rightarrow> ngx_http_request_t \<Rightarrow> rl_act" where
  [ngx_step_defs]: "rl_major_digit ch r =
     (if ch = ch_dot then Next sw_first_minor_digit r
      else if ch < ch_0 \<or> ch > ch_9 then rl_invalid r
      else (let r = r\<lparr>http_major := http_major r * 10 + ucast (ch - ch_0)\<rparr> in
        if http_major r > 1 then Exit RL_invalid_version r
        else Next sw_major_digit r))"

definition rl_first_minor_digit :: "u_char \<Rightarrow> ngx_http_request_t \<Rightarrow> rl_act" where
  [ngx_step_defs]: "rl_first_minor_digit ch r =
     (if ch < ch_0 \<or> ch > ch_9 then rl_invalid r
      else Next sw_minor_digit (r\<lparr>http_minor := ucast (ch - ch_0)\<rparr>))"

definition rl_minor_digit :: "u_char \<Rightarrow> ngx_http_request_t \<Rightarrow> rl_act" where
  [ngx_step_defs]: "rl_minor_digit ch r =
     (if ch = CR then Next sw_almost_done r
      else if ch = LF then Exit RL_done r
      else if ch = ch_sp then Next sw_spaces_after_digit r
      else if ch < ch_0 \<or> ch > ch_9 then rl_invalid r
      else if http_minor r > 99 then rl_invalid r
      else Next sw_minor_digit (r\<lparr>http_minor := http_minor r * 10 + ucast (ch - ch_0)\<rparr>))"

definition rl_spaces_after_digit :: "u_char \<Rightarrow> ngx_http_request_t \<Rightarrow> rl_act" where
  [ngx_step_defs]: "rl_spaces_after_digit ch r =
     (if ch = ch_sp then Next sw_spaces_after_digit r
      else if ch = CR then Next sw_almost_done r
      else if ch = LF then Exit RL_done r
      else rl_invalid r)"

definition rl_almost_done :: "nat \<Rightarrow> u_char \<Rightarrow> ngx_http_request_t \<Rightarrow> rl_act" where
  [ngx_step_defs]: "rl_almost_done p ch r =
     (let r = r\<lparr>request_end := Some (p - 1)\<rparr> in
      if ch = LF then Exit RL_done r else rl_invalid r)"

section \<open>The switch, the loop and the code after it\<close>

definition rl_switch :: "rl_state \<Rightarrow> u_char list \<Rightarrow> nat \<Rightarrow> u_char \<Rightarrow> ngx_http_request_t \<Rightarrow> rl_act" where
  "rl_switch s buf p ch r =
     (case s of
        sw_start \<Rightarrow> rl_start p ch r
      | sw_method \<Rightarrow> rl_method buf p ch r
      | sw_spaces_before_uri \<Rightarrow> rl_spaces_before_uri p ch r
      | sw_schema \<Rightarrow> rl_schema p ch r
      | sw_schema_slash \<Rightarrow> rl_schema_slash ch r
      | sw_schema_slash_slash \<Rightarrow> rl_schema_slash_slash ch r
      | sw_host_start \<Rightarrow> rl_host_start p ch r
      | sw_host \<Rightarrow> rl_host p ch r
      | sw_host_end \<Rightarrow> rl_host_end p ch r
      | sw_host_ip_literal \<Rightarrow> rl_host_ip_literal ch r
      | sw_port \<Rightarrow> rl_port p ch r
      | sw_after_slash_in_uri \<Rightarrow> rl_after_slash_in_uri p ch r
      | sw_check_uri \<Rightarrow> rl_check_uri p ch r
      | sw_uri \<Rightarrow> rl_uri p ch r
      | sw_http_09 \<Rightarrow> rl_http_09 p ch r
      | sw_http_H \<Rightarrow> rl_expect ch_T sw_http_HT ch r
      | sw_http_HT \<Rightarrow> rl_expect ch_T sw_http_HTT ch r
      | sw_http_HTT \<Rightarrow> rl_expect ch_P sw_http_HTTP ch r
      | sw_http_HTTP \<Rightarrow> rl_expect ch_slash sw_first_major_digit ch r
      | sw_first_major_digit \<Rightarrow> rl_first_major_digit ch r
      | sw_major_digit \<Rightarrow> rl_major_digit ch r
      | sw_first_minor_digit \<Rightarrow> rl_first_minor_digit ch r
      | sw_minor_digit \<Rightarrow> rl_minor_digit ch r
      | sw_spaces_after_digit \<Rightarrow> rl_spaces_after_digit ch r
      | sw_almost_done \<Rightarrow> rl_almost_done p ch r)"

text \<open>The local variable \<^verbatim>\<open>state\<close> is the number held in \<^verbatim>\<open>r->state\<close>.\<close>

definition rl_step :: "(nat, ngx_http_request_t, rl_exit) step" where
  "rl_step buf p ch n r =
     (case rl_dec n of
        None \<Rightarrow> Next n r
      | Some s \<Rightarrow>
        (case rl_switch s buf p ch r of
           Next s' r' \<Rightarrow> Next (rl_enc s') r'
         | Exit x r' \<Rightarrow> Exit x r'))"

text \<open>The label \<^verbatim>\<open>done\<close>, and the returns from inside the loop, which touch neither
  \<^verbatim>\<open>b->pos\<close> nor \<^verbatim>\<open>r->state\<close>.\<close>

definition rl_finish ::
  "nat \<Rightarrow> rl_exit \<Rightarrow> ngx_buf_t \<Rightarrow> ngx_http_request_t \<Rightarrow> int \<times> ngx_buf_t \<times> ngx_http_request_t" where
  "rl_finish p x b r =
     (case x of
        RL_invalid_method \<Rightarrow> (NGX_HTTP_PARSE_INVALID_METHOD, b, r)
      | RL_invalid_request \<Rightarrow> (NGX_HTTP_PARSE_INVALID_REQUEST, b, r)
      | RL_invalid_version \<Rightarrow> (NGX_HTTP_PARSE_INVALID_VERSION, b, r)
      | RL_done \<Rightarrow>
        (let b = b\<lparr>pos := p + 1\<rparr>;
             r = (if request_end r = None then r\<lparr>request_end := Some p\<rparr> else r);
             r = r\<lparr>http_version := ucast (http_major r) * 1000 + ucast (http_minor r)\<rparr>;
             r = r\<lparr>state := 0\<rparr>
         in if http_version r = 9 \<and> http_method r \<noteq> NGX_HTTP_GET
            then (NGX_HTTP_PARSE_INVALID_09_METHOD, b, r)
            else (NGX_OK, b, r)))"

definition ngx_http_parse_request_line ::
  "ngx_http_request_t \<Rightarrow> ngx_buf_t \<Rightarrow> int \<times> ngx_buf_t \<times> ngx_http_request_t" where
  "ngx_http_parse_request_line r b =
     run_parser rl_step state (\<lambda>n r. r\<lparr>state := n\<rparr>) rl_finish b r"

section \<open>The request line parser is resumable\<close>

lemma rl_method_code_cong:
  assumes "\<And>i. i < n \<Longrightarrow> xs ! i = ys ! i"
  shows "rl_method_code xs n old = rl_method_code ys n old"
proof -
  have eq: "xs ! 0 = ys ! 0" "xs ! 1 = ys ! 1" "xs ! 2 = ys ! 2" if "n \<ge> 3"
    using that by (auto intro: assms)
  have eq': "3 < n \<Longrightarrow> xs ! 3 = ys ! 3" "4 < n \<Longrightarrow> xs ! 4 = ys ! 4" "5 < n \<Longrightarrow> xs ! 5 = ys ! 5"
    "6 < n \<Longrightarrow> xs ! 6 = ys ! 6" "7 < n \<Longrightarrow> xs ! 7 = ys ! 7" "8 < n \<Longrightarrow> xs ! 8 = ys ! 8"
    by (auto intro: assms)
  consider "n = 3" | "n = 4" | "n = 5" | "n = 6" | "n = 7" | "n = 8" | "n = 9"
    | "n \<notin> {3, 4, 5, 6, 7, 8, 9}" by blast
  then show ?thesis
    by cases (use eq eq' in \<open>simp_all add: rl_method_code_def ngx_str_cmp_defs\<close>)
qed

lemma rl_method_code_append:
  "n < length m \<Longrightarrow> rl_method_code (m @ ys) n old = rl_method_code m n old"
  by (rule rl_method_code_cong) (simp add: nth_append_left)

lemma rl_switch_local:
  assumes "p < length xs"
  shows "rl_switch s (xs @ ys) p c r = rl_switch s xs p c r"
proof (cases "s = sw_method \<and> the (request_start r) < p")
  case True
  with assms have "rl_method_code (drop (the (request_start r)) (xs @ ys)) (p - the (request_start r)) old
      = rl_method_code (drop (the (request_start r)) xs) (p - the (request_start r)) old" for old
    using rl_method_code_append [of "p - the (request_start r)" "drop (the (request_start r)) xs" ys]
    by (simp add: diff_less_mono)
  with True show ?thesis by (simp add: rl_switch_def rl_method_def Let_def)
next
  case False
  then show ?thesis
    by (cases s) (simp_all add: rl_switch_def rl_method_def rl_method_code_def)
qed

lemma rl_switch_state:
  "rl_switch s buf p c (r\<lparr>state := t\<rparr>) =
     map_act id (\<lambda>r. r\<lparr>state := t\<rparr>) id (rl_switch s buf p c r)"
  by (cases s)
    (simp_all add: rl_switch_def ngx_step_defs Let_def if_distrib [of "map_act _ _ _"] state_upd_commute
      cong: if_cong split del: if_split)

text \<open>The codes that report consumed input are \<^verbatim>\<open>NGX_OK\<close>, \<^verbatim>\<open>NGX_AGAIN\<close> and the late
  complaint about an HTTP/0.9 method.\<close>

definition rl_consumes :: "int \<Rightarrow> bool" where
  "rl_consumes rc \<longleftrightarrow> rc = NGX_OK \<or> rc = NGX_AGAIN \<or> rc = NGX_HTTP_PARSE_INVALID_09_METHOD"

text \<open>On the other codes the old \<^verbatim>\<open>r->state\<close> stays in place and is not looked at again.\<close>

definition rl_erase :: "int \<Rightarrow> ngx_http_request_t \<Rightarrow> ngx_http_request_t" where
  "rl_erase rc r = (if rl_consumes rc then r else r\<lparr>state := 0\<rparr>)"

interpretation request_line: resumable_parser rl_step state "\<lambda>n r. r\<lparr>state := n\<rparr>" rl_finish
    rl_consumes rl_erase
proof
  show "rl_step (xs @ ys) p c s r = rl_step xs p c s r" if "p < length xs" for p xs ys c s r
    using that by (simp add: rl_step_def rl_switch_local split: option.split)
  show "rl_step m p c s (r\<lparr>state := t\<rparr>) = map_act id (\<lambda>r. r\<lparr>state := t\<rparr>) id (rl_step m p c s r)"
    for m p c s t r
    by (auto simp: rl_step_def rl_switch_state split: option.split act.split)
  show "observe rl_consumes rl_erase (rl_finish p x (b\<lparr>pos := n\<rparr>) (r\<lparr>state := s\<rparr>)) =
      observe rl_consumes rl_erase (rl_finish p x b r)" for p x b n r s
    by (cases x) (simp_all add: rl_finish_def observe_def rl_consumes_def rl_erase_def Let_def)
  show "rl_finish p x (buf_append b ys) r =
      map_prod id (map_prod (\<lambda>b'. buf_append b' ys) id) (rl_finish p x b r)" for p x b ys r
    by (cases x) (simp_all add: rl_finish_def buf_append_def Let_def)
  show "fst (rl_finish p x b r) \<noteq> NGX_AGAIN" for p x b r
    by (cases x) (simp_all add: rl_finish_def Let_def)
qed simp_all

end
