(* ===== verification/Ngx_Request_Line_Props.thy ===== *)
theory Ngx_Request_Line_Props
  imports Ngx_Request_Line
begin

text \<open>
  What an accepted request line guarantees: the invariant of the state machine of
  \<open>Ngx_Request_Line\<close>, its preservation by every case of the switch, and the properties of
  \<^verbatim>\<open>ngx_http_parse_request_line\<close> that follow from it. The invariant says, for each state, which
  pointers are set, how they are ordered, which bytes lie between them, and that the flags
  \<^verbatim>\<open>complex_uri\<close>, \<^verbatim>\<open>quoted_uri\<close> and \<^verbatim>\<open>empty_path_in_uri\<close> stay clear only while the
  path needs no normalisation.
\<close>

section \<open>The invariant\<close>

text \<open>A byte that may stand in a request URI: no control byte, no space, no DEL.\<close>

definition uri_byte :: "u_char \<Rightarrow> bool" where
  "uri_byte c \<longleftrightarrow> ch_sp < c \<and> c \<noteq> 0x7f"

text \<open>A path that is its own normal form: no escape, no fragment, no query, no empty segment and no
  segment that starts with a dot.\<close>

fun clean_path :: "u_char list \<Rightarrow> bool" where
  "clean_path [] = True"
| "clean_path [c] = (c \<notin> {ch_percent, ch_hash, ch_qmark})"
| "clean_path (c # d # cs) = (c \<notin> {ch_percent, ch_hash, ch_qmark} \<and>
     \<not> (c = ch_slash \<and> (d = ch_slash \<or> d = ch_dot)) \<and> clean_path (d # cs))"

lemma clean_path_snoc:
  "clean_path (xs @ [c]) \<longleftrightarrow> clean_path xs \<and> c \<notin> {ch_percent, ch_hash, ch_qmark} \<and>
     (xs \<noteq> [] \<longrightarrow> \<not> (last xs = ch_slash \<and> (c = ch_slash \<or> c = ch_dot)))"
  by (induction xs rule: clean_path.induct) auto

definition rl_method_inv :: "u_char list \<Rightarrow> ngx_http_request_t \<Rightarrow> nat \<Rightarrow> bool" where
  "rl_method_inv m r p \<longleftrightarrow>
     (\<exists>rs me. request_start r = Some rs \<and> method_end r = Some me \<and> rs \<le> me \<and> Suc me < p \<and>
        list_all rl_method_char (subbuf m rs (Suc me)) \<and> m ! Suc me = ch_sp)"

definition rl_slash_inv :: "u_char list \<Rightarrow> ngx_http_request_t \<Rightarrow> nat \<Rightarrow> bool" where
  "rl_slash_inv m r p \<longleftrightarrow>
     (\<exists>me se. method_end r = Some me \<and> schema_end r = Some se \<and> Suc me < se \<and> Suc se < p \<and>
        m ! Suc se = ch_slash)"

definition rl_no_uri :: "ngx_http_request_t \<Rightarrow> bool" where
  "rl_no_uri r \<longleftrightarrow> args_start r = None \<and> \<not> complex_uri r \<and> \<not> quoted_uri r \<and> \<not> empty_path_in_uri r"

definition rl_uri_inv :: "u_char list \<Rightarrow> ngx_http_request_t \<Rightarrow> nat \<Rightarrow> bool" where
  "rl_uri_inv m r q \<longleftrightarrow>
     (\<exists>us. uri_start r = Some us \<and> (\<forall>me. method_end r = Some me \<longrightarrow> Suc me < us) \<and> us < q \<and>
        list_all uri_byte (subbuf m us q) \<and>
        (if empty_path_in_uri r then m ! us = ch_qmark \<and> args_start r = Some (Suc us)
         else m ! us = ch_slash) \<and>
        (\<forall>a. args_start r = Some a \<longrightarrow> us < a \<and> a \<le> q \<and> m ! (a - 1) = ch_qmark) \<and>
        (\<not> complex_uri r \<and> \<not> quoted_uri r \<and> \<not> empty_path_in_uri r \<longrightarrow>
           clean_path (subbuf m us (case args_start r of Some a \<Rightarrow> a - 1 | None \<Rightarrow> q))))"

definition rl_inv :: "u_char list \<Rightarrow> nat \<Rightarrow> rl_state \<Rightarrow> ngx_http_request_t \<Rightarrow> bool" where
  "rl_inv m p s r \<longleftrightarrow>
     (case s of
        sw_start \<Rightarrow> rl_no_uri r
      | sw_method \<Rightarrow> rl_no_uri r \<and>
          (\<exists>rs. request_start r = Some rs \<and> rs < p \<and> list_all rl_method_char (subbuf m rs p))
      | sw_spaces_before_uri \<Rightarrow> rl_method_inv m r p \<and> rl_no_uri r
      | sw_schema \<Rightarrow> rl_method_inv m r p \<and> rl_no_uri r
      | sw_schema_slash \<Rightarrow> rl_method_inv m r p \<and> rl_no_uri r \<and>
           (\<exists>me. method_end r = Some me \<and> schema_end r = Some (p - 1) \<and> Suc me < p - 1)
      | sw_schema_slash_slash \<Rightarrow> rl_method_inv m r p \<and> rl_no_uri r \<and> rl_slash_inv m r p
      | sw_host_start \<Rightarrow> rl_method_inv m r p \<and> rl_no_uri r \<and> rl_slash_inv m r p
      | sw_host \<Rightarrow> rl_method_inv m r p \<and> rl_no_uri r \<and> rl_slash_inv m r p
      | sw_host_end \<Rightarrow> rl_method_inv m r p \<and> rl_no_uri r \<and> rl_slash_inv m r p
      | sw_host_ip_literal \<Rightarrow> rl_method_inv m r p \<and> rl_no_uri r \<and> rl_slash_inv m r p
      | sw_port \<Rightarrow> rl_method_inv m r p \<and> rl_no_uri r \<and> rl_slash_inv m r p
      | sw_after_slash_in_uri \<Rightarrow> rl_method_inv m r p \<and> rl_no_uri r \<and> rl_uri_inv m r p
      | sw_check_uri \<Rightarrow> rl_method_inv m r p \<and> rl_no_uri r \<and> rl_uri_inv m r p \<and>
           m ! (p - 1) \<noteq> ch_slash
      | sw_uri \<Rightarrow> rl_method_inv m r p \<and> \<not> rl_no_uri r \<and> rl_uri_inv m r p
      | _ \<Rightarrow> rl_method_inv m r p \<and>
           (\<exists>ue. uri_end r = Some ue \<and> ue < p \<and> rl_uri_inv m r ue))"


lemma rl_inv_frame [simp]:
  "rl_uri_inv m (r\<lparr>uri_ext := v_uri_ext\<rparr>) q = rl_uri_inv m r q"
  "rl_uri_inv m (r\<lparr>plus_in_uri := v_plus_in_uri\<rparr>) q = rl_uri_inv m r q"
  "rl_uri_inv m (r\<lparr>uri_end := v_uri_end\<rparr>) q = rl_uri_inv m r q"
  "rl_uri_inv m (r\<lparr>http_minor := v_http_minor\<rparr>) q = rl_uri_inv m r q"
  "rl_uri_inv m (r\<lparr>http_major := v_http_major\<rparr>) q = rl_uri_inv m r q"
  "rl_uri_inv m (r\<lparr>http_protocol := v_http_protocol\<rparr>) q = rl_uri_inv m r q"
  "rl_uri_inv m (r\<lparr>request_end := v_request_end\<rparr>) q = rl_uri_inv m r q"
  "rl_uri_inv m (r\<lparr>http_version := v_http_version\<rparr>) q = rl_uri_inv m r q"
  "rl_uri_inv m (r\<lparr>state := v_state\<rparr>) q = rl_uri_inv m r q"
  "rl_no_uri (r\<lparr>uri_ext := v_uri_ext\<rparr>) = rl_no_uri r"
  "rl_no_uri (r\<lparr>plus_in_uri := v_plus_in_uri\<rparr>) = rl_no_uri r"
  "rl_no_uri (r\<lparr>schema_start := v_schema_start\<rparr>) = rl_no_uri r"
  "rl_no_uri (r\<lparr>schema_end := v_schema_end\<rparr>) = rl_no_uri r"
  "rl_no_uri (r\<lparr>host_start := v_host_start\<rparr>) = rl_no_uri r"
  "rl_no_uri (r\<lparr>host_end := v_host_end\<rparr>) = rl_no_uri r"
  "rl_no_uri (r\<lparr>request_start := v_request_start\<rparr>) = rl_no_uri r"
  "rl_no_uri (r\<lparr>method_end := v_method_end\<rparr>) = rl_no_uri r"
  "rl_no_uri (r\<lparr>http_method := v_method\<rparr>) = rl_no_uri r"
  "rl_no_uri (r\<lparr>uri_start := v_uri_start\<rparr>) = rl_no_uri r"
  "rl_method_inv m (r\<lparr>uri_ext := v_uri_ext\<rparr>) q = rl_method_inv m r q"
  "rl_method_inv m (r\<lparr>plus_in_uri := v_plus_in_uri\<rparr>) q = rl_method_inv m r q"
  "rl_method_inv m (r\<lparr>schema_start := v_schema_start\<rparr>) q = rl_method_inv m r q"
  "rl_method_inv m (r\<lparr>schema_end := v_schema_end\<rparr>) q = rl_method_inv m r q"
  "rl_method_inv m (r\<lparr>host_start := v_host_start\<rparr>) q = rl_method_inv m r q"
  "rl_method_inv m (r\<lparr>host_end := v_host_end\<rparr>) q = rl_method_inv m r q"
  "rl_method_inv m (r\<lparr>http_method := v_method\<rparr>) q = rl_method_inv m r q"
  "rl_method_inv m (r\<lparr>uri_start := v_uri_start\<rparr>) q = rl_method_inv m r q"
  "rl_method_inv m (r\<lparr>uri_end := v_uri_end\<rparr>) q = rl_method_inv m r q"
  "rl_method_inv m (r\<lparr>args_start := v_args_start\<rparr>) q = rl_method_inv m r q"
  "rl_method_inv m (r\<lparr>complex_uri := v_complex_uri\<rparr>) q = rl_method_inv m r q"
  "rl_method_inv m (r\<lparr>quoted_uri := v_quoted_uri\<rparr>) q = rl_method_inv m r q"
  "rl_method_inv m (r\<lparr>empty_path_in_uri := v_empty_path_in_uri\<rparr>) q = rl_method_inv m r q"
  "rl_method_inv m (r\<lparr>http_minor := v_http_minor\<rparr>) q = rl_method_inv m r q"
  "rl_method_inv m (r\<lparr>http_major := v_http_major\<rparr>) q = rl_method_inv m r q"
  "rl_method_inv m (r\<lparr>http_protocol := v_http_protocol\<rparr>) q = rl_method_inv m r q"
  "rl_method_inv m (r\<lparr>request_end := v_request_end\<rparr>) q = rl_method_inv m r q"
  "rl_method_inv m (r\<lparr>http_version := v_http_version\<rparr>) q = rl_method_inv m r q"
  "rl_method_inv m (r\<lparr>state := v_state\<rparr>) q = rl_method_inv m r q"
  "rl_slash_inv m (r\<lparr>schema_start := v_schema_start\<rparr>) q = rl_slash_inv m r q"
  "rl_slash_inv m (r\<lparr>host_start := v_host_start\<rparr>) q = rl_slash_inv m r q"
  "rl_slash_inv m (r\<lparr>host_end := v_host_end\<rparr>) q = rl_slash_inv m r q"
  by (simp_all add: rl_uri_inv_def rl_no_uri_def rl_method_inv_def rl_slash_inv_def)

lemma rl_no_uri_set [simp]:
  "\<not> rl_no_uri (r\<lparr>complex_uri := True\<rparr>)" "\<not> rl_no_uri (r\<lparr>quoted_uri := True\<rparr>)"
  "\<not> rl_no_uri (r\<lparr>args_start := Some a\<rparr>)" "\<not> rl_no_uri (r\<lparr>empty_path_in_uri := True\<rparr>)"
  by (simp_all add: rl_no_uri_def)

lemma rl_method_inv_Suc: "rl_method_inv m r p \<Longrightarrow> rl_method_inv m r (Suc p)"
  by (auto simp: rl_method_inv_def)

lemma rl_slash_inv_Suc: "rl_slash_inv m r p \<Longrightarrow> rl_slash_inv m r (Suc p)"
  by (auto simp: rl_slash_inv_def)

text \<open>Reading one more byte of the path before any flag is set, and of the rest of the URI.\<close>

lemma rl_uri_extend_clean:
  assumes "rl_uri_inv m r p" "rl_no_uri r" "p < length m" "uri_byte (m ! p)"
    and "m ! p \<notin> {ch_percent, ch_hash, ch_qmark}"
    and "m ! (p - 1) \<noteq> ch_slash \<or> m ! p \<noteq> ch_slash \<and> m ! p \<noteq> ch_dot"
  shows "rl_uri_inv m r (Suc p)"
  using assms
  by (auto simp: rl_uri_inv_def rl_no_uri_def subbuf_Suc clean_path_snoc last_subbuf)

lemma rl_uri_extend:
  assumes "rl_uri_inv m r p" "\<not> rl_no_uri r" "p < length m" "uri_byte (m ! p)"
  shows "rl_uri_inv m r (Suc p)"
  using assms by (auto simp: rl_uri_inv_def rl_no_uri_def subbuf_Suc split: option.splits)

lemma rl_uri_extend_flag:
  assumes "rl_uri_inv m r p" "rl_no_uri r" "p < length m" "uri_byte (m ! p)"
  shows "rl_uri_inv m (r\<lparr>complex_uri := True\<rparr>) (Suc p)"
    and "rl_uri_inv m (r\<lparr>quoted_uri := True\<rparr>) (Suc p)"
    and "m ! p = ch_qmark \<Longrightarrow> rl_uri_inv m (r\<lparr>args_start := Some (Suc p)\<rparr>) (Suc p)"
  using assms by (auto simp: rl_uri_inv_def rl_no_uri_def subbuf_Suc split: option.splits)

lemma rl_uri_complex:
  "rl_uri_inv m r p \<Longrightarrow> rl_uri_inv m (r\<lparr>complex_uri := True\<rparr>) p"
  by (auto simp: rl_uri_inv_def)

lemma uri_byteI:
  "is_usual c \<Longrightarrow> uri_byte c"
  "\<not> c < 0x20 \<Longrightarrow> c \<noteq> ch_sp \<Longrightarrow> c \<noteq> 0x7f \<Longrightarrow> uri_byte c"
  "uri_byte ch_slash" "uri_byte ch_dot" "uri_byte ch_percent" "uri_byte ch_qmark" "uri_byte ch_hash"
  "uri_byte ch_plus"
  by (auto simp: uri_byte_def is_usual_iff)

lemma is_usualD: "is_usual c \<Longrightarrow> c \<notin> {ch_percent, ch_hash, ch_qmark, ch_slash, ch_dot, ch_plus}"
  by (auto simp: is_usual_iff)


lemma rl_uri_first:
  assumes "rl_method_inv m r p" "rl_no_uri r" "p < length m" "m ! p = ch_slash"
  shows "rl_uri_inv m (r\<lparr>uri_start := Some p\<rparr>) (Suc p)"
  using assms by (auto simp: rl_uri_inv_def rl_no_uri_def subbuf_Suc rl_method_inv_def uri_byteI)

lemma rl_uri_first_args:
  assumes "rl_method_inv m r p" "p < length m" "m ! p = ch_qmark"
  shows "rl_uri_inv m (r\<lparr>uri_start := Some p, args_start := Some (Suc p), empty_path_in_uri := True\<rparr>) (Suc p)"
  using assms by (auto simp: rl_uri_inv_def rl_no_uri_def subbuf_Suc rl_method_inv_def uri_byteI)

lemma rl_uri_only_slash:
  assumes "rl_slash_inv m r p" "rl_no_uri r" "p < length m" "se = the (schema_end r)"
  shows "rl_uri_inv m (r\<lparr>uri_start := Some (Suc se)\<rparr>) (Suc (Suc se))"
  using assms by (auto simp: rl_uri_inv_def rl_no_uri_def subbuf_Suc rl_slash_inv_def uri_byteI)

lemma rl_slash_inv_less: "rl_slash_inv m r p \<Longrightarrow> Suc (the (schema_end r)) < p"
  by (auto simp: rl_slash_inv_def)

lemma rl_uri_extend_usual:
  assumes "rl_uri_inv m r p" "rl_no_uri r" "p < length m" "is_usual (m ! p)"
  shows "rl_uri_inv m r (Suc p)" and "m ! p \<noteq> ch_slash"
  using assms is_usualD [OF assms(4)] by (auto intro!: rl_uri_extend_clean uri_byteI)

lemmas rl_inv_steps = rl_method_inv_Suc rl_slash_inv_Suc rl_uri_extend_clean rl_uri_extend
  rl_uri_extend_flag rl_uri_complex rl_uri_first rl_uri_first_args rl_uri_only_slash
  rl_uri_extend_usual rl_slash_inv_less

lemma rl_check_uri_inv:
  assumes "p < length m" "rl_inv m p sw_check_uri r" "rl_check_uri p (m ! p) r = Next s' r'"
  shows "rl_inv m (Suc p) s' r'"
  using assms
  by (auto simp: rl_check_uri_def rl_inv_def uri_byteI is_usualD rl_inv_steps split: if_splits)

lemma rl_after_slash_inv:
  assumes "p < length m" "rl_inv m p sw_after_slash_in_uri r" "rl_after_slash_in_uri p (m ! p) r = Next s' r'"
  shows "rl_inv m (Suc p) s' r'"
  using assms
  by (auto simp: rl_after_slash_in_uri_def rl_inv_def uri_byteI is_usualD rl_inv_steps split: if_splits)

lemma rl_uri_state_inv:
  assumes "p < length m" "rl_inv m p sw_uri r" "rl_uri p (m ! p) r = Next s' r'"
  shows "rl_inv m (Suc p) s' r'"
  using assms
  by (auto simp: rl_uri_def rl_inv_def uri_byteI is_usualD rl_inv_steps split: if_splits)

lemma rl_host_end_inv:
  assumes "p < length m" "rl_inv m p sw_host_end r" "rl_host_end p (m ! p) r = Next s' r'"
  shows "rl_inv m (Suc p) s' r'"
  using assms
  by (auto simp: rl_host_end_def Let_def rl_inv_def rl_inv_steps split: if_splits)

lemma rl_inv_host_states:
  "rl_inv m p sw_host r = rl_inv m p sw_host_end r"
  "rl_inv m p sw_host_start r = rl_inv m p sw_host_end r"
  "rl_inv m p sw_host_end (r\<lparr>host_start := x\<rparr>) = rl_inv m p sw_host_end r"
  by (simp_all add: rl_inv_def)

lemma rl_host_inv:
  assumes "p < length m" "rl_inv m p sw_host_end r" "rl_host p (m ! p) r = Next s' r'"
  shows "rl_inv m (Suc p) s' r'"
proof (cases "is_alpha (m ! p) \<or> is_digit (m ! p) \<or> m ! p = ch_dot \<or> m ! p = ch_dash")
  case True
  with assms(3) have "s' = sw_host" "r' = r" by (auto simp: rl_host_def split: if_splits)
  with assms(2) show ?thesis by (auto simp: rl_inv_def rl_inv_steps)
next
  case False
  with assms(3) have "rl_host_end p (m ! p) r = Next s' r'" by (auto simp: rl_host_def)
  with assms(1,2) show ?thesis by (rule rl_host_end_inv)
qed

lemma rl_host_start_inv:
  assumes "p < length m" "rl_inv m p sw_host_start r" "rl_host_start p (m ! p) r = Next s' r'"
  shows "rl_inv m (Suc p) s' r'"
proof (cases "m ! p = ch_lbrack")
  case True
  with assms show ?thesis by (auto simp: rl_host_start_def rl_inv_def rl_inv_steps)
next
  case False
  with assms(3) have "rl_host p (m ! p) (r\<lparr>host_start := Some p\<rparr>) = Next s' r'"
    by (simp add: rl_host_start_def)
  moreover from assms(2) have "rl_inv m p sw_host_end (r\<lparr>host_start := Some p\<rparr>)"
    by (simp add: rl_inv_host_states)
  ultimately show ?thesis using assms(1) by (blast intro: rl_host_inv)
qed

lemma rl_port_inv:
  assumes "p < length m" "rl_inv m p sw_port r" "rl_port p (m ! p) r = Next s' r'"
  shows "rl_inv m (Suc p) s' r'"
  using assms
  by (auto simp: rl_port_def rl_inv_def rl_inv_steps split: if_splits)

lemma rl_method_end_step:
  assumes "rs < p" "request_start r = Some rs" "list_all rl_method_char (subbuf m rs p)" "m ! p = ch_sp"
  shows "rl_method_inv m (r\<lparr>method_end := Some (p - Suc 0)\<rparr>) (Suc p)"
  using assms by (auto simp: rl_method_inv_def)

lemma rl_method_invD: "rl_method_inv m r p \<Longrightarrow> \<exists>me. method_end r = Some me \<and> Suc me < p"
  by (auto simp: rl_method_inv_def)

lemma rl_prefix_inv:
  assumes "p < length m" "rl_inv m p s r" "rl_switch s m p (m ! p) r = Next s' r'"
    and "s \<in> {sw_start, sw_method, sw_spaces_before_uri, sw_schema, sw_schema_slash, sw_schema_slash_slash,
      sw_host_ip_literal}"
  shows "rl_inv m (Suc p) s' r'"
  using assms(4,1-3)
  by (elim insertE emptyE)
    (auto simp: rl_switch_def ngx_step_defs Let_def rl_inv_def subbuf_Suc rl_inv_steps rl_slash_inv_def
      rl_method_end_step rl_method_invD intro: rl_method_inv_Suc split: if_splits)

lemma rl_tail_inv:
  assumes "rl_inv m p s r" "rl_switch s m p (m ! p) r = Next s' r'"
    and "s \<in> {sw_http_09, sw_http_H, sw_http_HT, sw_http_HTT, sw_http_HTTP, sw_first_major_digit,
      sw_major_digit, sw_first_minor_digit, sw_minor_digit, sw_spaces_after_digit, sw_almost_done}"
  shows "rl_inv m (Suc p) s' r'"
  using assms(3,1-2)
  by (elim insertE emptyE)
    (auto simp: rl_switch_def ngx_step_defs Let_def rl_inv_def rl_method_inv_Suc split: if_splits)

lemma rl_inv_keep:
  assumes "p < length m" "rl_inv m p s r" "rl_switch s m p (m ! p) r = Next s' r'"
  shows "rl_inv m (Suc p) s' r'"
  by (rule rl_state.exhaust [of s])
    (use assms in \<open>auto simp: rl_switch_def
      intro: rl_host_start_inv rl_host_end_inv rl_port_inv rl_after_slash_inv rl_check_uri_inv
        rl_uri_state_inv rl_host_inv [OF _ rl_inv_host_states(1) [THEN iffD1]] dest: rl_prefix_inv rl_tail_inv\<close>)

text \<open>The pieces that do not depend on the bytes: \<^verbatim>\<open>request_end\<close> stays \<^verbatim>\<open>NULL\<close> until the line is
  complete, and the version fields are what the state says they are.\<close>

lemma rl_switch_request_end:
  "rl_switch s m p c r = Next s' r' \<Longrightarrow> request_end r' = request_end r"
  by (cases s) (auto simp: rl_switch_def ngx_step_defs Let_def split: if_splits)

definition rl_version_ok :: "ngx_http_request_t \<Rightarrow> bool" where
  "rl_version_ok r \<longleftrightarrow> http_major r = 1 \<and> http_minor r \<le> 999"

definition rl_version_inv :: "rl_state \<Rightarrow> ngx_http_request_t \<Rightarrow> bool" where
  "rl_version_inv s r \<longleftrightarrow>
     (if s \<in> {sw_major_digit, sw_first_minor_digit} then http_major r = 1
      else if s \<in> {sw_minor_digit, sw_spaces_after_digit} then rl_version_ok r
      else if s = sw_almost_done then rl_version_ok r \<or> http_major r = 0 \<and> http_minor r = 9
      else http_major r = 0)"

lemma version_arith:
  "(v :: 16 word) \<le> 99 \<Longrightarrow> d \<le> 9 \<Longrightarrow> v * 10 + d \<le> 999"
  "(d :: 16 word) \<le> 9 \<Longrightarrow> d \<le> 999"
  "(d :: 16 word) \<le> 9 \<Longrightarrow> \<not> 10 + d \<le> 1"
  by (simp_all add: word_le_nat_alt unat_word_ariths)

lemma one_cases: "(d :: 16 word) \<le> 1 \<Longrightarrow> d = 0 \<or> d = 1"
  by (auto simp: word_le_nat_alt word_unat_eq_iff le_Suc_eq)

lemma rl_version_keep:
  assumes "rl_version_inv s r" "rl_switch s m p c r = Next s' r'"
  shows "rl_version_inv s' r'"
proof (cases "s = sw_first_major_digit")
  case True
  with assms have c: "ch_1 \<le> c" "c \<le> ch_9" "\<not> 1 < (ucast (c - ch_0) :: 16 word)"
    and out: "s' = sw_major_digit" "r' = r\<lparr>http_major := ucast (c - ch_0)\<rparr>"
    by (auto simp: rl_switch_def rl_first_major_digit_def Let_def not_less split: if_splits)
  from c have "is_digit c" "c \<noteq> ch_0" by (auto intro: order_trans [of _ ch_1])
  then have "ucast (c - ch_0) \<noteq> (0 :: 16 word)" by (simp add: digit_widened)
  with c(3) have "ucast (c - ch_0) = (1 :: 16 word)" using one_cases by (auto simp: not_less)
  with out show ?thesis by (simp add: rl_version_inv_def)
next
  case False
  with assms show ?thesis
    by (cases s)
      (auto simp: rl_switch_def ngx_step_defs Let_def rl_version_inv_def rl_version_ok_def
        not_less version_arith digit_widened split: if_splits)
qed

section \<open>Leaving the loop\<close>

definition rl_loop_inv :: "u_char list \<Rightarrow> nat \<Rightarrow> nat \<Rightarrow> ngx_http_request_t \<Rightarrow> bool" where
  "rl_loop_inv m p n r \<longleftrightarrow>
     (\<exists>s. rl_dec n = Some s \<and> rl_inv m p s r \<and> rl_version_inv s r \<and> request_end r = None)"

text \<open>What holds where the loop jumps to \<^verbatim>\<open>done\<close> at offset \<open>p\<close>.\<close>

definition rl_done_post :: "u_char list \<Rightarrow> nat \<Rightarrow> ngx_http_request_t \<Rightarrow> bool" where
  "rl_done_post m p r \<longleftrightarrow>
     m ! p = LF \<and> rl_method_inv m r (Suc p) \<and>
     (\<exists>ue. uri_end r = Some ue \<and> ue \<le> (case request_end r of None \<Rightarrow> p | Some e \<Rightarrow> e) \<and>
        rl_uri_inv m r ue) \<and>
     (\<forall>e. request_end r = Some e \<longrightarrow> e < p) \<and>
     (rl_version_ok r \<or> http_major r = 0 \<and> http_minor r = 9)"

lemma rl_switch_done:
  assumes "rl_inv m p s r" "rl_version_inv s r" "request_end r = None"
    and "rl_switch s m p (m ! p) r = Exit RL_done r'"
  shows "rl_done_post m p r'"
  using assms
  by (cases s)
    (auto simp: rl_switch_def ngx_step_defs Let_def rl_inv_def rl_version_inv_def rl_version_ok_def
      rl_done_post_def rl_method_inv_Suc split: if_splits)

lemma rl_loop:
  assumes "rl_loop_inv m p n r"
  shows "case scan rl_step m p n r of
      Exhausted q n' r' \<Rightarrow> rl_loop_inv m q n' r' \<and> length m \<le> q \<and> p \<le> q
    | Stopped q x r' \<Rightarrow> (x = RL_done \<longrightarrow> rl_done_post m q r') \<and> p \<le> q \<and> q < length m"
proof (rule scan_invariant)
  show "rl_loop_inv m (Suc p) n' r'"
    if "p < length m" "rl_loop_inv m p n r" "rl_step m p (m ! p) n r = Next n' r'" for p n r n' r'
    using that rl_inv_keep rl_version_keep rl_switch_request_end
    by (fastforce simp: rl_loop_inv_def rl_step_def split: act.splits)
  show "x = RL_done \<longrightarrow> rl_done_post m p r'"
    if "p < length m" "rl_loop_inv m p n r" "rl_step m p (m ! p) n r = Exit x r'" for p n r x r'
    using that rl_switch_done by (auto simp: rl_loop_inv_def rl_step_def split: act.splits)
qed (rule assms)

text \<open>A request before its first line: as allocated.\<close>

definition rl_initial :: "ngx_http_request_t \<Rightarrow> bool" where
  "rl_initial r \<longleftrightarrow> state r = 0 \<and> rl_no_uri r \<and> request_end r = None \<and> http_major r = 0"

lemma rl_initial_fresh: "rl_initial fresh_request"
  by (simp add: rl_initial_def fresh_request_def rl_no_uri_def)

lemma rl_initial_loop: "rl_initial r \<Longrightarrow> rl_loop_inv m p (state r) r"
  using rl_dec_enc [of sw_start]
  by (auto simp: rl_initial_def rl_loop_inv_def rl_inv_def rl_version_inv_def)

section \<open>The other pointers\<close>

text \<open>Scheme, authority, extension and protocol: as allocated, and what holds of them in each state.\<close>

definition rl_unset :: "ngx_http_request_t \<Rightarrow> bool" where
  "rl_unset r \<longleftrightarrow> schema_start r = None \<and> schema_end r = None \<and> host_start r = None \<and> host_end r = None \<and>
     uri_ext r = None \<and> http_protocol r = None"

lemma rl_unset_fresh: "rl_unset fresh_request"
  by (simp add: rl_unset_def fresh_request_def)

abbreviation rl_no_host :: "ngx_http_request_t \<Rightarrow> bool" where
  "rl_no_host r \<equiv> schema_start r = None \<and> schema_end r = None \<and> host_start r = None \<and> host_end r = None"

text \<open>A scheme whose colon is at \<open>se\<close>, and an authority behind it whose end is set.\<close>

definition rl_scheme :: "u_char list \<Rightarrow> ngx_http_request_t \<Rightarrow> nat \<Rightarrow> bool" where
  "rl_scheme m r se \<longleftrightarrow>
     (\<exists>me ss. method_end r = Some me \<and> schema_start r = Some ss \<and> schema_end r = Some se \<and> Suc me < ss \<and> ss < se \<and>
        m ! se = ch_colon)"

definition rl_authority :: "u_char list \<Rightarrow> ngx_http_request_t \<Rightarrow> nat \<Rightarrow> bool" where
  "rl_authority m r p \<longleftrightarrow>
     (\<exists>se. rl_scheme m r se \<and> host_start r = Some (se + 3) \<and> m ! (se + 1) = ch_slash \<and> m ! (se + 2) = ch_slash \<and> se + 3 \<le> p)"

definition rl_absolute :: "u_char list \<Rightarrow> ngx_http_request_t \<Rightarrow> nat \<Rightarrow> bool" where
  "rl_absolute m r p \<longleftrightarrow>
     (\<exists>he. host_end r = Some he \<and> rl_authority m r he \<and> he < p \<and> m ! he \<in> {ch_colon, ch_slash, ch_qmark, ch_sp})"

text \<open>The URI is behind the authority, or it is the first slash of the two in front of it.\<close>

definition rl_behind :: "u_char list \<Rightarrow> ngx_http_request_t \<Rightarrow> nat \<Rightarrow> bool" where
  "rl_behind m r p \<longleftrightarrow>
     rl_no_host r \<or> rl_absolute m r p \<and> (\<exists>he us. host_end r = Some he \<and> uri_start r = Some us \<and> he \<le> us)"

definition rl_target :: "u_char list \<Rightarrow> ngx_http_request_t \<Rightarrow> nat \<Rightarrow> bool" where
  "rl_target m r p \<longleftrightarrow>
     rl_behind m r p \<or>
     rl_absolute m r p \<and> (\<exists>se. schema_end r = Some se \<and> uri_start r = Some (se + 1) \<and> uri_end r = Some (se + 2))"

definition rl_ext :: "u_char list \<Rightarrow> ngx_http_request_t \<Rightarrow> nat \<Rightarrow> bool" where
  "rl_ext m r q \<longleftrightarrow>
     (\<forall>x. uri_ext r = Some x \<longrightarrow> (\<exists>us. uri_start r = Some us \<and> us < x \<and> x \<le> q \<and> m ! (x - 1) = ch_dot))"

text \<open>At least \<open>k\<close> bytes from \<^verbatim>\<open>HTTP/\<close> on are read.\<close>

definition rl_protocol :: "u_char list \<Rightarrow> ngx_http_request_t \<Rightarrow> nat \<Rightarrow> nat \<Rightarrow> bool" where
  "rl_protocol m r p k \<longleftrightarrow>
     (\<exists>ue h. uri_end r = Some ue \<and> http_protocol r = Some h \<and> ue < h \<and> h + k \<le> p \<and> (\<forall>i < min k 5. m ! (h + i) = str ''HTTP/'' ! i) \<and>
       (k < 5 \<longrightarrow> h + k = p))"

definition rl_ptrs :: "u_char list \<Rightarrow> nat \<Rightarrow> rl_state \<Rightarrow> ngx_http_request_t \<Rightarrow> bool" where
  "rl_ptrs m p s r \<longleftrightarrow>
     (case s of
        sw_start \<Rightarrow> rl_unset r
      | sw_method \<Rightarrow> rl_unset r
      | sw_spaces_before_uri \<Rightarrow> rl_unset r
      | sw_schema \<Rightarrow> uri_ext r = None \<and> http_protocol r = None \<and>
          (\<exists>me ss. method_end r = Some me \<and> schema_start r = Some ss \<and> Suc me < ss \<and> ss < p)
      | sw_schema_slash \<Rightarrow> uri_ext r = None \<and> http_protocol r = None \<and> rl_scheme m r (p - 1) \<and> 1 \<le> p
      | sw_schema_slash_slash \<Rightarrow> uri_ext r = None \<and> http_protocol r = None \<and> rl_scheme m r (p - 2) \<and> m ! (p - 1) = ch_slash \<and> 2 \<le> p
      | sw_host_start \<Rightarrow> uri_ext r = None \<and> http_protocol r = None \<and> rl_scheme m r (p - 3) \<and> m ! (p - 1) = ch_slash \<and> m ! (p - 2) = ch_slash \<and> 3 \<le> p
      | sw_host \<Rightarrow> uri_ext r = None \<and> http_protocol r = None \<and> rl_authority m r p
      | sw_host_end \<Rightarrow> uri_ext r = None \<and> http_protocol r = None \<and> rl_authority m r p
      | sw_host_ip_literal \<Rightarrow> uri_ext r = None \<and> http_protocol r = None \<and> rl_authority m r p
      | sw_port \<Rightarrow> uri_ext r = None \<and> http_protocol r = None \<and> rl_absolute m r p
      | sw_after_slash_in_uri \<Rightarrow> rl_behind m r p \<and> rl_ext m r p \<and> http_protocol r = None
      | sw_check_uri \<Rightarrow> rl_behind m r p \<and> rl_ext m r p \<and> http_protocol r = None
      | sw_uri \<Rightarrow> rl_behind m r p \<and> rl_ext m r p \<and> http_protocol r = None
      | _ \<Rightarrow> rl_target m r p \<and> rl_ext m r (the (uri_end r)) \<and>
          (case s of
             sw_http_09 \<Rightarrow> http_protocol r = None
           | sw_http_H \<Rightarrow> rl_protocol m r p 1
           | sw_http_HT \<Rightarrow> rl_protocol m r p 2
           | sw_http_HTT \<Rightarrow> rl_protocol m r p 3
           | sw_http_HTTP \<Rightarrow> rl_protocol m r p 4
           | sw_first_major_digit \<Rightarrow> rl_protocol m r p 5
           | sw_major_digit \<Rightarrow> rl_protocol m r p 6
           | sw_first_minor_digit \<Rightarrow> rl_protocol m r p 7
           | sw_minor_digit \<Rightarrow> rl_protocol m r p 8
           | sw_spaces_after_digit \<Rightarrow> rl_protocol m r p 9
           | _ \<Rightarrow> http_protocol r = None \<and> http_major r = 0 \<or> rl_protocol m r p 9 \<and> http_major r = 1))"

lemmas rl_ptr_defs = rl_unset_def rl_scheme_def rl_authority_def rl_absolute_def rl_behind_def rl_target_def rl_ext_def rl_protocol_def

lemma rl_target_Suc: "rl_target m r p \<Longrightarrow> rl_target m r (Suc p)"
  by (auto simp: rl_target_def rl_behind_def rl_absolute_def)

lemma rl_behind_Suc: "rl_behind m r p \<Longrightarrow> rl_behind m r (Suc p)"
  by (auto simp: rl_behind_def rl_absolute_def)

lemma rl_behind_target: "rl_behind m r p \<Longrightarrow> rl_target m (r\<lparr>uri_end := v\<rparr>) p"
  by (auto simp: rl_ptr_defs)

lemma rl_ext_Suc: "rl_ext m r p \<Longrightarrow> rl_ext m r (Suc p)"
  by (auto simp: rl_ext_def)

lemma rl_protocol_more:
  assumes "rl_protocol m r p k" "5 \<le> k"
  shows "rl_protocol m r (Suc p) k" "rl_protocol m r (Suc p) (Suc k)"
  using assms by (auto simp: rl_protocol_def min_def)

lemma rl_protocol_Suc:
  "rl_protocol m r p 5 \<Longrightarrow> rl_protocol m r (Suc p) 6" "rl_protocol m r p 6 \<Longrightarrow> rl_protocol m r (Suc p) 6"
  "rl_protocol m r p 6 \<Longrightarrow> rl_protocol m r (Suc p) 7" "rl_protocol m r p 7 \<Longrightarrow> rl_protocol m r (Suc p) 8"
  "rl_protocol m r p 8 \<Longrightarrow> rl_protocol m r (Suc p) 8" "rl_protocol m r p 8 \<Longrightarrow> rl_protocol m r (Suc p) 9"
  "rl_protocol m r p 9 \<Longrightarrow> rl_protocol m r (Suc p) 9"
  using rl_protocol_more [of m r p 5] rl_protocol_more [of m r p 6] rl_protocol_more [of m r p 7] rl_protocol_more [of m r p 8]
    rl_protocol_more [of m r p 9] by simp_all

lemma rl_target_frame [simp]:
  "rl_behind m (r\<lparr>uri_ext := v1\<rparr>) p = rl_behind m r p"
  "rl_behind m (r\<lparr>complex_uri := v2\<rparr>) p = rl_behind m r p"
  "rl_behind m (r\<lparr>quoted_uri := v2\<rparr>) p = rl_behind m r p"
  "rl_behind m (r\<lparr>plus_in_uri := v2\<rparr>) p = rl_behind m r p"
  "rl_behind m (r\<lparr>args_start := v1\<rparr>) p = rl_behind m r p"
  "rl_behind m (r\<lparr>http_minor := v3\<rparr>) p = rl_behind m r p"
  "rl_behind m (r\<lparr>http_major := v3\<rparr>) p = rl_behind m r p"
  "rl_behind m (r\<lparr>http_protocol := v1\<rparr>) p = rl_behind m r p"
  "rl_behind m (r\<lparr>request_end := v1\<rparr>) p = rl_behind m r p"
  "rl_target m (r\<lparr>uri_ext := v1\<rparr>) p = rl_target m r p"
  "rl_target m (r\<lparr>complex_uri := v2\<rparr>) p = rl_target m r p"
  "rl_target m (r\<lparr>quoted_uri := v2\<rparr>) p = rl_target m r p"
  "rl_target m (r\<lparr>plus_in_uri := v2\<rparr>) p = rl_target m r p"
  "rl_target m (r\<lparr>args_start := v1\<rparr>) p = rl_target m r p"
  "rl_target m (r\<lparr>http_minor := v3\<rparr>) p = rl_target m r p"
  "rl_target m (r\<lparr>http_major := v3\<rparr>) p = rl_target m r p"
  "rl_target m (r\<lparr>http_protocol := v1\<rparr>) p = rl_target m r p"
  "rl_target m (r\<lparr>request_end := v1\<rparr>) p = rl_target m r p"
  "rl_ext m (r\<lparr>complex_uri := v2\<rparr>) p = rl_ext m r p"
  "rl_ext m (r\<lparr>quoted_uri := v2\<rparr>) p = rl_ext m r p"
  "rl_ext m (r\<lparr>plus_in_uri := v2\<rparr>) p = rl_ext m r p"
  "rl_ext m (r\<lparr>args_start := v1\<rparr>) p = rl_ext m r p"
  "rl_ext m (r\<lparr>uri_end := v1\<rparr>) p = rl_ext m r p"
  "rl_ext m (r\<lparr>http_minor := v3\<rparr>) p = rl_ext m r p"
  "rl_ext m (r\<lparr>http_major := v3\<rparr>) p = rl_ext m r p"
  "rl_ext m (r\<lparr>http_protocol := v1\<rparr>) p = rl_ext m r p"
  "rl_ext m (r\<lparr>request_end := v1\<rparr>) p = rl_ext m r p"
  "rl_protocol m (r\<lparr>http_minor := v3\<rparr>) p k = rl_protocol m r p k"
  "rl_protocol m (r\<lparr>http_major := v3\<rparr>) p k = rl_protocol m r p k"
  "rl_protocol m (r\<lparr>request_end := v1\<rparr>) p k = rl_protocol m r p k"
  by (simp_all add: rl_ptr_defs)


lemmas rl_ptr_steps = rl_target_Suc rl_behind_Suc rl_behind_target rl_ext_Suc rl_protocol_Suc

lemma rl_ptrs_uri:
  assumes "rl_inv m p s r" "rl_ptrs m p s r" "rl_switch s m p (m ! p) r = Next s' r'" "rl_version_inv s r"
    and "s \<in> {sw_after_slash_in_uri, sw_check_uri, sw_uri}"
  shows "rl_ptrs m (Suc p) s' r'"
proof -
  have dot: "rl_ext m (r\<lparr>uri_ext := Some (Suc p)\<rparr>) (Suc p)" if "rl_uri_inv m r p" "m ! p = ch_dot"
    using that by (auto simp: rl_ext_def rl_uri_inv_def)
  have none: "rl_ext m (r\<lparr>uri_ext := None\<rparr>) q" for q by (simp add: rl_ext_def)
  show ?thesis
    using assms(5,1-4)
    by (elim insertE emptyE)
      (auto simp: rl_switch_def ngx_step_defs rl_version_inv_def rl_ptrs_def rl_inv_def rl_ptr_steps dot none split: if_splits)
qed

lemma rl_protocol_letter:
  assumes "rl_protocol m r p k" "k < 5" "m ! p = str ''HTTP/'' ! k"
  shows "rl_protocol m r (Suc p) (Suc k)"
  using assms by (auto simp: rl_protocol_def less_Suc_eq min_def)

lemma rl_protocol_letters:
  "m ! p = ch_T \<Longrightarrow> rl_protocol m r p (Suc 0) \<Longrightarrow> rl_protocol m r (Suc p) 2"
  "m ! p = ch_T \<Longrightarrow> rl_protocol m r p 2 \<Longrightarrow> rl_protocol m r (Suc p) 3"
  "m ! p = ch_P \<Longrightarrow> rl_protocol m r p 3 \<Longrightarrow> rl_protocol m r (Suc p) 4"
  "m ! p = ch_slash \<Longrightarrow> rl_protocol m r p 4 \<Longrightarrow> rl_protocol m r (Suc p) 5"
proof -
  have l: "str ''HTTP/'' ! 1 = ch_T" "str ''HTTP/'' ! 2 = ch_T" "str ''HTTP/'' ! 3 = ch_P" "str ''HTTP/'' ! 4 = ch_slash"
    by code_simp+
  show "m ! p = ch_T \<Longrightarrow> rl_protocol m r p (Suc 0) \<Longrightarrow> rl_protocol m r (Suc p) 2"
    using rl_protocol_letter [of m r p 1] l(1) by (simp add: numeral_2_eq_2)
  show "m ! p = ch_T \<Longrightarrow> rl_protocol m r p 2 \<Longrightarrow> rl_protocol m r (Suc p) 3"
    using rl_protocol_letter [of m r p 2] l(2) by simp
  show "m ! p = ch_P \<Longrightarrow> rl_protocol m r p 3 \<Longrightarrow> rl_protocol m r (Suc p) 4"
    using rl_protocol_letter [of m r p 3] l(3) by simp
  show "m ! p = ch_slash \<Longrightarrow> rl_protocol m r p 4 \<Longrightarrow> rl_protocol m r (Suc p) 5"
    using rl_protocol_letter [of m r p 4] l(4) by simp
qed

lemma rl_ptrs_tail:
  assumes "rl_inv m p s r" "rl_ptrs m p s r" "rl_switch s m p (m ! p) r = Next s' r'" "rl_version_inv s r"
    and "s \<in> {sw_http_09, sw_http_H, sw_http_HT, sw_http_HTT, sw_http_HTTP, sw_first_major_digit,
      sw_major_digit, sw_first_minor_digit, sw_minor_digit, sw_spaces_after_digit, sw_almost_done}"
  shows "rl_ptrs m (Suc p) s' r'"
proof -
  have start: "rl_protocol m (r\<lparr>http_protocol := Some p\<rparr>) (Suc p) (Suc 0)" if "m ! p = ch_H" "uri_end r = Some ue" "ue < p" for ue
    using that by (simp add: rl_protocol_def str_def)
  show ?thesis
    using assms(5,1-4)
    by (elim insertE emptyE)
      (auto simp: rl_switch_def ngx_step_defs Let_def rl_version_inv_def rl_version_ok_def rl_ptrs_def rl_inv_def rl_ptr_steps rl_protocol_letters intro: start split: if_splits)
qed

lemma rl_ptrs_prefix:
  assumes "rl_inv m p s r" "rl_ptrs m p s r" "rl_switch s m p (m ! p) r = Next s' r'"
    and "s \<in> {sw_start, sw_method, sw_spaces_before_uri, sw_schema, sw_schema_slash, sw_schema_slash_slash}"
  shows "rl_ptrs m (Suc p) s' r'"
  using assms(4,1-3)
  by (elim insertE emptyE)
    (auto simp: rl_switch_def ngx_step_defs Let_def rl_ptrs_def rl_inv_def rl_ptr_defs rl_method_inv_def split: if_splits)

lemma rl_ptrs_host_end:
  assumes "rl_authority m r p" "uri_ext r = None" "http_protocol r = None" "rl_host_end p (m ! p) r = Next s' r'"
  shows "rl_ptrs m (Suc p) s' r'"
  using assms by (auto simp: rl_host_end_def Let_def rl_ptrs_def rl_ptr_defs split: if_splits)

lemma rl_authority_Suc: "rl_authority m r p \<Longrightarrow> rl_authority m r (Suc p)"
  by (auto simp: rl_authority_def)

lemma rl_ptrs_host:
  assumes "rl_authority m r p" "uri_ext r = None" "http_protocol r = None" "rl_host p (m ! p) r = Next s' r'"
  shows "rl_ptrs m (Suc p) s' r'"
proof (cases "is_alpha (m ! p) \<or> is_digit (m ! p) \<or> m ! p = ch_dot \<or> m ! p = ch_dash")
  case True
  with assms(4) have "s' = sw_host" "r' = r" by (auto simp: rl_host_def split: if_splits)
  with assms show ?thesis by (simp add: rl_ptrs_def rl_authority_Suc)
next
  case False
  with assms(4) have "rl_host_end p (m ! p) r = Next s' r'" by (auto simp: rl_host_def)
  with assms show ?thesis by (intro rl_ptrs_host_end)
qed

lemma rl_ptrs_host_start:
  assumes "rl_ptrs m p sw_host_start r" "rl_host_start p (m ! p) r = Next s' r'"
  shows "rl_ptrs m (Suc p) s' r'"
proof -
  have at: "rl_authority m (r\<lparr>host_start := Some p\<rparr>) p"
  proof -
    from assms(1) have "rl_scheme m r (p - 3)" "m ! (p - 1) = ch_slash" "m ! (p - 2) = ch_slash" "3 \<le> p" by (auto simp: rl_ptrs_def)
    moreover from this have "p - 3 + 1 = p - 2" "p - 3 + 2 = p - 1" "p - 3 + 3 = p" by auto
    ultimately show ?thesis unfolding rl_authority_def by (intro exI [of _ "p - 3"]) (simp add: rl_scheme_def)
  qed
  show ?thesis
  proof (cases "m ! p = ch_lbrack")
    case True
    with assms at show ?thesis by (auto simp: rl_host_start_def rl_ptrs_def rl_authority_Suc)
  next
    case False
    with assms at show ?thesis by (intro rl_ptrs_host [OF at]) (auto simp: rl_host_start_def rl_ptrs_def)
  qed
qed

lemma rl_ptrs_port:
  assumes "rl_ptrs m p sw_port r" "rl_port p (m ! p) r = Next s' r'"
  shows "rl_ptrs m (Suc p) s' r'"
  using assms by (auto simp: rl_port_def rl_ptrs_def rl_ptr_defs split: if_splits)

lemma rl_ptrs_ip_literal:
  assumes "rl_ptrs m p sw_host_ip_literal r" "rl_host_ip_literal (m ! p) r = Next s' r'"
  shows "rl_ptrs m (Suc p) s' r'"
  using assms by (auto simp: rl_host_ip_literal_def rl_ptrs_def rl_authority_Suc split: if_splits)

lemma rl_ptrs_keep:
  assumes "rl_inv m p s r" "rl_ptrs m p s r" "rl_switch s m p (m ! p) r = Next s' r'" "rl_version_inv s r"
  shows "rl_ptrs m (Suc p) s' r'"
proof -
  consider "s \<in> {sw_start, sw_method, sw_spaces_before_uri, sw_schema, sw_schema_slash, sw_schema_slash_slash}"
    | "s \<in> {sw_after_slash_in_uri, sw_check_uri, sw_uri}"
    | "s = sw_host_start" | "s = sw_host" | "s = sw_host_end" | "s = sw_host_ip_literal" | "s = sw_port"
    | "s \<in> {sw_http_09, sw_http_H, sw_http_HT, sw_http_HTT, sw_http_HTTP, sw_first_major_digit,
      sw_major_digit, sw_first_minor_digit, sw_minor_digit, sw_spaces_after_digit, sw_almost_done}"
    by (cases s) auto
  then show ?thesis
  proof cases
    case 4
    with assms show ?thesis by (intro rl_ptrs_host) (auto simp: rl_switch_def rl_ptrs_def)
  next
    case 5
    with assms show ?thesis by (intro rl_ptrs_host_end) (auto simp: rl_switch_def rl_ptrs_def)
  qed (use assms rl_ptrs_prefix rl_ptrs_uri rl_ptrs_tail rl_ptrs_host_start rl_ptrs_ip_literal rl_ptrs_port in \<open>auto simp: rl_switch_def\<close>)
qed

text \<open>What holds of these pointers where the loop jumps to \<^verbatim>\<open>done\<close>.\<close>

definition rl_ptrs_post :: "u_char list \<Rightarrow> nat \<Rightarrow> ngx_http_request_t \<Rightarrow> bool" where
  "rl_ptrs_post m p r \<longleftrightarrow>
     (let re = (case request_end r of None \<Rightarrow> p | Some e \<Rightarrow> e)
      in rl_target m r (Suc re) \<and> rl_ext m r (the (uri_end r)) \<and>
         (http_protocol r = None \<and> http_major r = 0 \<or> http_major r = 1 \<and> rl_protocol m r re 8))"

lemma rl_ptrs_done:
  assumes "rl_inv m p s r" "rl_ptrs m p s r" "rl_version_inv s r" "request_end r = None"
    and "rl_switch s m p (m ! p) r = Exit RL_done r'"
  shows "rl_ptrs_post m p r'"
proof -
  have less: "rl_protocol m r p 9 \<Longrightarrow> rl_protocol m r p 8" "rl_protocol m r p 9 \<Longrightarrow> rl_protocol m r (p - Suc 0) 8" for r
    by (auto simp: rl_protocol_def)
  show ?thesis
    using assms
    by (cases s)
      (auto simp: rl_switch_def ngx_step_defs Let_def rl_ptrs_def rl_inv_def rl_version_inv_def rl_version_ok_def rl_ptrs_post_def
        rl_behind_target rl_target_Suc less split: if_splits)
qed

lemma rl_ptrs_loop:
  assumes "rl_loop_inv m p n r" "rl_unset r" "n = 0"
  shows "case scan rl_step m p n r of
      Exhausted q n' r' \<Rightarrow> True
    | Stopped q x r' \<Rightarrow> x = RL_done \<longrightarrow> rl_ptrs_post m q r'"
proof -
  define P where "P q k r' \<longleftrightarrow> rl_loop_inv m q k r' \<and> (\<forall>s. rl_dec k = Some s \<longrightarrow> rl_ptrs m q s r')" for q k r'
  have "rl_dec 0 = Some sw_start" using rl_dec_enc [of sw_start] unfolding rl_enc.simps .
  then have start: "P p n r" unfolding P_def using assms by (simp add: rl_ptrs_def)
  have "case scan rl_step m p n r of
      Exhausted q n' r' \<Rightarrow> P q n' r' \<and> length m \<le> q \<and> p \<le> q
    | Stopped q x r' \<Rightarrow> (x = RL_done \<longrightarrow> rl_ptrs_post m q r') \<and> p \<le> q \<and> q < length m"
  proof (rule scan_invariant)
    show "P (Suc p) n' r'" if "p < length m" "P p n r" "rl_step m p (m ! p) n r = Next n' r'" for p n r n' r'
    proof -
      from that(2) obtain s where s: "rl_dec n = Some s" "rl_inv m p s r" "rl_version_inv s r" "request_end r = None" "rl_ptrs m p s r"
        by (auto simp: P_def rl_loop_inv_def)
      with that(3) obtain s' where s': "rl_switch s m p (m ! p) r = Next s' r'" "n' = rl_enc s'"
        by (auto simp: rl_step_def split: act.splits)
      from rl_inv_keep [OF that(1) s(2) s'(1)] rl_version_keep [OF s(3) s'(1)] rl_switch_request_end [OF s'(1)]
        rl_ptrs_keep [OF s(2) s(5) s'(1) s(3)] s(4) s'(2)
      show ?thesis by (simp add: P_def rl_loop_inv_def)
    qed
    show "x = RL_done \<longrightarrow> rl_ptrs_post m p r'" if "p < length m" "P p n r" "rl_step m p (m ! p) n r = Exit x r'" for p n r x r'
      using that rl_ptrs_done by (auto simp: P_def rl_loop_inv_def rl_step_def split: act.splits)
  qed (rule start)
  then show ?thesis by (auto split: scan_result.splits)
qed


lemma subbuf_word:
  assumes "length w = n" "h + n \<le> length m" "\<And>i. i < n \<Longrightarrow> m ! (h + i) = w ! i"
  shows "subbuf m h (h + n) = w"
  using assms by (intro nth_equalityI) auto

lemma rl_target_post:
  assumes "rl_target m r (Suc re)" "method_end r = Some me" "uri_start r = Some us" "uri_end r = Some ue" "re < length m"
  shows "rl_no_host r \<or> (\<exists>ss se he. schema_start r = Some ss \<and> schema_end r = Some se \<and> host_start r = Some (se + 3) \<and>
      host_end r = Some he \<and> Suc me < ss \<and> ss < se \<and> subbuf m se (se + 3) = str ''://'' \<and> se + 3 \<le> he \<and> he \<le> re \<and>
      m ! he \<in> {ch_colon, ch_slash, ch_qmark, ch_sp} \<and> (he \<le> us \<or> us = se + 1 \<and> ue = se + 2))"
proof (cases "rl_no_host r")
  case False
  with assms(1) have abs: "rl_absolute m r (Suc re)" by (auto simp: rl_target_def rl_behind_def)
  then obtain se he ss where a: "schema_start r = Some ss" "schema_end r = Some se" "host_start r = Some (se + 3)" "host_end r = Some he"
    "Suc me < ss" "ss < se" "m ! se = ch_colon" "m ! (se + 1) = ch_slash" "m ! (se + 2) = ch_slash" "se + 3 \<le> he" "he \<le> re"
    "m ! he \<in> {ch_colon, ch_slash, ch_qmark, ch_sp}"
    using assms(2) by (auto simp: rl_absolute_def rl_authority_def rl_scheme_def)
  have "str ''://'' = [ch_colon, ch_slash, ch_slash]" by code_simp
  moreover have "m ! (se + i) = [ch_colon, ch_slash, ch_slash] ! i" if "i < 3" for i
    using that a(7-9) by (auto simp: less_Suc_eq eval_nat_numeral)
  ultimately have "subbuf m se (se + 3) = str ''://''"
    by (intro subbuf_word) (use a(10,11) assms(5) in simp_all)
  moreover have "he \<le> us \<or> us = se + 1 \<and> ue = se + 2"
    using assms(1,3,4) False a(2,4) by (auto simp: rl_target_def rl_behind_def)
  ultimately show ?thesis using a by auto
qed simp

lemma rl_protocol_post:
  assumes "rl_protocol m r re 8" "uri_end r = Some ue" "re \<le> length m"
  shows "\<exists>h. http_protocol r = Some h \<and> ue < h \<and> h + 8 \<le> re \<and> subbuf m h (h + 5) = str ''HTTP/''"
proof -
  from assms(1,2) obtain h where h: "http_protocol r = Some h" "ue < h" "h + 8 \<le> re" "\<forall>i < 5. m ! (h + i) = str ''HTTP/'' ! i"
    by (auto simp: rl_protocol_def)
  have "length (str ''HTTP/'') = 5" by code_simp
  then have "subbuf m h (h + 5) = str ''HTTP/''" by (rule subbuf_word) (use h(3,4) assms(3) in auto)
  with h show ?thesis by blast
qed

lemma version_code: "(v :: 16 word) \<le> 999 \<Longrightarrow> (1000 :: ngx_uint_t) + ucast v \<noteq> 9"
proof
  assume v: "v \<le> 999" and e: "(1000 :: ngx_uint_t) + ucast v = 9"
  have "unat (1000 + ucast v :: ngx_uint_t) = 9" unfolding e by simp
  moreover have "unat (ucast v :: ngx_uint_t) \<le> 999" using v by (simp add: word_le_nat_alt unsigned_ucast_eq take_bit_nat_eq_self)
  ultimately show False by (simp add: unat_word_ariths)
qed

text \<open>The answers other than \<^verbatim>\<open>NGX_AGAIN\<close> and the early returns come from a byte where
  \<open>rl_done_post\<close> holds.\<close>

lemma request_line_done:
  assumes "rl_initial r" and "ngx_http_parse_request_line r b = (NGX_OK, b', r')"
  obtains q r1 where "rl_done_post (mem b) q r1" and "q < length (mem b)" and "pos b \<le> q"
    and "b' = b\<lparr>pos := Suc q\<rparr>"
    and "r' = r1\<lparr>request_end := Some (case request_end r1 of None \<Rightarrow> q | Some e \<Rightarrow> e),
           http_version := ucast (http_major r1) * 1000 + ucast (http_minor r1), state := 0\<rparr>"
    and "http_version r' = 9 \<longrightarrow> http_method r' = NGX_HTTP_GET"
    and "rl_unset r \<longrightarrow> rl_ptrs_post (mem b) q r1"
proof (cases "scan rl_step (mem b) (pos b) (state r) r")
  case (Exhausted q n r1)
  with assms(2) show thesis by (simp add: ngx_http_parse_request_line_def run_parser_def)
next
  case (Stopped q x r1)
  from rl_loop [OF rl_initial_loop [OF assms(1), of "mem b" "pos b"]] Stopped
  have post: "x = RL_done \<longrightarrow> rl_done_post (mem b) q r1" "pos b \<le> q" "q < length (mem b)" by auto
  have ptrs: "x = RL_done \<longrightarrow> rl_ptrs_post (mem b) q r1" if "rl_unset r"
    using rl_ptrs_loop [OF rl_initial_loop [OF assms(1)] that, of "mem b" "pos b"] assms(1) Stopped by (simp add: rl_initial_def)
  from assms(2) Stopped have fin: "rl_finish q x b r1 = (NGX_OK, b', r')"
    by (simp add: ngx_http_parse_request_line_def run_parser_def)
  then have x: "x = RL_done" by (cases x) (auto simp: rl_finish_def)
  from fin x post ptrs show thesis
    by (intro that [of q r1]) (auto simp: rl_finish_def Let_def split: if_splits option.splits)
qed

section \<open>Properties of an accepted request line\<close>

text \<open>
  C3: when the request line of a new request is accepted, every pointer the parser has set lies inside the bytes received.
  Request start, method end, URI start, URI end, request end and the end of the consumed input are set and in this order; the
  method is made of capital letters, underscore and dash, the URI has no control byte, space or DEL, and the line ends with
  a line feed. A start of the arguments is behind a question mark of the URI, a start of the extension behind a dot of the
  URI. The protocol points at \<^verbatim>\<open>HTTP/\<close> behind the URI, and is \<^verbatim>\<open>NULL\<close> exactly for version 0.9. Scheme and host
  are all \<^verbatim>\<open>NULL\<close>, or the scheme follows the method, is followed by \<^verbatim>\<open>://\<close>, the host starts there and ends before
  a colon, slash, question mark or space, and the URI is behind the host or is the first of the two slashes.
\<close>

theorem request_line_pointers:
  assumes "rl_initial r" "rl_unset r" and "ngx_http_parse_request_line r b = (NGX_OK, b', r')"
  shows "\<exists>rs me us ue re.
      request_start r' = Some rs \<and> method_end r' = Some me \<and> uri_start r' = Some us \<and>
      uri_end r' = Some ue \<and> request_end r' = Some re \<and>
      rs \<le> me \<and> Suc me < us \<and> us < ue \<and> ue \<le> re \<and> re < pos b' \<and> pos b' \<le> length (mem b) \<and>
      mem b' = mem b \<and> mem b ! (pos b' - 1) = LF \<and>
      list_all rl_method_char (subbuf (mem b) rs (Suc me)) \<and>
      list_all uri_byte (subbuf (mem b) us ue) \<and>
      (\<forall>a. args_start r' = Some a \<longrightarrow> us < a \<and> a \<le> ue \<and> mem b ! (a - 1) = ch_qmark) \<and>
      (\<forall>x. uri_ext r' = Some x \<longrightarrow> us < x \<and> x \<le> ue \<and> mem b ! (x - 1) = ch_dot) \<and>
      (if http_version r' = 9 then http_protocol r' = None
       else \<exists>h. http_protocol r' = Some h \<and> ue < h \<and> h + 8 \<le> re \<and> subbuf (mem b) h (h + 5) = str ''HTTP/'') \<and>
      (schema_start r' = None \<and> schema_end r' = None \<and> host_start r' = None \<and> host_end r' = None \<or>
       (\<exists>ss se he. schema_start r' = Some ss \<and> schema_end r' = Some se \<and> host_start r' = Some (se + 3) \<and> host_end r' = Some he \<and>
          Suc me < ss \<and> ss < se \<and> subbuf (mem b) se (se + 3) = str ''://'' \<and>
          se + 3 \<le> he \<and> he \<le> re \<and> mem b ! he \<in> {ch_colon, ch_slash, ch_qmark, ch_sp} \<and>
          (he \<le> us \<or> us = se + 1 \<and> ue = se + 2)))"
proof -
  from assms(1,3) obtain q r1 where post: "rl_done_post (mem b) q r1" and q: "q < length (mem b)"
    and b': "b' = b\<lparr>pos := Suc q\<rparr>"
    and r': "r' = r1\<lparr>request_end := Some (case request_end r1 of None \<Rightarrow> q | Some e \<Rightarrow> e),
           http_version := ucast (http_major r1) * 1000 + ucast (http_minor r1), state := 0\<rparr>"
    and ptrs: "rl_unset r \<longrightarrow> rl_ptrs_post (mem b) q r1"
    by (rule request_line_done)
  define re where "re = (case request_end r1 of None \<Rightarrow> q | Some e \<Rightarrow> e)"
  have re: "re \<le> q" using post by (auto simp: rl_done_post_def re_def split: option.splits)
  from post obtain rs me us ue where main: "request_start r1 = Some rs" "method_end r1 = Some me" "uri_start r1 = Some us" "uri_end r1 = Some ue"
    "rs \<le> me" "Suc me < us" "us < ue" "ue \<le> re" "mem b ! q = LF" "list_all rl_method_char (subbuf (mem b) rs (Suc me))"
    "list_all uri_byte (subbuf (mem b) us ue)" "\<forall>a. args_start r1 = Some a \<longrightarrow> us < a \<and> a \<le> ue \<and> mem b ! (a - 1) = ch_qmark"
    "rl_version_ok r1 \<or> http_major r1 = 0 \<and> http_minor r1 = 9"
    unfolding rl_done_post_def rl_method_inv_def rl_uri_inv_def re_def by blast
  from ptrs assms(2) have post2: "rl_target (mem b) r1 (Suc re)" "rl_ext (mem b) r1 ue"
    "http_protocol r1 = None \<and> http_major r1 = 0 \<or> http_major r1 = 1 \<and> rl_protocol (mem b) r1 re 8"
    using main(4) by (auto simp: rl_ptrs_post_def re_def [symmetric] Let_def)
  have f: "request_start r' = Some rs" "method_end r' = Some me" "uri_start r' = Some us" "uri_end r' = Some ue" "request_end r' = Some re"
    "args_start r' = args_start r1" "uri_ext r' = uri_ext r1" "http_protocol r' = http_protocol r1" "schema_start r' = schema_start r1"
    "schema_end r' = schema_end r1" "host_start r' = host_start r1" "host_end r' = host_end r1" "pos b' = Suc q" "mem b' = mem b"
    by (simp_all add: r' b' re_def main(1-4))
  have ver: "http_version r' = 9 \<longleftrightarrow> http_major r1 = 0" using main(13) unfolding r' by (auto simp: rl_version_ok_def version_code)
  have proto: "if http_version r' = 9 then http_protocol r1 = None
      else \<exists>h. http_protocol r1 = Some h \<and> ue < h \<and> h + 8 \<le> re \<and> subbuf (mem b) h (h + 5) = str ''HTTP/''"
    unfolding ver using post2(3) rl_protocol_post [OF _ main(4), of "mem b" re] re q by auto
  have ext: "\<forall>x. uri_ext r1 = Some x \<longrightarrow> us < x \<and> x \<le> ue \<and> mem b ! (x - 1) = ch_dot"
    using post2(2) main(3) by (auto simp: rl_ext_def)
  have len: "re < length (mem b)" using re q by simp
  show ?thesis
    unfolding f
    by (intro exI [of _ rs] exI [of _ me] exI [of _ us] exI [of _ ue] exI [of _ re] conjI refl
        main(5-8,10-12) proto ext rl_target_post [OF post2(1) main(2-4) len]) (use re q main(9) in simp_all)
qed

text \<open>
  An accepted request line is HTTP/0.9 with method GET, or HTTP/1.x with a minor version of at
  most three digits.
\<close>

theorem request_line_version:
  assumes "rl_initial r" and "ngx_http_parse_request_line r b = (NGX_OK, b', r')"
  shows "http_version r' = 9 \<and> http_method r' = NGX_HTTP_GET \<or>
    1000 \<le> http_version r' \<and> http_version r' \<le> 1999"
proof -
  from assms obtain q r1 where post: "rl_done_post (mem b) q r1"
    and r': "r' = r1\<lparr>request_end := Some (case request_end r1 of None \<Rightarrow> q | Some e \<Rightarrow> e),
           http_version := ucast (http_major r1) * 1000 + ucast (http_minor r1), state := 0\<rparr>"
    and "http_version r' = 9 \<longrightarrow> http_method r' = NGX_HTTP_GET"
    by (rule request_line_done)
  have "1000 \<le> 1000 + (ucast v :: ngx_uint_t) \<and> 1000 + (ucast v :: ngx_uint_t) \<le> 1999"
    if "v \<le> 999" for v :: "16 word"
    using that by (simp add: word_le_nat_alt unat_word_ariths)
  with post r' \<open>http_version r' = 9 \<longrightarrow> _\<close> show ?thesis
    by (auto simp: rl_done_post_def rl_version_ok_def)
qed

text \<open>
  The flags that send a request through \<^verbatim>\<open>ngx_http_parse_complex_uri\<close> are complete: when the
  request line is accepted with none of them set, the path (up to the query, if there is one) is
  already in normal form.
\<close>

theorem request_line_clean_path:
  assumes "rl_initial r" and "ngx_http_parse_request_line r b = (NGX_OK, b', r')"
    and "\<not> complex_uri r'" and "\<not> quoted_uri r'" and "\<not> empty_path_in_uri r'"
  shows "\<exists>us ue. uri_start r' = Some us \<and> uri_end r' = Some ue \<and> mem b ! us = ch_slash \<and>
    clean_path (subbuf (mem b) us (case args_start r' of Some a \<Rightarrow> a - 1 | None \<Rightarrow> ue))"
proof -
  from assms(1,2) obtain q r1 where "rl_done_post (mem b) q r1"
    and "r' = r1\<lparr>request_end := Some (case request_end r1 of None \<Rightarrow> q | Some e \<Rightarrow> e),
           http_version := ucast (http_major r1) * 1000 + ucast (http_minor r1), state := 0\<rparr>"
    by (rule request_line_done)
  with assms(3-5) show ?thesis by (auto simp: rl_done_post_def rl_uri_inv_def)
qed

text \<open>
  C4: where the bytes are cut between calls does not matter: feeding the request line piece by piece
  gives the answer, the consumed position and the request (but for the saved state number) of one
  call on all the bytes.
\<close>

theorem request_line_feed:
  "observe rl_consumes rl_erase (feed (\<lambda>b r. ngx_http_parse_request_line r b) b r pieces) =
   observe rl_consumes rl_erase (ngx_http_parse_request_line r (buf_append b (concat pieces)))"
  using request_line.feed_eq_parse [of b r pieces]
  by (simp add: ngx_http_parse_request_line_def)

section \<open>Method names\<close>

definition method_table :: "(u_char list \<times> ngx_uint_t) list" where
  "method_table =
     [(str ''GET'', NGX_HTTP_GET), (str ''PUT'', NGX_HTTP_PUT), (str ''POST'', NGX_HTTP_POST),
      (str ''COPY'', NGX_HTTP_COPY), (str ''MOVE'', NGX_HTTP_MOVE), (str ''LOCK'', NGX_HTTP_LOCK),
      (str ''HEAD'', NGX_HTTP_HEAD), (str ''MKCOL'', NGX_HTTP_MKCOL), (str ''PATCH'', NGX_HTTP_PATCH),
      (str ''TRACE'', NGX_HTTP_TRACE), (str ''DELETE'', NGX_HTTP_DELETE),
      (str ''UNLOCK'', NGX_HTTP_UNLOCK), (str ''OPTIONS'', NGX_HTTP_OPTIONS),
      (str ''CONNECT'', NGX_HTTP_CONNECT), (str ''PROPFIND'', NGX_HTTP_PROPFIND),
      (str ''PROPPATCH'', NGX_HTTP_PROPPATCH)]"

lemma take_as_map: "n \<le> length m \<Longrightarrow> take n m = map ((!) m) [0..<n]"
  by (simp add: list_eq_iff_nth_eq)

lemma method_table_lengths:
  "length xs \<notin> {3, 4, 5, 6, 7, 8, 9} \<Longrightarrow> map_of method_table xs = None"
  unfolding map_of_eq_None_iff method_table_def by auto

lemma upt_literals:
  "[0..<3] = [0, 1, 2]" "[0..<4] = [0, 1, 2, 3]" "[0..<5] = [0, 1, 2, 3, 4]"
  "[0..<6] = [0, 1, 2, 3, 4, 5]" "[0..<7] = [0, 1, 2, 3, 4, 5, 6]"
  "[0..<8] = [0, 1, 2, 3, 4, 5, 6, 7]" "[0..<9] = [0, 1, 2, 3, 4, 5, 6, 7, 8]"
  by (simp_all add: upt_rec)

lemma rl_method_code_lookup:
  assumes "n \<le> length m"
  shows "rl_method_code m n old =
    (case map_of method_table (take n m) of Some c \<Rightarrow> c | None \<Rightarrow> old)"
proof -
  consider "n = 3" | "n = 4" | "n = 5" | "n = 6" | "n = 7" | "n = 8" | "n = 9"
    | "n \<notin> {3, 4, 5, 6, 7, 8, 9}" by blast
  then show ?thesis
  proof cases
    case 8
    then show ?thesis
      using assms by (simp add: rl_method_code_def method_table_lengths)
  qed (use assms in \<open>simp_all add: rl_method_code_def method_table_def take_as_map upt_literals
        ngx_str_cmp_defs\<close>)
qed

text \<open>
  the hand-unrolled comparisons recognise exactly the sixteen method names: the code found for a
  name is the one of a plain table lookup, and an unknown name leaves the old code in place.
\<close>

theorem method_code_table:
  assumes "n \<le> length m"
  shows "rl_method_code m n old =
    (case map_of method_table (take n m) of Some c \<Rightarrow> c | None \<Rightarrow> old)"
  using assms by (rule rl_method_code_lookup)

section \<open>A well-formed line is accepted\<close>

text \<open>One byte in a given state, as the loop sees it.\<close>

declare rl_enc.simps [simp del]

lemma rl_scan_step:
  assumes "p < length m" "rl_switch s m p (m ! p) r = Next s' r'"
  shows "scan rl_step m p (rl_enc s) r = scan rl_step m (Suc p) (rl_enc s') r'"
  using assms by (intro scan_Next) (simp_all add: rl_step_def)

lemma rl_scan_run:
  assumes "\<And>i. p \<le> i \<Longrightarrow> i < q \<Longrightarrow> rl_switch s m i (m ! i) r = Next s r" "p \<le> q" "q \<le> length m"
  shows "scan rl_step m p (rl_enc s) r = scan rl_step m q (rl_enc s) r"
  using assms by (intro scan_run) (auto simp: rl_step_def)

lemma uri_byteD:
  assumes "uri_byte c"
  shows "c \<noteq> ch_sp" "c \<noteq> CR" "c \<noteq> LF" "\<not> c < 0x20" "c \<noteq> 0x7f"
  using assms by (auto simp: uri_byte_def)

text \<open>The bytes of a URI: any are accepted, and only the notes on the URI change.\<close>

definition uri_notes :: "nat option \<Rightarrow> nat option \<Rightarrow> bool \<Rightarrow> bool \<Rightarrow> bool \<Rightarrow> ngx_http_request_t \<Rightarrow> ngx_http_request_t" where
  "uri_notes as ext cx qu pl r =
     r\<lparr>args_start := as, uri_ext := ext, complex_uri := cx, quoted_uri := qu, plus_in_uri := pl\<rparr>"

lemma uri_notes_id: "uri_notes (args_start r) (uri_ext r) (complex_uri r) (quoted_uri r) (plus_in_uri r) r = r"
  by (simp add: uri_notes_def)

definition uri_noted :: "ngx_http_request_t \<Rightarrow> ngx_http_request_t \<Rightarrow> bool" where
  "uri_noted r r' \<longleftrightarrow> r' = uri_notes (args_start r') (uri_ext r') (complex_uri r') (quoted_uri r') (plus_in_uri r') r"

lemma uri_noted_steps:
  "uri_noted r r" "uri_noted r (r\<lparr>args_start := a\<rparr>)" "uri_noted r (r\<lparr>uri_ext := a\<rparr>)" "uri_noted r (r\<lparr>complex_uri := f\<rparr>)"
  "uri_noted r (r\<lparr>quoted_uri := f\<rparr>)" "uri_noted r (r\<lparr>plus_in_uri := f\<rparr>)"
  by (simp_all add: uri_noted_def uri_notes_def)

lemma rl_uri_switch:
  assumes "uri_byte c" "s \<in> {sw_after_slash_in_uri, sw_check_uri, sw_uri}"
  shows "\<exists>s' r'. rl_switch s m p c r = Next s' r' \<and> s' \<in> {sw_after_slash_in_uri, sw_check_uri, sw_uri} \<and> uri_noted r r'"
  using assms(2) uri_byteD [OF assms(1)]
  by (elim insertE emptyE)
    (auto simp: rl_switch_def rl_after_slash_in_uri_def rl_check_uri_def rl_uri_def intro!: uri_noted_steps)

lemma uri_notes_twice: "uri_notes as ext cx qu pl (uri_notes as' ext' cx' qu' pl' r) = uri_notes as ext cx qu pl r"
  by (simp add: uri_notes_def)

lemma rl_uri_run:
  assumes "list_all uri_byte xs"
  shows "scan rl_step (pre @ xs @ post) (length pre) (rl_enc sw_uri) r =
    scan rl_step (pre @ xs @ post) (length pre + length xs) (rl_enc sw_uri) (r\<lparr>complex_uri := complex_uri r \<or> ch_hash \<in> set xs\<rparr>)"
  using assms
proof (induction xs arbitrary: pre r)
  case (Cons x xs)
  let ?m = "pre @ (x # xs) @ post" and ?r = "if x = ch_hash then r\<lparr>complex_uri := True\<rparr> else r"
  have "scan rl_step ?m (length pre) (rl_enc sw_uri) r = scan rl_step ?m (Suc (length pre)) (rl_enc sw_uri) ?r"
    by (rule rl_scan_step) (use Cons.prems uri_byteD [of x] is_usualD [of x] in \<open>auto simp: rl_switch_def rl_uri_def\<close>)
  also have "\<dots> = scan rl_step ?m (length pre + length (x # xs)) (rl_enc sw_uri) (?r\<lparr>complex_uri := complex_uri ?r \<or> ch_hash \<in> set xs\<rparr>)"
    using Cons.IH [of "pre @ [x]" ?r] Cons.prems by simp
  finally show ?case by (cases "x = ch_hash") simp_all
qed simp

text \<open>A path in its normal form and without a plus.\<close>

definition simple_path :: "u_char list \<Rightarrow> bool" where
  "simple_path a \<longleftrightarrow> clean_path (ch_slash # a) \<and> list_all uri_byte a \<and> ch_plus \<notin> set a"

lemma rl_simple_run:
  assumes "list_all uri_byte xs" "ch_plus \<notin> set xs" "clean_path (c # xs)" "s = (if c = ch_slash then sw_after_slash_in_uri else sw_check_uri)"
  shows "\<exists>s' ext. s' \<in> {sw_after_slash_in_uri, sw_check_uri} \<and> (list_all is_usual xs \<longrightarrow> ext = uri_ext r) \<and>
    scan rl_step (pre @ xs @ post) (length pre) (rl_enc s) r =
    scan rl_step (pre @ xs @ post) (length pre + length xs) (rl_enc s') (r\<lparr>uri_ext := ext\<rparr>)"
  using assms
proof (induction xs arbitrary: pre r c s)
  case Nil
  then show ?case by (intro exI [of _ s] exI [of _ "uri_ext r"]) simp
next
  case (Cons x xs)
  let ?m = "pre @ (x # xs) @ post" and ?s = "if x = ch_slash then sw_after_slash_in_uri else sw_check_uri"
  let ?r = "if x = ch_slash then r\<lparr>uri_ext := None\<rparr> else if x = ch_dot then r\<lparr>uri_ext := Some (length pre + 1)\<rparr> else r"
  have x: "x \<notin> {ch_percent, ch_hash, ch_qmark, ch_plus}" "c = ch_slash \<Longrightarrow> x \<noteq> ch_slash \<and> x \<noteq> ch_dot" "clean_path (x # xs)"
    using Cons.prems by (auto split: if_splits) (cases xs; simp)+
  have "rl_switch s ?m (length pre) x r = Next ?s ?r"
    using x Cons.prems uri_byteD [of x] is_usualD [of x]
    by (cases "c = ch_slash") (auto simp: rl_switch_def rl_after_slash_in_uri_def rl_check_uri_def)
  then have step: "scan rl_step ?m (length pre) (rl_enc s) r = scan rl_step ?m (Suc (length pre)) (rl_enc ?s) ?r"
    by (intro rl_scan_step) simp_all
  from Cons.IH [where c = x and s = ?s and pre = "pre @ [x]" and r = ?r] Cons.prems x(3) obtain s' ext where
    s': "s' \<in> {sw_after_slash_in_uri, sw_check_uri}" "list_all is_usual xs \<longrightarrow> ext = uri_ext ?r"
      "scan rl_step ?m (Suc (length pre)) (rl_enc ?s) ?r =
       scan rl_step ?m (Suc (length pre) + length xs) (rl_enc s') (?r\<lparr>uri_ext := ext\<rparr>)" by auto
  have "?r\<lparr>uri_ext := ext\<rparr> = r\<lparr>uri_ext := ext\<rparr>" by simp
  moreover have "list_all is_usual (x # xs) \<longrightarrow> ext = uri_ext r" using s'(2) is_usualD [of x] by auto
  ultimately show ?case unfolding step s'(3) using s'(1) by auto
qed

lemma rl_any_run:
  assumes "list_all uri_byte xs" "s \<in> {sw_after_slash_in_uri, sw_check_uri, sw_uri}"
  shows "\<exists>s' as ext cx qu pl. s' \<in> {sw_after_slash_in_uri, sw_check_uri, sw_uri} \<and>
    scan rl_step (pre @ xs @ post) (length pre) (rl_enc s) r =
    scan rl_step (pre @ xs @ post) (length pre + length xs) (rl_enc s') (uri_notes as ext cx qu pl r)"
  using assms
proof (induction xs arbitrary: pre r s)
  case Nil
  have "scan rl_step (pre @ [] @ post) (length pre) (rl_enc s) r =
    scan rl_step (pre @ [] @ post) (length pre + length []) (rl_enc s) (uri_notes (args_start r) (uri_ext r) (complex_uri r) (quoted_uri r) (plus_in_uri r) r)"
    by (simp add: uri_notes_id)
  then show ?case using Nil.prems(2) by blast
next
  case (Cons x xs)
  let ?m = "pre @ (x # xs) @ post"
  from rl_uri_switch [of x s ?m "length pre" r] Cons.prems obtain s1 r1 where
    s1: "rl_switch s ?m (length pre) x r = Next s1 r1" "s1 \<in> {sw_after_slash_in_uri, sw_check_uri, sw_uri}" "uri_noted r r1" by auto
  have step: "scan rl_step ?m (length pre) (rl_enc s) r = scan rl_step ?m (Suc (length pre)) (rl_enc s1) r1"
    using s1(1) by (intro rl_scan_step) simp_all
  have xs: "list_all uri_byte xs" using Cons.prems(1) by simp
  have m: "(pre @ [x]) @ xs @ post = ?m" "length (pre @ [x]) = Suc (length pre)" "length pre + length (x # xs) = Suc (length pre) + length xs"
    by simp_all
  from Cons.IH [OF xs s1(2), of "pre @ [x]" r1] obtain s' as ext cx qu pl where
    "s' \<in> {sw_after_slash_in_uri, sw_check_uri, sw_uri}" "scan rl_step ?m (Suc (length pre)) (rl_enc s1) r1 =
       scan rl_step ?m (Suc (length pre) + length xs) (rl_enc s') (uri_notes as ext cx qu pl r1)" unfolding m by blast
  moreover have "uri_notes as ext cx qu pl r1 = uri_notes as ext cx qu pl r" using s1(3) unfolding uri_noted_def by (metis uri_notes_twice)
  ultimately show ?case unfolding step m by metis
qed

lemma rl_simple_run_query:
  assumes "simple_path a" "list_all uri_byte q"
  shows "\<exists>ext. scan rl_step (pre @ (a @ ch_qmark # q) @ post) (length pre) (rl_enc sw_after_slash_in_uri) r =
    scan rl_step (pre @ (a @ ch_qmark # q) @ post) (length pre + length (a @ ch_qmark # q)) (rl_enc sw_uri)
      (uri_notes (Some (length pre + length a + 1)) ext (complex_uri r \<or> ch_hash \<in> set q) (quoted_uri r) (plus_in_uri r) r)"
proof -
  let ?m = "pre @ (a @ ch_qmark # q) @ post"
  from rl_simple_run [of a ch_slash sw_after_slash_in_uri r pre "(ch_qmark # q) @ post"] assms(1) obtain s' ext where
    s': "s' \<in> {sw_after_slash_in_uri, sw_check_uri}" "scan rl_step ?m (length pre) (rl_enc sw_after_slash_in_uri) r =
      scan rl_step ?m (length pre + length a) (rl_enc s') (r\<lparr>uri_ext := ext\<rparr>)" by (auto simp: simple_path_def)
  let ?r = "r\<lparr>uri_ext := ext, args_start := Some (length pre + length a + 1)\<rparr>"
  have step: "scan rl_step ?m (length pre + length a) (rl_enc s') (r\<lparr>uri_ext := ext\<rparr>) = scan rl_step ?m (Suc (length pre + length a)) (rl_enc sw_uri) ?r"
  proof (rule rl_scan_step)
    have "?m ! (length pre + length a) = ch_qmark" by (simp add: nth_append)
    then show "rl_switch s' ?m (length pre + length a) (?m ! (length pre + length a)) (r\<lparr>uri_ext := ext\<rparr>) = Next sw_uri ?r"
      using s'(1) is_usualD [of ch_qmark] by (auto simp: rl_switch_def rl_after_slash_in_uri_def rl_check_uri_def)
  qed simp
  have run: "scan rl_step ?m (Suc (length pre + length a)) (rl_enc sw_uri) ?r =
      scan rl_step ?m (length pre + length (a @ ch_qmark # q)) (rl_enc sw_uri) (?r\<lparr>complex_uri := complex_uri r \<or> ch_hash \<in> set q\<rparr>)"
    using rl_uri_run [OF assms(2), of "pre @ a @ [ch_qmark]" post ?r] by (simp add: ac_simps)
  have "?r\<lparr>complex_uri := complex_uri r \<or> ch_hash \<in> set q\<rparr> =
      uri_notes (Some (length pre + length a + 1)) ext (complex_uri r \<or> ch_hash \<in> set q) (quoted_uri r) (plus_in_uri r) r"
    by (simp add: uri_notes_def)
  then show ?thesis using s'(2) step run by metis
qed

text \<open>What the notes on a path are: none for a simple path, the start of the query behind one.\<close>

definition path_notes :: "nat \<Rightarrow> u_char list \<Rightarrow> ngx_http_request_t \<Rightarrow> nat option \<Rightarrow> nat option \<Rightarrow> bool \<Rightarrow> bool \<Rightarrow> bool \<Rightarrow> bool" where
  "path_notes p path r as ext cx qu pl \<longleftrightarrow>
     (simple_path path \<longrightarrow> as = args_start r \<and> cx = complex_uri r \<and> qu = quoted_uri r \<and> pl = plus_in_uri r \<and>
        (list_all is_usual path \<longrightarrow> ext = uri_ext r)) \<and>
     (\<forall>a q. path = a @ ch_qmark # q \<and> simple_path a \<longrightarrow>
        as = Some (p + length a + 1) \<and> cx = (complex_uri r \<or> ch_hash \<in> set q) \<and> qu = quoted_uri r \<and> pl = plus_in_uri r)"

lemma simple_path_no_query: "simple_path a \<Longrightarrow> ch_qmark \<notin> set a"
proof -
  have "ch_qmark \<notin> set xs" if "clean_path xs" for xs using that by (induction xs rule: clean_path.induct) auto
  then show "simple_path a \<Longrightarrow> ch_qmark \<notin> set a" unfolding simple_path_def by (metis list.set_intros(2))
qed

lemma rl_path_run:
  assumes "list_all uri_byte path"
  shows "\<exists>s' as ext cx qu pl. s' \<in> {sw_after_slash_in_uri, sw_check_uri, sw_uri} \<and> path_notes (length pre) path r as ext cx qu pl \<and>
    scan rl_step (pre @ path @ post) (length pre) (rl_enc sw_after_slash_in_uri) r =
    scan rl_step (pre @ path @ post) (length pre + length path) (rl_enc s') (uri_notes as ext cx qu pl r)"
proof -
  consider "simple_path path" | a q where "path = a @ ch_qmark # q" "simple_path a"
    | "\<not> simple_path path" "\<nexists>a q. path = a @ ch_qmark # q \<and> simple_path a" by blast
  then show ?thesis
  proof cases
    case 1
    with rl_simple_run [of path ch_slash sw_after_slash_in_uri r pre post] obtain s' ext where
      s': "s' \<in> {sw_after_slash_in_uri, sw_check_uri}" "list_all is_usual path \<longrightarrow> ext = uri_ext r"
        "scan rl_step (pre @ path @ post) (length pre) (rl_enc sw_after_slash_in_uri) r =
         scan rl_step (pre @ path @ post) (length pre + length path) (rl_enc s') (r\<lparr>uri_ext := ext\<rparr>)" by (auto simp: simple_path_def)
    have "r\<lparr>uri_ext := ext\<rparr> = uri_notes (args_start r) ext (complex_uri r) (quoted_uri r) (plus_in_uri r) r" by (simp add: uri_notes_def)
    moreover have "path_notes (length pre) path r (args_start r) ext (complex_uri r) (quoted_uri r) (plus_in_uri r)"
      using 1 s'(2) simple_path_no_query [OF 1] by (auto simp: path_notes_def)
    ultimately show ?thesis using s'(1,3) by (metis insertE insertI1 insertI2)
  next
    case 2
    have "list_all uri_byte q" using assms 2(1) by simp
    from rl_simple_run_query [OF 2(2) this, of pre post r] obtain ext where
      run: "scan rl_step (pre @ path @ post) (length pre) (rl_enc sw_after_slash_in_uri) r =
        scan rl_step (pre @ path @ post) (length pre + length path) (rl_enc sw_uri)
          (uri_notes (Some (length pre + length a + 1)) ext (complex_uri r \<or> ch_hash \<in> set q) (quoted_uri r) (plus_in_uri r) r)"
      unfolding 2(1) by blast
    have tw: "takeWhile (\<lambda>c. c \<noteq> ch_qmark) (u @ ch_qmark # w) = u" if "simple_path u" for u w
      using simple_path_no_query [OF that] by (induction u) auto
    have uniq: "a' = a \<and> q' = q" if "path = a' @ ch_qmark # q'" "simple_path a'" for a' q'
    proof -
      have "a' = a" using tw [OF 2(2), of q] tw [OF that(2), of q'] that(1) 2(1) by simp
      then show ?thesis using that(1) 2(1) by simp
    qed
    have "\<not> simple_path path" using simple_path_no_query [of path] 2(1) by auto
    then have "path_notes (length pre) path r (Some (length pre + length a + 1)) ext (complex_uri r \<or> ch_hash \<in> set q) (quoted_uri r) (plus_in_uri r)"
      (is "path_notes _ _ _ ?as _ ?cx _ _")
      unfolding path_notes_def
    proof (intro conjI allI impI)
      fix a' q'
      assume "path = a' @ ch_qmark # q' \<and> simple_path a'"
      then have "a' = a" "q' = q" using uniq [of a' q'] by auto
      then show "?as = Some (length pre + length a' + 1)" "?cx = (complex_uri r \<or> ch_hash \<in> set q')" by simp_all
    qed simp_all
    with run show ?thesis by blast
  next
    case 3
    from 3 have any: "path_notes (length pre) path r as ext cx qu pl" for as ext cx qu pl
      unfolding path_notes_def by blast
    have "sw_after_slash_in_uri \<in> {sw_after_slash_in_uri, sw_check_uri, sw_uri}" by simp
    from rl_any_run [OF assms this, of pre post r] obtain s' as ext cx qu pl where
      "s' \<in> {sw_after_slash_in_uri, sw_check_uri, sw_uri}" "scan rl_step (pre @ path @ post) (length pre) (rl_enc sw_after_slash_in_uri) r =
        scan rl_step (pre @ path @ post) (length pre + length path) (rl_enc s') (uri_notes as ext cx qu pl r)" by blast
    with any show ?thesis by blast
  qed
qed

definition request_line_text :: "u_char list \<Rightarrow> u_char list \<Rightarrow> u_char \<Rightarrow> u_char list" where
  "request_line_text ms path d = ms @ str '' /'' @ path @ str '' HTTP/1.'' @ [d, CR, LF]"

lemma request_line_text_nth:
  assumes "m = request_line_text ms path d"
  shows "i < length ms \<Longrightarrow> m ! i = ms ! i"
    and "m ! length ms = ch_sp" and "m ! (length ms + 1) = ch_slash"
    and "j < length path \<Longrightarrow> m ! (length ms + 2 + j) = path ! j"
    and "m ! (length ms + 2 + length path) = ch_sp"
    and "m ! (length ms + 3 + length path) = ch_H"
    and "m ! (length ms + 4 + length path) = ch_T"
    and "m ! (length ms + 5 + length path) = ch_T"
    and "m ! (length ms + 6 + length path) = ch_P"
    and "m ! (length ms + 7 + length path) = ch_slash"
    and "m ! (length ms + 8 + length path) = ch_1"
    and "m ! (length ms + 9 + length path) = ch_dot"
    and "m ! (length ms + 10 + length path) = d"
    and "m ! (length ms + 11 + length path) = CR"
    and "m ! (length ms + 12 + length path) = LF"
    and "length m = length ms + 13 + length path"
  using assms by (simp_all add: request_line_text_def nth_append)

lemma request_line_head:
  assumes m: "m = request_line_text ms path d" and ms: "ms \<noteq> []" "list_all rl_method_char ms"
  shows "scan rl_step m 0 (rl_enc sw_start) r =
    scan rl_step m (length ms + 2) (rl_enc sw_after_slash_in_uri)
      (r\<lparr>request_start := Some 0, method_end := Some (length ms - 1),
         http_method := rl_method_code m (length ms) (http_method r), uri_start := Some (length ms + 1)\<rparr>)"
proof -
  note nth = request_line_text_nth [OF m]
  have ms_char: "rl_method_char (m ! i)" "m ! i \<noteq> ch_sp" "m ! i \<noteq> CR" "m ! i \<noteq> LF" if "i < length ms" for i
    using ms(2) that by (auto simp: nth list_all_length)
  from ms have pos: "0 < length ms" by simp
  let ?r = "r\<lparr>request_start := Some 0\<rparr>"
  have "scan rl_step m 0 (rl_enc sw_start) r = scan rl_step m (Suc 0) (rl_enc sw_method) ?r"
    using ms_char [OF pos] nth(16) by (intro rl_scan_step) (simp_all add: rl_switch_def rl_start_def)
  also have "\<dots> = scan rl_step m (length ms) (rl_enc sw_method) ?r"
    using ms_char pos nth(16) by (intro rl_scan_run) (auto simp: rl_switch_def rl_method_def Suc_le_eq)
  also have "\<dots> = scan rl_step m (Suc (length ms)) (rl_enc sw_spaces_before_uri)
      (?r\<lparr>method_end := Some (length ms - 1), http_method := rl_method_code m (length ms) (http_method r)\<rparr>)"
    using nth(2,16) by (intro rl_scan_step) (simp_all add: rl_switch_def rl_method_def)
  also have "\<dots> = scan rl_step m (length ms + 2) (rl_enc sw_after_slash_in_uri)
      (?r\<lparr>method_end := Some (length ms - 1), http_method := rl_method_code m (length ms) (http_method r),
          uri_start := Some (length ms + 1)\<rparr>)"
    using nth(3,16) by (subst rl_scan_step) (simp_all add: rl_switch_def rl_spaces_before_uri_def)
  finally show ?thesis by simp
qed

lemma request_line_path:
  assumes m: "m = request_line_text ms path d" and path: "list_all uri_byte path"
  shows "\<exists>as ext cx qu pl. path_notes (length ms + 2) path r as ext cx qu pl \<and>
    scan rl_step m (length ms + 2) (rl_enc sw_after_slash_in_uri) r =
    scan rl_step m (length ms + 3 + length path) (rl_enc sw_http_09)
      ((uri_notes as ext cx qu pl r)\<lparr>uri_end := Some (length ms + 2 + length path)\<rparr>)"
proof -
  note nth = request_line_text_nth [OF m]
  have "m = (ms @ str '' /'') @ path @ (str '' HTTP/1.'' @ [d, CR, LF])" by (simp add: m request_line_text_def)
  moreover have "length (ms @ str '' /'') = length ms + 2" by simp
  ultimately obtain s' as ext cx qu pl where s': "s' \<in> {sw_after_slash_in_uri, sw_check_uri, sw_uri}"
    "path_notes (length ms + 2) path r as ext cx qu pl"
    "scan rl_step m (length ms + 2) (rl_enc sw_after_slash_in_uri) r =
     scan rl_step m (length ms + 2 + length path) (rl_enc s') (uri_notes as ext cx qu pl r)"
    using rl_path_run [OF path, of "ms @ str '' /''" r "str '' HTTP/1.'' @ [d, CR, LF]"] by metis
  have "scan rl_step m (length ms + 2 + length path) (rl_enc s') (uri_notes as ext cx qu pl r) =
      scan rl_step m (Suc (length ms + 2 + length path)) (rl_enc sw_http_09) ((uri_notes as ext cx qu pl r)\<lparr>uri_end := Some (length ms + 2 + length path)\<rparr>)"
    by (rule rl_scan_step)
      (use s'(1) nth(5,16) in \<open>auto simp: rl_switch_def rl_after_slash_in_uri_def rl_check_uri_def rl_uri_def\<close>)
  moreover have "Suc (length ms + 2 + length path) = length ms + 3 + length path" by simp
  ultimately show ?thesis using s'(2,3) by metis
qed

lemma request_line_tail:
  assumes m: "m = request_line_text ms path d" and d: "is_digit d"
  shows "scan rl_step m (length ms + 3 + length path) (rl_enc sw_http_09) r =
    Stopped (length ms + 12 + length path) RL_done
      (r\<lparr>http_protocol := Some (length ms + 3 + length path), http_major := 1,
         http_minor := ucast (d - ch_0), request_end := Some (length ms + 11 + length path)\<rparr>)"
proof -
  note nth = request_line_text_nth [OF m]
  let ?p = "\<lambda>i. length ms + i + length path"
  have step: "scan rl_step m (?p i) (rl_enc s) r = scan rl_step m (?p (Suc i)) (rl_enc s') r'"
    if "i < 13" "rl_switch s m (?p i) (m ! ?p i) r = Next s' r'" for i s s' r r'
    using that nth(16) by (subst rl_scan_step) simp_all
  let ?h = "r\<lparr>http_protocol := Some (?p 3)\<rparr>"
  let ?v = "?h\<lparr>http_major := 1, http_minor := ucast (d - ch_0)\<rparr>"
  have "scan rl_step m (?p 3) (rl_enc sw_http_09) r = scan rl_step m (?p 4) (rl_enc sw_http_H) ?h"
    using nth(6) by (subst step) (simp_all add: rl_switch_def rl_http_09_def)
  also have "\<dots> = scan rl_step m (?p 5) (rl_enc sw_http_HT) ?h"
    using nth(7) by (subst step) (simp_all add: rl_switch_def rl_expect_def)
  also have "\<dots> = scan rl_step m (?p 6) (rl_enc sw_http_HTT) ?h"
    using nth(8) by (subst step) (simp_all add: rl_switch_def rl_expect_def)
  also have "\<dots> = scan rl_step m (?p 7) (rl_enc sw_http_HTTP) ?h"
    using nth(9) by (subst step) (simp_all add: rl_switch_def rl_expect_def)
  also have "\<dots> = scan rl_step m (?p 8) (rl_enc sw_first_major_digit) ?h"
    using nth(10) by (subst step) (simp_all add: rl_switch_def rl_expect_def)
  also have "\<dots> = scan rl_step m (?p 9) (rl_enc sw_major_digit) (?h\<lparr>http_major := 1\<rparr>)"
    using nth(11) by (subst step) (simp_all add: rl_switch_def rl_first_major_digit_def)
  also have "\<dots> = scan rl_step m (?p 10) (rl_enc sw_first_minor_digit) (?h\<lparr>http_major := 1\<rparr>)"
    using nth(12) by (subst step) (simp_all add: rl_switch_def rl_major_digit_def)
  also have "\<dots> = scan rl_step m (?p 11) (rl_enc sw_minor_digit) ?v"
    using nth(13) d by (subst step) (simp_all add: rl_switch_def rl_first_minor_digit_def not_less)
  also have "\<dots> = scan rl_step m (?p 12) (rl_enc sw_almost_done) ?v"
    using nth(14) by (subst step) (simp_all add: rl_switch_def rl_minor_digit_def)
  also have "\<dots> = Stopped (?p 12) RL_done (?v\<lparr>request_end := Some (?p 11)\<rparr>)"
    using nth(15,16)
    by (intro scan_Exit) (simp_all add: rl_step_def rl_switch_def rl_almost_done_def)
  finally show ?thesis by simp
qed

text \<open>
  C40: a request line written as method, space, slash, path, space, \<^verbatim>\<open>HTTP/1.\<close> and a digit, CR and LF, with any
  method token and any path of bytes other than control bytes, space and DEL (slashes, dots, escapes, a query included), is
  accepted in full, and the request afterwards says exactly what was written: where method, URI and protocol lie, which
  method it is, and the version. The notes on the path are exact for a path in normal form without a plus sign (no flag is
  set, there is no query) and for such a path with a query (the query starts behind the question mark, and only a \<^verbatim>\<open>#\<close>
  in it asks for the slow parser).
\<close>

theorem request_line_accepts:
  assumes ms: "ms \<noteq> []" "list_all rl_method_char ms" and path: "list_all uri_byte path"
    and d: "is_digit d" and r: "rl_initial r"
    and b: "b = \<lparr>mem = request_line_text ms path d, pos = 0\<rparr>"
  shows "\<exists>as ext cx qu pl.
    ngx_http_parse_request_line r b =
      (NGX_OK, b\<lparr>pos := length (mem b)\<rparr>,
       r\<lparr>request_start := Some 0, method_end := Some (length ms - 1),
         http_method := (case map_of method_table ms of Some c \<Rightarrow> c | None \<Rightarrow> http_method r),
         uri_start := Some (length ms + 1), uri_end := Some (length ms + 2 + length path),
         http_protocol := Some (length ms + 3 + length path), http_major := 1,
         http_minor := ucast (d - ch_0), request_end := Some (length ms + 11 + length path),
         http_version := 1000 + ucast (d - ch_0), state := 0,
         args_start := as, uri_ext := ext, complex_uri := cx, quoted_uri := qu, plus_in_uri := pl\<rparr>) \<and>
    (simple_path path \<longrightarrow> as = None \<and> \<not> cx \<and> \<not> qu \<and> pl = plus_in_uri r \<and> (list_all is_usual path \<longrightarrow> ext = uri_ext r)) \<and>
    (\<forall>a q. path = a @ ch_qmark # q \<and> simple_path a \<longrightarrow>
      as = Some (length ms + 3 + length a) \<and> cx = (ch_hash \<in> set q) \<and> \<not> qu \<and> pl = plus_in_uri r)"
proof -
  let ?m = "request_line_text ms path d"
  have code: "rl_method_code ?m (length ms) old =
      (case map_of method_table ms of Some c \<Rightarrow> c | None \<Rightarrow> old)" for old
    using rl_method_code_lookup [of "length ms" ?m old] by (simp add: request_line_text_def)
  have nine: "(1000 :: ngx_uint_t) + ucast (d - ch_0) \<noteq> 9"
    using unat_digit(4) [OF d] by (auto simp: word_unat_eq_iff unat_word_ariths)
  let ?r = "r\<lparr>request_start := Some 0, method_end := Some (length ms - 1),
      http_method := rl_method_code ?m (length ms) (http_method r), uri_start := Some (length ms + 1)\<rparr>"
  from request_line_path [OF refl path, where ms = ms and d = d and r = ?r] obtain as ext cx qu pl where
    noted: "path_notes (length ms + 2) path ?r as ext cx qu pl" and
    run: "scan rl_step ?m (length ms + 2) (rl_enc sw_after_slash_in_uri) ?r =
      scan rl_step ?m (length ms + 3 + length path) (rl_enc sw_http_09)
        ((uri_notes as ext cx qu pl ?r)\<lparr>uri_end := Some (length ms + 2 + length path)\<rparr>)" by blast
  show ?thesis
  proof (rule exI [of _ as], rule exI [of _ ext], rule exI [of _ cx], rule exI [of _ qu], rule exI [of _ pl], intro conjI)
    show "simple_path path \<longrightarrow> as = None \<and> \<not> cx \<and> \<not> qu \<and> pl = plus_in_uri r \<and> (list_all is_usual path \<longrightarrow> ext = uri_ext r)"
      using noted r by (simp add: path_notes_def rl_initial_def rl_no_uri_def)
    show "\<forall>a q. path = a @ ch_qmark # q \<and> simple_path a \<longrightarrow>
        as = Some (length ms + 3 + length a) \<and> cx = (ch_hash \<in> set q) \<and> \<not> qu \<and> pl = plus_in_uri r"
      using noted r by (simp add: path_notes_def rl_initial_def rl_no_uri_def numeral_3_eq_3) blast
  qed (use r nine request_line_head [OF refl ms, of path d r] run request_line_tail [OF refl d] in
      \<open>simp add: ngx_http_parse_request_line_def run_parser_def b rl_initial_def rl_finish_def code rl_enc.simps(1)
        request_line_text_nth(16) [OF refl] uri_notes_def\<close>)
qed

section \<open>Witnesses\<close>

definition sample_line :: ngx_buf_t where
  "sample_line = \<lparr>mem = str ''GET /a.b?q HTTP/1.1'' @ [CR, LF], pos = 0\<rparr>"

lemma sample_line_ok:
  obtains b' r' where "ngx_http_parse_request_line fresh_request sample_line = (NGX_OK, b', r')"
    and "\<not> complex_uri r'" and "\<not> quoted_uri r'" and "\<not> empty_path_in_uri r'"
proof -
  have "fst (ngx_http_parse_request_line fresh_request sample_line) = NGX_OK"
    and "\<not> complex_uri (snd (snd (ngx_http_parse_request_line fresh_request sample_line)))"
    and "\<not> quoted_uri (snd (snd (ngx_http_parse_request_line fresh_request sample_line)))"
    and "\<not> empty_path_in_uri (snd (snd (ngx_http_parse_request_line fresh_request sample_line)))"
    by code_simp+
  then show thesis
    using that by (cases "ngx_http_parse_request_line fresh_request sample_line") auto
qed

theorem request_line_pointers_witness:
  "\<exists>b' r'. ngx_http_parse_request_line fresh_request sample_line = (NGX_OK, b', r') \<and>
     (\<exists>rs us ue. request_start r' = Some rs \<and> uri_start r' = Some us \<and> uri_end r' = Some ue \<and>
        rs < us \<and> us < ue \<and> ue < pos b' \<and> list_all uri_byte (subbuf (mem sample_line) us ue))"
proof -
  obtain b' r' where ok: "ngx_http_parse_request_line fresh_request sample_line = (NGX_OK, b', r')"
    by (rule sample_line_ok)
  from request_line_pointers [OF rl_initial_fresh rl_unset_fresh ok] show ?thesis
    by (intro exI [of _ b'] exI [of _ r'] conjI ok) fastforce
qed

theorem request_line_version_witness:
  "\<exists>b' r'. ngx_http_parse_request_line fresh_request sample_line = (NGX_OK, b', r') \<and>
     (http_version r' = 9 \<and> http_method r' = NGX_HTTP_GET \<or>
      1000 \<le> http_version r' \<and> http_version r' \<le> 1999)"
proof -
  obtain b' r' where ok: "ngx_http_parse_request_line fresh_request sample_line = (NGX_OK, b', r')"
    by (rule sample_line_ok)
  from request_line_version [OF rl_initial_fresh ok] ok show ?thesis by blast
qed

theorem request_line_clean_path_witness:
  "\<exists>b' r' us ue. ngx_http_parse_request_line fresh_request sample_line = (NGX_OK, b', r') \<and>
     uri_start r' = Some us \<and> uri_end r' = Some ue \<and>
     clean_path (subbuf (mem sample_line) us (case args_start r' of Some a \<Rightarrow> a - 1 | None \<Rightarrow> ue))"
proof -
  obtain b' r' where ok: "ngx_http_parse_request_line fresh_request sample_line = (NGX_OK, b', r')"
    "\<not> complex_uri r'" "\<not> quoted_uri r'" "\<not> empty_path_in_uri r'"
    by (rule sample_line_ok)
  from request_line_clean_path [OF rl_initial_fresh ok] ok(1) show ?thesis by blast
qed

theorem method_code_table_witness:
  "rl_method_code (str ''DELETE '') 6 0 = NGX_HTTP_DELETE"
  using method_code_table [of 6 "str ''DELETE ''" 0] by (simp add: method_table_def)

theorem request_line_accepts_witness:
  "fst (ngx_http_parse_request_line fresh_request
     \<lparr>mem = request_line_text (str ''PATCH'') (str ''a/b.html?x=1'') ch_1, pos = 0\<rparr>) = NGX_OK"
proof -
  have "list_all uri_byte (str ''a/b.html?x=1'')" "list_all rl_method_char (str ''PATCH'')" "str ''PATCH'' \<noteq> []" by code_simp+
  from request_line_accepts [OF this(3,2,1) _ rl_initial_fresh refl, of ch_1] show ?thesis by auto
qed

section \<open>The two builds of the method comparison\<close>

lemma pack32_bytes:
  "ucast (pack32 c0 c1 c2 c3) = c0" "ucast (drop_bit 8 (pack32 c0 c1 c2 c3)) = c1"
  "ucast (drop_bit 16 (pack32 c0 c1 c2 c3)) = c2" "ucast (drop_bit 24 (pack32 c0 c1 c2 c3)) = c3"
  by (auto simp: pack32_def bit_eq_iff bit_simps dest: bit_imp_le_length)

lemma pack32_eq_iff:
  "pack32 c0 c1 c2 c3 = pack32 d0 d1 d2 d3 \<longleftrightarrow> c0 = d0 \<and> c1 = d1 \<and> c2 = d2 \<and> c3 = d3"
  by (metis pack32_bytes)

lemma pack32_low: "pack32 c0 c1 c2 c3 AND 0xffff = pack32 c0 c1 0 0"
proof -
  have "(0xffff :: 32 word) = mask 16" by (simp add: mask_eq_exp_minus_1)
  then show ?thesis
    by (auto simp: pack32_def bit_eq_iff bit_simps dest: bit_imp_le_length)
qed

lemma pack32_zero: "push_bit 8 (ucast c5) OR ucast c4 = pack32 c4 c5 0 0"
  by (simp add: pack32_def)

lemma load32_at:
  "load32 m 0 = pack32 (m ! 0) (m ! 1) (m ! 2) (m ! 3)"
  "load32 m 4 = pack32 (m ! 4) (m ! 5) (m ! 6) (m ! 7)"
  by (simp_all add: load32_def numeral_2_eq_2)

lemma le_str6cmp_bytes:
  "le_str6cmp m c0 c1 c2 c3 c4 c5 \<longleftrightarrow>
     m ! 0 = c0 \<and> m ! 1 = c1 \<and> m ! 2 = c2 \<and> m ! 3 = c3 \<and> m ! 4 = c4 \<and> m ! 5 = c5"
  by (simp add: le_str6cmp_def load32_at pack32_low pack32_zero pack32_eq_iff conj_assoc)

lemmas le_str_cmp_defs = le_str4cmp_def le_str5cmp_def le_str6cmp_bytes le_str8cmp_def le_str9cmp_def
  load32_at pack32_eq_iff

text \<open>
  both builds recognise the same methods: with the space that ends the method name in place, the
  word-wide comparisons give the code of the byte-wise ones.
\<close>

theorem method_code_builds_agree:
  assumes "m ! n = ch_sp"
  shows "rl_method_code_le m n old = rl_method_code m n old"
proof -
  consider "n = 3" | "n = 4" | "n = 5" | "n = 6" | "n = 7" | "n = 8" | "n = 9"
    | "n \<notin> {3, 4, 5, 6, 7, 8, 9}" by blast
  then show ?thesis
    by cases (use assms in \<open>simp_all add: rl_method_code_def rl_method_code_le_def ngx_str_cmp_defs
        le_str_cmp_defs conj_assoc\<close>)
qed

theorem method_code_builds_agree_witness:
  "rl_method_code_le (str ''DELETE /'') 6 0 = NGX_HTTP_DELETE"
  using method_code_builds_agree [of "str ''DELETE /''" 6 0]
  by (simp add: rl_method_code_def ngx_str_cmp_defs)

end
