(* ===== verification/Ngx_Header_Line.thy ===== *)
theory Ngx_Header_Line
  imports Ngx_Request
begin

text \<open>
  \<^verbatim>\<open>ngx_http_parse_header_line\<close> of
  \<^verbatim>\<open>src/reference/nginx-master/src/http/ngx_http_parse.c\<close>: one header field
  \<^verbatim>\<open>Name: value\<close> per call, with the running hash and the 32-byte window of the lower-cased name
  that the header tables are looked up with. One definition per \<^verbatim>\<open>case\<close>; the three local
  variables \<^verbatim>\<open>state\<close>, \<^verbatim>\<open>hash\<close> and \<^verbatim>\<open>i\<close> are the triple the loop carries.
\<close>

section \<open>States, the hash and the table\<close>

datatype hl_state =
    hl_sw_start | hl_sw_name | hl_sw_space_before_value | hl_sw_value | hl_sw_space_after_value
  | hl_sw_ignore_line | hl_sw_almost_done | hl_sw_header_almost_done

definition hl_states :: "hl_state list" where
  "hl_states =
     [hl_sw_start, hl_sw_name, hl_sw_space_before_value, hl_sw_value, hl_sw_space_after_value,
      hl_sw_ignore_line, hl_sw_almost_done, hl_sw_header_almost_done]"

definition hl_dec :: "nat \<Rightarrow> hl_state option" where
  "hl_dec n = (if n < length hl_states then Some (hl_states ! n) else None)"

primrec hl_enc :: "hl_state \<Rightarrow> nat" where
  "hl_enc hl_sw_start = 0"
| "hl_enc hl_sw_name = 1"
| "hl_enc hl_sw_space_before_value = 2"
| "hl_enc hl_sw_value = 3"
| "hl_enc hl_sw_space_after_value = 4"
| "hl_enc hl_sw_ignore_line = 5"
| "hl_enc hl_sw_almost_done = 6"
| "hl_enc hl_sw_header_almost_done = 7"

lemma hl_dec_enc [simp]: "hl_dec (hl_enc s) = Some s"
  by (cases s) (simp_all add: hl_dec_def hl_states_def)

text \<open>\<^verbatim>\<open>ngx_hash\<close> of \<^verbatim>\<open>core/ngx_hash.h\<close>.\<close>

definition ngx_hash :: "ngx_uint_t \<Rightarrow> u_char \<Rightarrow> ngx_uint_t" where
  "ngx_hash key c = key * 31 + ucast c"

definition lowcase :: "u_char list" where
  "lowcase =
     replicate 32 0
     @ replicate 13 0 @ [ch_dash] @ replicate 2 0 @ str ''0123456789'' @ replicate 6 0
     @ [0] @ str ''abcdefghijklmnopqrstuvwxyz'' @ replicate 5 0
     @ [0] @ str ''abcdefghijklmnopqrstuvwxyz'' @ replicate 5 0
     @ replicate 32 0 @ replicate 32 0 @ replicate 32 0 @ replicate 32 0"

type_synonym hl_locals = "hl_state \<times> ngx_uint_t \<times> ngx_uint_t"

datatype hl_exit = HL_done ngx_uint_t ngx_uint_t | HL_header_done | HL_invalid

type_synonym hl_act = "(hl_locals, ngx_http_request_t, hl_exit) act"

section \<open>One definition per case\<close>

text \<open>\<^verbatim>\<open>r->lowcase_header[i++] = c; i &= (NGX_HTTP_LC_HEADER_LEN - 1)\<close>.\<close>

definition hl_put :: "u_char \<Rightarrow> ngx_uint_t \<Rightarrow> ngx_uint_t \<Rightarrow> ngx_http_request_t \<Rightarrow> hl_act" where
  [ngx_step_defs]: "hl_put c hash i r =
     Next (hl_sw_name, ngx_hash hash c, (i + 1) AND (of_nat NGX_HTTP_LC_HEADER_LEN - 1))
          (r\<lparr>lowcase_header := (lowcase_header r)[unat i := c]\<rparr>)"

definition hl_start ::
  "bool \<Rightarrow> nat \<Rightarrow> u_char \<Rightarrow> ngx_uint_t \<Rightarrow> ngx_uint_t \<Rightarrow> ngx_http_request_t \<Rightarrow> hl_act" where
  [ngx_step_defs]: "hl_start allow_underscores p ch hash i r =
     (let r = r\<lparr>header_name_start := Some p, invalid_header := False\<rparr> in
      if ch = CR then Next (hl_sw_header_almost_done, hash, i) (r\<lparr>header_end := Some p\<rparr>)
      else if ch = LF then Exit HL_header_done (r\<lparr>header_end := Some p\<rparr>)
      else (let c = lowcase ! unat ch in
        if c \<noteq> 0 then
          Next (hl_sw_name, ngx_hash 0 c, 1) (r\<lparr>lowcase_header := (lowcase_header r)[0 := c]\<rparr>)
        else if ch = ch_under then
          (if allow_underscores then
             Next (hl_sw_name, ngx_hash 0 ch, 1) (r\<lparr>lowcase_header := (lowcase_header r)[0 := ch]\<rparr>)
           else Next (hl_sw_name, 0, 0) (r\<lparr>invalid_header := True\<rparr>))
        else if ch \<le> 0x20 \<or> ch = 0x7f \<or> ch = ch_colon then
          Exit HL_invalid (r\<lparr>header_end := Some p\<rparr>)
        else Next (hl_sw_name, 0, 0) (r\<lparr>invalid_header := True\<rparr>)))"

text \<open>The comparison with \<^verbatim>\<open>"HTTP"\<close> reads the four bytes from \<^verbatim>\<open>r->header_name_start\<close>; its
  guard \<^verbatim>\<open>p - r->header_name_start == 4\<close> puts them before \<^verbatim>\<open>p\<close>.\<close>

definition hl_name ::
  "bool \<Rightarrow> u_char list \<Rightarrow> nat \<Rightarrow> u_char \<Rightarrow> ngx_uint_t \<Rightarrow> ngx_uint_t \<Rightarrow> ngx_http_request_t \<Rightarrow> hl_act" where
  [ngx_step_defs]: "hl_name allow_underscores buf p ch hash i r =
     (let c = lowcase ! unat ch in
      if c \<noteq> 0 then hl_put c hash i r
      else if ch = ch_under then
        (if allow_underscores then hl_put ch hash i r
         else Next (hl_sw_name, hash, i) (r\<lparr>invalid_header := True\<rparr>))
      else if ch = ch_colon then
        Next (hl_sw_space_before_value, hash, i) (r\<lparr>header_name_end := Some p\<rparr>)
      else if ch = CR then
        Next (hl_sw_almost_done, hash, i)
          (r\<lparr>header_name_end := Some p, header_start := Some p, header_end := Some p\<rparr>)
      else if ch = LF then
        Exit (HL_done hash i)
          (r\<lparr>header_name_end := Some p, header_start := Some p, header_end := Some p\<rparr>)
      else if ch = ch_slash \<and> upstream r
              \<and> int p - int (the (header_name_start r)) = 4
              \<and> take 4 (drop (the (header_name_start r)) buf) = str ''HTTP'' then
        Next (hl_sw_ignore_line, hash, i) r
      else if ch \<le> 0x20 \<or> ch = 0x7f then Exit HL_invalid (r\<lparr>header_end := Some p\<rparr>)
      else Next (hl_sw_name, hash, i) (r\<lparr>invalid_header := True\<rparr>))"

definition hl_space_before_value ::
  "nat \<Rightarrow> u_char \<Rightarrow> ngx_uint_t \<Rightarrow> ngx_uint_t \<Rightarrow> ngx_http_request_t \<Rightarrow> hl_act" where
  [ngx_step_defs]: "hl_space_before_value p ch hash i r =
     (if ch = ch_sp then Next (hl_sw_space_before_value, hash, i) r
      else if ch = CR then
        Next (hl_sw_almost_done, hash, i) (r\<lparr>header_start := Some p, header_end := Some p\<rparr>)
      else if ch = LF then
        Exit (HL_done hash i) (r\<lparr>header_start := Some p, header_end := Some p\<rparr>)
      else if ch = ch_nul then Exit HL_invalid (r\<lparr>header_end := Some p\<rparr>)
      else Next (hl_sw_value, hash, i) (r\<lparr>header_start := Some p\<rparr>))"

definition hl_value ::
  "nat \<Rightarrow> u_char \<Rightarrow> ngx_uint_t \<Rightarrow> ngx_uint_t \<Rightarrow> ngx_http_request_t \<Rightarrow> hl_act" where
  [ngx_step_defs]: "hl_value p ch hash i r =
     (if ch = ch_sp then Next (hl_sw_space_after_value, hash, i) (r\<lparr>header_end := Some p\<rparr>)
      else if ch = CR then Next (hl_sw_almost_done, hash, i) (r\<lparr>header_end := Some p\<rparr>)
      else if ch = LF then Exit (HL_done hash i) (r\<lparr>header_end := Some p\<rparr>)
      else if ch = ch_nul then Exit HL_invalid (r\<lparr>header_end := Some p\<rparr>)
      else Next (hl_sw_value, hash, i) r)"

definition hl_space_after_value ::
  "nat \<Rightarrow> u_char \<Rightarrow> ngx_uint_t \<Rightarrow> ngx_uint_t \<Rightarrow> ngx_http_request_t \<Rightarrow> hl_act" where
  [ngx_step_defs]: "hl_space_after_value p ch hash i r =
     (if ch = ch_sp then Next (hl_sw_space_after_value, hash, i) r
      else if ch = CR then Next (hl_sw_almost_done, hash, i) r
      else if ch = LF then Exit (HL_done hash i) r
      else if ch = ch_nul then Exit HL_invalid (r\<lparr>header_end := Some p\<rparr>)
      else Next (hl_sw_value, hash, i) r)"

definition hl_ignore_line ::
  "u_char \<Rightarrow> ngx_uint_t \<Rightarrow> ngx_uint_t \<Rightarrow> ngx_http_request_t \<Rightarrow> hl_act" where
  [ngx_step_defs]: "hl_ignore_line ch hash i r =
     (if ch = LF then Next (hl_sw_start, hash, i) r else Next (hl_sw_ignore_line, hash, i) r)"

definition hl_almost_done ::
  "u_char \<Rightarrow> ngx_uint_t \<Rightarrow> ngx_uint_t \<Rightarrow> ngx_http_request_t \<Rightarrow> hl_act" where
  [ngx_step_defs]: "hl_almost_done ch hash i r =
     (if ch = LF then Exit (HL_done hash i) r
      else if ch = CR then Next (hl_sw_almost_done, hash, i) r
      else Exit HL_invalid r)"

definition hl_header_almost_done :: "u_char \<Rightarrow> ngx_http_request_t \<Rightarrow> hl_act" where
  [ngx_step_defs]: "hl_header_almost_done ch r =
     (if ch = LF then Exit HL_header_done r else Exit HL_invalid r)"

section \<open>The switch, the loop and the code after it\<close>

definition hl_switch ::
  "bool \<Rightarrow> hl_state \<Rightarrow> u_char list \<Rightarrow> nat \<Rightarrow> u_char \<Rightarrow> ngx_uint_t \<Rightarrow> ngx_uint_t \<Rightarrow> ngx_http_request_t \<Rightarrow>
   hl_act" where
  "hl_switch allow_underscores s buf p ch hash i r =
     (case s of
        hl_sw_start \<Rightarrow> hl_start allow_underscores p ch hash i r
      | hl_sw_name \<Rightarrow> hl_name allow_underscores buf p ch hash i r
      | hl_sw_space_before_value \<Rightarrow> hl_space_before_value p ch hash i r
      | hl_sw_value \<Rightarrow> hl_value p ch hash i r
      | hl_sw_space_after_value \<Rightarrow> hl_space_after_value p ch hash i r
      | hl_sw_ignore_line \<Rightarrow> hl_ignore_line ch hash i r
      | hl_sw_almost_done \<Rightarrow> hl_almost_done ch hash i r
      | hl_sw_header_almost_done \<Rightarrow> hl_header_almost_done ch r)"

definition hl_step ::
  "bool \<Rightarrow> (nat \<times> ngx_uint_t \<times> ngx_uint_t, ngx_http_request_t, hl_exit) step" where
  "hl_step allow_underscores buf p ch l r =
     (case l of (n, hash, i) \<Rightarrow>
       (case hl_dec n of
          None \<Rightarrow> Next (n, hash, i) r
        | Some s \<Rightarrow>
          (case hl_switch allow_underscores s buf p ch hash i r of
             Next (s', hash', i') r' \<Rightarrow> Next (hl_enc s', hash', i') r'
           | Exit x r' \<Rightarrow> Exit x r')))"

definition hl_load :: "ngx_http_request_t \<Rightarrow> nat \<times> ngx_uint_t \<times> ngx_uint_t" where
  "hl_load r = (state r, header_hash r, lowcase_index r)"

definition hl_save :: "nat \<times> ngx_uint_t \<times> ngx_uint_t \<Rightarrow> ngx_http_request_t \<Rightarrow> ngx_http_request_t" where
  "hl_save l r =
     (case l of (n, hash, i) \<Rightarrow> r\<lparr>state := n, header_hash := hash, lowcase_index := i\<rparr>)"

definition hl_finish ::
  "nat \<Rightarrow> hl_exit \<Rightarrow> ngx_buf_t \<Rightarrow> ngx_http_request_t \<Rightarrow> int \<times> ngx_buf_t \<times> ngx_http_request_t" where
  "hl_finish p x b r =
     (case x of
        HL_done hash i \<Rightarrow>
          (NGX_OK, b\<lparr>pos := p + 1\<rparr>, r\<lparr>state := 0, header_hash := hash, lowcase_index := i\<rparr>)
      | HL_header_done \<Rightarrow> (NGX_HTTP_PARSE_HEADER_DONE, b\<lparr>pos := p + 1\<rparr>, r\<lparr>state := 0\<rparr>)
      | HL_invalid \<Rightarrow> (NGX_HTTP_PARSE_INVALID_HEADER, b, r))"

definition ngx_http_parse_header_line ::
  "ngx_http_request_t \<Rightarrow> ngx_buf_t \<Rightarrow> bool \<Rightarrow> int \<times> ngx_buf_t \<times> ngx_http_request_t" where
  "ngx_http_parse_header_line r b allow_underscores =
     run_parser (hl_step allow_underscores) hl_load hl_save hl_finish b r"

section \<open>The header line parser is resumable\<close>

lemma hl_switch_local:
  assumes "p < length xs"
  shows "hl_switch au s (xs @ ys) p c hash i r = hl_switch au s xs p c hash i r"
proof (cases s)
  case hl_sw_name
  have "(int p - int n = 4 \<and> take 4 (drop n (xs @ ys)) = w) \<longleftrightarrow>
      (int p - int n = 4 \<and> take 4 (drop n xs) = w)" for n w
    using assms by auto
  then show ?thesis by (simp only: hl_sw_name hl_switch_def hl_state.case hl_name_def)
qed (simp_all add: hl_switch_def)

lemma hl_switch_save:
  "hl_switch au s buf p c hash i (r\<lparr>state := n, header_hash := h, lowcase_index := k\<rparr>) =
     map_act id (\<lambda>r. r\<lparr>state := n, header_hash := h, lowcase_index := k\<rparr>) id
       (hl_switch au s buf p c hash i r)"
  by (cases s)
    (simp_all add: hl_switch_def ngx_step_defs Let_def if_distrib [of "map_act _ _ _"]
      scratch_upd_commute cong: if_cong split del: if_split)

definition hl_consumes :: "int \<Rightarrow> bool" where
  "hl_consumes rc \<longleftrightarrow> rc = NGX_OK \<or> rc = NGX_AGAIN \<or> rc = NGX_HTTP_PARSE_HEADER_DONE"

text \<open>The hash and the index mean something only with a header (or in between); at the end of the
  headers and on an error they are what the last call left.\<close>

definition hl_erase :: "int \<Rightarrow> ngx_http_request_t \<Rightarrow> ngx_http_request_t" where
  "hl_erase rc r = (if rc = NGX_OK \<or> rc = NGX_AGAIN then r else hl_save (0, 0, 0) r)"

interpretation header_line: resumable_parser "hl_step au" hl_load hl_save hl_finish hl_consumes hl_erase
  for au
proof
  show "hl_step au (xs @ ys) p c s r = hl_step au xs p c s r" if "p < length xs" for p xs ys c s r
    using that by (cases s) (simp add: hl_step_def hl_switch_local split: option.split)
  show "hl_step au m p c s (hl_save t r) = map_act id (hl_save t) id (hl_step au m p c s r)"
    for m p c s t r
    by (cases t; cases s)
      (auto simp: hl_step_def hl_save_def hl_switch_save split: option.split act.split)
  show "observe hl_consumes hl_erase (hl_finish p x (b\<lparr>pos := n\<rparr>) (hl_save s r)) =
      observe hl_consumes hl_erase (hl_finish p x b r)" for p x b n r s
    by (cases x; cases s)
      (simp_all add: hl_finish_def hl_save_def observe_def hl_consumes_def hl_erase_def)
  show "hl_finish p x (buf_append b ys) r =
      map_prod id (map_prod (\<lambda>b'. buf_append b' ys) id) (hl_finish p x b r)" for p x b ys r
    by (cases x) (simp_all add: hl_finish_def buf_append_def)
  show "fst (hl_finish p x b r) \<noteq> NGX_AGAIN" for p x b r
    by (cases x) (simp_all add: hl_finish_def)
qed (auto simp: hl_load_def hl_save_def split: prod.splits)

text \<open>
  Header lines may arrive in any pieces: the answer, the position, and for an accepted header the
  request with its hash and index, are those of one call on all the bytes.
\<close>

theorem header_line_feed:
  "observe hl_consumes hl_erase (feed (\<lambda>b r. ngx_http_parse_header_line r b au) b r pieces) =
   observe hl_consumes hl_erase (ngx_http_parse_header_line r (buf_append b (concat pieces)) au)"
  using header_line.feed_eq_parse [of au b r pieces]
  by (simp add: ngx_http_parse_header_line_def)

end
