(* ===== verification/Ngx_Header_Line_Props.thy ===== *)
theory Ngx_Header_Line_Props
  imports Ngx_Header_Line
begin

text \<open>
  What an accepted header line means: the shape of the line, the bytes of the name and the value,
  and the hash, index and lower-cased window that describe the name. The invariant \<open>hl_inv\<close>
  of the loop is proved case by case and lifted with \<open>scan_invariant\<close>.
\<close>

section \<open>The lower-case table\<close>

lemma lowcase_spec:
  "lowcase ! unat ch = (if is_alpha ch then fold_case ch else if is_digit ch \<or> ch = ch_dash then ch else 0)"
  by (rule byte_all [of "\<lambda>ch. lowcase ! unat ch =
      (if is_alpha ch then fold_case ch else if is_digit ch \<or> ch = ch_dash then ch else 0)"]) code_simp

text \<open>The byte recorded for a name byte; 0 where the byte makes the header invalid.\<close>

definition name_byte :: "bool \<Rightarrow> u_char \<Rightarrow> u_char" where
  "name_byte au ch =
     (let c = lowcase ! unat ch in if c \<noteq> 0 then c else if ch = ch_under \<and> au then ch else 0)"

text \<open>No byte of a name is a control byte, a space, DEL or a colon.\<close>

definition plain_name_byte :: "u_char \<Rightarrow> bool" where
  "plain_name_byte ch \<longleftrightarrow> ch_sp < ch \<and> ch \<noteq> 0x7f \<and> ch \<noteq> ch_colon"

lemma plain_name_byteI:
  "lowcase ! unat ch \<noteq> 0 \<Longrightarrow> plain_name_byte ch"
  by (rule byte_all [of "\<lambda>ch. lowcase ! unat ch \<noteq> 0 \<longrightarrow> plain_name_byte ch", THEN mp]) code_simp

lemma lc_index_next: "unat ((i + 1 :: ngx_uint_t) AND 31) = (unat i + 1) mod 32"
proof -
  have "(i + 1) AND 31 = take_bit 5 (i + 1)" by (simp add: take_bit_eq_mask mask_eq_exp_minus_1)
  then have "unat ((i + 1) AND 31) = unat (i + 1) mod 32" by (simp add: take_bit_eq_mod unat_mod)
  also have "unat (i + 1) = (unat i + 1) mod 2 ^ 64" by (simp add: unat_word_ariths)
  also have "(unat i + 1) mod 2 ^ 64 mod 32 = (unat i + 1) mod 32" by (simp add: mod_mod_cancel)
  finally show ?thesis .
qed

section \<open>The invariant\<close>

text \<open>The name read so far, \<open>[ns, q)\<close>, and what the parser keeps of it.\<close>

definition name_kept ::
  "bool \<Rightarrow> u_char list \<Rightarrow> ngx_uint_t \<Rightarrow> ngx_uint_t \<Rightarrow> u_char list \<Rightarrow> bool" where
  "name_kept au name hash i lc \<longleftrightarrow>
     (let xs = map (name_byte au) name in
      0 \<notin> set xs \<and> hash = foldl ngx_hash 0 xs \<and> unat i = length xs mod NGX_HTTP_LC_HEADER_LEN
      \<and> (length xs \<le> NGX_HTTP_LC_HEADER_LEN \<longrightarrow> take (length xs) lc = xs))"

definition hl_name_inv ::
  "bool \<Rightarrow> u_char list \<Rightarrow> nat \<Rightarrow> nat \<Rightarrow> ngx_uint_t \<Rightarrow> ngx_uint_t \<Rightarrow> ngx_http_request_t \<Rightarrow> bool" where
  "hl_name_inv au m ns q hash i r \<longleftrightarrow>
     header_name_start r = Some ns \<and> ns < q \<and> unat i < NGX_HTTP_LC_HEADER_LEN
     \<and> list_all plain_name_byte (subbuf m ns q)
     \<and> (\<not> invalid_header r \<longrightarrow> name_kept au (subbuf m ns q) hash i (lowcase_header r))"

definition value_text :: "u_char list \<Rightarrow> nat \<Rightarrow> nat \<Rightarrow> bool" where
  "value_text m hs q \<longleftrightarrow> (\<forall>k. hs \<le> k \<and> k < q \<longrightarrow> m ! k \<notin> {ch_nul, CR, LF})"

text \<open>A complete line but for its end: the colon and blanks after the name (or no value at all),
  the value without blanks at its ends, then blanks, and then carriage returns up to \<open>p\<close>.\<close>

definition hl_tail :: "u_char list \<Rightarrow> nat \<Rightarrow> nat \<Rightarrow> bool" where
  "hl_tail m he p \<longleftrightarrow> (\<exists>ce. he \<le> ce \<and> ce \<le> p \<and> all_in m he ce {ch_sp} \<and> all_in m ce p {CR})"

lemma hl_tail_blanks: "he \<le> p \<Longrightarrow> all_in m he p {ch_sp} \<Longrightarrow> hl_tail m he p"
  unfolding hl_tail_def by (intro exI [of _ p]) simp

lemma hl_tail_empty [simp]: "hl_tail m p p"
  by (simp add: hl_tail_blanks)

lemma hl_tail_CR: "hl_tail m he p \<Longrightarrow> m ! p = CR \<Longrightarrow> hl_tail m he (Suc p)"
  unfolding hl_tail_def by (auto simp: all_in_Suc intro: le_SucI)

lemma hl_tail_first [simp]: "m ! p = CR \<Longrightarrow> hl_tail m p (Suc p)"
  by (simp add: hl_tail_CR)

definition hl_line ::
  "bool \<Rightarrow> u_char list \<Rightarrow> nat \<Rightarrow> nat \<Rightarrow> ngx_uint_t \<Rightarrow> ngx_uint_t \<Rightarrow> ngx_http_request_t \<Rightarrow> bool" where
  "hl_line au m p0 p hash i r \<longleftrightarrow>
     (\<exists>ns ne hs he. hl_name_inv au m ns ne hash i r
        \<and> header_name_end r = Some ne \<and> header_start r = Some hs \<and> header_end r = Some he
        \<and> p0 \<le> ns \<and> ne \<le> hs \<and> hs \<le> he \<and> he \<le> p
        \<and> (ne = he \<and> all_in m he p {CR} \<or> m ! ne = ch_colon \<and> ne < hs \<and> all_in m (Suc ne) hs {ch_sp})
        \<and> value_text m hs he \<and> (hs < he \<longrightarrow> m ! hs \<noteq> ch_sp \<and> m ! (he - 1) \<noteq> ch_sp)
        \<and> hl_tail m he p)"

definition hl_inv ::
  "bool \<Rightarrow> u_char list \<Rightarrow> nat \<Rightarrow> hl_state \<Rightarrow> nat \<Rightarrow> ngx_uint_t \<Rightarrow> ngx_uint_t \<Rightarrow> ngx_http_request_t \<Rightarrow> bool" where
  "hl_inv au m p0 s p hash i r \<longleftrightarrow>
     p0 \<le> p \<and> length (lowcase_header r) = NGX_HTTP_LC_HEADER_LEN \<and>
     (case s of
        hl_sw_start \<Rightarrow> True
      | hl_sw_ignore_line \<Rightarrow> True
      | hl_sw_header_almost_done \<Rightarrow> True
      | hl_sw_name \<Rightarrow> (\<exists>ns. p0 \<le> ns \<and> hl_name_inv au m ns p hash i r)
      | hl_sw_space_before_value \<Rightarrow>
          (\<exists>ns ne. p0 \<le> ns \<and> hl_name_inv au m ns ne hash i r \<and> header_name_end r = Some ne
             \<and> ne < p \<and> m ! ne = ch_colon \<and> all_in m (Suc ne) p {ch_sp})
      | hl_sw_value \<Rightarrow>
          (\<exists>ns ne hs. p0 \<le> ns \<and> hl_name_inv au m ns ne hash i r \<and> header_name_end r = Some ne
             \<and> ne < hs \<and> m ! ne = ch_colon \<and> all_in m (Suc ne) hs {ch_sp}
             \<and> header_start r = Some hs \<and> hs < p \<and> value_text m hs p
             \<and> m ! hs \<noteq> ch_sp \<and> m ! (p - 1) \<noteq> ch_sp)
      | hl_sw_space_after_value \<Rightarrow>
          (\<exists>ns ne hs he. p0 \<le> ns \<and> hl_name_inv au m ns ne hash i r \<and> header_name_end r = Some ne
             \<and> ne < hs \<and> m ! ne = ch_colon \<and> all_in m (Suc ne) hs {ch_sp}
             \<and> header_start r = Some hs \<and> header_end r = Some he \<and> hs < he \<and> he < p
             \<and> value_text m hs p \<and> m ! hs \<noteq> ch_sp \<and> m ! (he - 1) \<noteq> ch_sp \<and> all_in m he p {ch_sp})
      | hl_sw_almost_done \<Rightarrow> hl_line au m p0 p hash i r)"

definition hl_post :: "bool \<Rightarrow> u_char list \<Rightarrow> nat \<Rightarrow> nat \<Rightarrow> hl_exit \<Rightarrow> ngx_http_request_t \<Rightarrow> bool" where
  "hl_post au m p0 p x r \<longleftrightarrow>
     length (lowcase_header r) = NGX_HTTP_LC_HEADER_LEN \<and>
     (case x of HL_done hash i \<Rightarrow> m ! p = LF \<and> hl_line au m p0 p hash i r | _ \<Rightarrow> True)"

abbreviation hl_next :: "bool \<Rightarrow> u_char list \<Rightarrow> nat \<Rightarrow> nat \<Rightarrow> hl_act \<Rightarrow> bool" where
  "hl_next au m p0 p a \<equiv>
     (case a of Next (s', hash', i') r' \<Rightarrow> hl_inv au m p0 s' (Suc p) hash' i' r'
      | Exit x r' \<Rightarrow> hl_post au m p0 p x r')"

text \<open>The name grows by one byte.\<close>

lemma name_kept_snoc:
  assumes "name_kept au name hash i lc" "name_byte au ch = c" "c \<noteq> 0" "length lc = 32"
  shows "name_kept au (name @ [ch]) (ngx_hash hash c) ((i + 1) AND 31) (lc[unat i := c])"
proof -
  let ?n = "length name"
  have i: "unat i = ?n mod 32" and nz: "0 \<notin> set (map (name_byte au) name)"
    and lc: "?n \<le> 32 \<Longrightarrow> take ?n lc = map (name_byte au) name"
    using assms by (auto simp: name_kept_def Let_def)
  have "take (Suc ?n) (lc[unat i := c]) = map (name_byte au) name @ [c]" if "Suc ?n \<le> 32"
    using that i lc assms(4) by (simp add: take_Suc_conv_app_nth)
  with assms i nz show ?thesis
    by (auto simp: name_kept_def Let_def lc_index_next mod_Suc_eq)
qed

lemma name_kept_first:
  assumes "name_byte au ch = c" "c \<noteq> 0" "length lc = 32"
  shows "name_kept au [ch] (ngx_hash 0 c) 1 (lc[0 := c])"
  using assms by (cases lc) (auto simp: name_kept_def)

lemma value_text_Suc:
  "value_text m hs (Suc p) \<longleftrightarrow> value_text m hs p \<and> (hs \<le> p \<longrightarrow> m ! p \<notin> {ch_nul, CR, LF})"
  by (auto simp: value_text_def less_Suc_eq)

lemma value_text_all_in: "value_text m a b \<longleftrightarrow> all_in m a b (- {ch_nul, CR, LF})"
  by (auto simp: value_text_def all_in_def)

lemma value_text_subbuf:
  "b \<le> length m \<Longrightarrow> value_text m a b \<longleftrightarrow> set (subbuf m a b) \<inter> {ch_nul, CR, LF} = {}"
  by (auto simp: value_text_all_in all_in_subbuf)

lemma value_text_empty [simp]: "q \<le> p \<Longrightarrow> value_text m p q"
  by (auto simp: value_text_def)

section \<open>One lemma per case\<close>

lemma hl_start_inv:
  assumes "p < length m" "hl_inv au m p0 hl_sw_start p hash i r"
  shows "hl_next au m p0 p (hl_start au p (m ! p) hash i r)"
  using assms plain_name_byteI [of "m ! p"]
  by (auto simp: hl_start_def Let_def hl_inv_def hl_post_def hl_name_inv_def subbuf_one
      name_byte_def plain_name_byte_def not_le intro!: name_kept_first)

lemma hl_put_inv:
  assumes "p < length m" "hl_inv au m p0 hl_sw_name p hash i r"
    "name_byte au (m ! p) = c" "c \<noteq> 0" "plain_name_byte (m ! p)"
  shows "hl_next au m p0 p (hl_put c hash i r)"
  using assms
  by (auto simp: hl_put_def hl_inv_def hl_name_inv_def subbuf_Suc lc_index_next intro!: name_kept_snoc)

lemma hl_name_inv_bad:
  assumes "hl_name_inv au m ns p hash i r" "p < length m" "plain_name_byte (m ! p)"
  shows "hl_name_inv au m ns (Suc p) hash i (r\<lparr>invalid_header := True\<rparr>)"
  using assms by (auto simp: hl_name_inv_def subbuf_Suc)

lemma hl_name_inv_upd [simp]:
  "hl_name_inv au m ns p hash i (r\<lparr>header_name_end := a\<rparr>) = hl_name_inv au m ns p hash i r"
  "hl_name_inv au m ns p hash i (r\<lparr>header_start := a\<rparr>) = hl_name_inv au m ns p hash i r"
  "hl_name_inv au m ns p hash i (r\<lparr>header_end := a\<rparr>) = hl_name_inv au m ns p hash i r"
  by (simp_all add: hl_name_inv_def)

lemma hl_name_case_inv:
  assumes "p < length m" "hl_inv au m p0 hl_sw_name p hash i r"
  shows "hl_next au m p0 p (hl_name au m p (m ! p) hash i r)"
proof -
  have put: "hl_next au m p0 p (hl_put (lowcase ! unat (m ! p)) hash i r)" if "lowcase ! unat (m ! p) \<noteq> 0"
    using assms that by (intro hl_put_inv plain_name_byteI) (simp_all add: name_byte_def)
  have under: "hl_next au m p0 p (hl_put ch_under hash i r)"
    if "lowcase ! unat (m ! p) = 0" "m ! p = ch_under" au
    using assms that by (intro hl_put_inv) (simp_all add: name_byte_def plain_name_byte_def)
  have bad: "hl_inv au m p0 hl_sw_name (Suc p) hash i (r\<lparr>invalid_header := True\<rparr>)"
    if "plain_name_byte (m ! p)"
    using assms that by (auto simp: hl_inv_def intro: hl_name_inv_bad)
  have plain: "plain_name_byte (m ! p)" if "\<not> m ! p \<le> 0x20" "m ! p \<noteq> 0x7f" "m ! p \<noteq> ch_colon"
    using that by (simp add: plain_name_byte_def)
  consider (put) "lowcase ! unat (m ! p) \<noteq> 0"
    | (under) "lowcase ! unat (m ! p) = 0" "m ! p = ch_under"
    | (other) "lowcase ! unat (m ! p) = 0" "m ! p \<noteq> ch_under" by blast
  then show ?thesis
  proof cases
    case put
    then show ?thesis using \<open>lowcase ! unat (m ! p) \<noteq> 0 \<Longrightarrow> _\<close> by (simp add: hl_name_def Let_def)
  next
    case under
    then show ?thesis using \<open>lowcase ! unat (m ! p) = 0 \<Longrightarrow> m ! p = ch_under \<Longrightarrow> au \<Longrightarrow> _\<close> bad
      by (cases au) (simp_all add: hl_name_def Let_def plain_name_byte_def)
  next
    case other
    then show ?thesis using assms bad plain
      by (auto simp: hl_name_def Let_def hl_inv_def hl_post_def hl_line_def all_in_Suc)
  qed
qed

lemma hl_space_before_value_inv:
  assumes "p < length m" "hl_inv au m p0 hl_sw_space_before_value p hash i r"
  shows "hl_next au m p0 p (hl_space_before_value p (m ! p) hash i r)"
proof -
  from assms obtain ns ne where inv: "p0 \<le> ns" "hl_name_inv au m ns ne hash i r"
    "header_name_end r = Some ne" "ne < p" "m ! ne = ch_colon" "all_in m (Suc ne) p {ch_sp}"
    "p0 \<le> p" "length (lowcase_header r) = 32"
    by (auto simp: hl_inv_def)
  then show ?thesis
    by (auto simp: hl_space_before_value_def hl_inv_def hl_post_def hl_line_def value_text_Suc all_in_Suc)
qed

lemma hl_value_inv:
  assumes "p < length m" "hl_inv au m p0 hl_sw_value p hash i r"
  shows "hl_next au m p0 p (hl_value p (m ! p) hash i r)"
proof -
  from assms obtain ns ne hs where inv: "p0 \<le> ns" "hl_name_inv au m ns ne hash i r"
    "header_name_end r = Some ne" "ne < hs" "m ! ne = ch_colon" "all_in m (Suc ne) hs {ch_sp}"
    "header_start r = Some hs" "hs < p" "value_text m hs p" "m ! hs \<noteq> ch_sp" "m ! (p - 1) \<noteq> ch_sp"
    "p0 \<le> p" "length (lowcase_header r) = 32"
    by (auto simp: hl_inv_def)
  then show ?thesis
    by (auto simp: hl_value_def hl_inv_def hl_post_def hl_line_def value_text_Suc all_in_Suc)
qed

lemma hl_space_after_value_inv:
  assumes "p < length m" "hl_inv au m p0 hl_sw_space_after_value p hash i r"
  shows "hl_next au m p0 p (hl_space_after_value p (m ! p) hash i r)"
proof -
  from assms obtain ns ne hs he where inv: "p0 \<le> ns" "hl_name_inv au m ns ne hash i r"
    "header_name_end r = Some ne" "ne < hs" "m ! ne = ch_colon" "all_in m (Suc ne) hs {ch_sp}"
    "header_start r = Some hs" "header_end r = Some he" "hs < he" "he < p" "value_text m hs p"
    "m ! hs \<noteq> ch_sp" "m ! (he - 1) \<noteq> ch_sp" "all_in m he p {ch_sp}"
    "p0 \<le> p" "length (lowcase_header r) = 32"
    by (auto simp: hl_inv_def)
  moreover from this have "value_text m hs he" "hl_tail m he p" "m ! p = CR \<Longrightarrow> hl_tail m he (Suc p)"
    using hl_tail_CR [OF hl_tail_blanks, of he p m] hl_tail_blanks [of he p m] by (auto simp: value_text_def)
  ultimately show ?thesis
    by (auto simp: hl_space_after_value_def hl_inv_def hl_post_def hl_line_def value_text_Suc all_in_Suc)
qed

lemma hl_almost_done_inv:
  assumes "p < length m" "hl_inv au m p0 hl_sw_almost_done p hash i r"
  shows "hl_next au m p0 p (hl_almost_done (m ! p) hash i r)"
proof -
  from assms have line: "hl_line au m p0 p hash i r" and "p0 \<le> p" "length (lowcase_header r) = 32"
    by (simp_all add: hl_inv_def)
  moreover have "hl_line au m p0 (Suc p) hash i r" if "m ! p = CR"
    using line that unfolding hl_line_def by (fastforce simp: all_in_Suc intro: hl_tail_CR)
  ultimately show ?thesis
    by (auto simp: hl_almost_done_def hl_inv_def hl_post_def)
qed

lemma hl_switch_inv:
  assumes "p < length m" "hl_inv au m p0 s p hash i r"
  shows "hl_next au m p0 p (hl_switch au s m p (m ! p) hash i r)"
proof (cases s)
  case hl_sw_start
  with assms show ?thesis by (simp add: hl_switch_def hl_start_inv)
next
  case hl_sw_name
  with assms show ?thesis by (simp add: hl_switch_def hl_name_case_inv)
next
  case hl_sw_space_before_value
  with assms show ?thesis by (simp add: hl_switch_def hl_space_before_value_inv)
next
  case hl_sw_value
  with assms show ?thesis by (simp add: hl_switch_def hl_value_inv)
next
  case hl_sw_space_after_value
  with assms show ?thesis by (simp add: hl_switch_def hl_space_after_value_inv)
next
  case hl_sw_ignore_line
  with assms show ?thesis by (auto simp: hl_switch_def hl_ignore_line_def hl_inv_def)
next
  case hl_sw_almost_done
  with assms show ?thesis by (simp add: hl_switch_def hl_almost_done_inv)
next
  case hl_sw_header_almost_done
  with assms show ?thesis by (auto simp: hl_switch_def hl_header_almost_done_def hl_inv_def hl_post_def)
qed

section \<open>The whole line\<close>

definition hl_loop_inv ::
  "bool \<Rightarrow> u_char list \<Rightarrow> nat \<Rightarrow> nat \<Rightarrow> nat \<times> ngx_uint_t \<times> ngx_uint_t \<Rightarrow> ngx_http_request_t \<Rightarrow> bool" where
  "hl_loop_inv au m p0 p l r \<longleftrightarrow>
     (case l of (n, hash, i) \<Rightarrow> \<exists>s. n = hl_enc s \<and> hl_inv au m p0 s p hash i r)"

lemma hl_scan_inv:
  assumes "state r = 0" "length (lowcase_header r) = NGX_HTTP_LC_HEADER_LEN"
  shows "case scan (hl_step au) m p0 (hl_load r) r of
      Exhausted q l r' \<Rightarrow> hl_loop_inv au m p0 q l r' \<and> length m \<le> q \<and> p0 \<le> q
    | Stopped q x r' \<Rightarrow> hl_post au m p0 q x r' \<and> p0 \<le> q \<and> q < length m"
proof (rule scan_invariant)
  have "0 = hl_enc hl_sw_start" by simp
  with assms show "hl_loop_inv au m p0 p0 (hl_load r) r"
    by (auto simp: hl_loop_inv_def hl_load_def hl_inv_def intro!: exI [of _ hl_sw_start])
next
  fix p s r s' r'
  assume p: "p < length m" and inv: "hl_loop_inv au m p0 p s r"
    and step: "hl_step au m p (m ! p) s r = Next s' r'"
  from inv obtain t hash i where s: "s = (hl_enc t, hash, i)" and "hl_inv au m p0 t p hash i r"
    by (auto simp: hl_loop_inv_def)
  with p step hl_switch_inv [of p m au p0 t hash i r] show "hl_loop_inv au m p0 (Suc p) s' r'"
    by (auto simp: hl_step_def hl_loop_inv_def split: act.splits)
next
  fix p s r x r'
  assume p: "p < length m" and inv: "hl_loop_inv au m p0 p s r"
    and step: "hl_step au m p (m ! p) s r = Exit x r'"
  from inv obtain t hash i where s: "s = (hl_enc t, hash, i)" and "hl_inv au m p0 t p hash i r"
    by (auto simp: hl_loop_inv_def)
  with p step hl_switch_inv [of p m au p0 t hash i r] show "hl_post au m p0 p x r'"
    by (auto simp: hl_step_def split: act.splits prod.splits)
qed

lemma parse_header_line_post:
  assumes "ngx_http_parse_header_line r b au = (NGX_OK, b', r')" "state r = 0"
    "length (lowcase_header r) = NGX_HTTP_LC_HEADER_LEN"
  obtains p where "p < length (mem b)" "pos b' = Suc p" "mem b' = mem b" "mem b ! p = LF"
    "hl_line au (mem b) (pos b) p (header_hash r') (lowcase_index r') r'" "state r' = 0"
    "length (lowcase_header r') = NGX_HTTP_LC_HEADER_LEN"
proof (cases "scan (hl_step au) (mem b) (pos b) (hl_load r) r")
  case (Exhausted p s q)
  with assms show thesis by (simp add: ngx_http_parse_header_line_def run_parser_def)
next
  case (Stopped p x q)
  with assms obtain hash i where x: "x = HL_done hash i"
    by (cases x) (auto simp: ngx_http_parse_header_line_def run_parser_def hl_finish_def)
  with Stopped assms have b': "b' = b\<lparr>pos := Suc p\<rparr>"
    and r': "r' = q\<lparr>state := 0, header_hash := hash, lowcase_index := i\<rparr>"
    by (simp_all add: ngx_http_parse_header_line_def run_parser_def hl_finish_def)
  from hl_scan_inv [of r au "mem b" "pos b"] assms Stopped x
  have post: "mem b ! p = LF" "hl_line au (mem b) (pos b) p hash i q" "p < length (mem b)"
    "length (lowcase_header q) = NGX_HTTP_LC_HEADER_LEN"
    by (simp_all add: hl_post_def)
  from post(2) have "hl_line au (mem b) (pos b) p hash i r'"
    by (simp add: r' hl_line_def hl_name_inv_def)
  with post show thesis by (intro that) (simp_all add: b' r')
qed

lemma subbuf_split: "a \<le> c \<Longrightarrow> c \<le> b \<Longrightarrow> b \<le> length m \<Longrightarrow> subbuf m a b = subbuf m a c @ subbuf m c b"
  using upt_add_eq_append [of a c "b - c"] by (simp add: subbuf_eq_map flip: map_append)

lemma subbuf_replicate: "all_in m a b {c} \<Longrightarrow> b \<le> length m \<Longrightarrow> subbuf m a b = replicate (b - a) c"
  by (auto simp: subbuf_eq_map all_in_def intro!: nth_equalityI)

lemma hl_tail_text:
  assumes "hl_tail m he p" "p < length m" "m ! p = LF"
  shows "\<exists>k l. subbuf m he (Suc p) = replicate k ch_sp @ replicate l CR @ [LF]"
proof -
  from assms(1) obtain ce where ce: "he \<le> ce" "ce \<le> p" "all_in m he ce {ch_sp}" "all_in m ce p {CR}" by (auto simp: hl_tail_def)
  have "subbuf m he (Suc p) = subbuf m he ce @ subbuf m ce p @ subbuf m p (Suc p)"
    using ce assms(2) subbuf_split [of he ce "Suc p" m] subbuf_split [of ce p "Suc p" m] by simp
  then show ?thesis using ce assms(2,3) by (auto simp: subbuf_replicate subbuf_one)
qed

text \<open>
  C5: an accepted header line is \<^verbatim>\<open>name ":" blanks value blanks CR* LF\<close>, or a name without colon,
  \<^verbatim>\<open>name CR* LF\<close>, where the name is not empty and has no control byte, blank, colon or DEL, and the value has no NUL, CR or
  LF and neither starts nor ends with a blank. The recorded pointers delimit exactly this name and this value (an empty one
  at the end of the name, for a name alone), and the line ends where the consumed input ends, inside the bytes received. (Before it the
  parser may have skipped lines with invalid names; they are not described.)
\<close>

theorem header_line_shape:
  assumes "ngx_http_parse_header_line r b au = (NGX_OK, b', r')" "state r = 0"
    "length (lowcase_header r) = NGX_HTTP_LC_HEADER_LEN"
  shows "\<exists>ns ne hs he name val j k l. header_name_start r' = Some ns \<and> header_name_end r' = Some ne
    \<and> header_start r' = Some hs \<and> header_end r' = Some he
    \<and> pos b \<le> ns \<and> ns < pos b' \<and> pos b' \<le> length (mem b) \<and> mem b' = mem b
    \<and> ne = ns + length name \<and> he = hs + length val
    \<and> name \<noteq> [] \<and> list_all plain_name_byte name
    \<and> set val \<inter> {ch_nul, CR, LF} = {} \<and> (val \<noteq> [] \<longrightarrow> hd val \<noteq> ch_sp \<and> last val \<noteq> ch_sp)
    \<and> (subbuf (mem b) ns (pos b') = name @ [ch_colon] @ replicate j ch_sp @ val @ replicate k ch_sp @ replicate l CR @ [LF]
         \<and> hs = ne + 1 + j
       \<or> subbuf (mem b) ns (pos b') = name @ replicate l CR @ [LF] \<and> hs = ne \<and> val = [])"
proof -
  obtain p where p: "p < length (mem b)" "pos b' = Suc p" "mem b' = mem b" "mem b ! p = LF"
    and line: "hl_line au (mem b) (pos b) p (header_hash r') (lowcase_index r') r'"
    using parse_header_line_post [OF assms] by blast
  let ?m = "mem b"
  from line obtain ns ne hs he where l: "hl_name_inv au ?m ns ne (header_hash r') (lowcase_index r') r'"
    "header_name_end r' = Some ne" "header_start r' = Some hs" "header_end r' = Some he"
    "pos b \<le> ns" "ne \<le> hs" "hs \<le> he" "he \<le> p"
    and kind: "ne = he \<and> all_in ?m he p {CR} \<or> ?m ! ne = ch_colon \<and> ne < hs \<and> all_in ?m (Suc ne) hs {ch_sp}"
    and val: "value_text ?m hs he" "hs < he \<longrightarrow> ?m ! hs \<noteq> ch_sp \<and> ?m ! (he - 1) \<noteq> ch_sp" and tail: "hl_tail ?m he p"
    unfolding hl_line_def by blast
  define name val where "name = subbuf ?m ns ne" and "val = subbuf ?m hs he"
  have ns: "header_name_start r' = Some ns" "ns < ne" "list_all plain_name_byte name" using l(1) by (auto simp: hl_name_inv_def name_def)
  have len: "length name = ne - ns" "length val = he - hs" using l p by (simp_all add: name_def val_def)
  have ends: "val \<noteq> [] \<longrightarrow> hd val \<noteq> ch_sp \<and> last val \<noteq> ch_sp"
  proof
    assume "val \<noteq> []"
    then have "hs < he" using len(2) by (cases "hs < he") auto
    moreover have "hd val = ?m ! hs" using \<open>val \<noteq> []\<close> calculation l(8) p(1) by (simp add: hd_conv_nth val_def)
    moreover have "last val = ?m ! (he - 1)" using calculation(1) l(8) p(1) by (simp add: last_subbuf val_def)
    ultimately show "hd val \<noteq> ch_sp \<and> last val \<noteq> ch_sp" using val(2) by simp
  qed
  have bytes: "set val \<inter> {ch_nul, CR, LF} = {}" using val(1) l(8) p(1) by (simp add: value_text_subbuf val_def)
  have "\<exists>j k l. subbuf ?m ns (Suc p) = name @ [ch_colon] @ replicate j ch_sp @ val @ replicate k ch_sp @ replicate l CR @ [LF] \<and> hs = ne + 1 + j
      \<or> subbuf ?m ns (Suc p) = name @ replicate l CR @ [LF] \<and> hs = ne \<and> val = []"
  proof (cases "ne = he")
    case True
    then have "all_in ?m he p {CR}" "hs = ne" using kind l by auto
    moreover have "subbuf ?m ns (Suc p) = name @ subbuf ?m he p @ subbuf ?m p (Suc p)"
      using True l ns p subbuf_split [of ns ne "Suc p" ?m] subbuf_split [of he p "Suc p" ?m] by (simp add: name_def)
    ultimately show ?thesis using True l p by (auto simp: subbuf_replicate subbuf_one val_def)
  next
    case False
    then have k: "?m ! ne = ch_colon" "ne < hs" "all_in ?m (Suc ne) hs {ch_sp}" using kind by auto
    have whole: "subbuf ?m ns (Suc p) = name @ subbuf ?m ne (Suc ne) @ subbuf ?m (Suc ne) hs @ val @ subbuf ?m he (Suc p)"
      using k l ns p subbuf_split [of ns ne "Suc p" ?m] subbuf_split [of ne "Suc ne" "Suc p" ?m] subbuf_split [of "Suc ne" hs "Suc p" ?m]
        subbuf_split [of hs he "Suc p" ?m] by (simp add: name_def val_def)
    obtain k' l' where "subbuf ?m he (Suc p) = replicate k' ch_sp @ replicate l' CR @ [LF]"
      using hl_tail_text [OF tail p(1,4)] by blast
    with whole have "subbuf ?m ns (Suc p) =
        name @ [ch_colon] @ replicate (hs - Suc ne) ch_sp @ val @ replicate k' ch_sp @ replicate l' CR @ [LF]"
      using k l p by (simp add: subbuf_replicate subbuf_one)
    moreover have "hs = ne + 1 + (hs - Suc ne)" using k(2) by simp
    ultimately show ?thesis by blast
  qed
  then obtain j k l' where whole: "subbuf ?m ns (Suc p) = name @ [ch_colon] @ replicate j ch_sp @ val @ replicate k ch_sp @ replicate l' CR @ [LF] \<and> hs = ne + 1 + j
      \<or> subbuf ?m ns (Suc p) = name @ replicate l' CR @ [LF] \<and> hs = ne \<and> val = []" by blast
  show ?thesis
    by (rule exI [of _ ns], rule exI [of _ ne], rule exI [of _ hs], rule exI [of _ he], rule exI [of _ name], rule exI [of _ val],
        rule exI [of _ j], rule exI [of _ k], rule exI [of _ l'])
      (use l ns len ends bytes p whole in auto)
qed

lemma parsed_name_kept:
  assumes "ngx_http_parse_header_line r b au = (NGX_OK, b', r')" "state r = 0"
    "length (lowcase_header r) = NGX_HTTP_LC_HEADER_LEN" "\<not> invalid_header r'"
  shows "name_kept au (subbuf (mem b) (the (header_name_start r')) (the (header_name_end r')))
    (header_hash r') (lowcase_index r') (lowcase_header r')"
proof -
  obtain p where "hl_line au (mem b) (pos b) p (header_hash r') (lowcase_index r') r'"
    using parse_header_line_post [OF assms(1-3)] by blast
  then obtain ns ne where "hl_name_inv au (mem b) ns ne (header_hash r') (lowcase_index r') r'"
    "header_name_end r' = Some ne"
    unfolding hl_line_def by blast
  with assms(4) show ?thesis by (auto simp: hl_name_inv_def)
qed

text \<open>
  When an accepted header is not marked invalid, the hash is the fold of \<^verbatim>\<open>ngx_hash\<close> over
  the lower-cased name, which is the key of the header tables; the index is the length of the name modulo the window,
  and the window holds the lower-cased name whenever it fits.
\<close>

theorem header_line_hash:
  assumes "ngx_http_parse_header_line r b au = (NGX_OK, b', r')" "state r = 0"
    "length (lowcase_header r) = NGX_HTTP_LC_HEADER_LEN" "\<not> invalid_header r'"
  shows "\<exists>name. name = map (name_byte au)
        (subbuf (mem b) (the (header_name_start r')) (the (header_name_end r')))
    \<and> 0 \<notin> set name \<and> header_hash r' = foldl ngx_hash 0 name
    \<and> unat (lowcase_index r') = length name mod NGX_HTTP_LC_HEADER_LEN
    \<and> (length name \<le> NGX_HTTP_LC_HEADER_LEN \<longrightarrow> take (length name) (lowcase_header r') = name)"
  using parsed_name_kept [OF assms] by (auto simp: name_kept_def Let_def)

section \<open>A well-formed header line is accepted\<close>

lemma hl_scan_step:
  assumes "p < length m" "hl_switch au s m p (m ! p) h i r = Next (s', h', i') r'"
  shows "scan (hl_step au) m p (hl_enc s, h, i) r = scan (hl_step au) m (Suc p) (hl_enc s', h', i') r'"
  using assms by (intro scan_Next) (simp_all add: hl_step_def)

declare hl_enc.simps [simp del]

definition header_line_text :: "u_char list \<Rightarrow> u_char list \<Rightarrow> u_char list" where
  "header_line_text name val = name @ [ch_colon, ch_sp] @ val @ [CR, LF]"

lemma header_line_text_nth:
  assumes "m = header_line_text name val"
  shows "i < length name \<Longrightarrow> m ! i = name ! i"
    and "m ! length name = ch_colon" and "m ! Suc (length name) = ch_sp"
    and "j < length val \<Longrightarrow> m ! (length name + 2 + j) = val ! j"
    and "m ! (length name + 2 + length val) = CR" and "m ! (length name + 3 + length val) = LF"
    and "length m = length name + 4 + length val"
  using assms by (simp_all add: header_line_text_def nth_append)

lemma name_byte_not_eol: "name_byte au c \<noteq> 0 \<Longrightarrow> c \<noteq> CR \<and> c \<noteq> LF"
  by (auto simp: name_byte_def lowcase_spec)

lemma hl_name_put:
  assumes "name_byte au c \<noteq> 0"
  shows "hl_name au m p c h i r = hl_put (name_byte au c) h i r"
proof (cases "lowcase ! unat c = 0")
  case True
  with assms have "c = ch_under" au by (simp_all add: name_byte_def split: if_splits)
  with True show ?thesis by (simp add: hl_name_def name_byte_def)
qed (simp add: hl_name_def name_byte_def Let_def)

lemma lowcase_colon [simp]: "lowcase ! 58 = 0"
  using lowcase_spec [of ch_colon] by simp

text \<open>The loop over the name; the hash and the window it leaves are those of \<open>header_line_hash\<close>.\<close>

lemma hl_scan_name:
  assumes m: "m = header_line_text name val" and ok: "\<forall>c\<in>set name. name_byte au c \<noteq> 0"
    and k: "0 < k" "k \<le> length name"
  shows "\<exists>h' i' lc. scan (hl_step au) m 0 (hl_enc hl_sw_start, h, i) r =
    scan (hl_step au) m k (hl_enc hl_sw_name, h', i')
      (r\<lparr>header_name_start := Some 0, invalid_header := False, lowcase_header := lc\<rparr>)"
  using k
proof (induction k)
  case 0
  then show ?case by simp
next
  case (Suc k)
  note nth = header_line_text_nth [OF m]
  have byte: "name_byte au (m ! k) \<noteq> 0" and len: "k < length m"
    using Suc.prems ok nth(1) [of k] nth(7) by auto
  show ?case
  proof (cases "k = 0")
    case True
    have "hl_switch au hl_sw_start m k (m ! k) h i r =
      Next (hl_sw_name, ngx_hash 0 (name_byte au (m ! k)), 1)
        (r\<lparr>header_name_start := Some 0, invalid_header := False,
           lowcase_header := (lowcase_header r)[0 := name_byte au (m ! k)]\<rparr>)"
      using byte name_byte_not_eol [OF byte] True
      by (auto simp: hl_switch_def hl_start_def Let_def name_byte_def split: if_splits)
    from hl_scan_step [OF len this] True show ?thesis by auto
  next
    case False
    with Suc obtain h' i' lc where IH: "scan (hl_step au) m 0 (hl_enc hl_sw_start, h, i) r =
        scan (hl_step au) m k (hl_enc hl_sw_name, h', i')
          (r\<lparr>header_name_start := Some 0, invalid_header := False, lowcase_header := lc\<rparr>)"
      by auto
    have "hl_switch au hl_sw_name m k (m ! k) h' i'
        (r\<lparr>header_name_start := Some 0, invalid_header := False, lowcase_header := lc\<rparr>) =
      Next (hl_sw_name, ngx_hash h' (name_byte au (m ! k)), (i' + 1) AND 31)
        (r\<lparr>header_name_start := Some 0, invalid_header := False,
           lowcase_header := lc[unat i' := name_byte au (m ! k)]\<rparr>)"
      using hl_name_put [OF byte] by (simp add: hl_switch_def hl_put_def)
    from hl_scan_step [OF len this] IH show ?thesis by auto
  qed
qed

lemma hl_scan_value:
  assumes m: "m = header_line_text name val" and ok: "set val \<inter> {ch_nul, CR, LF} = {}"
    and r: "header_start r = Some (length name + 2)" and k: "0 < k" "k \<le> length val"
    and first: "val ! 0 \<noteq> ch_sp"
  shows "\<exists>he. scan (hl_step au) m (length name + 3) (hl_enc hl_sw_value, h, i) r =
    scan (hl_step au) m (length name + 2 + k)
      (hl_enc (if val ! (k - 1) = ch_sp then hl_sw_space_after_value else hl_sw_value), h, i)
      (r\<lparr>header_end := he\<rparr>)"
  using k
proof (induction k)
  case 0
  then show ?case by simp
next
  case (Suc k)
  note nth = header_line_text_nth [OF m]
  show ?case
  proof (cases "k = 0")
    case True
    then show ?thesis using first by (intro exI [of _ "header_end r"]) (simp add: numeral_3_eq_3)
  next
    case False
    let ?st = "\<lambda>j. if val ! j = ch_sp then hl_sw_space_after_value else hl_sw_value"
    from False Suc obtain he where IH: "scan (hl_step au) m (length name + 3) (hl_enc hl_sw_value, h, i) r =
        scan (hl_step au) m (length name + 2 + k) (hl_enc (?st (k - 1)), h, i) (r\<lparr>header_end := he\<rparr>)"
      by auto
    have len: "length name + 2 + k < length m" and c: "m ! (length name + 2 + k) = val ! k"
      using Suc.prems nth(4) [of k] nth(7) by auto
    from Suc.prems have "val ! k \<in> set val" by simp
    with ok have "val ! k \<notin> {ch_nul, CR, LF}" by blast
    then have "\<exists>he'. hl_switch au (?st (k - 1)) m (length name + 2 + k) (val ! k) h i (r\<lparr>header_end := he\<rparr>)
        = Next (?st k, h, i) (r\<lparr>header_end := he'\<rparr>)"
      by (auto simp: hl_switch_def hl_value_def hl_space_after_value_def intro: exI [of _ he])
    with hl_scan_step [OF len] c IH show ?thesis by fastforce
  qed
qed

text \<open>
  C38: every line \<^verbatim>\<open>Name: value CR LF\<close> with a valid name and a value without NUL, CR, LF and outer
  blanks is accepted to its last byte, its four pointers delimit the name and the value, and the hash
  is that of the lower-cased name.
\<close>

theorem header_line_accepts:
  assumes "name \<noteq> []" "\<forall>c\<in>set name. name_byte au c \<noteq> 0"
    and "val \<noteq> []" "set val \<inter> {ch_nul, CR, LF} = {}" "hd val \<noteq> ch_sp" "last val \<noteq> ch_sp"
    and "state r = 0" "length (lowcase_header r) = NGX_HTTP_LC_HEADER_LEN"
  shows "\<exists>r'. ngx_http_parse_header_line r \<lparr>mem = header_line_text name val, pos = 0\<rparr> au =
      (NGX_OK, \<lparr>mem = header_line_text name val, pos = length name + 4 + length val\<rparr>, r')
    \<and> header_name_start r' = Some 0 \<and> header_name_end r' = Some (length name)
    \<and> header_start r' = Some (length name + 2) \<and> header_end r' = Some (length name + 2 + length val)
    \<and> \<not> invalid_header r' \<and> header_hash r' = foldl ngx_hash 0 (map (name_byte au) name)"
proof -
  define m where "m = header_line_text name val"
  note nth = header_line_text_nth [OF m_def]
  let ?n = "length name" and ?v = "length val"
  from assms(3) have v: "0 < ?v" "val ! 0 \<noteq> ch_sp" "val ! (?v - 1) \<noteq> ch_sp"
    using assms(5,6) by (simp_all add: hd_conv_nth last_conv_nth)
  have v0: "m ! (?n + 2) = val ! 0" using nth(4) [of 0] v by simp
  have v0': "val ! 0 \<notin> {ch_nul, CR, LF}" using assms(4) nth_mem [OF v(1)] by blast
  obtain h i lc where "scan (hl_step au) m 0 (hl_load r) r =
      scan (hl_step au) m ?n (hl_enc hl_sw_name, h, i)
        (r\<lparr>header_name_start := Some 0, invalid_header := False, lowcase_header := lc\<rparr>)"
    using hl_scan_name [OF m_def assms(2), of ?n "header_hash r" "lowcase_index r" r] assms(1,7)
    by (auto simp: hl_load_def hl_enc.simps)
  also have "\<dots> = scan (hl_step au) m (Suc ?n) (hl_enc hl_sw_space_before_value, h, i)
        (r\<lparr>header_name_start := Some 0, invalid_header := False, lowcase_header := lc, header_name_end := Some ?n\<rparr>)"
    using nth(2,7) by (intro hl_scan_step) (simp_all add: hl_switch_def hl_name_def)
  also have "\<dots> = scan (hl_step au) m (Suc (Suc ?n)) (hl_enc hl_sw_space_before_value, h, i)
        (r\<lparr>header_name_start := Some 0, invalid_header := False, lowcase_header := lc, header_name_end := Some ?n\<rparr>)"
    using nth(3,7) by (intro hl_scan_step) (simp_all add: hl_switch_def hl_space_before_value_def)
  also have "\<dots> = scan (hl_step au) m (Suc (Suc (Suc ?n))) (hl_enc hl_sw_value, h, i)
        (r\<lparr>header_name_start := Some 0, invalid_header := False, lowcase_header := lc,
           header_name_end := Some ?n, header_start := Some (?n + 2)\<rparr>)"
    using v0 v0' v nth(7) by (intro hl_scan_step) (auto simp: hl_switch_def hl_space_before_value_def)
  finally obtain he where "scan (hl_step au) m 0 (hl_load r) r =
      scan (hl_step au) m (?n + 2 + ?v) (hl_enc hl_sw_value, h, i)
        (r\<lparr>header_name_start := Some 0, invalid_header := False, lowcase_header := lc,
           header_name_end := Some ?n, header_start := Some (?n + 2), header_end := he\<rparr>)"
    using hl_scan_value [OF m_def assms(4) _ v(1) order_refl v(2), of
        "r\<lparr>header_name_start := Some 0, invalid_header := False, lowcase_header := lc,
           header_name_end := Some ?n, header_start := Some (?n + 2)\<rparr>" au h i] v(3)
    by (auto simp: numeral_3_eq_3)
  also have "\<dots> = scan (hl_step au) m (Suc (?n + 2 + ?v)) (hl_enc hl_sw_almost_done, h, i)
        (r\<lparr>header_name_start := Some 0, invalid_header := False, lowcase_header := lc,
           header_name_end := Some ?n, header_start := Some (?n + 2), header_end := Some (?n + 2 + ?v)\<rparr>)"
    using nth(5,7) by (intro hl_scan_step) (auto simp: hl_switch_def hl_value_def)
  finally have ok: "ngx_http_parse_header_line r \<lparr>mem = m, pos = 0\<rparr> au =
      (NGX_OK, \<lparr>mem = m, pos = ?n + 4 + ?v\<rparr>,
       r\<lparr>header_name_start := Some 0, invalid_header := False, lowcase_header := lc,
         header_name_end := Some ?n, header_start := Some (?n + 2), header_end := Some (?n + 2 + ?v),
         state := 0, header_hash := h, lowcase_index := i\<rparr>)"
    using nth(6,7) scan_Exit [of "?n + 3 + ?v" m "hl_step au" "(hl_enc hl_sw_almost_done, h, i)"]
    by (simp add: ngx_http_parse_header_line_def run_parser_def hl_step_def hl_switch_def
        hl_almost_done_def hl_finish_def numeral_eq_Suc)
  have "h = foldl ngx_hash 0 (map (name_byte au) (take ?n m))"
    using parsed_name_kept [OF ok assms(7,8)] by (simp add: subbuf_def name_kept_def Let_def)
  with ok show ?thesis by (simp add: m_def header_line_text_def)
qed

section \<open>Witnesses\<close>

definition sample_header :: ngx_buf_t where
  "sample_header = \<lparr>mem = str ''Host: a b '' @ [CR, LF], pos = 0\<rparr>"

lemma sample_header_ok:
  "fst (ngx_http_parse_header_line fresh_request sample_header False) = NGX_OK"
  "\<not> invalid_header (snd (snd (ngx_http_parse_header_line fresh_request sample_header False)))"
  "state fresh_request = 0" "length (lowcase_header fresh_request) = NGX_HTTP_LC_HEADER_LEN"
  by code_simp+

theorem header_line_shape_witness:
  "\<exists>b' r'. ngx_http_parse_header_line fresh_request sample_header False = (NGX_OK, b', r')
    \<and> pos b' \<le> length (mem sample_header) \<and> header_end r' \<noteq> None"
  using header_line_shape [of fresh_request sample_header False] sample_header_ok
  by (cases "ngx_http_parse_header_line fresh_request sample_header False") fastforce

theorem header_line_hash_witness:
  "\<exists>b' r' name. ngx_http_parse_header_line fresh_request sample_header False = (NGX_OK, b', r')
    \<and> header_hash r' = foldl ngx_hash 0 name"
  using header_line_hash [of fresh_request sample_header False] sample_header_ok
  by (cases "ngx_http_parse_header_line fresh_request sample_header False") fastforce

theorem header_line_accepts_witness:
  "\<exists>r'. ngx_http_parse_header_line fresh_request
      \<lparr>mem = header_line_text (str ''Host'') (str ''a b''), pos = 0\<rparr> False =
      (NGX_OK, \<lparr>mem = header_line_text (str ''Host'') (str ''a b''), pos = 11\<rparr>, r')"
  using header_line_accepts [of "str ''Host''" False "str ''a b''" fresh_request] sample_header_ok
  by (auto simp: name_byte_def lowcase_spec)

end
