(* ===== verification/Ngx_Status_Line.thy ===== *)
theory Ngx_Status_Line
  imports Ngx_Request
begin

text \<open>
  \<^verbatim>\<open>ngx_http_parse_status_line\<close> of
  \<^verbatim>\<open>src/reference/nginx-master/src/http/ngx_http_parse.c\<close>: the first line of an upstream
  response. It writes to the request (\<^verbatim>\<open>state\<close>, \<^verbatim>\<open>http_major\<close>, \<^verbatim>\<open>http_minor\<close>) and to a
  \<^verbatim>\<open>ngx_http_status_t\<close>, so the loop runs over the pair of them.
\<close>

section \<open>The parser\<close>

record ngx_http_status_t =
  st_http_version :: ngx_uint_t
  st_code :: ngx_uint_t
  st_count :: ngx_uint_t
  st_start :: ptr
  st_end :: ptr

definition fresh_status :: ngx_http_status_t where
  "fresh_status = \<lparr>st_http_version = 0, st_code = 0, st_count = 0, st_start = None, st_end = None\<rparr>"

datatype sl_state =
    sl_sw_start | sl_sw_H | sl_sw_HT | sl_sw_HTT | sl_sw_HTTP | sl_sw_first_major_digit
  | sl_sw_major_digit | sl_sw_first_minor_digit | sl_sw_minor_digit | sl_sw_status
  | sl_sw_space_after_status | sl_sw_status_text | sl_sw_almost_done

definition sl_states :: "sl_state list" where
  "sl_states =
     [sl_sw_start, sl_sw_H, sl_sw_HT, sl_sw_HTT, sl_sw_HTTP, sl_sw_first_major_digit,
      sl_sw_major_digit, sl_sw_first_minor_digit, sl_sw_minor_digit, sl_sw_status,
      sl_sw_space_after_status, sl_sw_status_text, sl_sw_almost_done]"

definition sl_dec :: "nat \<Rightarrow> sl_state option" where
  "sl_dec n = (if n < length sl_states then Some (sl_states ! n) else None)"

primrec sl_enc :: "sl_state \<Rightarrow> nat" where
  "sl_enc sl_sw_start = 0"
| "sl_enc sl_sw_H = 1"
| "sl_enc sl_sw_HT = 2"
| "sl_enc sl_sw_HTT = 3"
| "sl_enc sl_sw_HTTP = 4"
| "sl_enc sl_sw_first_major_digit = 5"
| "sl_enc sl_sw_major_digit = 6"
| "sl_enc sl_sw_first_minor_digit = 7"
| "sl_enc sl_sw_minor_digit = 8"
| "sl_enc sl_sw_status = 9"
| "sl_enc sl_sw_space_after_status = 10"
| "sl_enc sl_sw_status_text = 11"
| "sl_enc sl_sw_almost_done = 12"

lemma sl_dec_enc [simp]: "sl_dec (sl_enc s) = Some s"
  by (cases s) (simp_all add: sl_dec_def sl_states_def)

datatype sl_exit = SL_done | SL_error

type_synonym sl_data = "ngx_http_request_t \<times> ngx_http_status_t"
type_synonym sl_act = "(sl_state, sl_data, sl_exit) act"

abbreviation (input) sl_error :: "ngx_http_request_t \<Rightarrow> ngx_http_status_t \<Rightarrow> sl_act" where
  "sl_error r st \<equiv> Exit SL_error (r, st)"

definition sl_expect ::
  "u_char \<Rightarrow> sl_state \<Rightarrow> u_char \<Rightarrow> ngx_http_request_t \<Rightarrow> ngx_http_status_t \<Rightarrow> sl_act" where
  [ngx_step_defs]: "sl_expect c next ch r st =
     (if ch = c then Next next (r, st) else sl_error r st)"

definition sl_first_major_digit :: "u_char \<Rightarrow> ngx_http_request_t \<Rightarrow> ngx_http_status_t \<Rightarrow> sl_act" where
  [ngx_step_defs]: "sl_first_major_digit ch r st =
     (if ch < ch_1 \<or> ch > ch_9 then sl_error r st
      else Next sl_sw_major_digit (r\<lparr>http_major := ucast (ch - ch_0)\<rparr>, st))"

definition sl_major_digit :: "u_char \<Rightarrow> ngx_http_request_t \<Rightarrow> ngx_http_status_t \<Rightarrow> sl_act" where
  [ngx_step_defs]: "sl_major_digit ch r st =
     (if ch = ch_dot then Next sl_sw_first_minor_digit (r, st)
      else if ch < ch_0 \<or> ch > ch_9 then sl_error r st
      else if http_major r > 99 then sl_error r st
      else Next sl_sw_major_digit (r\<lparr>http_major := http_major r * 10 + ucast (ch - ch_0)\<rparr>, st))"

definition sl_first_minor_digit :: "u_char \<Rightarrow> ngx_http_request_t \<Rightarrow> ngx_http_status_t \<Rightarrow> sl_act" where
  [ngx_step_defs]: "sl_first_minor_digit ch r st =
     (if ch < ch_0 \<or> ch > ch_9 then sl_error r st
      else Next sl_sw_minor_digit (r\<lparr>http_minor := ucast (ch - ch_0)\<rparr>, st))"

definition sl_minor_digit :: "u_char \<Rightarrow> ngx_http_request_t \<Rightarrow> ngx_http_status_t \<Rightarrow> sl_act" where
  [ngx_step_defs]: "sl_minor_digit ch r st =
     (if ch = ch_sp then Next sl_sw_status (r, st)
      else if ch < ch_0 \<or> ch > ch_9 then sl_error r st
      else if http_minor r > 99 then sl_error r st
      else Next sl_sw_minor_digit (r\<lparr>http_minor := http_minor r * 10 + ucast (ch - ch_0)\<rparr>, st))"

definition sl_status :: "nat \<Rightarrow> u_char \<Rightarrow> ngx_http_request_t \<Rightarrow> ngx_http_status_t \<Rightarrow> sl_act" where
  [ngx_step_defs]: "sl_status p ch r st =
     (if ch = ch_sp then Next sl_sw_status (r, st)
      else if ch < ch_0 \<or> ch > ch_9 then sl_error r st
      else (let st = st\<lparr>st_code := st_code st * 10 + ucast (ch - ch_0)\<rparr>;
                st = st\<lparr>st_count := st_count st + 1\<rparr>
            in if st_count st = 3
               then Next sl_sw_space_after_status (r, st\<lparr>st_start := Some (p - 2)\<rparr>)
               else Next sl_sw_status (r, st)))"

definition sl_space_after_status :: "u_char \<Rightarrow> ngx_http_request_t \<Rightarrow> ngx_http_status_t \<Rightarrow> sl_act" where
  [ngx_step_defs]: "sl_space_after_status ch r st =
     (if ch = ch_sp then Next sl_sw_status_text (r, st)
      else if ch = ch_dot then Next sl_sw_status_text (r, st)
      else if ch = CR then Next sl_sw_almost_done (r, st)
      else if ch = LF then Exit SL_done (r, st)
      else sl_error r st)"

definition sl_status_text :: "u_char \<Rightarrow> ngx_http_request_t \<Rightarrow> ngx_http_status_t \<Rightarrow> sl_act" where
  [ngx_step_defs]: "sl_status_text ch r st =
     (if ch = CR then Next sl_sw_almost_done (r, st)
      else if ch = LF then Exit SL_done (r, st)
      else Next sl_sw_status_text (r, st))"

definition sl_almost_done :: "nat \<Rightarrow> u_char \<Rightarrow> ngx_http_request_t \<Rightarrow> ngx_http_status_t \<Rightarrow> sl_act" where
  [ngx_step_defs]: "sl_almost_done p ch r st =
     (let st = st\<lparr>st_end := Some (p - 1)\<rparr> in
      if ch = LF then Exit SL_done (r, st) else sl_error r st)"

definition sl_switch ::
  "sl_state \<Rightarrow> nat \<Rightarrow> u_char \<Rightarrow> ngx_http_request_t \<Rightarrow> ngx_http_status_t \<Rightarrow> sl_act" where
  "sl_switch s p ch r st =
     (case s of
        sl_sw_start \<Rightarrow> sl_expect ch_H sl_sw_H ch r st
      | sl_sw_H \<Rightarrow> sl_expect ch_T sl_sw_HT ch r st
      | sl_sw_HT \<Rightarrow> sl_expect ch_T sl_sw_HTT ch r st
      | sl_sw_HTT \<Rightarrow> sl_expect ch_P sl_sw_HTTP ch r st
      | sl_sw_HTTP \<Rightarrow> sl_expect ch_slash sl_sw_first_major_digit ch r st
      | sl_sw_first_major_digit \<Rightarrow> sl_first_major_digit ch r st
      | sl_sw_major_digit \<Rightarrow> sl_major_digit ch r st
      | sl_sw_first_minor_digit \<Rightarrow> sl_first_minor_digit ch r st
      | sl_sw_minor_digit \<Rightarrow> sl_minor_digit ch r st
      | sl_sw_status \<Rightarrow> sl_status p ch r st
      | sl_sw_space_after_status \<Rightarrow> sl_space_after_status ch r st
      | sl_sw_status_text \<Rightarrow> sl_status_text ch r st
      | sl_sw_almost_done \<Rightarrow> sl_almost_done p ch r st)"

definition sl_step :: "(nat, sl_data, sl_exit) step" where
  "sl_step buf p ch n d =
     (case sl_dec n of
        None \<Rightarrow> Next n d
      | Some s \<Rightarrow>
        (case sl_switch s p ch (fst d) (snd d) of
           Next s' d' \<Rightarrow> Next (sl_enc s') d'
         | Exit x d' \<Rightarrow> Exit x d'))"

definition sl_load :: "sl_data \<Rightarrow> nat" where "sl_load d = state (fst d)"

definition sl_save :: "nat \<Rightarrow> sl_data \<Rightarrow> sl_data" where
  "sl_save n d = ((fst d)\<lparr>state := n\<rparr>, snd d)"

definition sl_finish :: "nat \<Rightarrow> sl_exit \<Rightarrow> ngx_buf_t \<Rightarrow> sl_data \<Rightarrow> int \<times> ngx_buf_t \<times> sl_data" where
  "sl_finish p x b d =
     (case x of
        SL_error \<Rightarrow> (NGX_ERROR, b, d)
      | SL_done \<Rightarrow>
        (let r = fst d; st = snd d;
             b = b\<lparr>pos := p + 1\<rparr>;
             st = (if st_end st = None then st\<lparr>st_end := Some p\<rparr> else st);
             st = st\<lparr>st_http_version := ucast (http_major r) * 1000 + ucast (http_minor r)\<rparr>;
             r = r\<lparr>state := 0\<rparr>
         in (NGX_OK, b, (r, st))))"

definition ngx_http_parse_status_line ::
  "ngx_http_request_t \<Rightarrow> ngx_buf_t \<Rightarrow> ngx_http_status_t \<Rightarrow> int \<times> ngx_buf_t \<times> sl_data" where
  "ngx_http_parse_status_line r b status = run_parser sl_step sl_load sl_save sl_finish b (r, status)"

section \<open>The status line parser is resumable\<close>

lemma sl_switch_state:
  "sl_switch s p c (r\<lparr>state := t\<rparr>) st = map_act id (sl_save t) id (sl_switch s p c r st)"
  by (cases s)
    (simp_all add: sl_switch_def ngx_step_defs sl_save_def Let_def if_distrib [of "map_act _ _ _"]
      state_upd_commute cong: if_cong split del: if_split)

definition sl_erase :: "int \<Rightarrow> sl_data \<Rightarrow> sl_data" where
  "sl_erase rc d = (if rc = NGX_ERROR then sl_save 0 d else d)"

interpretation status_line: resumable_parser sl_step sl_load sl_save sl_finish
    "\<lambda>rc. rc \<noteq> NGX_ERROR" sl_erase
proof
  show "sl_step m p c s (sl_save t r) = map_act id (sl_save t) id (sl_step m p c s r)" for m p c s t r
  proof (cases "sl_dec s")
    case (Some u)
    have "sl_switch u p c (fst (sl_save t r)) (snd (sl_save t r)) =
        map_act id (sl_save t) id (sl_switch u p c (fst r) (snd r))"
      using sl_switch_state [of u p c t "fst r" "snd r"] by (simp add: sl_save_def)
    then show ?thesis using Some by (simp add: sl_step_def split: act.split)
  qed (simp add: sl_step_def)
  show "observe (\<lambda>rc. rc \<noteq> NGX_ERROR) sl_erase (sl_finish p x (b\<lparr>pos := n\<rparr>) (sl_save s r)) =
      observe (\<lambda>rc. rc \<noteq> NGX_ERROR) sl_erase (sl_finish p x b r)" for p x b n r s
    by (cases x) (simp_all add: sl_finish_def sl_save_def observe_def sl_erase_def Let_def)
  show "sl_finish p x (buf_append b ys) r =
      map_prod id (map_prod (\<lambda>b'. buf_append b' ys) id) (sl_finish p x b r)" for p x b ys r
    by (cases x) (simp_all add: sl_finish_def buf_append_def Let_def)
  show "fst (sl_finish p x b r) \<noteq> NGX_AGAIN" for p x b r
    by (cases x) (simp_all add: sl_finish_def Let_def)
qed (simp_all add: sl_step_def sl_load_def sl_save_def)

text \<open>
  a status line may arrive in any pieces: the answer, the position and the parsed status are those
  of one call on all the bytes.
\<close>

theorem status_line_feed:
  "observe (\<lambda>rc. rc \<noteq> NGX_ERROR) sl_erase
     (feed (\<lambda>b d. ngx_http_parse_status_line (fst d) b (snd d)) b (r, st) pieces) =
   observe (\<lambda>rc. rc \<noteq> NGX_ERROR) sl_erase
     (ngx_http_parse_status_line r (buf_append b (concat pieces)) st)"
  using status_line.feed_eq_parse [of b "(r, st)" pieces]
  by (simp add: ngx_http_parse_status_line_def)

section \<open>What an accepted status line means\<close>

abbreviation ver_major_ok :: "ngx_http_request_t \<Rightarrow> bool" where
  "ver_major_ok r \<equiv> 1 \<le> unat (http_major r) \<and> unat (http_major r) \<le> 999"

abbreviation ver_minor_ok :: "ngx_http_request_t \<Rightarrow> bool" where
  "ver_minor_ok r \<equiv> unat (http_minor r) \<le> 999"

text \<open>The number that a list of digit bytes denotes.\<close>

definition dec_value :: "u_char list \<Rightarrow> nat" where
  "dec_value ds = foldl (\<lambda>v d. v * 10 + unat (d - ch_0)) 0 ds"

lemma dec_value_snoc [simp]: "dec_value (ds @ [d]) = dec_value ds * 10 + unat (d - ch_0)"
  and dec_value_Nil [simp]: "dec_value [] = 0"
  by (simp_all add: dec_value_def)

lemma dec_value_less:
  "list_all (\<lambda>d. is_digit d) ds \<Longrightarrow> dec_value ds < 10 ^ length ds"
proof (induction ds rule: rev_induct)
  case (snoc d ds)
  then show ?case using unat_digit(4) [of d] by simp
qed simp

text \<open>The digits seen since \<open>v\<close>, the byte after the version; blanks between them are skipped.\<close>

definition sl_digits :: "u_char list \<Rightarrow> nat \<Rightarrow> nat \<Rightarrow> nat \<Rightarrow> ngx_http_status_t \<Rightarrow> bool" where
  "sl_digits m p0 v q st \<longleftrightarrow>
     p0 \<le> v \<and> v \<le> q \<and>
     (let ds = filter (\<lambda>c. c \<noteq> ch_sp) (subbuf m v q) in
        list_all (\<lambda>d. is_digit d) ds \<and> length ds \<le> 3 \<and> unat (st_count st) = length ds
        \<and> unat (st_code st) = dec_value ds)"

definition sl_text :: "u_char list \<Rightarrow> nat \<Rightarrow> nat \<Rightarrow> ngx_http_status_t \<Rightarrow> bool" where
  "sl_text m p0 e st \<longleftrightarrow>
     (\<exists>v q. sl_digits m p0 v q st \<and> unat (st_count st) = 3 \<and> v + 3 \<le> q \<and> q \<le> e
        \<and> st_start st = Some (q - 3) \<and> is_digit (m ! (q - 1)) \<and> all_in m v e (- {CR, LF}))"

definition sl_inv ::
  "u_char list \<Rightarrow> nat \<Rightarrow> sl_state \<Rightarrow> nat \<Rightarrow> ngx_http_request_t \<Rightarrow> ngx_http_status_t \<Rightarrow> bool" where
  "sl_inv m p0 s p r st \<longleftrightarrow>
     p0 \<le> p \<and> st_end st = None
     \<and> (sl_enc s \<le> 8 \<longrightarrow> st_count st = 0 \<and> st_code st = 0)
     \<and> (6 \<le> sl_enc s \<longrightarrow> ver_major_ok r) \<and> (8 \<le> sl_enc s \<longrightarrow> ver_minor_ok r)
     \<and> (case s of
          sl_sw_status \<Rightarrow> \<exists>v. sl_digits m p0 v p st \<and> unat (st_count st) < 3
        | sl_sw_space_after_status \<Rightarrow> sl_text m p0 p st
        | sl_sw_status_text \<Rightarrow> sl_text m p0 p st
        | sl_sw_almost_done \<Rightarrow> p0 < p \<and> sl_text m p0 (p - 1) st
        | _ \<Rightarrow> True)"

definition sl_post :: "u_char list \<Rightarrow> nat \<Rightarrow> nat \<Rightarrow> sl_exit \<Rightarrow> sl_data \<Rightarrow> bool" where
  "sl_post m p0 p x d \<longleftrightarrow>
     (x = SL_done \<longrightarrow>
        ver_major_ok (fst d) \<and> ver_minor_ok (fst d) \<and> m ! p = LF
        \<and> (\<exists>e\<le>p. (st_end (snd d) = Some e \<or> st_end (snd d) = None \<and> e = p) \<and> sl_text m p0 e (snd d)))"

abbreviation sl_next :: "u_char list \<Rightarrow> nat \<Rightarrow> nat \<Rightarrow> sl_act \<Rightarrow> bool" where
  "sl_next m p0 p a \<equiv>
     (case a of Next s' (r', st') \<Rightarrow> sl_inv m p0 s' (Suc p) r' st' | Exit x d' \<Rightarrow> sl_post m p0 p x d')"

lemma version_digit:
  assumes "is_digit c" "unat (v :: 16 word) \<le> 99"
  shows "unat (v * 10 + ucast (c - ch_0)) = unat v * 10 + unat (c - ch_0)"
    and "unat v * 10 + unat (c - ch_0) \<le> 999"
proof -
  from unat_digit(4) [OF assms(1)] assms(2) show "unat v * 10 + unat (c - ch_0) \<le> 999" by simp
  then show "unat (v * 10 + ucast (c - ch_0)) = unat v * 10 + unat (c - ch_0)"
    by (simp add: unat_word_ariths)
qed

lemma code_digit:
  assumes "is_digit c" "unat (v :: 64 word) \<le> 999"
  shows "unat (v * 10 + ucast (c - ch_0)) = unat v * 10 + unat (c - ch_0)"
proof -
  from unat_digit(4) [OF assms(1)] assms(2) have "unat v * 10 + unat (c - ch_0) \<le> 9999" by simp
  then show ?thesis by (simp add: unat_word_ariths)
qed

lemma sl_version_inv:
  assumes "p < length m" "sl_inv m p0 s p r st" "s \<in> {sl_sw_first_major_digit, sl_sw_major_digit,
    sl_sw_first_minor_digit, sl_sw_minor_digit}"
  shows "sl_next m p0 p (sl_switch s p (m ! p) r st)"
proof -
  have d: "unat (ucast (m ! p - ch_0) :: 16 word) \<le> 9" if "is_digit (m ! p)"
    using unat_digit(4) [OF that] by simp
  have d1: "Suc 0 \<le> unat (m ! p - ch_0)" if "\<not> m ! p < ch_1" "\<not> ch_9 < m ! p"
  proof -
    from that have "49 \<le> unat (m ! p)" "is_digit (m ! p)"
      by (simp_all add: not_less word_le_nat_alt)
    with unat_digit(1) [of "m ! p"] show ?thesis by simp
  qed
  have "sl_digits m p0 (Suc p) (Suc p) st" if "st_count st = 0" "st_code st = 0"
    using that assms(2) by (simp add: sl_digits_def sl_inv_def)
  then show ?thesis
    using assms d d1 version_digit [of "m ! p" "http_major r"] version_digit [of "m ! p" "http_minor r"]
    by (auto simp: sl_switch_def ngx_step_defs sl_inv_def sl_post_def Let_def not_less word_le_nat_alt word_less_nat_alt)
qed

text \<open>One more byte among the status digits.\<close>

lemma sl_digits_space:
  assumes "sl_digits m p0 v p st" "p < length m" "m ! p = ch_sp"
  shows "sl_digits m p0 v (Suc p) st"
  using assms by (simp add: sl_digits_def subbuf_Suc)

lemma sl_digits_digit:
  assumes "sl_digits m p0 v p st" "p < length m" "is_digit (m ! p)" "unat (st_count st) < 3"
  shows "sl_digits m p0 v (Suc p)
    (st\<lparr>st_code := st_code st * 10 + ucast (m ! p - ch_0), st_count := st_count st + 1, st_start := x\<rparr>)"
    and "unat (st_count st + 1) = Suc (unat (st_count st))"
proof -
  let ?ds = "filter (\<lambda>c. c \<noteq> ch_sp) (subbuf m v p)"
  from assms(4) show count: "unat (st_count st + 1) = Suc (unat (st_count st))"
    by (simp add: unat_word_ariths)
  from assms have ds: "list_all (\<lambda>d. is_digit d) ?ds" "length ?ds < 3" "unat (st_code st) = dec_value ?ds"
    by (simp_all add: sl_digits_def Let_def)
  have "dec_value ?ds < 10 ^ length ?ds" by (rule dec_value_less [OF ds(1)])
  also have "\<dots> \<le> 10 ^ 3" using ds(2) by (intro power_increasing) simp_all
  finally have "unat (st_code st) \<le> 999" using ds(3) by simp
  from code_digit [OF assms(3) this]
  have code: "unat (st_code st * 10 + ucast (m ! p - ch_0)) = dec_value ?ds * 10 + unat (m ! p - ch_0)"
    by (simp only: ds(3))
  from assms(3) have "m ! p \<noteq> ch_sp" by auto
  with assms ds code count show "sl_digits m p0 v (Suc p)
      (st\<lparr>st_code := st_code st * 10 + ucast (m ! p - ch_0), st_count := st_count st + 1, st_start := x\<rparr>)"
    by (simp add: sl_digits_def subbuf_Suc)
qed

lemma sl_digits_not_eol:
  assumes "sl_digits m p0 v q st" "q \<le> length m"
  shows "all_in m v q (- {CR, LF})"
proof -
  have "c \<noteq> CR \<and> c \<noteq> LF" if "c \<in> set (subbuf m v q)" for c
  proof (cases "c = ch_sp")
    case False
    with that have "c \<in> set (filter (\<lambda>c. c \<noteq> ch_sp) (subbuf m v q))" by simp
    with assms(1) have "is_digit c" by (auto simp: sl_digits_def Let_def list_all_iff)
    then show ?thesis by auto
  qed simp
  then show ?thesis using assms(2) by (auto simp: all_in_subbuf)
qed

lemma sl_status_inv:
  assumes "p < length m" "sl_inv m p0 sl_sw_status p r st"
  shows "sl_next m p0 p (sl_status p (m ! p) r st)"
proof -
  from assms obtain v where v: "sl_digits m p0 v p st" "unat (st_count st) < 3"
    and inv: "p0 \<le> p" "st_end st = None" "ver_major_ok r" "ver_minor_ok r"
    by (auto simp: sl_inv_def)
  let ?st = "\<lambda>x. st\<lparr>st_code := st_code st * 10 + ucast (m ! p - ch_0), st_count := st_count st + 1,
      st_start := x\<rparr>"
  consider "m ! p = ch_sp" | (bad) "m ! p \<noteq> ch_sp" "\<not> is_digit (m ! p)" | (digit) "is_digit (m ! p)"
    by blast
  then show ?thesis
  proof cases
    case 1
    with v inv assms(1) sl_digits_space [of m p0 v p st] show ?thesis
      by (auto simp: sl_status_def sl_inv_def)
  next
    case bad
    then show ?thesis by (auto simp: sl_status_def sl_post_def not_le)
  next
    case digit
    note d = sl_digits_digit [OF v(1) assms(1) digit v(2)]
    from digit have ch: "m ! p \<noteq> ch_sp" "\<not> m ! p < ch_0" "\<not> ch_9 < m ! p" by auto
    show ?thesis
    proof (cases "st_count st + 1 = 3")
      case True
      with d(2) have "unat (st_count st) = 2" by simp
      with v(1) have "2 \<le> length (subbuf m v p)"
        using length_filter_le [of "\<lambda>c. c \<noteq> ch_sp" "subbuf m v p"] by (simp add: sl_digits_def Let_def)
      with assms(1) have "v + 3 \<le> Suc p" "Suc p - 3 = p - 2" by simp_all
      with True digit d(1) [of "Some (p - 2)"] sl_digits_not_eol [OF d(1) [of "Some (p - 2)"]] assms(1)
      have "sl_text m p0 (Suc p) (?st (Some (p - 2)))"
        unfolding sl_text_def by (intro exI [of _ v] exI [of _ "Suc p"]) simp
      with True inv ch show ?thesis by (simp add: sl_status_def sl_inv_def Let_def)
    next
      case False
      then have "unat (st_count st + 1) \<noteq> unat (3 :: ngx_uint_t)" by (simp only: word_unat_eq_iff not_False_eq_True)
      with d(2) v(2) have "unat (st_count st + 1) < 3" by simp
      with False d(1) [of "st_start st"] inv ch show ?thesis
        by (auto simp: sl_status_def sl_inv_def Let_def)
    qed
  qed
qed

lemma sl_text_Suc:
  assumes "sl_text m p0 e st" "m ! e \<noteq> CR" "m ! e \<noteq> LF"
  shows "sl_text m p0 (Suc e) st"
  using assms unfolding sl_text_def by (fastforce simp: all_in_Suc)

lemma sl_text_end [simp]: "sl_text m p0 e (st\<lparr>st_end := x\<rparr>) = sl_text m p0 e st"
  by (simp add: sl_text_def sl_digits_def)

lemma sl_tail_inv:
  assumes "sl_inv m p0 s p r st" "s \<in> {sl_sw_space_after_status, sl_sw_status_text, sl_sw_almost_done}"
  shows "sl_next m p0 p (sl_switch s p (m ! p) r st)"
proof -
  have "sl_text m p0 p st \<Longrightarrow> m ! p \<noteq> CR \<Longrightarrow> m ! p \<noteq> LF \<Longrightarrow> sl_text m p0 (Suc p) st"
    by (rule sl_text_Suc)
  with assms show ?thesis
    by (auto simp: sl_switch_def ngx_step_defs sl_inv_def sl_post_def Let_def)
qed

lemma sl_expect_inv:
  assumes "sl_inv m p0 s p r st" "s \<in> {sl_sw_start, sl_sw_H, sl_sw_HT, sl_sw_HTT, sl_sw_HTTP}"
  shows "sl_next m p0 p (sl_switch s p (m ! p) r st)"
  using assms by (auto simp: sl_switch_def sl_expect_def sl_inv_def sl_post_def)

lemma sl_switch_inv:
  assumes "p < length m" "sl_inv m p0 s p r st"
  shows "sl_next m p0 p (sl_switch s p (m ! p) r st)"
proof -
  consider "s \<in> {sl_sw_start, sl_sw_H, sl_sw_HT, sl_sw_HTT, sl_sw_HTTP}"
    | "s \<in> {sl_sw_first_major_digit, sl_sw_major_digit, sl_sw_first_minor_digit, sl_sw_minor_digit}"
    | (status) "s = sl_sw_status"
    | "s \<in> {sl_sw_space_after_status, sl_sw_status_text, sl_sw_almost_done}"
    by (cases s) auto
  then show ?thesis
  proof cases
    case status
    with sl_status_inv [of p m p0 r st] assms show ?thesis by (simp add: sl_switch_def)
  qed (rule sl_expect_inv [OF assms(2)] sl_version_inv [OF assms] sl_tail_inv [OF assms(2)], assumption)+
qed

definition sl_loop_inv :: "u_char list \<Rightarrow> nat \<Rightarrow> nat \<Rightarrow> nat \<Rightarrow> sl_data \<Rightarrow> bool" where
  "sl_loop_inv m p0 p n d \<longleftrightarrow> (\<exists>s. n = sl_enc s \<and> sl_inv m p0 s p (fst d) (snd d))"

lemma sl_scan_inv:
  assumes "state r = 0"
  shows "case scan sl_step m p0 (sl_load (r, fresh_status)) (r, fresh_status) of
      Exhausted q n d' \<Rightarrow> sl_loop_inv m p0 q n d' \<and> length m \<le> q \<and> p0 \<le> q
    | Stopped q x d' \<Rightarrow> sl_post m p0 q x d' \<and> p0 \<le> q \<and> q < length m"
proof (rule scan_invariant)
  show "sl_loop_inv m p0 p0 (sl_load (r, fresh_status)) (r, fresh_status)"
    using assms unfolding sl_loop_inv_def
    by (intro exI [of _ sl_sw_start]) (simp add: sl_load_def sl_inv_def fresh_status_def)
next
  fix p n d n' d'
  assume p: "p < length m" and inv: "sl_loop_inv m p0 p n d" and step: "sl_step m p (m ! p) n d = Next n' d'"
  from inv obtain s where "n = sl_enc s" "sl_inv m p0 s p (fst d) (snd d)" by (auto simp: sl_loop_inv_def)
  with p step sl_switch_inv [of p m p0 s "fst d" "snd d"] show "sl_loop_inv m p0 (Suc p) n' d'"
    by (auto simp: sl_step_def sl_loop_inv_def split: act.splits)
next
  fix p n d x d'
  assume p: "p < length m" and inv: "sl_loop_inv m p0 p n d" and step: "sl_step m p (m ! p) n d = Exit x d'"
  from inv obtain s where "n = sl_enc s" "sl_inv m p0 s p (fst d) (snd d)" by (auto simp: sl_loop_inv_def)
  with p step sl_switch_inv [of p m p0 s "fst d" "snd d"] show "sl_post m p0 p x d'"
    by (auto simp: sl_step_def split: act.splits)
qed

text \<open>
  C39: a status line that is accepted into a cleared \<^verbatim>\<open>ngx_http_status_t\<close> has a version with major
  1 to 999 and minor at most 999, its code is the number of exactly three decimal digits (blanks
  between them skipped), and \<^verbatim>\<open>[start, end)\<close> lies in the consumed bytes before the line end and
  contains no CR or LF.
\<close>

theorem status_line_meaning:
  assumes "ngx_http_parse_status_line r b fresh_status = (NGX_OK, b', r', st)" "state r = 0"
  shows "\<exists>major minor v q e.
      unat (st_http_version st) = major * 1000 + minor \<and> 1 \<le> major \<and> major \<le> 999 \<and> minor \<le> 999
    \<and> st_start st = Some (q - 3) \<and> st_end st = Some e
    \<and> pos b \<le> v \<and> v + 3 \<le> q \<and> q \<le> e \<and> e < pos b' \<and> pos b' \<le> length (mem b)
    \<and> (let ds = filter (\<lambda>c. c \<noteq> ch_sp) (subbuf (mem b) v q) in
         length ds = 3 \<and> list_all (\<lambda>d. is_digit d) ds \<and> unat (st_code st) = dec_value ds)
    \<and> set (subbuf (mem b) v e) \<inter> {CR, LF} = {} \<and> mem b ! (pos b' - 1) = LF"
proof -
  obtain p d where stop: "scan sl_step (mem b) (pos b) (sl_load (r, fresh_status)) (r, fresh_status)
      = Stopped p SL_done d"
    and fin: "sl_finish p SL_done b d = (NGX_OK, b', r', st)"
    using assms(1) by (auto simp: ngx_http_parse_status_line_def run_parser_def sl_finish_def
        split: scan_result.splits sl_exit.splits)
  with sl_scan_inv [OF assms(2), of "mem b" "pos b"] have post: "sl_post (mem b) (pos b) p SL_done d"
    and p: "p < length (mem b)" by simp_all
  then obtain e where ver: "ver_major_ok (fst d)" "ver_minor_ok (fst d)" and lf: "mem b ! p = LF"
    and e: "e \<le> p" "st_end (snd d) = Some e \<or> st_end (snd d) = None \<and> e = p"
    and tail: "sl_text (mem b) (pos b) e (snd d)"
    by (auto simp: sl_post_def)
  from tail obtain v q where vq: "sl_digits (mem b) (pos b) v q (snd d)" "unat (st_count (snd d)) = 3"
      "v + 3 \<le> q" "q \<le> e" "st_start (snd d) = Some (q - 3)" "all_in (mem b) v e (- {CR, LF})"
    by (auto simp: sl_text_def)
  from fin e have st: "st_start st = st_start (snd d)" "st_code st = st_code (snd d)"
      "st_end st = Some e" "st_http_version st = ucast (http_major (fst d)) * 1000 + ucast (http_minor (fst d))"
    and b': "pos b' = Suc p"
    by (auto simp: sl_finish_def Let_def split: if_splits)
  from ver have "unat (http_major (fst d)) * 1000 + unat (http_minor (fst d)) < 2 ^ 64" by simp
  then have version: "unat (st_http_version st) = unat (http_major (fst d)) * 1000 + unat (http_minor (fst d))"
    using ver by (simp add: st unat_word_ariths)
  have clean: "set (subbuf (mem b) v e) \<inter> {CR, LF} = {}"
    using vq(6) e(1) p by (auto simp: all_in_subbuf)
  have digits: "let ds = filter (\<lambda>c. c \<noteq> ch_sp) (subbuf (mem b) v q) in
      length ds = 3 \<and> list_all (\<lambda>d. is_digit d) ds \<and> unat (st_code st) = dec_value ds"
    using vq(1,2) st(2) by (simp add: sl_digits_def Let_def)
  have bounds: "pos b \<le> v" "e < pos b'" "pos b' \<le> length (mem b)" "mem b ! (pos b' - 1) = LF"
    using vq(1) e(1) p lf b' by (simp_all add: sl_digits_def)
  show ?thesis
    by (intro exI [of _ "unat (http_major (fst d))"] exI [of _ "unat (http_minor (fst d))"] exI [of _ v]
        exI [of _ q] exI [of _ e] conjI version ver vq(3,4)
        digits clean bounds st(3)) (use ver in \<open>simp_all add: st vq\<close>)
qed

text \<open>
  The digits of the code need not be adjacent. In \<^verbatim>\<open>HTTP/1.1 2 0 0 OK\<close> the parser reads the code
  200, but \<^verbatim>\<open>status->start\<close>, computed as \<^verbatim>\<open>p - 2\<close>, points at the second digit: the status
  line handed on starts with \<^verbatim>\<open>0 0\<close>.
\<close>

theorem status_line_split_digits:
  "case ngx_http_parse_status_line fresh_request
      \<lparr>mem = str ''HTTP/1.1 2 0 0 OK'' @ [CR, LF], pos = 0\<rparr> fresh_status of
     (rc, b', r', st) \<Rightarrow> rc = NGX_OK \<and> st_code st = 200
       \<and> subbuf (mem b') (the (st_start st)) (the (st_end st)) = str ''0 0 OK''"
  by code_simp

theorem status_line_meaning_witness:
  "\<exists>b' r' st. ngx_http_parse_status_line fresh_request
      \<lparr>mem = str ''HTTP/1.1 404 Not Found'' @ [CR, LF], pos = 0\<rparr> fresh_status = (NGX_OK, b', r', st)
    \<and> (\<exists>major minor. unat (st_http_version st) = major * 1000 + minor \<and> major \<le> 999)"
proof -
  let ?b = "\<lparr>mem = str ''HTTP/1.1 404 Not Found'' @ [CR, LF], pos = 0\<rparr>"
  have "fst (ngx_http_parse_status_line fresh_request ?b fresh_status) = NGX_OK" "state fresh_request = 0"
    by code_simp+
  then show ?thesis
    using status_line_meaning [of fresh_request ?b]
    by (cases "ngx_http_parse_status_line fresh_request ?b fresh_status") fastforce
qed

end
