(* ===== verification/Ngx_Chunked.thy ===== *)
theory Ngx_Chunked
  imports Ngx_Scan
begin

text \<open>
  \<^verbatim>\<open>ngx_http_parse_chunked\<close> of
  \<^verbatim>\<open>src/reference/nginx-master/src/http/ngx_http_parse.c\<close>: the framing of a chunked body. The
  parser stops with \<^verbatim>\<open>NGX_OK\<close> at the first byte of chunk data and leaves the data to its caller,
  which lowers \<^verbatim>\<open>ctx->size\<close> by what it takes. The request is an argument of the C function only for
  its log, so the model has no such argument. \<^verbatim>\<open>off_t\<close> is a signed 64-bit type: the two fields of
  that type are \<^typ>\<open>int\<close>, and \<open>chunked_no_overflow\<close> shows that they stay in range.
\<close>

section \<open>The parser\<close>

record ngx_http_chunked_t =
  ck_state :: nat
  ck_size :: int
  ck_length :: int

abbreviation (input) NGX_MAX_OFF_T_VALUE :: int where "NGX_MAX_OFF_T_VALUE \<equiv> 0x7fffffffffffffff"

datatype ck_sw =
    sw_chunk_start | sw_chunk_size | sw_chunk_extension | sw_chunk_extension_almost_done
  | sw_chunk_data | sw_after_data | sw_after_data_almost_done | sw_last_chunk_extension
  | sw_last_chunk_extension_almost_done | sw_trailer | sw_trailer_almost_done | sw_trailer_header
  | sw_trailer_header_almost_done

definition ck_states :: "ck_sw list" where
  "ck_states =
     [sw_chunk_start, sw_chunk_size, sw_chunk_extension, sw_chunk_extension_almost_done,
      sw_chunk_data, sw_after_data, sw_after_data_almost_done, sw_last_chunk_extension,
      sw_last_chunk_extension_almost_done, sw_trailer, sw_trailer_almost_done, sw_trailer_header,
      sw_trailer_header_almost_done]"

definition ck_dec :: "nat \<Rightarrow> ck_sw option" where
  "ck_dec n = (if n < length ck_states then Some (ck_states ! n) else None)"

primrec ck_enc :: "ck_sw \<Rightarrow> nat" where
  "ck_enc sw_chunk_start = 0"
| "ck_enc sw_chunk_size = 1"
| "ck_enc sw_chunk_extension = 2"
| "ck_enc sw_chunk_extension_almost_done = 3"
| "ck_enc sw_chunk_data = 4"
| "ck_enc sw_after_data = 5"
| "ck_enc sw_after_data_almost_done = 6"
| "ck_enc sw_last_chunk_extension = 7"
| "ck_enc sw_last_chunk_extension_almost_done = 8"
| "ck_enc sw_trailer = 9"
| "ck_enc sw_trailer_almost_done = 10"
| "ck_enc sw_trailer_header = 11"
| "ck_enc sw_trailer_header_almost_done = 12"

lemma ck_dec_enc [simp]: "ck_dec (ck_enc s) = Some s"
  by (cases s) (simp_all add: ck_dec_def ck_states_def)

lemma ck_enc_inject [simp]: "ck_enc s = ck_enc t \<longleftrightarrow> s = t"
  by (metis ck_dec_enc option.inject)

declare ck_enc.simps [simp del]

datatype ck_exit = CK_data | CK_done | CK_invalid

type_synonym ck_act = "(ck_sw, ngx_http_chunked_t, ck_exit) act"

definition ck_chunk_start :: "u_char \<Rightarrow> ngx_http_chunked_t \<Rightarrow> ck_act" where
  [ngx_step_defs]: "ck_chunk_start ch ctx =
     (if is_digit ch then Next sw_chunk_size (ctx\<lparr>ck_size := int (unat ch) - int (unat ch_0)\<rparr>)
      else (let c = fold_case ch in
        if ch_a \<le> c \<and> c \<le> ch_f
        then Next sw_chunk_size (ctx\<lparr>ck_size := int (unat c) - int (unat ch_a) + 10\<rparr>)
        else Exit CK_invalid ctx))"

definition ck_chunk_size :: "bool \<Rightarrow> u_char \<Rightarrow> ngx_http_chunked_t \<Rightarrow> ck_act" where
  [ngx_step_defs]: "ck_chunk_size keep_trailers ch ctx =
     (if ck_size ctx > NGX_MAX_OFF_T_VALUE div 16 then Exit CK_invalid ctx
      else if is_digit ch then
        Next sw_chunk_size (ctx\<lparr>ck_size := ck_size ctx * 16 + (int (unat ch) - int (unat ch_0))\<rparr>)
      else (let c = fold_case ch in
        if ch_a \<le> c \<and> c \<le> ch_f then
          Next sw_chunk_size (ctx\<lparr>ck_size := ck_size ctx * 16 + (int (unat c) - int (unat ch_a) + 10)\<rparr>)
        else if ck_size ctx = 0 then
          (if ch = CR then Next sw_last_chunk_extension_almost_done ctx
           else if ch = LF then
             (if keep_trailers then Exit CK_done ctx else Next sw_trailer ctx)
           else if ch = ch_semi \<or> ch = ch_sp \<or> ch = ch_tab then Next sw_last_chunk_extension ctx
           else Exit CK_invalid ctx)
        else
          (if ch = CR then Next sw_chunk_extension_almost_done ctx
           else if ch = LF then Next sw_chunk_data ctx
           else if ch = ch_semi \<or> ch = ch_sp \<or> ch = ch_tab then Next sw_chunk_extension ctx
           else Exit CK_invalid ctx)))"

definition ck_chunk_extension :: "u_char \<Rightarrow> ngx_http_chunked_t \<Rightarrow> ck_act" where
  [ngx_step_defs]: "ck_chunk_extension ch ctx =
     (if ch = CR then Next sw_chunk_extension_almost_done ctx
      else if ch = LF then Next sw_chunk_data ctx
      else Next sw_chunk_extension ctx)"

definition ck_chunk_extension_almost_done :: "u_char \<Rightarrow> ngx_http_chunked_t \<Rightarrow> ck_act" where
  [ngx_step_defs]: "ck_chunk_extension_almost_done ch ctx =
     (if ch = LF then Next sw_chunk_data ctx else Exit CK_invalid ctx)"

definition ck_after_data :: "u_char \<Rightarrow> ngx_http_chunked_t \<Rightarrow> ck_act" where
  [ngx_step_defs]: "ck_after_data ch ctx =
     (if ch = CR then Next sw_after_data_almost_done ctx
      else if ch = LF then Next sw_chunk_start ctx
      else Exit CK_invalid ctx)"

definition ck_after_data_almost_done :: "u_char \<Rightarrow> ngx_http_chunked_t \<Rightarrow> ck_act" where
  [ngx_step_defs]: "ck_after_data_almost_done ch ctx =
     (if ch = LF then Next sw_chunk_start ctx else Exit CK_invalid ctx)"

definition ck_last_chunk_extension :: "bool \<Rightarrow> u_char \<Rightarrow> ngx_http_chunked_t \<Rightarrow> ck_act" where
  [ngx_step_defs]: "ck_last_chunk_extension keep_trailers ch ctx =
     (if ch = CR then Next sw_last_chunk_extension_almost_done ctx
      else if ch = LF then (if keep_trailers then Exit CK_done ctx else Next sw_trailer ctx)
      else Next sw_last_chunk_extension ctx)"

definition ck_last_chunk_extension_almost_done ::
  "bool \<Rightarrow> u_char \<Rightarrow> ngx_http_chunked_t \<Rightarrow> ck_act" where
  [ngx_step_defs]: "ck_last_chunk_extension_almost_done keep_trailers ch ctx =
     (if ch = LF then (if keep_trailers then Exit CK_done ctx else Next sw_trailer ctx)
      else Exit CK_invalid ctx)"

definition ck_trailer :: "u_char \<Rightarrow> ngx_http_chunked_t \<Rightarrow> ck_act" where
  [ngx_step_defs]: "ck_trailer ch ctx =
     (if ch = CR then Next sw_trailer_almost_done ctx
      else if ch = LF then Exit CK_done ctx
      else Next sw_trailer_header ctx)"

definition ck_trailer_almost_done :: "u_char \<Rightarrow> ngx_http_chunked_t \<Rightarrow> ck_act" where
  [ngx_step_defs]: "ck_trailer_almost_done ch ctx =
     (if ch = LF then Exit CK_done ctx else Exit CK_invalid ctx)"

definition ck_trailer_header :: "u_char \<Rightarrow> ngx_http_chunked_t \<Rightarrow> ck_act" where
  [ngx_step_defs]: "ck_trailer_header ch ctx =
     (if ch = CR then Next sw_trailer_header_almost_done ctx
      else if ch = LF then Next sw_trailer ctx
      else Next sw_trailer_header ctx)"

definition ck_trailer_header_almost_done :: "u_char \<Rightarrow> ngx_http_chunked_t \<Rightarrow> ck_act" where
  [ngx_step_defs]: "ck_trailer_header_almost_done ch ctx =
     (if ch = LF then Next sw_trailer ctx else Exit CK_invalid ctx)"

definition ck_switch :: "bool \<Rightarrow> ck_sw \<Rightarrow> u_char \<Rightarrow> ngx_http_chunked_t \<Rightarrow> ck_act" where
  "ck_switch keep_trailers s ch ctx =
     (case s of
        sw_chunk_start \<Rightarrow> ck_chunk_start ch ctx
      | sw_chunk_size \<Rightarrow> ck_chunk_size keep_trailers ch ctx
      | sw_chunk_extension \<Rightarrow> ck_chunk_extension ch ctx
      | sw_chunk_extension_almost_done \<Rightarrow> ck_chunk_extension_almost_done ch ctx
      | sw_chunk_data \<Rightarrow> Exit CK_data ctx
      | sw_after_data \<Rightarrow> ck_after_data ch ctx
      | sw_after_data_almost_done \<Rightarrow> ck_after_data_almost_done ch ctx
      | sw_last_chunk_extension \<Rightarrow> ck_last_chunk_extension keep_trailers ch ctx
      | sw_last_chunk_extension_almost_done \<Rightarrow> ck_last_chunk_extension_almost_done keep_trailers ch ctx
      | sw_trailer \<Rightarrow> ck_trailer ch ctx
      | sw_trailer_almost_done \<Rightarrow> ck_trailer_almost_done ch ctx
      | sw_trailer_header \<Rightarrow> ck_trailer_header ch ctx
      | sw_trailer_header_almost_done \<Rightarrow> ck_trailer_header_almost_done ch ctx)"

definition ck_step :: "bool \<Rightarrow> (nat, ngx_http_chunked_t, ck_exit) step" where
  "ck_step keep_trailers buf p ch n ctx =
     (case ck_dec n of
        None \<Rightarrow> Next n ctx
      | Some s \<Rightarrow>
        (case ck_switch keep_trailers s ch ctx of
           Next s' ctx' \<Rightarrow> Next (ck_enc s') ctx'
         | Exit x ctx' \<Rightarrow> Exit x ctx'))"

text \<open>The last switch: the least number of bytes that can complete the body.\<close>

definition ck_expected :: "ck_sw \<Rightarrow> int \<Rightarrow> int" where
  "ck_expected s sz =
     (case s of
        sw_chunk_start \<Rightarrow> 3
      | sw_chunk_size \<Rightarrow> 1 + (if sz \<noteq> 0 then sz + 4 else 1)
      | sw_chunk_extension \<Rightarrow> 1 + sz + 4
      | sw_chunk_extension_almost_done \<Rightarrow> 1 + sz + 4
      | sw_chunk_data \<Rightarrow> sz + 4
      | sw_after_data \<Rightarrow> 4
      | sw_after_data_almost_done \<Rightarrow> 4
      | sw_last_chunk_extension \<Rightarrow> 2
      | sw_last_chunk_extension_almost_done \<Rightarrow> 2
      | sw_trailer \<Rightarrow> 1
      | sw_trailer_almost_done \<Rightarrow> 1
      | sw_trailer_header \<Rightarrow> 2
      | sw_trailer_header_almost_done \<Rightarrow> 2)"

text \<open>The code after the label \<^verbatim>\<open>data\<close>, reached with \<^verbatim>\<open>rc\<close> in \<^verbatim>\<open>NGX_AGAIN\<close>, \<^verbatim>\<open>NGX_OK\<close>.\<close>

definition ck_data ::
  "int \<Rightarrow> nat \<Rightarrow> nat \<Rightarrow> ngx_buf_t \<Rightarrow> ngx_http_chunked_t \<Rightarrow> int \<times> ngx_buf_t \<times> ngx_http_chunked_t" where
  "ck_data rc n p b ctx =
     (let ctx = ctx\<lparr>ck_state := n\<rparr>;
          b = b\<lparr>pos := p\<rparr>
      in if ck_size ctx > NGX_MAX_OFF_T_VALUE - 5 then (NGX_ERROR, b, ctx)
         else (case ck_dec n of
             None \<Rightarrow> (rc, b, ctx)
           | Some s \<Rightarrow> (rc, b, ctx\<lparr>ck_length := ck_expected s (ck_size ctx)\<rparr>)))"

definition ck_entry :: "ngx_http_chunked_t \<Rightarrow> nat" where
  "ck_entry ctx =
     (if ck_state ctx = ck_enc sw_chunk_data \<and> ck_size ctx = 0 then ck_enc sw_after_data
      else ck_state ctx)"

definition ngx_http_parse_chunked ::
  "ngx_buf_t \<Rightarrow> ngx_http_chunked_t \<Rightarrow> bool \<Rightarrow> int \<times> ngx_buf_t \<times> ngx_http_chunked_t" where
  "ngx_http_parse_chunked b ctx keep_trailers =
     (case scan (ck_step keep_trailers) (mem b) (pos b) (ck_entry ctx) ctx of
        Exhausted p n ctx \<Rightarrow> ck_data NGX_AGAIN n p b ctx
      | Stopped p CK_data ctx \<Rightarrow> ck_data NGX_OK (ck_enc sw_chunk_data) p b ctx
      | Stopped p CK_done ctx \<Rightarrow> (NGX_DONE, b\<lparr>pos := p + 1\<rparr>, ctx\<lparr>ck_state := 0\<rparr>)
      | Stopped p CK_invalid ctx \<Rightarrow> (NGX_ERROR, b, ctx))"

interpretation chunked: byte_parser "ck_step kt" for kt
  by unfold_locales (simp add: ck_step_def)

section \<open>Sizes stay in range\<close>

text \<open>A context as the parser and its callers leave it.\<close>

definition ck_sized :: "ck_sw \<Rightarrow> int \<Rightarrow> bool" where
  "ck_sized s sz \<longleftrightarrow> 0 \<le> sz \<and> sz \<le> NGX_MAX_OFF_T_VALUE
     \<and> (s = sw_chunk_extension \<or> s = sw_chunk_extension_almost_done \<longrightarrow> 0 < sz)"

definition ck_wf :: "ngx_http_chunked_t \<Rightarrow> bool" where
  "ck_wf ctx \<longleftrightarrow> (\<exists>s. ck_state ctx = ck_enc s \<and> ck_sized s (ck_size ctx))"

lemma digit_range: "is_digit ch \<Longrightarrow> 0 \<le> int (unat ch) - 48 \<and> int (unat ch) - 48 \<le> 9"
  using unat_digit(2,3) [of ch] by linarith

lemma hex_range:
  assumes "is_hex_alpha ch"
  shows "10 \<le> int (unat (fold_case ch)) - 97 + 10 \<and> int (unat (fold_case ch)) - 97 + 10 \<le> 15"
  using assms by (simp add: word_le_def)

lemma ck_switch_sized:
  assumes "ck_sized s (ck_size ctx)"
  shows "case ck_switch kt s ch ctx of
      Next s' ctx' \<Rightarrow> ck_sized s' (ck_size ctx') \<and> (s' = sw_chunk_data \<longrightarrow> 0 < ck_size ctx') \<and> ck_length ctx' = ck_length ctx
    | Exit x ctx' \<Rightarrow> ctx' = ctx \<and> (x = CK_data \<longrightarrow> s = sw_chunk_data)"
proof -
  have size: "0 \<le> n * 16 + d \<and> n * 16 + d \<le> NGX_MAX_OFF_T_VALUE"
    if "0 \<le> n" "\<not> n > NGX_MAX_OFF_T_VALUE div 16" "0 \<le> d" "d \<le> 15" for n d :: int
    using that by auto
  show ?thesis
    using assms digit_range [of ch] hex_range [of ch] size [of "ck_size ctx"]
    by (cases s) (auto simp: ck_switch_def ngx_step_defs ck_sized_def Let_def)
qed

definition ck_loop_inv :: "nat \<Rightarrow> ngx_http_chunked_t \<Rightarrow> bool" where
  "ck_loop_inv n ctx \<longleftrightarrow>
     (\<exists>s. n = ck_enc s \<and> ck_sized s (ck_size ctx) \<and> (s = sw_chunk_data \<longrightarrow> 0 < ck_size ctx))"

lemma ck_entry_inv: "ck_wf ctx \<Longrightarrow> ck_loop_inv (ck_entry ctx) ctx"
  by (auto simp: ck_wf_def ck_loop_inv_def ck_entry_def ck_sized_def intro: exI [of _ sw_after_data])

lemma ck_step_inv:
  assumes "ck_loop_inv n ctx"
  shows "case ck_step kt m p ch n ctx of
      Next n' ctx' \<Rightarrow> ck_loop_inv n' ctx'
    | Exit x ctx' \<Rightarrow> ctx' = ctx \<and> (x = CK_data \<longrightarrow> n = ck_enc sw_chunk_data)"
proof -
  from assms obtain s where "n = ck_enc s" "ck_sized s (ck_size ctx)" by (auto simp: ck_loop_inv_def)
  with ck_switch_sized [of s ctx kt ch] show ?thesis
    by (auto simp: ck_step_def ck_loop_inv_def split: act.splits)
qed

lemma ck_scan_inv:
  assumes "ck_wf ctx"
  shows "case scan (ck_step kt) m p (ck_entry ctx) ctx of
      Exhausted q n ctx' \<Rightarrow> ck_loop_inv n ctx' \<and> length m \<le> q \<and> p \<le> q
    | Stopped q x ctx' \<Rightarrow>
        (\<exists>n. ck_loop_inv n ctx' \<and> (x = CK_data \<longrightarrow> n = ck_enc sw_chunk_data)) \<and> p \<le> q \<and> q < length m"
proof (rule scan_invariant [where I = "\<lambda>p. ck_loop_inv"])
  show "ck_loop_inv (ck_entry ctx) ctx" by (rule ck_entry_inv [OF assms])
next
  fix p s r s' r'
  assume "ck_loop_inv s r" "ck_step kt m p (m ! p) s r = Next s' r'"
  with ck_step_inv [of s r kt m p "m ! p"] show "ck_loop_inv s' r'" by simp
next
  fix p s r x r'
  assume "ck_loop_inv s r" "ck_step kt m p (m ! p) s r = Exit x r'"
  with ck_step_inv [of s r kt m p "m ! p"]
  show "\<exists>n. ck_loop_inv n r' \<and> (x = CK_data \<longrightarrow> n = ck_enc sw_chunk_data)" by auto
qed

lemma ck_expected_range:
  assumes "ck_sized s sz" "\<not> sz > NGX_MAX_OFF_T_VALUE - 5"
  shows "0 < ck_expected s sz \<and> ck_expected s sz \<le> NGX_MAX_OFF_T_VALUE"
  using assms by (cases s) (auto simp: ck_expected_def ck_sized_def)

lemma ck_data_ok:
  assumes "ck_data rc n p b ctx = (rc', b', ctx')" "rc' \<noteq> NGX_ERROR" "ck_loop_inv n ctx"
  obtains s where "rc' = rc" "b' = b\<lparr>pos := p\<rparr>" "n = ck_enc s" "ck_sized s (ck_size ctx)"
    "ctx' = ctx\<lparr>ck_state := n, ck_length := ck_expected s (ck_size ctx)\<rparr>"
    "\<not> ck_size ctx > NGX_MAX_OFF_T_VALUE - 5"
  using assms by (auto simp: ck_data_def ck_loop_inv_def Let_def split: if_splits)

text \<open>
  C7: no \<^verbatim>\<open>off_t\<close> computation of the parser overflows: from a context with a size in range, whatever
  the bytes, every size it computes is in range again, and when it asks for more input or announces
  data, the length it expects is positive and in range. Announced data has at least one byte.
\<close>

theorem chunked_no_overflow:
  assumes "ck_wf ctx" "ngx_http_parse_chunked b ctx kt = (rc, b', ctx')"
  shows "0 \<le> ck_size ctx' \<and> ck_size ctx' \<le> NGX_MAX_OFF_T_VALUE
    \<and> (rc = NGX_OK \<or> rc = NGX_AGAIN \<longrightarrow>
         ck_wf ctx' \<and> 0 < ck_length ctx' \<and> ck_length ctx' \<le> NGX_MAX_OFF_T_VALUE)
    \<and> (rc = NGX_OK \<longrightarrow> 0 < ck_size ctx' \<and> pos b' < length (mem b'))"
proof -
  have data: ?thesis if "ck_data rc' n p b c = (rc, b', ctx')" "ck_loop_inv n c"
    "rc' = NGX_OK \<Longrightarrow> n = ck_enc sw_chunk_data \<and> p < length (mem b)" "rc' = NGX_OK \<or> rc' = NGX_AGAIN" for rc' n p c
  proof (cases "rc = NGX_ERROR")
    case True
    with that show ?thesis
      by (auto simp: ck_data_def ck_loop_inv_def ck_sized_def Let_def split: if_splits option.splits)
  next
    case False
    from ck_data_ok [OF that(1) False that(2)] obtain s where s: "rc = rc'" "b' = b\<lparr>pos := p\<rparr>"
      "n = ck_enc s" "ck_sized s (ck_size c)" "\<not> ck_size c > NGX_MAX_OFF_T_VALUE - 5"
      "ctx' = c\<lparr>ck_state := n, ck_length := ck_expected s (ck_size c)\<rparr>" by blast
    with ck_expected_range [OF s(4,5)] that show ?thesis
      by (auto simp: ck_wf_def ck_loop_inv_def ck_sized_def)
  qed
  show ?thesis
  proof (cases "scan (ck_step kt) (mem b) (pos b) (ck_entry ctx) ctx")
    case (Exhausted q n c)
    with ck_scan_inv [OF assms(1), where kt = kt and m = "mem b" and p = "pos b"] assms(2) show ?thesis
      by (intro data [of NGX_AGAIN n q c]) (simp_all add: ngx_http_parse_chunked_def)
  next
    case (Stopped q x c)
    with ck_scan_inv [OF assms(1), where kt = kt and m = "mem b" and p = "pos b"]
    obtain n where n: "ck_loop_inv n c" "x = CK_data \<longrightarrow> n = ck_enc sw_chunk_data" "q < length (mem b)" by auto
    show ?thesis
    proof (cases x)
      case CK_data
      with n Stopped assms(2) show ?thesis
        by (intro data [of NGX_OK n q c]) (simp_all add: ngx_http_parse_chunked_def)
    qed (use n Stopped assms(2) in \<open>auto simp: ngx_http_parse_chunked_def ck_loop_inv_def ck_sized_def\<close>)
  qed
qed

section \<open>The expected length\<close>

text \<open>What a caller does with announced data (\<^verbatim>\<open>ngx_http_request_body_chunked_filter\<close> and the
  proxy filters): take what the buffer holds of it, lower the size, call the parser again.\<close>

fun chunked_read ::
  "nat \<Rightarrow> ngx_buf_t \<Rightarrow> ngx_http_chunked_t \<Rightarrow> u_char list \<Rightarrow>
   (int \<times> u_char list \<times> ngx_buf_t \<times> ngx_http_chunked_t) option" where
  "chunked_read 0 b ctx out = None"
| "chunked_read (Suc n) b ctx out =
     (case ngx_http_parse_chunked b ctx False of (rc, b, ctx) \<Rightarrow>
        if rc = NGX_OK then
          (let k = min (length (mem b) - pos b) (nat (ck_size ctx))
           in chunked_read n (b\<lparr>pos := pos b + k\<rparr>) (ctx\<lparr>ck_size := ck_size ctx - int k\<rparr>)
                (out @ subbuf (mem b) (pos b) (pos b + k)))
        else Some (rc, out, b, ctx))"

lemma ck_switch_expected:
  assumes "ck_sized s (ck_size ctx)"
  shows "case ck_switch False s ch ctx of
      Next s' ctx' \<Rightarrow> ck_expected s (ck_size ctx) \<le> 1 + ck_expected s' (ck_size ctx')
    | Exit x ctx' \<Rightarrow> x = CK_done \<longrightarrow> ck_expected s (ck_size ctx) \<le> 1"
  using assms digit_range [of ch] hex_range [of ch]
  by (cases s) (auto simp: ck_switch_def ngx_step_defs ck_sized_def ck_expected_def Let_def)

definition ck_needs :: "int \<Rightarrow> nat \<Rightarrow> ngx_http_chunked_t \<Rightarrow> bool" where
  "ck_needs e n ctx \<longleftrightarrow> (\<exists>s. n = ck_enc s \<and> ck_sized s (ck_size ctx) \<and> e \<le> ck_expected s (ck_size ctx))"

lemma ck_scan_needs:
  assumes "ck_needs e (ck_entry ctx) ctx"
  shows "case scan (ck_step False) m p (ck_entry ctx) ctx of
      Exhausted q n ctx' \<Rightarrow> ck_needs (e - (int q - int p)) n ctx' \<and> length m \<le> q \<and> p \<le> q
    | Stopped q x ctx' \<Rightarrow>
        (x = CK_data \<longrightarrow> ck_needs (e - (int q - int p)) (ck_enc sw_chunk_data) ctx')
        \<and> (x = CK_done \<longrightarrow> e \<le> int q + 1 - int p) \<and> p \<le> q \<and> q < length m"
proof -
  have "case scan (ck_step False) m p (ck_entry ctx) ctx of
      Exhausted q n ctx' \<Rightarrow> ck_needs (e - (int q - int p)) n ctx' \<and> length m \<le> q \<and> p \<le> q
    | Stopped q x ctx' \<Rightarrow>
        ((x = CK_data \<longrightarrow> ck_needs (e - (int q - int p)) (ck_enc sw_chunk_data) ctx')
        \<and> (x = CK_done \<longrightarrow> e \<le> int q + 1 - int p)) \<and> p \<le> q \<and> q < length m"
  proof (rule scan_invariant)
    show "ck_needs (e - (int p - int p)) (ck_entry ctx) ctx" using assms by simp
  next
    fix q n c n' c'
    assume "ck_needs (e - (int q - int p)) n c" and step: "ck_step False m q (m ! q) n c = Next n' c'"
    then obtain s where "n = ck_enc s" "ck_sized s (ck_size c)" "e - (int q - int p) \<le> ck_expected s (ck_size c)"
      by (auto simp: ck_needs_def)
    with step ck_switch_sized [of s c False "m ! q"] ck_switch_expected [of s c "m ! q"]
    show "ck_needs (e - (int (Suc q) - int p)) n' c'"
      by (fastforce simp: ck_needs_def ck_step_def split: act.splits)
  next
    fix q n c x c'
    assume "ck_needs (e - (int q - int p)) n c" and step: "ck_step False m q (m ! q) n c = Exit x c'"
    then obtain s where "n = ck_enc s" "ck_sized s (ck_size c)" "e - (int q - int p) \<le> ck_expected s (ck_size c)"
      by (auto simp: ck_needs_def)
    with step ck_switch_sized [of s c False "m ! q"] ck_switch_expected [of s c "m ! q"]
    show "(x = CK_data \<longrightarrow> ck_needs (e - (int q - int p)) (ck_enc sw_chunk_data) c')
        \<and> (x = CK_done \<longrightarrow> e \<le> int q + 1 - int p)"
      by (auto simp: ck_needs_def ck_step_def split: act.splits)
  qed
  then show ?thesis by (simp split: scan_result.splits)
qed

lemma ck_needs_entry:
  assumes "ck_state ctx = ck_enc s" "ck_sized s (ck_size ctx)" "e \<le> ck_expected s (ck_size ctx)"
  shows "ck_needs e (ck_entry ctx) ctx"
  using assms
  by (auto simp: ck_needs_def ck_entry_def ck_sized_def ck_expected_def intro: exI [of _ sw_after_data])

lemma chunked_read_needs:
  assumes "chunked_read n b ctx out = Some (NGX_DONE, out', b', ctx')"
    and "ck_state ctx = ck_enc s" "ck_sized s (ck_size ctx)" "e \<le> ck_expected s (ck_size ctx)"
    and "pos b \<le> length (mem b)"
  shows "e \<le> int (pos b') - int (pos b)"
  using assms
proof (induction n arbitrary: b ctx out s e)
  case (Suc n)
  note needs = ck_scan_needs [OF ck_needs_entry [OF Suc.prems(2-4)], where m = "mem b" and p = "pos b"]
  obtain rc b1 c1 where parse: "ngx_http_parse_chunked b ctx False = (rc, b1, c1)"
    by (cases "ngx_http_parse_chunked b ctx False")
  show ?case
  proof (cases "scan (ck_step False) (mem b) (pos b) (ck_entry ctx) ctx")
    case (Exhausted q m c)
    with parse Suc.prems(1) show ?thesis
      by (auto simp: ngx_http_parse_chunked_def ck_data_def Let_def split: if_splits option.splits)
  next
    case (Stopped q x c)
    show ?thesis
    proof (cases x)
      case CK_invalid
      with Stopped parse Suc.prems(1) show ?thesis by (auto simp: ngx_http_parse_chunked_def)
    next
      case CK_done
      with Stopped parse Suc.prems(1) needs show ?thesis by (auto simp: ngx_http_parse_chunked_def)
    next
      case CK_data
      with Stopped parse Suc.prems(1) have d: "ck_data NGX_OK (ck_enc sw_chunk_data) q b c = (rc, b1, c1)"
        and "rc = NGX_OK"
        by (auto simp: ngx_http_parse_chunked_def ck_data_def Let_def split: if_splits)
      then have c1: "b1 = b\<lparr>pos := q\<rparr>" "ck_state c1 = ck_enc sw_chunk_data" "ck_size c1 = ck_size c"
        by (auto simp: ck_data_def Let_def split: if_splits)
      from needs Stopped CK_data have nd: "ck_sized sw_chunk_data (ck_size c)"
        "e - (int q - int (pos b)) \<le> ck_size c + 4" "q < length (mem b)"
        by (auto simp: ck_needs_def ck_expected_def)
      define k where "k = min (length (mem b) - q) (nat (ck_size c))"
      have k: "int k \<le> ck_size c" "q + k \<le> length (mem b)"
        using nd by (auto simp: k_def ck_sized_def)
      from Suc.prems(1) parse \<open>rc = NGX_OK\<close> have
        "chunked_read n (b\<lparr>pos := q + k\<rparr>) (c1\<lparr>ck_size := ck_size c - int k\<rparr>)
           (out @ subbuf (mem b) q (q + k)) = Some (NGX_DONE, out', b', ctx')"
        by (simp add: c1 k_def Let_def)
      from Suc.IH [OF this, of sw_chunk_data "e - (int (q + k) - int (pos b))"] nd k
      show ?thesis by (auto simp: c1 ck_sized_def ck_expected_def)
    qed
  qed
qed simp

text \<open>
  The length the parser reports is a true lower bound: when it has asked for more input or
  announced data, every continuation that completes the body has at least \<^verbatim>\<open>ctx->length\<close> further
  bytes. (Callers use it to decide how much to read ahead.)
\<close>

theorem chunked_length_minimal:
  assumes "ck_wf ctx" "ngx_http_parse_chunked b ctx False = (rc, b1, ctx1)"
    and "rc = NGX_AGAIN \<or> rc = NGX_OK"
    and "chunked_read n (buf_append b1 xs) ctx1 [] = Some (NGX_DONE, out, b2, ctx2)"
    and "pos b \<le> length (mem b)"
  shows "ck_length ctx1 \<le> int (pos b2) - int (pos b1)"
proof -
  have data: ?thesis if "ck_data rc' n' p b c = (rc, b1, ctx1)" "ck_loop_inv n' c" "p \<le> length (mem b)" for rc' n' p c
  proof -
    from assms(3) have "rc \<noteq> NGX_ERROR" by auto
    from ck_data_ok [OF that(1) this that(2)] obtain s where s: "b1 = b\<lparr>pos := p\<rparr>" "n' = ck_enc s"
      "ck_sized s (ck_size c)" "ctx1 = c\<lparr>ck_state := n', ck_length := ck_expected s (ck_size c)\<rparr>" by blast
    with chunked_read_needs [OF assms(4), of s "ck_length ctx1"] that(3) show ?thesis
      by (simp add: buf_append_def)
  qed
  note inv = ck_scan_inv [OF assms(1), where kt = False and m = "mem b" and p = "pos b"]
  show ?thesis
  proof (cases "scan (ck_step False) (mem b) (pos b) (ck_entry ctx) ctx")
    case (Exhausted q n' c)
    have "q = length (mem b)"
      using scan_exhausts [OF Exhausted assms(5)] .
    with Exhausted inv assms(2) show ?thesis
      by (intro data [of NGX_AGAIN n' q c]) (simp_all add: ngx_http_parse_chunked_def)
  next
    case (Stopped q x c)
    with inv assms(2,3) have "x = CK_data"
      by (cases x) (auto simp: ngx_http_parse_chunked_def)
    with Stopped inv assms(2) show ?thesis
      by (intro data [of NGX_OK "ck_enc sw_chunk_data" q c]) (auto simp: ngx_http_parse_chunked_def)
  qed
qed

section \<open>A chunked body is read back\<close>

definition hex_value :: "u_char list \<Rightarrow> int" where
  "hex_value ds = foldl (\<lambda>v d. v * 16 + (if is_digit d then int (unat d) - 48
     else int (unat (fold_case d)) - 97 + 10)) 0 ds"

abbreviation is_hex :: "u_char \<Rightarrow> bool" where
  "is_hex d \<equiv> is_digit d \<or> is_hex_alpha d"

text \<open>A chunk is a size line in any spelling of the size, and that many bytes.\<close>

definition chunk_ok :: "u_char list \<times> u_char list \<Rightarrow> bool" where
  "chunk_ok c \<longleftrightarrow> fst c \<noteq> [] \<and> list_all (\<lambda>d. is_hex d) (fst c) \<and> snd c \<noteq> []
     \<and> hex_value (fst c) = int (length (snd c)) \<and> hex_value (fst c) \<le> NGX_MAX_OFF_T_VALUE div 16"

definition chunk_text :: "u_char list \<times> u_char list \<Rightarrow> u_char list" where
  "chunk_text c = fst c @ [CR, LF] @ snd c @ [CR, LF]"

definition body_text :: "(u_char list \<times> u_char list) list \<Rightarrow> u_char list" where
  "body_text cs = concat (map chunk_text cs) @ [ch_0, CR, LF, CR, LF]"

lemma ck_scan_step:
  assumes "p < length m" "ck_switch kt s (m ! p) ctx = Next s' ctx'"
  shows "scan (ck_step kt) m p (ck_enc s) ctx = scan (ck_step kt) m (Suc p) (ck_enc s') ctx'"
  using assms by (intro scan_Next) (simp_all add: ck_step_def)

lemma hex_value_snoc:
  "hex_value (ds @ [d]) = hex_value ds * 16 + (if is_digit d then int (unat d) - 48
     else int (unat (fold_case d)) - 97 + 10)"
  by (simp add: hex_value_def)

lemma hex_value_nonneg: "list_all (\<lambda>d. is_hex d) ds \<Longrightarrow> 0 \<le> hex_value ds"
proof (induction ds rule: rev_induct)
  case (snoc d ds)
  then show ?case using digit_range [of d] hex_range [of d] by (auto simp: hex_value_snoc)
qed (simp add: hex_value_def)

lemma ck_scan_size:
  assumes "found_at m p ds" "list_all (\<lambda>d. is_hex d) ds" "ds \<noteq> []"
    "hex_value ds \<le> NGX_MAX_OFF_T_VALUE div 16"
  shows "scan (ck_step kt) m p (ck_enc sw_chunk_start) ctx =
    scan (ck_step kt) m (p + length ds) (ck_enc sw_chunk_size) (ctx\<lparr>ck_size := hex_value ds\<rparr>)"
  using assms
proof (induction ds rule: rev_induct)
  case (snoc d ds)
  let ?q = "p + length ds"
  from snoc.prems have d: "?q < length m" "m ! ?q = d" "is_hex d" "list_all (\<lambda>d. is_hex d) ds" by simp_all
  have le: "hex_value ds \<le> NGX_MAX_OFF_T_VALUE div 16"
    using snoc.prems(4) digit_range [of d] hex_range [of d] d(3) hex_value_nonneg [OF d(4)]
    by (auto simp: hex_value_snoc split: if_splits)
  show ?case
  proof (cases "ds = []")
    case True
    have "ck_switch kt sw_chunk_start (m ! p) ctx = Next sw_chunk_size (ctx\<lparr>ck_size := hex_value [d]\<rparr>)"
      using d True by (auto simp: ck_switch_def ck_chunk_start_def hex_value_def Let_def)
    from ck_scan_step [OF _ this] d True show ?thesis by simp
  next
    case False
    with snoc le have IH: "scan (ck_step kt) m p (ck_enc sw_chunk_start) ctx =
        scan (ck_step kt) m ?q (ck_enc sw_chunk_size) (ctx\<lparr>ck_size := hex_value ds\<rparr>)" by simp
    have "ck_switch kt sw_chunk_size (m ! ?q) (ctx\<lparr>ck_size := hex_value ds\<rparr>) =
        Next sw_chunk_size (ctx\<lparr>ck_size := hex_value (ds @ [d])\<rparr>)"
      using d le by (auto simp: ck_switch_def ck_chunk_size_def hex_value_snoc Let_def)
    from IH ck_scan_step [OF d(1) this] show ?thesis by simp
  qed
qed simp

text \<open>The line end after the data of a chunk, the size line up to the data, and the last chunk.\<close>

lemma ck_scan_after_data:
  assumes "found_at m p [CR, LF]"
  shows "scan (ck_step kt) m p (ck_enc sw_after_data) ctx =
    scan (ck_step kt) m (p + 2) (ck_enc sw_chunk_start) ctx"
proof -
  have "scan (ck_step kt) m p (ck_enc sw_after_data) ctx =
      scan (ck_step kt) m (Suc p) (ck_enc sw_after_data_almost_done) ctx"
    using assms by (intro ck_scan_step) (simp_all add: ck_switch_def ck_after_data_def)
  also have "\<dots> = scan (ck_step kt) m (Suc (Suc p)) (ck_enc sw_chunk_start) ctx"
    using assms by (intro ck_scan_step) (simp_all add: ck_switch_def ck_after_data_almost_done_def)
  finally show ?thesis by simp
qed

lemma ck_scan_chunk:
  assumes "chunk_ok c" "found_at m p (chunk_text c)"
  shows "scan (ck_step kt) m p (ck_enc sw_chunk_start) ctx =
    Stopped (p + length (fst c) + 2) CK_data (ctx\<lparr>ck_size := int (length (snd c))\<rparr>)"
proof -
  let ?q = "p + length (fst c)" and ?c = "ctx\<lparr>ck_size := int (length (snd c))\<rparr>"
  have c: "fst c \<noteq> []" "list_all (\<lambda>d. is_hex d) (fst c)" "snd c \<noteq> []"
    "hex_value (fst c) = int (length (snd c))" "hex_value (fst c) \<le> NGX_MAX_OFF_T_VALUE div 16"
    using assms(1) by (auto simp: chunk_ok_def)
  have m: "found_at m p (fst c)" "?q < length m" "m ! ?q = CR" "Suc ?q < length m" "m ! Suc ?q = LF"
    "found_at m (?q + 2) (snd c)"
    using assms(2) by (simp_all add: chunk_text_def)
  have "scan (ck_step kt) m p (ck_enc sw_chunk_start) ctx =
      scan (ck_step kt) m ?q (ck_enc sw_chunk_size) ?c"
    using ck_scan_size [OF m(1) c(2,1,5)] c(4) by simp
  also have "\<dots> = scan (ck_step kt) m (Suc ?q) (ck_enc sw_chunk_extension_almost_done) ?c"
    using m c by (intro ck_scan_step) (simp_all add: ck_switch_def ck_chunk_size_def)
  also have "\<dots> = scan (ck_step kt) m (Suc (Suc ?q)) (ck_enc sw_chunk_data) ?c"
    using m by (intro ck_scan_step) (simp_all add: ck_switch_def ck_chunk_extension_almost_done_def)
  also have "\<dots> = Stopped (Suc (Suc ?q)) CK_data ?c"
    using found_at_nth [OF m(6), of 0] c(3) by (intro scan_Exit) (simp_all add: ck_step_def ck_switch_def)
  finally show ?thesis by simp
qed

lemma ck_scan_last:
  assumes "found_at m p [ch_0, CR, LF, CR, LF]"
  shows "scan (ck_step False) m p (ck_enc sw_chunk_start) ctx = Stopped (p + 4) CK_done (ctx\<lparr>ck_size := 0\<rparr>)"
proof -
  let ?c = "ctx\<lparr>ck_size := 0\<rparr>"
  have m: "p < length m" "m ! p = ch_0" "Suc p < length m" "m ! Suc p = CR"
    "Suc (Suc p) < length m" "m ! Suc (Suc p) = LF" "Suc (Suc (Suc p)) < length m"
    "m ! Suc (Suc (Suc p)) = CR" "Suc (Suc (Suc (Suc p))) < length m" "m ! Suc (Suc (Suc (Suc p))) = LF"
    using assms by simp_all
  have "scan (ck_step False) m p (ck_enc sw_chunk_start) ctx =
      scan (ck_step False) m (Suc p) (ck_enc sw_chunk_size) ?c"
    using m by (intro ck_scan_step) (simp_all add: ck_switch_def ck_chunk_start_def)
  also have "\<dots> = scan (ck_step False) m (Suc (Suc p)) (ck_enc sw_last_chunk_extension_almost_done) ?c"
    using m by (intro ck_scan_step) (simp_all add: ck_switch_def ck_chunk_size_def)
  also have "\<dots> = scan (ck_step False) m (Suc (Suc (Suc p))) (ck_enc sw_trailer) ?c"
    using m by (intro ck_scan_step) (simp_all add: ck_switch_def ck_last_chunk_extension_almost_done_def)
  also have "\<dots> = scan (ck_step False) m (Suc (Suc (Suc (Suc p)))) (ck_enc sw_trailer_almost_done) ?c"
    using m by (intro ck_scan_step) (simp_all add: ck_switch_def ck_trailer_def)
  also have "\<dots> = Stopped (Suc (Suc (Suc (Suc p)))) CK_done ?c"
    using m by (intro scan_Exit) (simp_all add: ck_step_def ck_switch_def ck_trailer_almost_done_def)
  finally show ?thesis by (simp add: numeral_eq_Suc)
qed

text \<open>The reader stands before a size line, either at the very start or, with the line end of the
  previous data still to come, after data.\<close>

definition ck_ready :: "u_char list \<Rightarrow> nat \<Rightarrow> ngx_http_chunked_t \<Rightarrow> nat \<Rightarrow> bool" where
  "ck_ready m p ctx q \<longleftrightarrow>
     ck_state ctx = ck_enc sw_chunk_start \<and> q = p
     \<or> ck_state ctx = ck_enc sw_chunk_data \<and> ck_size ctx = 0 \<and> found_at m p [CR, LF] \<and> q = p + 2"

lemma ck_scan_ready:
  "ck_ready m p ctx q \<Longrightarrow>
   scan (ck_step kt) m p (ck_entry ctx) ctx = scan (ck_step kt) m q (ck_enc sw_chunk_start) ctx"
  by (auto simp: ck_ready_def ck_entry_def ck_scan_after_data)

lemma chunked_read_body:
  assumes "list_all chunk_ok cs" "found_at m q (body_text cs)" "ck_ready m p ctx q" "length cs < n"
  shows "\<exists>ctx'. chunked_read n \<lparr>mem = m, pos = p\<rparr> ctx out =
    Some (NGX_DONE, out @ concat (map snd cs), \<lparr>mem = m, pos = q + length (body_text cs)\<rparr>, ctx')"
  using assms
proof (induction cs arbitrary: n p q ctx out)
  case Nil
  then obtain k where n: "n = Suc k" by (cases n) auto
  from Nil have "scan (ck_step False) m p (ck_entry ctx) ctx = Stopped (q + 4) CK_done (ctx\<lparr>ck_size := 0\<rparr>)"
    using ck_scan_last [of m q ctx] by (simp add: ck_scan_ready [OF Nil.prems(3)] body_text_def)
  then show ?case by (simp add: n ngx_http_parse_chunked_def body_text_def)
next
  case (Cons c cs)
  then obtain k where n: "n = Suc k" by (cases n) auto
  let ?d = "q + length (fst c) + 2" and ?l = "length (snd c)"
  let ?ctx = "ctx\<lparr>ck_size := int ?l, ck_state := ck_enc sw_chunk_data,
      ck_length := ck_expected sw_chunk_data (int ?l)\<rparr>"
  have ok: "chunk_ok c" and ctext: "found_at m q (chunk_text c)"
    and rest: "found_at m (q + length (chunk_text c)) (body_text cs)"
    using Cons.prems by (simp_all add: body_text_def)
  have small: "int ?l \<le> NGX_MAX_OFF_T_VALUE div 16" using ok by (auto simp: chunk_ok_def)
  have data: "found_at m ?d (snd c)" "found_at m (?d + ?l) [CR, LF]"
    using ctext by (simp_all add: chunk_text_def ac_simps)
  from data(2) have "?d + ?l < length m" by simp
  then have avail: "min (length m - ?d) ?l = ?l" by linarith
  have "subbuf m ?d (?d + ?l) = snd c" using data(1) by (simp add: subbuf_def found_at_def)
  moreover have "ngx_http_parse_chunked \<lparr>mem = m, pos = p\<rparr> ctx False = (NGX_OK, \<lparr>mem = m, pos = ?d\<rparr>, ?ctx)"
    using small by (simp add: ngx_http_parse_chunked_def ck_scan_ready [OF Cons.prems(3)]
        ck_scan_chunk [OF ok ctext] ck_data_def)
  ultimately have "chunked_read n \<lparr>mem = m, pos = p\<rparr> ctx out =
      chunked_read k \<lparr>mem = m, pos = ?d + ?l\<rparr> (?ctx\<lparr>ck_size := 0\<rparr>) (out @ snd c)"
    using avail by (simp add: n Let_def)
  moreover have "ck_ready m (?d + ?l) (?ctx\<lparr>ck_size := 0\<rparr>) (q + length (chunk_text c))"
    using data(2) by (simp add: ck_ready_def chunk_text_def)
  ultimately show ?case
    using Cons.IH [OF _ rest, of "?d + ?l" "?ctx\<lparr>ck_size := 0\<rparr>" k "out @ snd c"] Cons.prems n
    by (simp add: body_text_def ac_simps)
qed

text \<open>
  C6: reading a chunked body gives back the data: for chunks written in any spelling of their sizes,
  followed by the last chunk, the reader delivers the concatenation of the data, consumes the body to
  its last byte and reports the end; one call per chunk and one for the end suffice.
\<close>

theorem chunked_roundtrip:
  assumes "list_all chunk_ok cs" "ck_state ctx = 0" "length cs < n"
  shows "\<exists>ctx'. chunked_read n \<lparr>mem = pre @ body_text cs @ post, pos = length pre\<rparr> ctx [] =
    Some (NGX_DONE, concat (map snd cs),
      \<lparr>mem = pre @ body_text cs @ post, pos = length pre + length (body_text cs)\<rparr>, ctx')"
  using chunked_read_body [OF assms(1) found_at_whole _ assms(3), where p = "length pre" and ctx = ctx and out = "[]"]
    assms(2)
  by (simp add: ck_ready_def ck_enc.simps)

section \<open>Interruptions\<close>

definition ck_erase :: "int \<Rightarrow> ngx_http_chunked_t \<Rightarrow> ngx_http_chunked_t" where
  "ck_erase rc ctx =
     (if rc = NGX_OK \<or> rc = NGX_AGAIN then ctx else ctx\<lparr>ck_state := 0, ck_length := 0\<rparr>)"

lemma ck_step_scratch:
  "ck_step kt m p ch n (ctx\<lparr>ck_state := a, ck_length := l\<rparr>) =
     map_act id (\<lambda>ctx. ctx\<lparr>ck_state := a, ck_length := l\<rparr>) id (ck_step kt m p ch n ctx)"
proof (cases "ck_dec n")
  case (Some s)
  have "ck_switch kt s ch (ctx\<lparr>ck_state := a, ck_length := l\<rparr>) =
      map_act id (\<lambda>ctx. ctx\<lparr>ck_state := a, ck_length := l\<rparr>) id (ck_switch kt s ch ctx)"
    by (cases s) (simp_all add: ck_switch_def ngx_step_defs Let_def)
  with Some show ?thesis by (simp add: ck_step_def split: act.split)
qed (simp add: ck_step_def)

text \<open>
  going on after \<^verbatim>\<open>NGX_AGAIN\<close> with more bytes gives the answer, the position, the size and the
  expected length of one call on all the bytes.
\<close>

theorem chunked_resume:
  assumes "ck_wf ctx" "ngx_http_parse_chunked b ctx kt = (NGX_AGAIN, b1, ctx1)"
  shows "observe (\<lambda>rc. rc \<noteq> NGX_ERROR) ck_erase (ngx_http_parse_chunked (buf_append b1 xs) ctx1 kt) =
    observe (\<lambda>rc. rc \<noteq> NGX_ERROR) ck_erase (ngx_http_parse_chunked (buf_append b xs) ctx kt)"
proof -
  note inv = ck_scan_inv [OF assms(1), where kt = kt and m = "mem b" and p = "pos b"]
  obtain q n c where scan: "scan (ck_step kt) (mem b) (pos b) (ck_entry ctx) ctx = Exhausted q n c"
    using assms(2) by (auto simp: ngx_http_parse_chunked_def ck_data_def Let_def
        split: scan_result.splits ck_exit.splits if_splits option.splits)
  with inv have n: "ck_loop_inv n c" by simp
  from scan assms(2) have "ck_data NGX_AGAIN n q b c = (NGX_AGAIN, b1, ctx1)"
    by (simp add: ngx_http_parse_chunked_def)
  from ck_data_ok [OF this _ n] obtain l where b1: "b1 = b\<lparr>pos := q\<rparr>"
    and ctx1: "ctx1 = c\<lparr>ck_state := n, ck_length := l\<rparr>" by auto
  have entry: "ck_entry ctx1 = n"
    using n by (auto simp: ctx1 ck_entry_def ck_loop_inv_def)
  have whole: "scan (ck_step kt) (mem b @ xs) (pos b) (ck_entry ctx) ctx = scan (ck_step kt) (mem b @ xs) q n c"
    using scan by (simp add: chunked.scan_append [of kt "mem b" xs "pos b"])
  have "scan (ck_step kt) (mem b @ xs) q (ck_entry ctx1) ctx1 =
     (case scan (ck_step kt) (mem b @ xs) q n c of
        Exhausted q' n' c' \<Rightarrow> Exhausted q' n' (c'\<lparr>ck_state := n, ck_length := l\<rparr>)
      | Stopped q' x c' \<Rightarrow> Stopped q' x (c'\<lparr>ck_state := n, ck_length := l\<rparr>))"
    unfolding entry unfolding ctx1 by (rule scan_commute) (rule ck_step_scratch)
  moreover have "ck_dec n' \<noteq> None" if "scan (ck_step kt) (mem b @ xs) q n c = Exhausted q' n' c'" for q' n' c'
    using that ck_scan_inv [OF assms(1), where kt = kt and m = "mem b @ xs" and p = "pos b"] whole
    by (auto simp: ck_loop_inv_def)
  ultimately show ?thesis
    by (auto simp: ngx_http_parse_chunked_def buf_append_def b1 whole ck_data_def observe_def ck_erase_def Let_def
        split: scan_result.split ck_exit.split option.split)
qed

section \<open>Witnesses\<close>

definition fresh_chunked :: ngx_http_chunked_t where
  "fresh_chunked = \<lparr>ck_state = 0, ck_size = 0, ck_length = 0\<rparr>"

lemma fresh_chunked_wf: "ck_wf fresh_chunked" "ck_state fresh_chunked = 0"
  by (auto simp: fresh_chunked_def ck_wf_def ck_sized_def ck_enc.simps intro!: exI [of _ sw_chunk_start])

theorem chunked_no_overflow_witness:
  "case ngx_http_parse_chunked \<lparr>mem = str ''7fffffffffffff'', pos = 0\<rparr> fresh_chunked False of
     (rc, b', ctx') \<Rightarrow> ck_size ctx' \<le> NGX_MAX_OFF_T_VALUE"
  using chunked_no_overflow [OF fresh_chunked_wf(1)] by (fastforce split: prod.split)

theorem chunked_length_minimal_witness:
  "\<exists>rc b1 ctx1 (b2 :: ngx_buf_t). ngx_http_parse_chunked \<lparr>mem = str ''3'', pos = 0\<rparr> fresh_chunked False = (rc, b1, ctx1)
     \<and> rc = NGX_AGAIN \<and> ck_length ctx1 = 8 \<and> 8 \<le> int (pos b2) - int (pos b1)"
proof -
  let ?b = "\<lparr>mem = str ''3'', pos = 0\<rparr>" and ?xs = "[CR, LF] @ str ''abc'' @ [LF, ch_0, LF, LF]"
  obtain rc b1 ctx1 where p: "ngx_http_parse_chunked ?b fresh_chunked False = (rc, b1, ctx1)"
    by (cases "ngx_http_parse_chunked ?b fresh_chunked False")
  have "(case ngx_http_parse_chunked ?b fresh_chunked False of (rc, b1, ctx1) \<Rightarrow>
      rc = NGX_AGAIN \<and> ck_length ctx1 = 8 \<and>
      (case chunked_read 4 (buf_append b1 ?xs) ctx1 [] of Some (rc', _) \<Rightarrow> rc' = NGX_DONE | None \<Rightarrow> False))"
    by code_simp
  with p obtain out b2 ctx2 where rc: "rc = NGX_AGAIN" "ck_length ctx1 = 8"
    and read: "chunked_read 4 (buf_append b1 ?xs) ctx1 [] = Some (NGX_DONE, out, b2, ctx2)"
    by (auto split: option.splits)
  from chunked_length_minimal [OF fresh_chunked_wf(1) p _ read] rc
  have "8 \<le> int (pos b2) - int (pos b1)" by simp
  then show ?thesis using rc p by blast
qed

theorem chunked_roundtrip_witness:
  "\<exists>cs ctx'. map snd cs = [str ''ab'', str ''c''] \<and> chunked_read 3 \<lparr>mem = body_text cs, pos = 0\<rparr> fresh_chunked [] =
    Some (NGX_DONE, str ''ab'' @ str ''c'', \<lparr>mem = body_text cs, pos = length (body_text cs)\<rparr>, ctx')"
proof -
  have "list_all chunk_ok [(str ''2'', str ''ab''), (str ''01'', str ''c'')]"
    by (simp add: chunk_ok_def hex_value_def)
  from chunked_roundtrip [OF this fresh_chunked_wf(2), of 3 "[]" "[]"] show ?thesis
    by (intro exI [of _ "[(str ''2'', str ''ab''), (str ''01'', str ''c'')]"]) (simp del: str_simps)
qed

theorem chunked_resume_witness:
  "\<exists>b1 ctx1. ngx_http_parse_chunked \<lparr>mem = str ''3'', pos = 0\<rparr> fresh_chunked False = (NGX_AGAIN, b1, ctx1)
    \<and> observe (\<lambda>rc. rc \<noteq> NGX_ERROR) ck_erase (ngx_http_parse_chunked (buf_append b1 [LF, ch_a]) ctx1 False) =
      observe (\<lambda>rc. rc \<noteq> NGX_ERROR) ck_erase
        (ngx_http_parse_chunked (buf_append \<lparr>mem = str ''3'', pos = 0\<rparr> [LF, ch_a]) fresh_chunked False)"
proof -
  have "fst (ngx_http_parse_chunked \<lparr>mem = str ''3'', pos = 0\<rparr> fresh_chunked False) = NGX_AGAIN" by code_simp
  then show ?thesis using chunked_resume [OF fresh_chunked_wf(1)]
    by (cases "ngx_http_parse_chunked \<lparr>mem = str ''3'', pos = 0\<rparr> fresh_chunked False") fastforce
qed

end
