(* ===== verification/Ngx_Uri.thy ===== *)
theory Ngx_Uri
  imports Ngx_Request_Line
begin

text \<open>
  \<^verbatim>\<open>ngx_http_parse_uri\<close> of
  \<^verbatim>\<open>src/reference/nginx-master/src/http/ngx_http_parse.c\<close>: the check of a path that did not come
  through the HTTP/1 request line (the \<^verbatim>\<open>:path\<close> of HTTP/2 and HTTP/3). It runs from
  \<^verbatim>\<open>r->uri_start\<close> to \<^verbatim>\<open>r->uri_end\<close>; the loop is \<open>scan\<close> over the buffer cut off at
  \<^verbatim>\<open>r->uri_end\<close>. The main theorem relates it to the URI states of the request line parser.
\<close>

section \<open>The function\<close>

datatype pu_state = pu_sw_start | pu_sw_after_slash_in_uri | pu_sw_check_uri | pu_sw_uri

type_synonym pu_act = "(pu_state, ngx_http_request_t, unit) act"

abbreviation (input) pu_error :: "ngx_http_request_t \<Rightarrow> pu_act" where
  "pu_error r \<equiv> Exit () r"

definition pu_start :: "u_char \<Rightarrow> ngx_http_request_t \<Rightarrow> pu_act" where
  [ngx_step_defs]: "pu_start ch r =
     (if ch \<noteq> ch_slash then pu_error r else Next pu_sw_after_slash_in_uri r)"

definition pu_after_slash_in_uri :: "nat \<Rightarrow> u_char \<Rightarrow> ngx_http_request_t \<Rightarrow> pu_act" where
  [ngx_step_defs]: "pu_after_slash_in_uri p ch r =
     (if is_usual ch then Next pu_sw_check_uri r
      else if ch = ch_dot then Next pu_sw_uri (r\<lparr>complex_uri := True\<rparr>)
      else if ch = ch_percent then Next pu_sw_uri (r\<lparr>quoted_uri := True\<rparr>)
      else if ch = ch_slash then Next pu_sw_uri (r\<lparr>complex_uri := True\<rparr>)
      else if ch = ch_qmark then Next pu_sw_uri (r\<lparr>args_start := Some (p + 1)\<rparr>)
      else if ch = ch_hash then Next pu_sw_uri (r\<lparr>complex_uri := True\<rparr>)
      else if ch = ch_plus then Next pu_sw_after_slash_in_uri (r\<lparr>plus_in_uri := True\<rparr>)
      else if ch \<le> 0x20 \<or> ch = 0x7f then pu_error r
      else Next pu_sw_check_uri r)"

definition pu_check_uri :: "nat \<Rightarrow> u_char \<Rightarrow> ngx_http_request_t \<Rightarrow> pu_act" where
  [ngx_step_defs]: "pu_check_uri p ch r =
     (if is_usual ch then Next pu_sw_check_uri r
      else if ch = ch_slash then Next pu_sw_after_slash_in_uri (r\<lparr>uri_ext := None\<rparr>)
      else if ch = ch_dot then Next pu_sw_check_uri (r\<lparr>uri_ext := Some (p + 1)\<rparr>)
      else if ch = ch_percent then Next pu_sw_uri (r\<lparr>quoted_uri := True\<rparr>)
      else if ch = ch_qmark then Next pu_sw_uri (r\<lparr>args_start := Some (p + 1)\<rparr>)
      else if ch = ch_hash then Next pu_sw_uri (r\<lparr>complex_uri := True\<rparr>)
      else if ch = ch_plus then Next pu_sw_check_uri (r\<lparr>plus_in_uri := True\<rparr>)
      else if ch \<le> 0x20 \<or> ch = 0x7f then pu_error r
      else Next pu_sw_check_uri r)"

definition pu_uri :: "u_char \<Rightarrow> ngx_http_request_t \<Rightarrow> pu_act" where
  [ngx_step_defs]: "pu_uri ch r =
     (if is_usual ch then Next pu_sw_uri r
      else if ch = ch_hash then Next pu_sw_uri (r\<lparr>complex_uri := True\<rparr>)
      else if ch \<le> 0x20 \<or> ch = 0x7f then pu_error r
      else Next pu_sw_uri r)"

definition pu_step :: "(pu_state, ngx_http_request_t, unit) step" where
  "pu_step buf p ch s r =
     (case s of
        pu_sw_start \<Rightarrow> pu_start ch r
      | pu_sw_after_slash_in_uri \<Rightarrow> pu_after_slash_in_uri p ch r
      | pu_sw_check_uri \<Rightarrow> pu_check_uri p ch r
      | pu_sw_uri \<Rightarrow> pu_uri ch r)"

definition ngx_http_parse_uri ::
  "u_char list \<Rightarrow> ngx_http_request_t \<Rightarrow> int \<times> ngx_http_request_t" where
  "ngx_http_parse_uri m r =
     (case scan pu_step (take (the (uri_end r)) m) (the (uri_start r)) pu_sw_start r of
        Exhausted p s r' \<Rightarrow> (NGX_OK, r')
      | Stopped p x r' \<Rightarrow> (NGX_ERROR, r'))"

section \<open>Agreement with the request line\<close>

primrec pu_rl :: "pu_state \<Rightarrow> rl_state" where
  "pu_rl pu_sw_start = sw_spaces_before_uri"
| "pu_rl pu_sw_after_slash_in_uri = sw_after_slash_in_uri"
| "pu_rl pu_sw_check_uri = sw_check_uri"
| "pu_rl pu_sw_uri = sw_uri"

text \<open>On a byte other than space, CR and LF the two parsers take the same step.\<close>

lemma not_sp_less: "ch \<noteq> ch_sp \<Longrightarrow> ch \<le> ch_sp \<longleftrightarrow> ch < (ch_sp :: u_char)"
  by auto

lemma pu_rl_step:
  assumes "s \<noteq> pu_sw_start" "ch \<noteq> ch_sp" "ch \<noteq> CR" "ch \<noteq> LF"
  shows "rl_switch (pu_rl s) m p ch r =
    (case pu_step m' p ch s r of
       Next s' r' \<Rightarrow> Next (pu_rl s') r' | Exit x r' \<Rightarrow> Exit RL_invalid_request r')"
  using assms not_sp_less [of ch]
  by (cases s) (simp_all add: rl_switch_def pu_step_def ngx_step_defs)

lemma pu_step_not_start: "pu_step m p ch s r = Next s' r' \<Longrightarrow> s' \<noteq> pu_sw_start"
  by (cases s) (auto simp: pu_step_def ngx_step_defs split: if_splits)

lemma pu_rl_scan:
  assumes "s \<noteq> pu_sw_start" "e \<le> length m" "p \<le> e" "all_in m p e (- {ch_sp, CR, LF})"
  shows "scan rl_step m p (rl_enc (pu_rl s)) r =
    (case scan pu_step (take e m) p s r of
       Exhausted q s' r' \<Rightarrow> scan rl_step m e (rl_enc (pu_rl s')) r'
     | Stopped q x r' \<Rightarrow> Stopped q RL_invalid_request r')"
  using assms
proof (induction "e - p" arbitrary: p s r)
  case 0
  then show ?case by simp
next
  case (Suc k)
  then have p: "p < e" "p < length m" "p < length (take e m)" by simp_all
  with Suc.prems(4) have "m ! p \<notin> {ch_sp, CR, LF}" and rest: "all_in m (Suc p) e (- {ch_sp, CR, LF})"
    by (auto simp: all_in_def)
  then have step: "rl_switch (pu_rl s) m p (m ! p) r =
      (case pu_step (take e m) p (take e m ! p) s r of
         Next s' r' \<Rightarrow> Next (pu_rl s') r' | Exit x r' \<Rightarrow> Exit RL_invalid_request r')"
    using pu_rl_step [OF Suc.prems(1), of "m ! p"] p by simp
  show ?case
  proof (cases "pu_step (take e m) p (take e m ! p) s r")
    case (Exit x r')
    with step p have "scan rl_step m p (rl_enc (pu_rl s)) r = Stopped p RL_invalid_request r'"
      by (intro scan_Exit) (simp_all add: rl_step_def)
    with Exit p show ?thesis by (simp add: scan_Exit)
  next
    case (Next s' r')
    with step p have "scan rl_step m p (rl_enc (pu_rl s)) r = scan rl_step m (Suc p) (rl_enc (pu_rl s')) r'"
      by (intro scan_Next) (simp_all add: rl_step_def)
    also have "\<dots> = (case scan pu_step (take e m) (Suc p) s' r' of
       Exhausted q s'' r'' \<Rightarrow> scan rl_step m e (rl_enc (pu_rl s'')) r''
     | Stopped q x r'' \<Rightarrow> Stopped q RL_invalid_request r'')"
      using Suc.hyps(2) p rest pu_step_not_start [OF Next] Suc.prems(2)
      by (intro Suc.hyps(1)) simp_all
    finally show ?thesis using Next p by (simp add: scan_Next)
  qed
qed

text \<open>
  C37: a path received outside HTTP/1 is judged as the request line parser judges it: with the URI at
  \<open>[u, e)\<close> of a line, free of space, CR and LF, the request line parser standing before it
  goes on behind it with exactly the request (flags, extension and argument pointers) that
  \<^verbatim>\<open>ngx_http_parse_uri\<close> leaves, or both refuse the URI.
\<close>

theorem parse_uri_agrees:
  assumes "u < e" "e \<le> length m" "all_in m u e (- {ch_sp, CR, LF})" "m ! u = ch_slash"
    and "uri_end r = Some e"
  shows "case ngx_http_parse_uri m (r\<lparr>uri_start := Some u\<rparr>) of (rc, r') \<Rightarrow>
    if rc = NGX_OK
    then \<exists>s. s \<in> {sw_after_slash_in_uri, sw_check_uri, sw_uri}
           \<and> scan rl_step m u (rl_enc sw_spaces_before_uri) r = scan rl_step m e (rl_enc s) r'
    else \<exists>q. scan rl_step m u (rl_enc sw_spaces_before_uri) r = Stopped q RL_invalid_request r'"
proof -
  let ?r = "r\<lparr>uri_start := Some u\<rparr>"
  have first: "scan rl_step m u (rl_enc sw_spaces_before_uri) r =
      scan rl_step m (Suc u) (rl_enc (pu_rl pu_sw_after_slash_in_uri)) ?r"
    using assms by (intro scan_Next)
      (simp_all add: rl_step_def rl_dec_def rl_states_def rl_switch_def rl_spaces_before_uri_def)
  have pfirst: "scan pu_step (take e m) u pu_sw_start ?r =
      scan pu_step (take e m) (Suc u) pu_sw_after_slash_in_uri ?r"
    using assms by (intro scan_Next) (simp_all add: pu_step_def pu_start_def)
  have rest: "all_in m (Suc u) e (- {ch_sp, CR, LF})" using assms(3) by (auto simp: all_in_def)
  have eq: "scan rl_step m u (rl_enc sw_spaces_before_uri) r =
    (case scan pu_step (take e m) u pu_sw_start ?r of
       Exhausted q s' r' \<Rightarrow> scan rl_step m e (rl_enc (pu_rl s')) r'
     | Stopped q x r' \<Rightarrow> Stopped q RL_invalid_request r')"
    unfolding first pfirst using assms rest by (intro pu_rl_scan) simp_all
  have inv: "case scan pu_step (take e m) u pu_sw_start ?r of
      Exhausted q s' r' \<Rightarrow> s' \<noteq> pu_sw_start \<and> length (take e m) \<le> q \<and> Suc u \<le> q
    | Stopped q x r' \<Rightarrow> True \<and> Suc u \<le> q \<and> q < length (take e m)"
    unfolding pfirst by (rule scan_invariant [where I = "\<lambda>p s r. s \<noteq> pu_sw_start"])
      (auto dest: pu_step_not_start)
  show ?thesis
  proof (cases "scan pu_step (take e m) u pu_sw_start ?r")
    case (Exhausted q s' r')
    with inv have "pu_rl s' \<in> {sw_after_slash_in_uri, sw_check_uri, sw_uri}" by (cases s') simp_all
    with Exhausted eq assms(5) show ?thesis
      by (auto simp: ngx_http_parse_uri_def)
  next
    case (Stopped q x r')
    with eq assms(5) show ?thesis by (simp add: ngx_http_parse_uri_def)
  qed
qed

theorem parse_uri_agrees_witness:
  "\<exists>rc r'. ngx_http_parse_uri (str ''/a/b?c'') (fresh_request\<lparr>uri_end := Some 6, uri_start := Some 0\<rparr>) = (rc, r')
    \<and> (rc = NGX_OK \<longrightarrow> (\<exists>s. scan rl_step (str ''/a/b?c'') 0 (rl_enc sw_spaces_before_uri)
        (fresh_request\<lparr>uri_end := Some 6\<rparr>) = scan rl_step (str ''/a/b?c'') 6 (rl_enc s) r'))"
proof -
  have bytes: "all_in (str ''/a/b?c'') 0 6 (- {ch_sp, CR, LF})" "str ''/a/b?c'' ! 0 = ch_slash"
    by (simp_all add: all_in_subbuf subbuf_def)
  from parse_uri_agrees [OF _ _ bytes, of "fresh_request\<lparr>uri_end := Some 6\<rparr>"] show ?thesis
    by (cases "ngx_http_parse_uri (str ''/a/b?c'') (fresh_request\<lparr>uri_end := Some 6, uri_start := Some 0\<rparr>)")
      (auto simp del: str_simps)
qed

end
