(* ===== verification/Ngx_Complex_Uri.thy ===== *)
theory Ngx_Complex_Uri
  imports Ngx_Request
begin

text \<open>
  \<^verbatim>\<open>ngx_http_parse_complex_uri\<close> of
  \<^verbatim>\<open>src/reference/nginx-master/src/http/ngx_http_parse.c\<close> (the build without \<^verbatim>\<open>NGX_WIN32\<close>):
  percent decoding, removal of dot segments and merging of slashes in one pass over the URI.

  The bytes written through \<^verbatim>\<open>u\<close> are the list \<open>cu_out\<close>, so that \<^verbatim>\<open>u - r->uri.data\<close> is
  its length: \<^verbatim>\<open>*u++ = ch\<close> appends, \<^verbatim>\<open>u--\<close> drops the last byte, and bytes at or above \<^verbatim>\<open>u\<close>
  are never read. \<open>cap\<close> is the size of the block at \<^verbatim>\<open>r->uri.data\<close>. A write at \<open>cap\<close> or above,
  a step of \<^verbatim>\<open>u\<close> below the block, and a read behind the buffer are the result \<open>None\<close>.
\<close>

section \<open>The function\<close>

datatype cu_path_state = cu_sw_usual | cu_sw_slash | cu_sw_dot | cu_sw_dot_dot

text \<open>\<^verbatim>\<open>quoted_state\<close> only ever holds one of the first four enumerators.\<close>

datatype cu_state = Path cu_path_state | cu_sw_quoted | cu_sw_quoted_second

record cu_vars =
  cu_state :: cu_state
  cu_quoted_state :: cu_path_state
  cu_p :: nat
  cu_ch :: u_char
  cu_decoded :: u_char
  cu_out :: "u_char list"

datatype cu_act =
    CU_loop cu_vars ngx_http_request_t
  | CU_args cu_vars ngx_http_request_t
  | CU_done cu_vars ngx_http_request_t
  | CU_invalid cu_vars ngx_http_request_t
  | CU_fault

text \<open>\<^verbatim>\<open>ch = *p++; break;\<close>\<close>

definition cu_next :: "u_char list \<Rightarrow> cu_vars \<Rightarrow> ngx_http_request_t \<Rightarrow> cu_act" where
  "cu_next m v r =
     (if cu_p v < length m then CU_loop (v\<lparr>cu_ch := m ! cu_p v, cu_p := cu_p v + 1\<rparr>) r else CU_fault)"

text \<open>\<^verbatim>\<open>*u++ = c; ch = *p++; break;\<close>\<close>

definition cu_emit :: "u_char list \<Rightarrow> nat \<Rightarrow> u_char \<Rightarrow> cu_vars \<Rightarrow> ngx_http_request_t \<Rightarrow> cu_act" where
  "cu_emit m cap c v r =
     (if length (cu_out v) < cap then cu_next m (v\<lparr>cu_out := cu_out v @ [c]\<rparr>) r else CU_fault)"

text \<open>The backward search for a slash, from index \<open>u\<close>; the result is one past the slash.\<close>

function cu_back :: "u_char list \<Rightarrow> int \<Rightarrow> int option" where
  "cu_back out u =
     (if u < 0 then None
      else if out ! nat u = ch_slash then Some (u + 1)
      else cu_back out (u - 1))"
  by pat_completeness auto
termination
  by (relation "measure (\<lambda>(out, u). nat (u + 1))") auto

declare cu_back.simps [simp del]

definition cu_up :: "u_char list \<Rightarrow> u_char list option" where
  "cu_up out = map_option (\<lambda>u. take (nat u) out) (cu_back out (int (length out) - 4))"

definition cu_quote :: "u_char list \<Rightarrow> cu_path_state \<Rightarrow> cu_vars \<Rightarrow> ngx_http_request_t \<Rightarrow> cu_act" where
  "cu_quote m s v r = cu_next m (v\<lparr>cu_quoted_state := s, cu_state := cu_sw_quoted\<rparr>) r"

definition cu_usual :: "u_char list \<Rightarrow> nat \<Rightarrow> cu_vars \<Rightarrow> ngx_http_request_t \<Rightarrow> cu_act" where
  "cu_usual m cap v r =
     (let ch = cu_ch v in
      if is_usual ch then cu_emit m cap ch v r
      else if ch = ch_slash then
        cu_emit m cap ch (v\<lparr>cu_state := Path cu_sw_slash\<rparr>) (r\<lparr>uri_ext := None\<rparr>)
      else if ch = ch_percent then cu_quote m cu_sw_usual v r
      else if ch = ch_qmark then CU_args v (r\<lparr>args_start := Some (cu_p v)\<rparr>)
      else if ch = ch_hash then CU_done v r
      else if ch = ch_dot then
        cu_emit m cap ch v (r\<lparr>uri_ext := Some (length (cu_out v) + 1)\<rparr>)
      else if ch = ch_plus then cu_emit m cap ch v (r\<lparr>plus_in_uri := True\<rparr>)
      else cu_emit m cap ch v r)"

definition cu_slash :: "u_char list \<Rightarrow> nat \<Rightarrow> bool \<Rightarrow> cu_vars \<Rightarrow> ngx_http_request_t \<Rightarrow> cu_act" where
  "cu_slash m cap merge_slashes v r =
     (let ch = cu_ch v in
      if is_usual ch then cu_emit m cap ch (v\<lparr>cu_state := Path cu_sw_usual\<rparr>) r
      else if ch = ch_slash then
        (if \<not> merge_slashes then cu_emit m cap ch v r else cu_next m v r)
      else if ch = ch_dot then cu_emit m cap ch (v\<lparr>cu_state := Path cu_sw_dot\<rparr>) r
      else if ch = ch_percent then cu_quote m cu_sw_slash v r
      else if ch = ch_qmark then CU_args v (r\<lparr>args_start := Some (cu_p v)\<rparr>)
      else if ch = ch_hash then CU_done v r
      else if ch = ch_plus then
        cu_emit m cap ch (v\<lparr>cu_state := Path cu_sw_usual\<rparr>) (r\<lparr>plus_in_uri := True\<rparr>)
      else cu_emit m cap ch (v\<lparr>cu_state := Path cu_sw_usual\<rparr>) r)"

text \<open>\<^verbatim>\<open>u--\<close>\<close>

definition cu_drop :: "cu_vars \<Rightarrow> (cu_vars \<Rightarrow> cu_act) \<Rightarrow> cu_act" where
  "cu_drop v k =
     (if cu_out v = [] then CU_fault else k (v\<lparr>cu_out := butlast (cu_out v)\<rparr>))"

definition cu_dot :: "u_char list \<Rightarrow> nat \<Rightarrow> cu_vars \<Rightarrow> ngx_http_request_t \<Rightarrow> cu_act" where
  "cu_dot m cap v r =
     (let ch = cu_ch v in
      if is_usual ch then cu_emit m cap ch (v\<lparr>cu_state := Path cu_sw_usual\<rparr>) r
      else if ch = ch_slash then
        cu_drop (v\<lparr>cu_state := Path cu_sw_slash\<rparr>) (\<lambda>v. cu_next m v r)
      else if ch = ch_dot then cu_emit m cap ch (v\<lparr>cu_state := Path cu_sw_dot_dot\<rparr>) r
      else if ch = ch_percent then cu_quote m cu_sw_dot v r
      else if ch = ch_qmark then
        cu_drop v (\<lambda>v. CU_args v (r\<lparr>args_start := Some (cu_p v)\<rparr>))
      else if ch = ch_hash then cu_drop v (\<lambda>v. CU_done v r)
      else if ch = ch_plus then
        cu_emit m cap ch (v\<lparr>cu_state := Path cu_sw_usual\<rparr>) (r\<lparr>plus_in_uri := True\<rparr>)
      else cu_emit m cap ch (v\<lparr>cu_state := Path cu_sw_usual\<rparr>) r)"

definition cu_dot_dot :: "u_char list \<Rightarrow> nat \<Rightarrow> cu_vars \<Rightarrow> ngx_http_request_t \<Rightarrow> cu_act" where
  "cu_dot_dot m cap v r =
     (let ch = cu_ch v in
      if is_usual ch then cu_emit m cap ch (v\<lparr>cu_state := Path cu_sw_usual\<rparr>) r
      else if ch = ch_slash \<or> ch = ch_qmark \<or> ch = ch_hash then
        (case cu_up (cu_out v) of
           None \<Rightarrow> CU_invalid v r
         | Some out \<Rightarrow>
           (let v = v\<lparr>cu_out := out\<rparr> in
            if ch = ch_qmark then CU_args v (r\<lparr>args_start := Some (cu_p v)\<rparr>)
            else if ch = ch_hash then CU_done v r
            else cu_next m (v\<lparr>cu_state := Path cu_sw_slash\<rparr>) r))
      else if ch = ch_percent then cu_quote m cu_sw_dot_dot v r
      else if ch = ch_plus then
        cu_emit m cap ch (v\<lparr>cu_state := Path cu_sw_usual\<rparr>) (r\<lparr>plus_in_uri := True\<rparr>)
      else cu_emit m cap ch (v\<lparr>cu_state := Path cu_sw_usual\<rparr>) r)"

definition cu_quoted :: "u_char list \<Rightarrow> cu_vars \<Rightarrow> ngx_http_request_t \<Rightarrow> cu_act" where
  "cu_quoted m v r =
     (let ch = cu_ch v; r = r\<lparr>quoted_uri := True\<rparr> in
      if is_digit ch then
        cu_next m (v\<lparr>cu_decoded := ch - ch_0, cu_state := cu_sw_quoted_second\<rparr>) r
      else (let c = fold_case ch in
        if ch_a \<le> c \<and> c \<le> ch_f then
          cu_next m (v\<lparr>cu_decoded := c - ch_a + 10, cu_state := cu_sw_quoted_second\<rparr>) r
        else CU_invalid v r))"

definition cu_quoted_second ::
  "u_char list \<Rightarrow> nat \<Rightarrow> cu_vars \<Rightarrow> ngx_http_request_t \<Rightarrow> cu_act" where
  "cu_quoted_second m cap v r =
     (if is_digit (cu_ch v) then
        (let ch = push_bit 4 (cu_decoded v) + (cu_ch v - ch_0); v = v\<lparr>cu_ch := ch\<rparr> in
         if ch = ch_percent \<or> ch = ch_hash then
           cu_emit m cap ch (v\<lparr>cu_state := Path cu_sw_usual\<rparr>) r
         else if ch = ch_nul then CU_invalid v r
         else CU_loop (v\<lparr>cu_state := Path (cu_quoted_state v)\<rparr>) r)
      else (let c = fold_case (cu_ch v) in
        if ch_a \<le> c \<and> c \<le> ch_f then
          (let ch = push_bit 4 (cu_decoded v) + (c - ch_a) + 10; v = v\<lparr>cu_ch := ch\<rparr> in
           if ch = ch_qmark then cu_emit m cap ch (v\<lparr>cu_state := Path cu_sw_usual\<rparr>) r
           else (let r = (if ch = ch_plus then r\<lparr>plus_in_uri := True\<rparr> else r) in
             CU_loop (v\<lparr>cu_state := Path (cu_quoted_state v)\<rparr>) r))
        else CU_invalid v r))"

definition cu_iter ::
  "u_char list \<Rightarrow> nat \<Rightarrow> bool \<Rightarrow> cu_vars \<Rightarrow> ngx_http_request_t \<Rightarrow> cu_act" where
  "cu_iter m cap merge_slashes v r =
     (case cu_state v of
        Path cu_sw_usual \<Rightarrow> cu_usual m cap v r
      | Path cu_sw_slash \<Rightarrow> cu_slash m cap merge_slashes v r
      | Path cu_sw_dot \<Rightarrow> cu_dot m cap v r
      | Path cu_sw_dot_dot \<Rightarrow> cu_dot_dot m cap v r
      | cu_sw_quoted \<Rightarrow> cu_quoted m v r
      | cu_sw_quoted_second \<Rightarrow> cu_quoted_second m cap v r)"

type_synonym cu_result = "(int \<times> u_char list \<times> ngx_http_request_t) option"

text \<open>The code that the labels \<^verbatim>\<open>done\<close> and \<^verbatim>\<open>args\<close> share.\<close>

definition cu_set_uri :: "cu_vars \<Rightarrow> ngx_http_request_t \<Rightarrow> cu_result" where
  "cu_set_uri v r =
     (let u = length (cu_out v);
          r = r\<lparr>uri := (uri r)\<lparr>len := u\<rparr>\<rparr>;
          r = (case uri_ext r of
                 None \<Rightarrow> r
               | Some e \<Rightarrow> r\<lparr>exten := \<lparr>str_region = Uri_block, off = e, len = u - e\<rparr>\<rparr>)
      in Some (NGX_OK, cu_out v, r\<lparr>uri_ext := None\<rparr>))"

text \<open>The loop at \<^verbatim>\<open>args\<close>: the result is one past the first \<^verbatim>\<open>#\<close>, if there is one.\<close>

function cu_find_hash :: "u_char list \<Rightarrow> nat \<Rightarrow> nat \<Rightarrow> nat option option" where
  "cu_find_hash m p e =
     (if p < e then
        (if p < length m then
           (if m ! p \<noteq> ch_hash then cu_find_hash m (Suc p) e else Some (Some (Suc p)))
         else None)
      else Some None)"
  by pat_completeness auto
termination
  by (relation "measure (\<lambda>(m, p, e). e - p)") auto

declare cu_find_hash.simps [simp del]

definition cu_args :: "u_char list \<Rightarrow> cu_vars \<Rightarrow> ngx_http_request_t \<Rightarrow> cu_result" where
  "cu_args m v r =
     (case cu_find_hash m (cu_p v) (the (uri_end r)) of
        None \<Rightarrow> None
      | Some None \<Rightarrow> cu_set_uri v r
      | Some (Some p) \<Rightarrow>
          cu_set_uri v (r\<lparr>args := \<lparr>str_region = Header_in, off = the (args_start r),
                                   len = p - 1 - the (args_start r)\<rparr>, args_start := None\<rparr>))"

text \<open>The code between the loop and \<^verbatim>\<open>done\<close>.\<close>

definition cu_tail :: "cu_vars \<Rightarrow> ngx_http_request_t \<Rightarrow> cu_result" where
  "cu_tail v r =
     (case cu_state v of
        cu_sw_quoted \<Rightarrow> Some (NGX_HTTP_PARSE_INVALID_REQUEST, cu_out v, r)
      | cu_sw_quoted_second \<Rightarrow> Some (NGX_HTTP_PARSE_INVALID_REQUEST, cu_out v, r)
      | Path cu_sw_dot \<Rightarrow>
          (if cu_out v = [] then None else cu_set_uri (v\<lparr>cu_out := butlast (cu_out v)\<rparr>) r)
      | Path cu_sw_dot_dot \<Rightarrow>
          (case cu_up (cu_out v) of
             None \<Rightarrow> Some (NGX_HTTP_PARSE_INVALID_REQUEST, cu_out v, r)
           | Some out \<Rightarrow> cu_set_uri (v\<lparr>cu_out := out\<rparr>) r)
      | _ \<Rightarrow> cu_set_uri v r)"

definition cu_pending :: "cu_vars \<Rightarrow> ngx_http_request_t \<Rightarrow> nat" where
  "cu_pending v r =
     2 * (Suc (the (uri_end r)) - cu_p v) + (if cu_state v = cu_sw_quoted_second then 1 else 0)"

lemmas cu_case_defs = cu_usual_def cu_slash_def cu_dot_def cu_dot_dot_def cu_quoted_def
  cu_quoted_second_def cu_quote_def cu_drop_def cu_emit_def cu_next_def

text \<open>Every iteration reads a byte, but for the one that completes an escape.\<close>

lemma cu_iter_progress:
  assumes "cu_iter m cap mg v r = CU_loop v' r'"
  shows "uri_end r' = uri_end r"
    and "cu_p v' = Suc (cu_p v) \<or> cu_p v' = cu_p v \<and> cu_state v = cu_sw_quoted_second
      \<and> cu_state v' \<noteq> cu_sw_quoted_second"
  using assms
  by (auto simp: cu_iter_def cu_case_defs Let_def
      split: cu_state.splits cu_path_state.splits if_splits option.splits)

lemma cu_iter_pending:
  assumes "cu_iter m cap mg v r = CU_loop v' r'" "cu_p v \<le> the (uri_end r)"
  shows "cu_pending v' r' < cu_pending v r"
  using cu_iter_progress [OF assms(1)] assms(2) by (auto simp: cu_pending_def)

function cu_loop ::
  "u_char list \<Rightarrow> nat \<Rightarrow> bool \<Rightarrow> cu_vars \<Rightarrow> ngx_http_request_t \<Rightarrow> cu_result" where
  "cu_loop m cap merge_slashes v r =
     (if cu_p v \<le> the (uri_end r) then
        (case cu_iter m cap merge_slashes v r of
           CU_loop v' r' \<Rightarrow> cu_loop m cap merge_slashes v' r'
         | CU_args v' r' \<Rightarrow> cu_args m v' r'
         | CU_done v' r' \<Rightarrow> cu_set_uri v' r'
         | CU_invalid v' r' \<Rightarrow> Some (NGX_HTTP_PARSE_INVALID_REQUEST, cu_out v', r')
         | CU_fault \<Rightarrow> None)
      else cu_tail v r)"
  by pat_completeness auto
termination
  by (relation "measure (\<lambda>(m, cap, mg, v, r). cu_pending v r)") (auto intro: cu_iter_pending)

declare cu_loop.simps [simp del]

definition ngx_http_parse_complex_uri ::
  "u_char list \<Rightarrow> nat \<Rightarrow> ngx_http_request_t \<Rightarrow> bool \<Rightarrow> cu_result" where
  "ngx_http_parse_complex_uri m cap r merge_slashes =
     (let p = the (uri_start r);
          r = r\<lparr>uri_ext := None, args_start := None\<rparr>
      in if empty_path_in_uri r \<and> cap = 0 then None
         else if length m \<le> p then None
         else cu_loop m cap merge_slashes
           \<lparr>cu_state = Path cu_sw_usual, cu_quoted_state = cu_sw_usual, cu_p = p + 1, cu_ch = m ! p,
            cu_decoded = 0, cu_out = (if empty_path_in_uri r then [ch_slash] else [])\<rparr> r)"

end
