(* ===== verification/Ngx_Complex_Uri_Props.thy ===== *)
theory Ngx_Complex_Uri_Props
  imports Ngx_Complex_Uri
begin

text \<open>
  The reference definition of a normalised path and the proof that the one-pass state machine of
  \<open>Ngx_Complex_Uri\<close> implements it: cut the URI at the query or fragment, decode the escapes,
  split at slashes, resolve \<^verbatim>\<open>.\<close> and \<^verbatim>\<open>..\<close> on a stack of segments.
\<close>

section \<open>The reference definition\<close>

abbreviation is_hex :: "u_char \<Rightarrow> bool" where
  "is_hex d \<equiv> is_digit d \<or> is_hex_alpha d"

definition hex_digit :: "u_char \<Rightarrow> u_char" where
  "hex_digit d = (if is_digit d then d - ch_0 else fold_case d - ch_a + 10)"

lemma hex_digit_digit: "is_digit d \<Longrightarrow> hex_digit d = d - ch_0"
  and hex_digit_alpha: "\<not> is_digit d \<Longrightarrow> hex_digit d = fold_case d - ch_a + 10"
  unfolding hex_digit_def by (simp_all only: if_P if_not_P if_False)

fun pct_decode :: "u_char list \<Rightarrow> u_char list option" where
  "pct_decode [] = Some []"
| "pct_decode (c # cs) =
     (if c = ch_percent then
        (case cs of
           a # b # cs' \<Rightarrow>
             (if is_hex a \<and> is_hex b then
                (let d = push_bit 4 (hex_digit a) + hex_digit b in
                 if d = 0 then None else map_option (Cons d) (pct_decode cs'))
              else None)
         | _ \<Rightarrow> None)
      else map_option (Cons c) (pct_decode cs))"

text \<open>The closed segments and the open one as a path.\<close>

definition render :: "u_char list list \<Rightarrow> u_char list \<Rightarrow> u_char list" where
  "render st cur = concat (map (Cons ch_slash) st) @ ch_slash # cur"

text \<open>A slash closes the open segment.\<close>

definition close_segment :: "bool \<Rightarrow> u_char list list \<Rightarrow> u_char list \<Rightarrow> u_char list list option" where
  "close_segment merge st cur =
     (if cur = [] then Some (if merge then st else st @ [[]])
      else if cur = [ch_dot] then Some st
      else if cur = [ch_dot, ch_dot] then (if st = [] then None else Some (butlast st))
      else Some (st @ [cur]))"

text \<open>The end of the path.\<close>

definition close_path :: "u_char list list \<Rightarrow> u_char list \<Rightarrow> u_char list option" where
  "close_path st cur =
     (if cur = [ch_dot] then Some (render st [])
      else if cur = [ch_dot, ch_dot] then (if st = [] then None else Some (render (butlast st) []))
      else Some (render st cur))"

primrec resolve :: "bool \<Rightarrow> u_char list list \<Rightarrow> u_char list \<Rightarrow> u_char list \<Rightarrow> u_char list option" where
  "resolve merge st cur [] = close_path st cur"
| "resolve merge st cur (c # cs) =
     (if c = ch_slash then
        Option.bind (close_segment merge st cur) (\<lambda>st'. resolve merge st' [] cs)
      else resolve merge st (cur @ [c]) cs)"

abbreviation path_part :: "u_char list \<Rightarrow> u_char list" where
  "path_part raw \<equiv> takeWhile (\<lambda>c. c \<noteq> ch_qmark \<and> c \<noteq> ch_hash) raw"

text \<open>The path that a URI starting with a slash denotes.\<close>

definition normal_path :: "bool \<Rightarrow> u_char list \<Rightarrow> u_char list option" where
  "normal_path merge raw = Option.bind (pct_decode (path_part raw)) (\<lambda>ds. resolve merge [] [] (tl ds))"

section \<open>The machine follows the reference\<close>

definition segment_class :: "u_char list \<Rightarrow> cu_path_state" where
  "segment_class cur =
     (if cur = [] then cu_sw_slash
      else if cur = [ch_dot] then cu_sw_dot
      else if cur = [ch_dot, ch_dot] then cu_sw_dot_dot
      else cu_sw_usual)"

definition cu_rel :: "cu_vars \<Rightarrow> u_char list list \<Rightarrow> u_char list \<Rightarrow> bool" where
  "cu_rel v st cur \<longleftrightarrow>
     cu_out v = render st cur \<and> (\<forall>s\<in>set st. ch_slash \<notin> set s) \<and> ch_slash \<notin> set cur"

lemma render_snoc: "render (st @ [s]) cur = render st s @ ch_slash # cur"
  by (simp add: render_def)

lemma render_extend: "render st (cur @ [c]) = render st cur @ [c]"
  by (simp add: render_def)

lemma render_not_Nil [simp]: "render st cur \<noteq> []"
  by (simp add: render_def)

lemma segment_class_extend:
  "c \<noteq> ch_dot \<Longrightarrow> segment_class (cur @ [c]) = cu_sw_usual"
  "segment_class cur = cu_sw_usual \<Longrightarrow> segment_class (cur @ [c]) = cu_sw_usual"
  "segment_class cur = cu_sw_slash \<Longrightarrow> segment_class (cur @ [ch_dot]) = cu_sw_dot"
  "segment_class cur = cu_sw_dot \<Longrightarrow> segment_class (cur @ [ch_dot]) = cu_sw_dot_dot"
  "segment_class cur = cu_sw_dot_dot \<Longrightarrow> segment_class (cur @ [ch_dot]) = cu_sw_usual"
  by (auto simp: segment_class_def append_eq_Cons_conv split: if_splits)

text \<open>The backward search undoes the last closed segment.\<close>

lemma cu_back_segment:
  assumes "ch_slash \<notin> set x" "k \<le> length x"
  shows "cu_back (P @ ch_slash # x @ ys) (int (length P) + int k) = Some (int (length P) + 1)"
  using assms
proof (induction k)
  case 0
  then show ?case by (subst cu_back.simps) (simp add: nth_append)
next
  case (Suc k)
  have "(P @ ch_slash # x @ ys) ! nat (int (length P) + int (Suc k)) = x ! k"
    using Suc.prems by (simp add: nth_append nat_add_distrib nat_int_add)
  moreover have "x ! k \<noteq> ch_slash" using Suc.prems by (metis Suc_le_lessD nth_mem)
  moreover have "int (length P) + int (Suc k) - 1 = int (length P) + int k" by simp
  ultimately show ?case using Suc by (subst cu_back.simps) simp
qed

lemma cu_up_render:
  assumes "\<forall>s\<in>set st. ch_slash \<notin> set s"
  shows "cu_up (render st [ch_dot, ch_dot]) = (if st = [] then None else Some (render (butlast st) []))"
proof (cases st rule: rev_cases)
  case Nil
  then show ?thesis by (simp add: cu_up_def render_def cu_back.simps)
next
  case (snoc st' x)
  let ?P = "concat (map (Cons ch_slash) st')"
  have eq: "render st [ch_dot, ch_dot] = ?P @ ch_slash # x @ [ch_slash, ch_dot, ch_dot]"
    by (simp add: snoc render_def)
  have "int (length (render st [ch_dot, ch_dot])) - 4 = int (length ?P) + int (length x)"
    by (simp add: eq)
  moreover have "cu_back (render st [ch_dot, ch_dot]) (int (length ?P) + int (length x)) = Some (int (length ?P) + 1)"
    unfolding eq using assms snoc by (intro cu_back_segment) simp_all
  ultimately show ?thesis by (simp add: cu_up_def snoc eq [unfolded snoc] render_def nat_add_distrib)
qed

lemma cu_next_ok:
  "cu_p v < length m \<Longrightarrow> cu_next m v r = CU_loop (v\<lparr>cu_ch := m ! cu_p v, cu_p := Suc (cu_p v)\<rparr>) r"
  by (simp add: cu_next_def)

lemma cu_emit_ok:
  "cu_p v < length m \<Longrightarrow> length (cu_out v) < cap \<Longrightarrow> cu_emit m cap c v r =
   CU_loop (v\<lparr>cu_out := cu_out v @ [c], cu_ch := m ! cu_p v, cu_p := Suc (cu_p v)\<rparr>) r"
  by (simp add: cu_emit_def cu_next_def)

text \<open>What the next iteration sees: the state of the open segment and the byte behind.\<close>

definition cu_at :: "u_char list \<Rightarrow> nat \<Rightarrow> cu_vars \<Rightarrow> u_char list list \<Rightarrow> u_char list \<Rightarrow> ngx_http_request_t \<Rightarrow> bool" where
  "cu_at m e v st cur r \<longleftrightarrow>
     cu_rel v st cur \<and> cu_state v = Path (segment_class cur) \<and> uri_end r = Some e"

text \<open>One byte of the decoded path.\<close>

definition next_segment ::
  "bool \<Rightarrow> u_char list list \<Rightarrow> u_char list \<Rightarrow> u_char \<Rightarrow> (u_char list list \<times> u_char list) option" where
  "next_segment merge st cur c =
     (if c = ch_slash then map_option (\<lambda>st'. (st', [])) (close_segment merge st cur)
      else Some (st, cur @ [c]))"

lemma resolve_next:
  "resolve merge st cur (c # cs) =
     Option.bind (next_segment merge st cur c) (\<lambda>(st', cur'). resolve merge st' cur' cs)"
  by (cases "close_segment merge st cur") (simp_all add: next_segment_def)

lemma cu_rel_extend:
  "cu_rel v st cur \<Longrightarrow> c \<noteq> ch_slash \<Longrightarrow> cu_out v' = cu_out v @ [c] \<Longrightarrow> cu_rel v' st (cur @ [c])"
  by (simp add: cu_rel_def render_extend)

text \<open>A byte that extends the open segment is emitted, whatever the state.\<close>

lemma cu_iter_extend:
  assumes at: "cu_at m e v st cur r" and c: "cu_ch v \<notin> {ch_slash, ch_percent, ch_qmark, ch_hash}"
    and room: "cu_p v < length m" "length (cu_out v) < cap"
  shows "\<exists>r'. cu_iter m cap merge v r =
      CU_loop (v\<lparr>cu_state := Path (segment_class (cur @ [cu_ch v])), cu_out := cu_out v @ [cu_ch v],
        cu_ch := m ! cu_p v, cu_p := Suc (cu_p v)\<rparr>) r' \<and> uri_end r' = uri_end r"
proof -
  let ?c = "cu_ch v"
  from at have st: "cu_state v = Path (segment_class cur)" by (simp add: cu_at_def)
  have emit: "cu_emit m cap c (v\<lparr>cu_state := s\<rparr>) r' =
      CU_loop (v\<lparr>cu_state := s, cu_out := cu_out v @ [c], cu_ch := m ! cu_p v, cu_p := Suc (cu_p v)\<rparr>) r'"
    for c s r' using room by (simp add: cu_emit_ok)
  have emit0: "cu_emit m cap c v r' =
      CU_loop (v\<lparr>cu_out := cu_out v @ [c], cu_ch := m ! cu_p v, cu_p := Suc (cu_p v)\<rparr>) r'"
    for c r' using room by (simp add: cu_emit_ok)
  have same: "v\<lparr>cu_state := Path cu_sw_usual, cu_out := o', cu_ch := c', cu_p := p'\<rparr> =
      v\<lparr>cu_out := o', cu_ch := c', cu_p := p'\<rparr>" if "cu_state v = Path cu_sw_usual" for o' c' p'
    using that by (cases v) simp
  show ?thesis
  proof (cases "?c = ch_dot")
    case True
    then show ?thesis
      by (cases "segment_class cur")
        (use st same in \<open>auto simp: cu_iter_def cu_usual_def cu_slash_def cu_dot_def cu_dot_dot_def emit emit0
          segment_class_extend Let_def\<close>)
  next
    case False
    then have "segment_class (cur @ [?c]) = cu_sw_usual" by (rule segment_class_extend)
    with False c st same show ?thesis
      by (cases "segment_class cur")
        (auto simp: cu_iter_def cu_usual_def cu_slash_def cu_dot_def cu_dot_dot_def emit emit0 Let_def)
  qed
qed

lemma cu_iter_slash:
  assumes at: "cu_at m e v st cur r" and c: "cu_ch v = ch_slash"
    and room: "cu_p v < length m" "length (cu_out v) < cap"
  shows "case close_segment merge st cur of
      None \<Rightarrow> \<exists>v' r'. cu_iter m cap merge v r = CU_invalid v' r'
    | Some st' \<Rightarrow> \<exists>v' r'. cu_iter m cap merge v r = CU_loop v' r' \<and> cu_at m e v' st' [] r'
        \<and> cu_ch v' = m ! cu_p v \<and> cu_p v' = Suc (cu_p v) \<and> length (cu_out v') \<le> Suc (length (cu_out v))"
proof -
  from at have st: "cu_state v = Path (segment_class cur)" "cu_out v = render st cur"
    "\<forall>s\<in>set st. ch_slash \<notin> set s" "ch_slash \<notin> set cur" "uri_end r = Some e"
    by (simp_all add: cu_at_def cu_rel_def)
  consider "cur = []" | "cur = [ch_dot]" | (dots) "cur = [ch_dot, ch_dot]" | (usual) "segment_class cur = cu_sw_usual"
    by (metis segment_class_def)
  then show ?thesis
  proof cases
    case 1
    with st c room show ?thesis
      by (auto simp: close_segment_def cu_iter_def segment_class_def cu_slash_def cu_emit_ok cu_next_ok
          cu_at_def cu_rel_def render_snoc)
  next
    case 2
    with st c room show ?thesis
      by (auto simp: close_segment_def cu_iter_def segment_class_def cu_dot_def cu_drop_def cu_next_ok
          cu_at_def cu_rel_def render_def butlast_append)
  next
    case dots
    have "length (render (butlast st) []) \<le> Suc (length (render st [ch_dot, ch_dot]))"
      by (cases st rule: rev_cases) (simp_all add: render_def)
    with dots st c room show ?thesis
      by (auto simp: close_segment_def cu_iter_def segment_class_def cu_dot_dot_def cu_up_render cu_next_ok
          cu_at_def cu_rel_def Let_def dest: in_set_butlastD)
  next
    case usual
    then have "cur \<noteq> []" "cur \<noteq> [ch_dot]" "cur \<noteq> [ch_dot, ch_dot]" by (auto simp: segment_class_def)
    with usual st c room show ?thesis
      by (auto simp: close_segment_def cu_iter_def cu_usual_def cu_emit_ok cu_at_def cu_rel_def
          render_snoc segment_class_def [of "[]"])
  qed
qed

text \<open>A byte other than \<^verbatim>\<open>%\<close>, \<^verbatim>\<open>?\<close> and \<^verbatim>\<open>#\<close>, read or decoded.\<close>

lemma cu_iter_path:
  assumes "cu_at m e v st cur r" "cu_ch v \<notin> {ch_percent, ch_qmark, ch_hash}"
    and "cu_p v < length m" "length (cu_out v) < cap"
  shows "case next_segment merge st cur (cu_ch v) of
      None \<Rightarrow> \<exists>v' r'. cu_iter m cap merge v r = CU_invalid v' r'
    | Some (st', cur') \<Rightarrow> \<exists>v' r'. cu_iter m cap merge v r = CU_loop v' r' \<and> cu_at m e v' st' cur' r'
        \<and> cu_ch v' = m ! cu_p v \<and> cu_p v' = Suc (cu_p v) \<and> length (cu_out v') \<le> Suc (length (cu_out v))"
proof (cases "cu_ch v = ch_slash")
  case True
  with cu_iter_slash [OF assms(1) True assms(3,4), of merge] show ?thesis
    by (simp add: next_segment_def split: option.splits)
next
  case False
  with assms obtain r' where "cu_iter m cap merge v r =
      CU_loop (v\<lparr>cu_state := Path (segment_class (cur @ [cu_ch v])), cu_out := cu_out v @ [cu_ch v],
        cu_ch := m ! cu_p v, cu_p := Suc (cu_p v)\<rparr>) r'" "uri_end r' = uri_end r"
    using cu_iter_extend [OF assms(1) _ assms(3,4), of merge] by auto
  with False assms(1) show ?thesis
    by (simp add: next_segment_def cu_at_def cu_rel_def render_extend)
qed

section \<open>The whole loop\<close>

text \<open>What matters of an answer: the error code, or the path that was written.\<close>

definition cu_view :: "cu_result \<Rightarrow> (int + u_char list) option" where
  "cu_view a = map_option (\<lambda>(rc, out, r). if rc = NGX_OK then Inr out else Inl rc) a"

definition cu_spec :: "u_char list option \<Rightarrow> (int + u_char list) option" where
  "cu_spec path = Some (case path of None \<Rightarrow> Inl NGX_HTTP_PARSE_INVALID_REQUEST | Some out \<Rightarrow> Inr out)"

lemma cu_view_set_uri [simp]: "cu_view (cu_set_uri v r) = Some (Inr (cu_out v))"
  by (simp add: cu_view_def cu_set_uri_def Let_def)

lemma cu_view_invalid [simp]:
  "cu_view (Some (NGX_HTTP_PARSE_INVALID_REQUEST, out, r)) = Some (Inl NGX_HTTP_PARSE_INVALID_REQUEST)"
  by (simp add: cu_view_def)

lemma cu_find_hash_ok: "e \<le> length m \<Longrightarrow> cu_find_hash m p e \<noteq> None"
  by (induction m p e rule: cu_find_hash.induct) (subst cu_find_hash.simps, simp)

lemma cu_view_args [simp]:
  "uri_end r = Some e \<Longrightarrow> e \<le> length m \<Longrightarrow> cu_view (cu_args m v r) = Some (Inr (cu_out v))"
  using cu_find_hash_ok [of e m "cu_p v"] by (auto simp: cu_args_def split: option.split)

lemma cu_loop_Loop:
  assumes "cu_p v \<le> the (uri_end r)" "cu_iter m cap merge v r = CU_loop v' r'"
  shows "cu_loop m cap merge v r = cu_loop m cap merge v' r'"
  using assms by (subst cu_loop.simps) simp

lemma cu_loop_Invalid:
  assumes "cu_p v \<le> the (uri_end r)" "cu_iter m cap merge v r = CU_invalid v' r'"
  shows "cu_view (cu_loop m cap merge v r) = cu_spec None"
  using assms by (subst cu_loop.simps) (simp add: cu_spec_def)

lemma butlast_render [simp]: "butlast (render st [c]) = render st []"
  by (simp add: render_def butlast_append)

lemma cu_loop_end:
  assumes "cu_at m e v st cur r" "e < cu_p v"
  shows "cu_view (cu_loop m cap merge v r) = cu_spec (close_path st cur)"
proof -
  from assms have "cu_out v = render st cur" "\<forall>s\<in>set st. ch_slash \<notin> set s"
    "cu_state v = Path (segment_class cur)" "uri_end r = Some e"
    by (simp_all add: cu_at_def cu_rel_def)
  with assms(2) show ?thesis
    by (subst cu_loop.simps)
      (auto simp: cu_tail_def segment_class_def close_path_def cu_spec_def cu_up_render)
qed

lemma cu_loop_stop:
  assumes "cu_at m e v st cur r" "cu_p v \<le> e" "e < length m" "cu_ch v = ch_qmark \<or> cu_ch v = ch_hash"
  shows "cu_view (cu_loop m cap merge v r) = cu_spec (close_path st cur)"
proof -
  from assms have "cu_out v = render st cur" "\<forall>s\<in>set st. ch_slash \<notin> set s"
    "cu_state v = Path (segment_class cur)" "uri_end r = Some e"
    by (simp_all add: cu_at_def cu_rel_def)
  with assms(2-4) show ?thesis
    by (subst cu_loop.simps)
      (auto simp: cu_iter_def segment_class_def close_path_def cu_spec_def cu_usual_def cu_slash_def cu_dot_def
        cu_dot_dot_def cu_drop_def cu_up_render Let_def)
qed

text \<open>The low half of a decoded byte tells which bytes each branch of \<^verbatim>\<open>sw_quoted_second\<close> can see.\<close>

lemma decoded_low:
  assumes "y \<le> (15 :: u_char)"
  shows "unat (push_bit 4 x + y) mod 16 = unat y"
proof -
  have y: "unat y \<le> 15" using assms by (simp add: word_le_nat_alt)
  have "unat (push_bit 4 x) = unat x * 16 mod 256"
    by (simp add: push_bit_eq_mult unat_word_ariths)
  then have "unat (push_bit 4 x + y) = (unat x * 16 mod 256 + unat y) mod 256"
    by (simp add: unat_word_ariths)
  also have "\<dots> mod 16 = (unat x * 16 mod 256 + unat y) mod 16" by (simp add: mod_mod_cancel)
  also have "\<dots> = (unat x * 16 mod 256 mod 16 + unat y) mod 16" by (simp add: mod_add_left_eq)
  also have "unat x * 16 mod 256 mod 16 = 0" by (simp add: mod_mod_cancel)
  finally show ?thesis using y by simp
qed

lemma digit_low: "is_digit d \<Longrightarrow> d - ch_0 \<le> 9"
  by (rule byte_all [of "\<lambda>d. is_digit d \<longrightarrow> d - ch_0 \<le> 9", THEN mp]) (code_simp, assumption)

lemma alpha_low: "is_hex_alpha d \<Longrightarrow> 10 \<le> fold_case d - ch_a + 10 \<and> fold_case d - ch_a + 10 \<le> 15"
  by (rule byte_all [of "\<lambda>d. is_hex_alpha d \<longrightarrow>
      10 \<le> fold_case d - ch_a + 10 \<and> fold_case d - ch_a + 10 \<le> 15", THEN mp]) (code_simp, assumption)

lemma decoded_digit:
  assumes "y \<le> 9"
  shows "push_bit 4 x + y \<noteq> ch_qmark"
proof
  assume eq: "push_bit 4 x + y = ch_qmark"
  from assms have "y \<le> 15" by (simp add: word_le_nat_alt)
  from decoded_low [OF this, of x] have "unat y = 15" by (simp add: eq)
  with assms show False by (simp add: word_le_nat_alt)
qed

lemma decoded_alpha:
  assumes "10 \<le> y" "y \<le> 15"
  shows "push_bit 4 x + y \<notin> {0, ch_percent, ch_hash}"
proof
  assume "push_bit 4 x + y \<in> {0, ch_percent, ch_hash}"
  with decoded_low [OF assms(2), of x] have "unat y \<in> {0, 5, 3}" by auto
  with assms(1) show False by (auto simp: word_le_nat_alt)
qed

text \<open>An escape: three iterations to decode it, and a fourth that treats the byte as part of the
  path unless \<^verbatim>\<open>sw_quoted_second\<close> already wrote it.\<close>

definition escaped :: "u_char list \<Rightarrow> nat \<Rightarrow> u_char" where
  "escaped m p = push_bit 4 (hex_digit (m ! p)) + hex_digit (m ! Suc p)"

lemma cu_iter_quote:
  assumes "cu_at m e v st cur r" "cu_ch v = ch_percent" "cu_p v < length m"
  shows "cu_iter m cap merge v r =
    CU_loop (v\<lparr>cu_quoted_state := segment_class cur, cu_state := cu_sw_quoted, cu_ch := m ! cu_p v,
      cu_p := Suc (cu_p v)\<rparr>) r"
  using assms
  by (cases "segment_class cur")
    (simp_all add: cu_at_def cu_iter_def cu_usual_def cu_slash_def cu_dot_def cu_dot_dot_def cu_quote_def cu_next_ok)

lemma cu_iter_quoted:
  assumes "cu_state v = cu_sw_quoted" "cu_p v < length m" "is_hex (cu_ch v)"
  shows "cu_iter m cap merge v r =
    CU_loop (v\<lparr>cu_decoded := hex_digit (cu_ch v), cu_state := cu_sw_quoted_second, cu_ch := m ! cu_p v,
      cu_p := Suc (cu_p v)\<rparr>) (r\<lparr>quoted_uri := True\<rparr>)"
  using assms by (auto simp: cu_iter_def cu_quoted_def hex_digit_def cu_next_ok Let_def)

lemma cu_iter_not_hex:
  assumes "cu_state v = cu_sw_quoted \<or> cu_state v = cu_sw_quoted_second" "\<not> is_hex (cu_ch v)"
  shows "\<exists>v' r'. cu_iter m cap merge v r = CU_invalid v' r'"
  using assms by (auto simp: cu_iter_def cu_quoted_def cu_quoted_second_def Let_def)

text \<open>The two branches of the third iteration, with the decoded byte named.\<close>

lemma cu_quoted_second_digit:
  assumes "is_digit (cu_ch v)" "push_bit 4 (cu_decoded v) + (cu_ch v - ch_0) = d"
  shows "cu_quoted_second m cap v r =
     (if d = ch_percent \<or> d = ch_hash then
        cu_emit m cap d (v\<lparr>cu_ch := d, cu_state := Path cu_sw_usual\<rparr>) r
      else if d = ch_nul then CU_invalid (v\<lparr>cu_ch := d\<rparr>) r
      else CU_loop (v\<lparr>cu_ch := d, cu_state := Path (cu_quoted_state v)\<rparr>) r)"
  unfolding cu_quoted_second_def Let_def assms(2) using assms(1) by simp

lemma cu_quoted_second_alpha:
  assumes "\<not> is_digit (cu_ch v)" "is_hex_alpha (cu_ch v)"
    "push_bit 4 (cu_decoded v) + (fold_case (cu_ch v) - ch_a) + 10 = d"
  shows "\<exists>r'. uri_end r' = uri_end r \<and> cu_quoted_second m cap v r =
     (if d = ch_qmark then cu_emit m cap d (v\<lparr>cu_ch := d, cu_state := Path cu_sw_usual\<rparr>) r
      else CU_loop (v\<lparr>cu_ch := d, cu_state := Path (cu_quoted_state v)\<rparr>) r')"
  unfolding cu_quoted_second_def Let_def assms(3) using assms(1,2) by auto

text \<open>The third iteration: a decoded zero is refused, \<^verbatim>\<open>%\<close>, \<^verbatim>\<open>#\<close> and \<^verbatim>\<open>?\<close> are written
  at once, any other byte is left in \<^verbatim>\<open>ch\<close>.\<close>

lemma cu_iter_quoted_second:
  assumes "cu_state v = cu_sw_quoted_second" "is_hex (cu_ch v)"
    and d: "d = push_bit 4 (cu_decoded v) + hex_digit (cu_ch v)"
    and room: "cu_p v < length m" "length (cu_out v) < cap"
  shows "d = 0 \<Longrightarrow> \<exists>v' r'. cu_iter m cap merge v r = CU_invalid v' r'"
    and "d \<in> {ch_percent, ch_hash, ch_qmark} \<Longrightarrow> cu_iter m cap merge v r =
      CU_loop (v\<lparr>cu_state := Path cu_sw_usual, cu_out := cu_out v @ [d], cu_ch := m ! cu_p v,
        cu_p := Suc (cu_p v)\<rparr>) r"
    and "d \<notin> {0, ch_percent, ch_hash, ch_qmark} \<Longrightarrow> \<exists>r'. cu_iter m cap merge v r =
      CU_loop (v\<lparr>cu_ch := d, cu_state := Path (cu_quoted_state v)\<rparr>) r' \<and> uri_end r' = uri_end r"
proof -
  consider (digit) "is_digit (cu_ch v)" "push_bit 4 (cu_decoded v) + (cu_ch v - ch_0) = d" "d \<noteq> ch_qmark"
    | (alpha) "\<not> is_digit (cu_ch v)" "is_hex_alpha (cu_ch v)"
      "push_bit 4 (cu_decoded v) + (fold_case (cu_ch v) - ch_a) + 10 = d" "d \<notin> {0, ch_percent, ch_hash}"
  proof (cases "is_digit (cu_ch v)")
    case True
    with d have "d = push_bit 4 (cu_decoded v) + (cu_ch v - ch_0)" by (simp only: hex_digit_digit)
    with decoded_digit [OF digit_low [OF True], of "cu_decoded v"] True show thesis by (intro digit) simp_all
  next
    case False
    with d have eq: "d = push_bit 4 (cu_decoded v) + (fold_case (cu_ch v) - ch_a + 10)"
      by (simp only: hex_digit_alpha not_False_eq_True)
    from False assms(2) have al: "is_hex_alpha (cu_ch v)" by blast
    show thesis
      using alpha [OF False al] decoded_alpha [of "fold_case (cu_ch v) - ch_a + 10" "cu_decoded v"]
        alpha_low [OF al] eq by (simp only: add.assoc) blast
  qed
  note cases = this
  have iter: "cu_iter m cap merge v r = cu_quoted_second m cap v r"
    using assms(1) by (simp add: cu_iter_def)
  show "\<exists>v' r'. cu_iter m cap merge v r = CU_invalid v' r'" if "d = 0"
    by (rule cases) (use that in \<open>simp_all add: iter cu_quoted_second_digit\<close>)
  show "cu_iter m cap merge v r =
      CU_loop (v\<lparr>cu_state := Path cu_sw_usual, cu_out := cu_out v @ [d], cu_ch := m ! cu_p v,
        cu_p := Suc (cu_p v)\<rparr>) r" if "d \<in> {ch_percent, ch_hash, ch_qmark}"
  proof (rule cases)
    assume "is_digit (cu_ch v)" "push_bit 4 (cu_decoded v) + (cu_ch v - ch_0) = d" "d \<noteq> ch_qmark"
    with cu_quoted_second_digit [OF this(1,2), of m cap r] that room show ?thesis
      by (auto simp only: iter cu_emit_ok) (auto simp: cu_emit_ok)
  next
    assume "\<not> is_digit (cu_ch v)" "is_hex_alpha (cu_ch v)"
      "push_bit 4 (cu_decoded v) + (fold_case (cu_ch v) - ch_a) + 10 = d" "d \<notin> {0, ch_percent, ch_hash}"
    with cu_quoted_second_alpha [OF this(1-3), of r m cap] that room show ?thesis
      by (auto simp: iter cu_emit_ok)
  qed
  show "\<exists>r'. cu_iter m cap merge v r =
      CU_loop (v\<lparr>cu_ch := d, cu_state := Path (cu_quoted_state v)\<rparr>) r' \<and> uri_end r' = uri_end r"
    if "d \<notin> {0, ch_percent, ch_hash, ch_qmark}"
  proof (rule cases)
    assume "is_digit (cu_ch v)" "push_bit 4 (cu_decoded v) + (cu_ch v - ch_0) = d"
    from cu_quoted_second_digit [OF this, of m cap r] that show ?thesis by (simp add: iter)
  next
    assume "\<not> is_digit (cu_ch v)" "is_hex_alpha (cu_ch v)"
      "push_bit 4 (cu_decoded v) + (fold_case (cu_ch v) - ch_a) + 10 = d"
    from cu_quoted_second_alpha [OF this, of r m cap] that show ?thesis by (auto simp: iter)
  qed
qed

text \<open>Where the loop goes on after one item of the path.\<close>

definition cu_advances ::
  "u_char list \<Rightarrow> nat \<Rightarrow> nat \<Rightarrow> bool \<Rightarrow> cu_vars \<Rightarrow> ngx_http_request_t \<Rightarrow> nat \<Rightarrow>
   (u_char list list \<times> u_char list) option \<Rightarrow> bool" where
  "cu_advances m cap e merge v r q nxt \<longleftrightarrow>
     (case nxt of
        None \<Rightarrow> cu_view (cu_loop m cap merge v r) = cu_spec None
      | Some (st', cur') \<Rightarrow> \<exists>v' r'. cu_loop m cap merge v r = cu_loop m cap merge v' r' \<and> cu_at m e v' st' cur' r'
          \<and> cu_ch v' = m ! q \<and> cu_p v' = Suc q \<and> length (cu_out v') \<le> Suc (length (cu_out v)))"

lemma cu_path_advances:
  assumes "cu_at m e v st cur r" "cu_ch v \<notin> {ch_percent, ch_qmark, ch_hash}"
    and "cu_p v \<le> e" "e < length m" "length (cu_out v) < cap"
  shows "cu_advances m cap e merge v r (cu_p v) (next_segment merge st cur (cu_ch v))"
proof -
  have p: "cu_p v \<le> the (uri_end r)" "cu_p v < length m" using assms by (simp_all add: cu_at_def)
  from cu_iter_path [OF assms(1,2) p(2) assms(5), of merge] show ?thesis
    by (cases "next_segment merge st cur (cu_ch v)")
      (auto simp: cu_advances_def dest: cu_loop_Loop [OF p(1)] cu_loop_Invalid [OF p(1)])
qed

lemma cu_escape_advances:
  assumes at: "cu_at m e v st cur r" "cu_ch v = ch_percent"
    and p: "cu_p v = p" "Suc p < e" "e < length m" "is_hex (m ! p)" "is_hex (m ! Suc p)"
    and room: "length (cu_out v) < cap"
  shows "cu_advances m cap e merge v r (Suc (Suc p))
    (if escaped m p = 0 then None else next_segment merge st cur (escaped m p))"
proof -
  let ?d = "escaped m p"
  let ?v1 = "v\<lparr>cu_quoted_state := segment_class cur, cu_state := cu_sw_quoted, cu_ch := m ! p, cu_p := Suc p\<rparr>"
  let ?v2 = "?v1\<lparr>cu_decoded := hex_digit (m ! p), cu_state := cu_sw_quoted_second, cu_ch := m ! Suc p,
      cu_p := Suc (Suc p)\<rparr>"
  let ?r = "r\<lparr>quoted_uri := True\<rparr>"
  from at have e: "uri_end r = Some e" and rel: "cu_rel v st cur" by (simp_all add: cu_at_def)
  have "cu_loop m cap merge v r = cu_loop m cap merge ?v1 r"
    using cu_iter_quote [OF at, of cap merge] e p by (intro cu_loop_Loop) simp_all
  also have "\<dots> = cu_loop m cap merge ?v2 ?r"
    using cu_iter_quoted [of ?v1 m cap merge r] e p by (intro cu_loop_Loop) simp_all
  finally have l2: "cu_loop m cap merge v r = cu_loop m cap merge ?v2 ?r" .
  have le: "cu_p ?v2 \<le> the (uri_end ?r)" using e p by simp
  note second = cu_iter_quoted_second [of ?v2 ?d m cap, where merge = merge and r = ?r]
  have pre: "cu_state ?v2 = cu_sw_quoted_second" "is_hex (cu_ch ?v2)"
    "?d = push_bit 4 (cu_decoded ?v2) + hex_digit (cu_ch ?v2)" "cu_p ?v2 < length m" "length (cu_out ?v2) < cap"
    using p room by (simp_all add: escaped_def)
  consider (zero) "?d = 0" | (literal) "?d \<in> {ch_percent, ch_hash, ch_qmark}"
    | (path) "?d \<notin> {0, ch_percent, ch_hash, ch_qmark}" by blast
  then show ?thesis
  proof cases
    case zero
    with second(1) [OF pre] obtain v' r' where "cu_iter m cap merge ?v2 ?r = CU_invalid v' r'" by blast
    from cu_loop_Invalid [OF le this] zero l2 show ?thesis by (simp add: cu_advances_def)
  next
    case literal
    from cu_loop_Loop [OF le second(2) [OF pre literal]] l2
    have "cu_loop m cap merge v r = cu_loop m cap merge (?v2\<lparr>cu_state := Path cu_sw_usual,
        cu_out := cu_out v @ [?d], cu_ch := m ! Suc (Suc p), cu_p := Suc (Suc (Suc p))\<rparr>) ?r" by simp
    moreover have "cu_rel (?v2\<lparr>cu_state := Path cu_sw_usual,
        cu_out := cu_out v @ [?d], cu_ch := m ! Suc (Suc p), cu_p := Suc (Suc (Suc p))\<rparr>) st (cur @ [?d])"
      using rel literal by (auto simp: cu_rel_def render_extend)
    moreover have "segment_class (cur @ [?d]) = cu_sw_usual" "?d \<noteq> 0" "?d \<noteq> ch_slash"
      using literal by (auto intro: segment_class_extend)
    ultimately show ?thesis
      using e unfolding cu_advances_def by (fastforce simp: next_segment_def cu_at_def)
  next
    case path
    with second(3) [OF pre] obtain r' where
      "cu_iter m cap merge ?v2 ?r = CU_loop (?v2\<lparr>cu_ch := ?d, cu_state := Path (segment_class cur)\<rparr>) r'"
      and r': "uri_end r' = Some e" using e by auto
    from cu_loop_Loop [OF le this(1)] l2 have l3: "cu_loop m cap merge v r =
      cu_loop m cap merge (?v2\<lparr>cu_ch := ?d, cu_state := Path (segment_class cur)\<rparr>) r'" by simp
    have "cu_advances m cap e merge (?v2\<lparr>cu_ch := ?d, cu_state := Path (segment_class cur)\<rparr>) r'
        (Suc (Suc p)) (next_segment merge st cur ?d)"
      using cu_path_advances [of m e "?v2\<lparr>cu_ch := ?d, cu_state := Path (segment_class cur)\<rparr>" st cur r' cap merge]
        path rel r' p room by (simp add: cu_at_def cu_rel_def)
    with path l3 show ?thesis by (auto simp: cu_advances_def split: option.splits)
  qed
qed

lemma cu_bad_escape:
  assumes at: "cu_at m e v st cur r" "cu_ch v = ch_percent"
    and p: "cu_p v = p" "p \<le> e" "e < length m" "\<not> (Suc p < e \<and> is_hex (m ! p) \<and> is_hex (m ! Suc p))"
  shows "cu_view (cu_loop m cap merge v r) = cu_spec None"
proof -
  let ?v1 = "v\<lparr>cu_quoted_state := segment_class cur, cu_state := cu_sw_quoted, cu_ch := m ! p, cu_p := Suc p\<rparr>"
  let ?v2 = "?v1\<lparr>cu_decoded := hex_digit (m ! p), cu_state := cu_sw_quoted_second, cu_ch := m ! Suc p,
      cu_p := Suc (Suc p)\<rparr>"
  let ?r = "r\<lparr>quoted_uri := True\<rparr>"
  from at have e: "uri_end r = Some e" by (simp add: cu_at_def)
  have l1: "cu_loop m cap merge v r = cu_loop m cap merge ?v1 r"
    using cu_iter_quote [OF at, of cap merge] e p by (intro cu_loop_Loop) simp_all
  have ends: "cu_view (cu_loop m cap merge w r') = cu_spec None"
    if "e < cu_p w" "uri_end r' = Some e" "cu_state w = cu_sw_quoted \<or> cu_state w = cu_sw_quoted_second" for w r'
    using that by (subst cu_loop.simps) (auto simp: cu_tail_def cu_spec_def)
  have bad: "cu_view (cu_loop m cap merge w r') = cu_spec None"
    if "cu_p w \<le> e" "uri_end r' = Some e" "\<not> is_hex (cu_ch w)"
      "cu_state w = cu_sw_quoted \<or> cu_state w = cu_sw_quoted_second" for w r'
    using cu_iter_not_hex [OF that(4,3), of m cap merge r'] that(1,2) cu_loop_Invalid [of w r'] by auto
  show ?thesis
  proof (cases "p < e \<and> is_hex (m ! p)")
    case False
    then show ?thesis using l1 ends [of ?v1 r] bad [of ?v1 r] e p(2) by (cases "p < e") auto
  next
    case True
    then have l2: "cu_loop m cap merge v r = cu_loop m cap merge ?v2 ?r"
      unfolding l1 using cu_iter_quoted [of ?v1 m cap merge r] e p by (intro cu_loop_Loop) simp_all
    show ?thesis using l2 ends [of ?v2 ?r] bad [of ?v2 ?r] e p True by (cases "Suc p < e") auto
  qed
qed

text \<open>The whole loop computes the reference.\<close>

lemma subbuf_Cons: "q < e \<Longrightarrow> e \<le> length m \<Longrightarrow> subbuf m q e = m ! q # subbuf m (Suc q) e"
  by (simp add: subbuf_eq_map upt_conv_Cons)

abbreviation decoded_path :: "bool \<Rightarrow> u_char list list \<Rightarrow> u_char list \<Rightarrow> u_char list \<Rightarrow> u_char list option" where
  "decoded_path merge st cur raw \<equiv> Option.bind (pct_decode (path_part raw)) (resolve merge st cur)"

lemma decoded_path_Cons:
  assumes "c \<notin> {ch_percent, ch_qmark, ch_hash}"
  shows "decoded_path merge st cur (c # raw) =
    Option.bind (next_segment merge st cur c) (\<lambda>(st', cur'). decoded_path merge st' cur' raw)"
proof (cases "pct_decode (path_part raw)")
  case None
  with assms show ?thesis by (cases "next_segment merge st cur c") auto
next
  case (Some ds)
  with assms show ?thesis by (simp add: resolve_next del: resolve.simps)
qed

lemma decoded_path_escape:
  assumes "is_hex a" "is_hex b" "d = push_bit 4 (hex_digit a) + hex_digit b"
  shows "decoded_path merge st cur (ch_percent # a # b # raw) =
    Option.bind (if d = 0 then None else next_segment merge st cur d)
      (\<lambda>(st', cur'). decoded_path merge st' cur' raw)"
proof -
  have "a \<noteq> ch_qmark" "a \<noteq> ch_hash" "b \<noteq> ch_qmark" "b \<noteq> ch_hash" using assms(1,2) by auto
  then have *: "pct_decode (path_part (ch_percent # a # b # raw)) =
      (if d = 0 then None else map_option (Cons d) (pct_decode (path_part raw)))"
    using assms by (simp add: Let_def)
  show ?thesis unfolding *
    by (cases "pct_decode (path_part raw)"; cases "next_segment merge st cur d")
      (auto simp: resolve_next simp del: resolve.simps)
qed

lemma decoded_path_bad_escape:
  assumes "\<not> (\<exists>a b raw'. raw = a # b # raw' \<and> is_hex a \<and> is_hex b)"
  shows "pct_decode (path_part (ch_percent # raw)) = None"
proof (cases "\<exists>a b ys. path_part raw = a # b # ys")
  case True
  then obtain a b ys where p: "path_part raw = a # b # ys" by blast
  have "path_part raw @ dropWhile (\<lambda>c. c \<noteq> ch_qmark \<and> c \<noteq> ch_hash) raw = raw"
    by (rule takeWhile_dropWhile_id)
  then have "\<exists>zs. a # b # zs = raw" unfolding p append_Cons by (rule exI)
  with assms have neg: "\<not> (is_hex a \<and> is_hex b)" by blast
  have "pct_decode (ch_percent # a # b # ys) = (if is_hex a \<and> is_hex b then
      (let d = push_bit 4 (hex_digit a) + hex_digit b in if d = 0 then None else map_option (Cons d) (pct_decode ys))
      else None)" by simp
  then show ?thesis using p by (simp only: neg if_False) simp
next
  case False
  then show ?thesis by (auto split: list.split)
qed

lemma cu_loop_refines:
  assumes "e < length m" "q \<le> e" "cu_p v = Suc q" "cu_ch v = m ! q" "cu_at m e v st cur r"
    and "length (cu_out v) + length (path_part (subbuf m q e)) \<le> cap"
  shows "cu_view (cu_loop m cap merge v r) = cu_spec (decoded_path merge st cur (subbuf m q e))"
  using assms
proof (induction "e - q" arbitrary: q v st cur r rule: less_induct)
  case less
  note at = less.prems(5) and e = less.prems(1)
  have advance: ?case if adv: "cu_advances m cap e merge v r q' nxt" and "q < q'" "q' \<le> e"
    and spec: "decoded_path merge st cur (subbuf m q e) =
      Option.bind nxt (\<lambda>(st', cur'). decoded_path merge st' cur' (subbuf m q' e))"
    and shrink: "length (path_part (subbuf m q' e)) < length (path_part (subbuf m q e))" for q' nxt
  proof (cases nxt)
    case None
    with adv spec show ?thesis by (simp add: cu_advances_def)
  next
    case (Some sc)
    then obtain st' cur' v' r' where sc: "sc = (st', cur')" and v': "cu_loop m cap merge v r = cu_loop m cap merge v' r'"
      "cu_at m e v' st' cur' r'" "cu_ch v' = m ! q'" "cu_p v' = Suc q'" "length (cu_out v') \<le> Suc (length (cu_out v))"
      using adv by (cases sc) (auto simp: cu_advances_def)
    from less.hyps [OF _ e that(3) v'(4,3,2)] that v'(5) less.prems(6) sc Some spec show ?thesis
      by (simp add: v'(1))
  qed
  show ?case
  proof (cases "q = e")
    case True
    with cu_loop_end [OF at, of cap merge] less.prems(3) show ?thesis by simp
  next
    case False
    with less.prems have q: "q < e" "cu_p v \<le> e" by simp_all
    with e have sub: "subbuf m q e = m ! q # subbuf m (Suc q) e" by (simp add: subbuf_Cons)
    consider (stop) "m ! q \<in> {ch_qmark, ch_hash}" | (pct) "m ! q = ch_percent"
      | (path) "m ! q \<notin> {ch_percent, ch_qmark, ch_hash}" by blast
    then show ?thesis
    proof cases
      case stop
      with cu_loop_stop [OF at q(2) e, of cap merge] less.prems(4) sub show ?thesis by auto
    next
      case path
      then have room: "length (cu_out v) < cap" using less.prems(6) sub by simp
      have adv: "cu_advances m cap e merge v r (Suc q) (next_segment merge st cur (m ! q))"
        using cu_path_advances [OF at _ q(2) e room, of merge] path less.prems(3,4) by simp
      show ?thesis
      proof (rule advance [OF adv])
        show "decoded_path merge st cur (subbuf m q e) = Option.bind (next_segment merge st cur (m ! q))
            (\<lambda>(st', cur'). decoded_path merge st' cur' (subbuf m (Suc q) e))"
          unfolding sub by (rule decoded_path_Cons [OF path])
        show "length (path_part (subbuf m (Suc q) e)) < length (path_part (subbuf m q e))"
          unfolding sub using path by simp
      qed (use q in simp_all)
    next
      case pct
      show ?thesis
      proof (cases "Suc (Suc q) < e \<and> is_hex (m ! Suc q) \<and> is_hex (m ! Suc (Suc q))")
        case True
        then have sub3: "subbuf m q e = ch_percent # m ! Suc q # m ! Suc (Suc q) # subbuf m (Suc (Suc (Suc q))) e"
          using sub pct e by (simp add: subbuf_Cons)
        have room: "length (cu_out v) < cap" using less.prems(6) sub3 by simp
        have adv: "cu_advances m cap e merge v r (Suc (Suc (Suc q)))
            (if escaped m (Suc q) = 0 then None else next_segment merge st cur (escaped m (Suc q)))"
          using cu_escape_advances [OF at _ less.prems(3) _ e _ _ room, of merge] True pct less.prems(4) by simp
        have hex: "is_hex (m ! Suc q)" "is_hex (m ! Suc (Suc q))" using True by blast+
        show ?thesis
        proof (rule advance [OF adv])
          show "decoded_path merge st cur (subbuf m q e) =
            Option.bind (if escaped m (Suc q) = 0 then None else next_segment merge st cur (escaped m (Suc q)))
              (\<lambda>(st', cur'). decoded_path merge st' cur' (subbuf m (Suc (Suc (Suc q))) e))"
            unfolding sub3 by (rule decoded_path_escape [OF hex]) (simp add: escaped_def)
          show "length (path_part (subbuf m (Suc (Suc (Suc q))) e)) < length (path_part (subbuf m q e))"
            unfolding sub3 using hex by auto
        qed (use True in simp_all)
      next
        case False
        have "subbuf m (Suc q) e \<noteq> a # b # raw'" if "is_hex a" "is_hex b" for a b raw'
        proof
          assume eq: "subbuf m (Suc q) e = a # b # raw'"
          then have "2 \<le> length (subbuf m (Suc q) e)" by simp
          then have lt: "Suc (Suc q) < e" using e by simp
          with e have "subbuf m (Suc q) e = m ! Suc q # m ! Suc (Suc q) # subbuf m (Suc (Suc (Suc q))) e"
            by (simp add: subbuf_Cons)
          with eq that lt False show False by simp
        qed
        then have "pct_decode (path_part (subbuf m q e)) = None"
          unfolding sub pct by (intro decoded_path_bad_escape) blast
        moreover have "cu_view (cu_loop m cap merge v r) = cu_spec None"
          using cu_bad_escape [OF at _ less.prems(3) q(2) [unfolded less.prems(3)] e False] pct less.prems(4) by simp
        ultimately show ?thesis by simp
      qed
    qed
  qed
qed

section \<open>The function refines the reference\<close>

lemma complex_uri_refines:
  assumes "uri_start r = Some s" "uri_end r = Some e" "s < e" "e < length m" "m ! s = ch_slash"
    and "\<not> empty_path_in_uri r" "length (path_part (subbuf m s e)) \<le> cap"
  shows "cu_view (ngx_http_parse_complex_uri m cap r merge) = cu_spec (normal_path merge (subbuf m s e))"
proof -
  let ?r = "r\<lparr>args_start := None, uri_ext := None\<rparr>"
  let ?v = "\<lparr>cu_state = Path cu_sw_slash, cu_quoted_state = cu_sw_usual, cu_p = Suc (Suc s), cu_ch = m ! Suc s,
      cu_decoded = 0, cu_out = [ch_slash]\<rparr>"
  have sub: "subbuf m s e = ch_slash # subbuf m (Suc s) e" using assms by (simp add: subbuf_Cons)
  have "ngx_http_parse_complex_uri m cap r merge = cu_loop m cap merge ?v ?r"
    unfolding ngx_http_parse_complex_uri_def using assms sub
    by (simp add: Let_def) (subst cu_loop.simps, simp add: cu_iter_def cu_usual_def cu_emit_ok)
  moreover have "cu_view (cu_loop m cap merge ?v ?r) = cu_spec (decoded_path merge [] [] (subbuf m (Suc s) e))"
    using assms sub
    by (intro cu_loop_refines) (simp_all add: cu_at_def cu_rel_def segment_class_def render_def)
  ultimately show ?thesis
    by (simp add: normal_path_def sub Option.bind_map_option o_def)
qed

lemma complex_uri_empty_path:
  assumes "uri_start r = Some s" "uri_end r = Some e" "s < e" "e < length m" "m ! s = ch_qmark"
    and "empty_path_in_uri r" "0 < cap"
  shows "cu_view (ngx_http_parse_complex_uri m cap r merge) = Some (Inr [ch_slash])"
  unfolding ngx_http_parse_complex_uri_def using assms
  by (simp add: Let_def) (subst cu_loop.simps, simp add: cu_iter_def cu_usual_def)

text \<open>The reference produces normal paths.\<close>

definition normal_form :: "bool \<Rightarrow> u_char list \<Rightarrow> bool" where
  "normal_form merge path \<longleftrightarrow>
     (\<exists>st cur. path = render st cur
        \<and> (\<forall>s\<in>set (cur # st). ch_slash \<notin> set s \<and> s \<noteq> [ch_dot] \<and> s \<noteq> [ch_dot, ch_dot])
        \<and> (merge \<longrightarrow> [] \<notin> set st))"

definition normal_segments :: "bool \<Rightarrow> u_char list list \<Rightarrow> bool" where
  "normal_segments merge st \<longleftrightarrow>
     (\<forall>s\<in>set st. ch_slash \<notin> set s \<and> s \<noteq> [ch_dot] \<and> s \<noteq> [ch_dot, ch_dot] \<and> (merge \<longrightarrow> s \<noteq> []))"

lemma normal_segments_butlast: "normal_segments merge st \<Longrightarrow> normal_segments merge (butlast st)"
  by (auto simp: normal_segments_def dest: in_set_butlastD)

lemma normal_segments_snoc:
  "normal_segments merge (st @ [s]) \<longleftrightarrow> normal_segments merge st \<and> ch_slash \<notin> set s
     \<and> s \<noteq> [ch_dot] \<and> s \<noteq> [ch_dot, ch_dot] \<and> (merge \<longrightarrow> s \<noteq> [])"
  by (auto simp: normal_segments_def)

lemma close_segment_normal:
  "close_segment merge st cur = Some st' \<Longrightarrow> normal_segments merge st \<Longrightarrow> ch_slash \<notin> set cur \<Longrightarrow>
   normal_segments merge st'"
  by (auto simp: close_segment_def normal_segments_snoc normal_segments_butlast split: if_splits)

lemma normal_formI:
  "normal_segments merge st \<Longrightarrow> ch_slash \<notin> set cur \<Longrightarrow> cur \<noteq> [ch_dot] \<Longrightarrow> cur \<noteq> [ch_dot, ch_dot] \<Longrightarrow>
   normal_form merge (render st cur)"
  unfolding normal_form_def by (intro exI [of _ st] exI [of _ cur]) (auto simp: normal_segments_def)

lemma resolve_normal:
  assumes "resolve merge st cur ds = Some path" "normal_segments merge st" "ch_slash \<notin> set cur"
  shows "normal_form merge path"
  using assms
proof (induction ds arbitrary: st cur)
  case Nil
  then show ?case
    by (auto simp: close_path_def intro!: normal_formI normal_segments_butlast split: if_splits)
next
  case (Cons d ds)
  then show ?case by (fastforce simp: bind_eq_Some_conv split: if_splits dest: close_segment_normal)
qed

text \<open>No byte of the result is made up: only slashes, and bytes of the decoded path.\<close>

lemma set_render: "set (render st cur) = insert ch_slash (\<Union> (set ` set st) \<union> set cur)"
  by (auto simp: render_def)

lemma resolve_bytes:
  assumes "resolve merge st cur ds = Some path"
  shows "set path \<subseteq> insert ch_slash (\<Union> (set ` set st) \<union> set cur \<union> set ds)"
  using assms
proof (induction ds arbitrary: st cur)
  case Nil
  then show ?case
    by (cases st rule: rev_cases) (auto simp: close_path_def set_render split: if_splits)
next
  case (Cons d ds)
  show ?case
  proof (cases "d = ch_slash")
    case True
    with Cons.prems obtain st' where st': "close_segment merge st cur = Some st'" "resolve merge st' [] ds = Some path"
      by (auto simp: bind_eq_Some_conv)
    then have "\<Union> (set ` set st') \<subseteq> \<Union> (set ` set st) \<union> set cur"
      by (cases st rule: rev_cases) (auto simp: close_segment_def split: if_splits)
    with Cons.IH [OF st'(2)] show ?thesis by auto
  next
    case False
    with Cons.prems Cons.IH [of st "cur @ [d]"] show ?thesis by auto
  qed
qed

lemma pct_decode_escape:
  assumes "pct_decode (ch_percent # cs) = Some ds"
  obtains a b cs' d ds' where "cs = a # b # cs'" "pct_decode cs' = Some ds'" "ds = d # ds'" "d \<noteq> 0"
  using assms by (simp add: Let_def split: list.splits if_split_asm) blast

lemma pct_decode_no_nul: "pct_decode cs = Some ds \<Longrightarrow> 0 \<notin> set cs \<Longrightarrow> 0 \<notin> set ds"
proof (induction "length cs" arbitrary: cs ds rule: less_induct)
  case less
  show ?case
  proof (cases cs)
    case Nil
    with less.prems show ?thesis by simp
  next
    case (Cons c cs1)
    show ?thesis
    proof (cases "c = ch_percent")
      case True
      with less.prems(1) Cons have "pct_decode (ch_percent # cs1) = Some ds" by simp
      then obtain a b cs' d ds' where d: "cs1 = a # b # cs'" "pct_decode cs' = Some ds'" "ds = d # ds'" "d \<noteq> 0"
        by (rule pct_decode_escape)
      from less.hyps [OF _ d(2)] less.prems(2) Cons d show ?thesis by simp
    next
      case False
      with less.prems(1) Cons obtain ds1 where "pct_decode cs1 = Some ds1" "ds = c # ds1" by auto
      with less.hyps [of cs1 ds1] less.prems(2) Cons show ?thesis by auto
    qed
  qed
qed

lemma normal_path_normal:
  assumes "normal_path merge raw = Some path" "0 \<notin> set raw"
  shows "normal_form merge path \<and> 0 \<notin> set path"
proof -
  from assms(1) obtain ds where ds: "pct_decode (path_part raw) = Some ds" "resolve merge [] [] (tl ds) = Some path"
    by (auto simp: normal_path_def bind_eq_Some_conv)
  have "0 \<notin> set (path_part raw)" using assms(2) by (auto dest: set_takeWhileD)
  with ds(1) have "0 \<notin> set (tl ds)" using pct_decode_no_nul by (cases ds) fastforce+
  with resolve_bytes [OF ds(2)] resolve_normal [OF ds(2)] show ?thesis
    by (auto simp: normal_segments_def)
qed

text \<open>
  on a URI that starts with a slash, and with a block of at least as many bytes as the path part
  of the URI, the one-pass parser stays inside its buffers and returns exactly what the reference
  gives: the path with escapes decoded and dot segments resolved on a stack, or
  \<^verbatim>\<open>NGX_HTTP_PARSE_INVALID_REQUEST\<close> where an escape is malformed or decodes to NUL, or a
  \<^verbatim>\<open>..\<close> has nothing to remove.
\<close>

theorem complex_uri_refinement:
  assumes "uri_start r = Some s" "uri_end r = Some e" "s < e" "e < length m" "m ! s = ch_slash"
    and "\<not> empty_path_in_uri r" "length (path_part (subbuf m s e)) \<le> cap"
  shows "\<exists>rc out r'. ngx_http_parse_complex_uri m cap r merge = Some (rc, out, r')
    \<and> (case normal_path merge (subbuf m s e) of
         Some path \<Rightarrow> rc = NGX_OK \<and> out = path
       | None \<Rightarrow> rc = NGX_HTTP_PARSE_INVALID_REQUEST)"
  using complex_uri_refines [OF assms, of merge]
  by (auto simp: cu_view_def cu_spec_def split: option.splits if_splits)

text \<open>
  a path that the parser accepts is in normal form: a slash-joined list of segments, none of them
  \<^verbatim>\<open>.\<close> or \<^verbatim>\<open>..\<close> (so it never leaves the document root), none but the last empty when slashes
  are merged, and without a NUL byte when the URI had none.
\<close>

theorem complex_uri_normal_form:
  assumes "uri_start r = Some s" "uri_end r = Some e" "s < e" "e < length m" "m ! s = ch_slash"
    and "\<not> empty_path_in_uri r" "length (path_part (subbuf m s e)) \<le> cap"
    and "ngx_http_parse_complex_uri m cap r merge = Some (NGX_OK, out, r')" "0 \<notin> set (subbuf m s e)"
  shows "normal_form merge out \<and> 0 \<notin> set out"
proof -
  from complex_uri_refines [OF assms(1-7), of merge] assms(8)
  have "normal_path merge (subbuf m s e) = Some out"
    by (auto simp: cu_view_def cu_spec_def split: option.splits)
  from normal_path_normal [OF this assms(9)] show ?thesis .
qed

section \<open>Witnesses\<close>

abbreviation (input) sample_uri :: "u_char list" where
  "sample_uri \<equiv> str ''/a/%2e%2E/b//./c%3F?x y''"

definition sample_request :: ngx_http_request_t where
  "sample_request = fresh_request\<lparr>uri_start := Some 0, uri_end := Some 21\<rparr>"

lemma sample_request_ok:
  "uri_start sample_request = Some 0" "uri_end sample_request = Some 21" "\<not> empty_path_in_uri sample_request"
  by (simp_all add: sample_request_def fresh_request_def)

theorem complex_uri_refinement_witness:
  "\<exists>r'. ngx_http_parse_complex_uri sample_uri 21 sample_request True = Some (NGX_OK, str ''/b/c?'', r')"
proof -
  have "normal_path True (subbuf sample_uri 0 21) = Some (str ''/b/c?'')"
    "length (path_part (subbuf sample_uri 0 21)) \<le> 21" "(0 :: nat) < 21" "21 < length sample_uri"
    "sample_uri ! 0 = ch_slash"
    by code_simp+
  with complex_uri_refinement [OF sample_request_ok(1,2) _ _ _ sample_request_ok(3), of sample_uri 21 True]
  show ?thesis by auto
qed

theorem complex_uri_normal_form_witness:
  "\<exists>out r'. ngx_http_parse_complex_uri sample_uri 21 sample_request True = Some (NGX_OK, out, r')
    \<and> normal_form True out"
proof -
  have w: "length (path_part (subbuf sample_uri 0 21)) \<le> 21" "(0 :: nat) < 21" "21 < length sample_uri"
    "sample_uri ! 0 = ch_slash" "0 \<notin> set (subbuf sample_uri 0 21)"
    "map_option fst (ngx_http_parse_complex_uri sample_uri 21 sample_request True) = Some NGX_OK"
    by code_simp+
  from w(6) obtain out r' where
    ok: "ngx_http_parse_complex_uri sample_uri 21 sample_request True = Some (NGX_OK, out, r')" by auto
  from complex_uri_normal_form [OF sample_request_ok(1,2) w(2,3,4) sample_request_ok(3) w(1) ok w(5)] ok
  show ?thesis by blast
qed

end
