(* ===== verification/Ngx_Process_Uri.thy ===== *)
theory Ngx_Process_Uri
  imports Ngx_Request_Line_Props Ngx_Complex_Uri_Props
begin

text \<open>
  \<^verbatim>\<open>ngx_http_process_request_uri\<close> of
  \<^verbatim>\<open>src/reference/nginx-master/src/http/ngx_http_request.c\<close> (the build without \<^verbatim>\<open>NGX_WIN32\<close>): it
  decides between the fast path, where \<^verbatim>\<open>r->uri\<close> points into the request line, and the slow path
  through \<^verbatim>\<open>ngx_http_parse_complex_uri\<close> with a block it allocates. The theorems put the request
  line parser, the size of that block and the complex URI parser together: from the received bytes to
  the path that locations are matched against.
\<close>

section \<open>The function\<close>

text \<open>\<open>alloc\<close> says whether \<^verbatim>\<open>ngx_pnalloc\<close> succeeds. The result is the return code, the bytes of the
  block at \<^verbatim>\<open>r->uri.data\<close> when there is one, and the request; \<open>None\<close> is an access outside a
  buffer. The configuration enters as \<open>merge_slashes\<close>; finalising the request is left out.\<close>

definition uri_length :: "ngx_http_request_t \<Rightarrow> nat" where
  "uri_length r =
     (case args_start r of
        Some a \<Rightarrow> a - 1 - the (uri_start r)
      | None \<Rightarrow> the (uri_end r) - the (uri_start r))"

definition set_unparsed :: "ngx_http_request_t \<Rightarrow> ngx_http_request_t" where
  "set_unparsed r =
     (let us = the (uri_start r); ue = the (uri_end r);
          r = r\<lparr>unparsed_uri := \<lparr>str_region = Header_in, off = us, len = ue - us\<rparr>,
                valid_unparsed_uri := \<not> empty_path_in_uri r\<rparr>;
          r = (case uri_ext r of
                 None \<Rightarrow> r
               | Some x \<Rightarrow>
                   r\<lparr>exten := \<lparr>str_region = Header_in, off = x,
                      len = (case args_start r of Some a \<Rightarrow> a - 1 - x | None \<Rightarrow> ue - x)\<rparr>\<rparr>)
      in case args_start r of
           Some a \<Rightarrow> if ue > a then r\<lparr>args := \<lparr>str_region = Header_in, off = a, len = ue - a\<rparr>\<rparr> else r
         | None \<Rightarrow> r)"

definition ngx_http_process_request_uri ::
  "u_char list \<Rightarrow> ngx_http_request_t \<Rightarrow> bool \<Rightarrow> bool \<Rightarrow> (int \<times> u_char list \<times> ngx_http_request_t) option" where
  "ngx_http_process_request_uri m r merge_slashes alloc =
     (let n = uri_length r in
      if complex_uri r \<or> quoted_uri r \<or> empty_path_in_uri r then
        (let n = (if empty_path_in_uri r then n + 1 else n);
             r = r\<lparr>uri := \<lparr>str_region = Uri_block, off = 0, len = n\<rparr>\<rparr>
         in if \<not> alloc then Some (NGX_ERROR, [], r)
            else (case ngx_http_parse_complex_uri m n r merge_slashes of
                None \<Rightarrow> None
              | Some (rc, blk, r) \<Rightarrow>
                  (if rc \<noteq> NGX_OK then Some (NGX_ERROR, [], r\<lparr>uri := (uri r)\<lparr>len := 0\<rparr>\<rparr>)
                   else Some (NGX_OK, blk, set_unparsed r))))
      else
        Some (NGX_OK, [],
          set_unparsed (r\<lparr>uri := \<lparr>str_region = Header_in, off = the (uri_start r), len = n\<rparr>\<rparr>)))"

text \<open>The bytes of \<^verbatim>\<open>r->uri\<close>.\<close>

definition uri_bytes :: "u_char list \<Rightarrow> u_char list \<Rightarrow> ngx_str_t \<Rightarrow> u_char list" where
  "uri_bytes m blk s = take (len s) (drop (off s) (case str_region s of Header_in \<Rightarrow> m | Uri_block \<Rightarrow> blk))"

section \<open>The fast path is the slow path on clean paths\<close>

lemma clean_path_part: "clean_path xs \<Longrightarrow> path_part xs = xs"
  by (induction xs rule: clean_path.induct) auto

lemma clean_path_decode: "clean_path xs \<Longrightarrow> pct_decode xs = Some xs"
  by (induction xs rule: clean_path.induct) auto

lemma clean_path_resolve:
  assumes "clean_path ((if cur = [] then ch_slash else last cur) # xs)" "cur \<noteq> [] \<longrightarrow> hd cur \<noteq> ch_dot"
  shows "resolve merge st cur xs = Some (render st cur @ xs)"
  using assms
proof (induction xs arbitrary: st cur)
  case Nil
  then show ?case by (auto simp: close_path_def)
next
  case (Cons x xs)
  show ?case
  proof (cases "x = ch_slash")
    case True
    with Cons.prems have "cur \<noteq> []" "hd cur \<noteq> ch_dot" "clean_path (ch_slash # xs)" by (auto split: if_splits)
    with True Cons.IH [of "[]" "st @ [cur]"] show ?thesis
      by (auto simp: close_segment_def render_snoc)
  next
    case False
    with Cons.prems Cons.IH [of "cur @ [x]" st] render_extend [of st cur x] show ?thesis
      by (cases "cur = []") (auto split: if_splits)
  qed
qed

lemma clean_path_normal:
  assumes "clean_path (ch_slash # xs)"
  shows "normal_path merge (ch_slash # xs) = Some (ch_slash # xs)"
  unfolding normal_path_def clean_path_part [OF assms] clean_path_decode [OF assms]
  using clean_path_resolve [of "[]" xs merge "[]"] assms by (simp add: render_def)

section \<open>From the request line to the path\<close>

text \<open>The complex URI parser changes only the length of \<^verbatim>\<open>r->uri\<close>.\<close>

lemma cu_iter_uri:
  "cu_iter m cap merge v r = CU_loop v' r' \<Longrightarrow> uri r' = uri r"
  "cu_iter m cap merge v r = CU_args v' r' \<Longrightarrow> uri r' = uri r"
  "cu_iter m cap merge v r = CU_done v' r' \<Longrightarrow> uri r' = uri r"
  by (auto simp: cu_iter_def cu_case_defs Let_def
      split: cu_state.splits cu_path_state.splits if_splits option.splits)

lemma cu_set_uri_uri: "cu_set_uri v r = Some (rc, out, r') \<Longrightarrow> uri r' = (uri r)\<lparr>len := length out\<rparr>"
  by (auto simp: cu_set_uri_def Let_def split: option.splits)

lemma cu_args_uri: "cu_args m v r = Some (rc, out, r') \<Longrightarrow> uri r' = (uri r)\<lparr>len := length out\<rparr>"
  by (auto simp: cu_args_def dest: cu_set_uri_uri split: option.splits)

lemma cu_tail_uri:
  "cu_tail v r = Some (NGX_OK, out, r') \<Longrightarrow> uri r' = (uri r)\<lparr>len := length out\<rparr>"
  by (auto simp: cu_tail_def dest: cu_set_uri_uri split: cu_state.splits cu_path_state.splits option.splits if_splits)

lemma cu_loop_uri:
  "cu_loop m cap merge v r = Some (NGX_OK, out, r') \<Longrightarrow> uri r' = (uri r)\<lparr>len := length out\<rparr>"
proof (induction m cap merge v r rule: cu_loop.induct)
  case (1 m cap merge v r)
  show ?case
  proof (cases "cu_p v \<le> the (uri_end r)")
    case False
    with 1(2) show ?thesis by (subst (asm) cu_loop.simps) (simp add: cu_tail_uri)
  next
    case True
    show ?thesis
    proof (cases "cu_iter m cap merge v r")
      case (CU_loop v1 r1)
      with 1(1) [OF True] 1(2) cu_loop_Loop [OF True CU_loop] cu_iter_uri(1) [OF CU_loop] show ?thesis by simp
    qed (use 1(2) True in \<open>auto simp: cu_loop.simps [of m cap merge v r] cu_iter_uri dest: cu_args_uri cu_set_uri_uri\<close>)
  qed
qed

lemma complex_uri_uri:
  "ngx_http_parse_complex_uri m cap r merge = Some (NGX_OK, out, r') \<Longrightarrow>
   uri r' = (uri r)\<lparr>len := length out\<rparr>"
  by (auto simp: ngx_http_parse_complex_uri_def Let_def dest: cu_loop_uri split: if_splits)

lemma set_unparsed_uri [simp]: "uri (set_unparsed r) = uri r"
  by (simp add: set_unparsed_def Let_def split: option.split)

text \<open>What an accepted request line says about its URI.\<close>

lemma request_line_uri:
  assumes "rl_initial r" "ngx_http_parse_request_line r b = (NGX_OK, b', r')"
  obtains us ue where "uri_start r' = Some us" "uri_end r' = Some ue" "us < ue" "ue < length (mem b)"
    "list_all uri_byte (subbuf (mem b) us ue)"
    "if empty_path_in_uri r' then mem b ! us = ch_qmark \<and> args_start r' = Some (Suc us) else mem b ! us = ch_slash"
    "\<And>a. args_start r' = Some a \<Longrightarrow> us < a \<and> a \<le> ue \<and> mem b ! (a - 1) = ch_qmark"
    "\<not> complex_uri r' \<Longrightarrow> \<not> quoted_uri r' \<Longrightarrow> \<not> empty_path_in_uri r' \<Longrightarrow>
      clean_path (subbuf (mem b) us (case args_start r' of Some a \<Rightarrow> a - 1 | None \<Rightarrow> ue))"
proof -
  from assms obtain q r1 where post: "rl_done_post (mem b) q r1" "q < length (mem b)"
    and r': "r' = r1\<lparr>request_end := Some (case request_end r1 of None \<Rightarrow> q | Some e \<Rightarrow> e),
           http_version := ucast (http_major r1) * 1000 + ucast (http_minor r1), state := 0\<rparr>"
    by (rule request_line_done)
  from post(1) obtain ue where ue: "uri_end r1 = Some ue" "ue \<le> (case request_end r1 of None \<Rightarrow> q | Some e \<Rightarrow> e)"
    and inv: "rl_uri_inv (mem b) r1 ue" and re: "\<forall>e. request_end r1 = Some e \<longrightarrow> e < q"
    by (auto simp: rl_done_post_def)
  from ue(2) re post(2) have "ue < length (mem b)" by (auto split: option.splits)
  moreover from inv obtain us where "uri_start r1 = Some us" "us < ue" "list_all uri_byte (subbuf (mem b) us ue)"
    "if empty_path_in_uri r1 then mem b ! us = ch_qmark \<and> args_start r1 = Some (Suc us) else mem b ! us = ch_slash"
    "\<And>a. args_start r1 = Some a \<Longrightarrow> us < a \<and> a \<le> ue \<and> mem b ! (a - 1) = ch_qmark"
    "\<not> complex_uri r1 \<and> \<not> quoted_uri r1 \<and> \<not> empty_path_in_uri r1 \<longrightarrow>
      clean_path (subbuf (mem b) us (case args_start r1 of Some a \<Rightarrow> a - 1 | None \<Rightarrow> ue))"
    unfolding rl_uri_inv_def by blast
  ultimately show thesis using ue(1) by (intro that [of us ue]) (simp_all add: r')
qed

text \<open>The block is as long as the path part of the URI, and one longer for the missing slash.\<close>

lemma path_part_length:
  assumes "us < ue" "ue < length m" "\<And>a. args_start r = Some a \<Longrightarrow> us < a \<and> a \<le> ue \<and> m ! (a - 1) = ch_qmark"
    "uri_start r = Some us" "uri_end r = Some ue"
  shows "length (path_part (subbuf m us ue)) \<le> uri_length r"
proof (cases "args_start r")
  case None
  have "length (path_part (subbuf m us ue)) \<le> length (subbuf m us ue)" by (rule length_takeWhile_le)
  with None assms show ?thesis by (simp add: uri_length_def)
next
  case (Some a)
  then have a: "us < a" "a \<le> ue" "m ! (a - 1) = ch_qmark" using assms(3) by auto
  then have "\<not> (subbuf m us ue ! (a - 1 - us) \<noteq> ch_qmark \<and> subbuf m us ue ! (a - 1 - us) \<noteq> ch_hash)"
    using assms(1,2) by simp
  then have "length (path_part (subbuf m us ue)) \<le> a - 1 - us"
    by (metis (mono_tags, lifting) linorder_not_le nth_mem set_takeWhileD takeWhile_nth)
  with Some assms(4) show ?thesis by (simp add: uri_length_def)
qed

lemma fast_path_slice:
  assumes "us < ue" "ue < length m" "\<And>a. args_start r = Some a \<Longrightarrow> us < a \<and> a \<le> ue \<and> m ! (a - 1) = ch_qmark"
    "uri_start r = Some us" "uri_end r = Some ue" "m ! us = ch_slash"
    "clean_path (subbuf m us (case args_start r of Some a \<Rightarrow> a - 1 | None \<Rightarrow> ue))"
  shows "normal_path merge (subbuf m us ue) = Some (subbuf m us (us + uri_length r))"
proof -
  define q where "q = us + uri_length r"
  have q: "us < q \<and> q \<le> ue \<and> (q < ue \<longrightarrow> m ! q = ch_qmark) \<and> clean_path (subbuf m us q)"
  proof (cases "args_start r")
    case None
    with assms show ?thesis by (simp add: q_def uri_length_def)
  next
    case (Some a)
    then have a: "us < a" "a \<le> ue" "m ! (a - 1) = ch_qmark" using assms(3) by auto
    moreover from this assms(6) have "us \<noteq> a - 1" by auto
    moreover from this a Some assms(4) have "q = a - 1" by (simp add: q_def uri_length_def)
    ultimately show ?thesis using assms(7) Some by auto
  qed
  then have clean: "clean_path (subbuf m us q)" by simp
  have split: "subbuf m us ue = subbuf m us q @ subbuf m q ue"
    using q assms(2) upt_add_eq_append [of us q "ue - q"] by (simp add: subbuf_eq_map)
  have part: "path_part (subbuf m us ue) = subbuf m us q"
  proof (cases "q < ue")
    case True
    then have "subbuf m q ue = ch_qmark # subbuf m (Suc q) ue" using q assms(2) by (simp add: subbuf_Cons)
    then show ?thesis using clean_path_part [OF clean] unfolding split
      by (simp add: takeWhile_append2 takeWhile_eq_all_conv)
  next
    case False
    with q have "q = ue" by simp
    then show ?thesis using clean_path_part [OF clean] by simp
  qed
  have "subbuf m us q = ch_slash # subbuf m (Suc us) q" using q assms by (simp add: subbuf_Cons)
  with clean have "normal_path merge (subbuf m us q) = Some (subbuf m us q)"
    using clean_path_normal by simp
  then show ?thesis
    unfolding normal_path_def part clean_path_part [OF clean] by (simp only: q_def)
qed

text \<open>The path that a request line denotes.\<close>

definition request_path :: "bool \<Rightarrow> u_char list \<Rightarrow> ngx_http_request_t \<Rightarrow> u_char list option" where
  "request_path merge m r =
     (if empty_path_in_uri r then Some [ch_slash]
      else normal_path merge (subbuf m (the (uri_start r)) (the (uri_end r))))"

lemma process_uri_path:
  assumes "rl_initial r" "ngx_http_parse_request_line r b = (NGX_OK, b', r1)"
  shows "\<exists>rc blk r2. ngx_http_process_request_uri (mem b) r1 merge True = Some (rc, blk, r2)
    \<and> (case request_path merge (mem b) r1 of
         Some path \<Rightarrow> rc = NGX_OK \<and> uri_bytes (mem b) blk (uri r2) = path
       | None \<Rightarrow> rc = NGX_ERROR)"
proof -
  let ?m = "mem b"
  obtain us ue where u: "uri_start r1 = Some us" "uri_end r1 = Some ue" "us < ue" "ue < length ?m"
    and first: "if empty_path_in_uri r1 then ?m ! us = ch_qmark \<and> args_start r1 = Some (Suc us) else ?m ! us = ch_slash"
    and args: "\<And>a. args_start r1 = Some a \<Longrightarrow> us < a \<and> a \<le> ue \<and> ?m ! (a - 1) = ch_qmark"
    and clean: "\<not> complex_uri r1 \<Longrightarrow> \<not> quoted_uri r1 \<Longrightarrow> \<not> empty_path_in_uri r1 \<Longrightarrow>
      clean_path (subbuf ?m us (case args_start r1 of Some a \<Rightarrow> a - 1 | None \<Rightarrow> ue))"
    using request_line_uri [OF assms] by metis
  let ?n = "if empty_path_in_uri r1 then uri_length r1 + 1 else uri_length r1"
  let ?r = "r1\<lparr>uri := \<lparr>str_region = Uri_block, off = 0, len = ?n\<rparr>\<rparr>"
  show ?thesis
  proof (cases "complex_uri r1 \<or> quoted_uri r1 \<or> empty_path_in_uri r1")
    case False
    then have "normal_path merge (subbuf ?m us ue) = Some (subbuf ?m us (us + uri_length r1))"
      using fast_path_slice [OF u(3,4) args u(1,2)] first clean by simp
    with False u show ?thesis
      by (simp add: ngx_http_process_request_uri_def request_path_def uri_bytes_def subbuf_def)
  next
    case True
    have view: "cu_view (ngx_http_parse_complex_uri ?m ?n ?r merge) = cu_spec (request_path merge ?m r1)"
    proof (cases "empty_path_in_uri r1")
      case True
      then show ?thesis
        using complex_uri_empty_path [of ?r us ue ?m ?n merge] u first
        by (simp add: request_path_def cu_spec_def)
    next
      case False
      then show ?thesis
        using complex_uri_refines [of ?r us ue ?m ?n merge] u first path_part_length [OF u(3,4) args u(1,2)]
        by (simp add: request_path_def)
    qed
    then obtain rc blk r2 where res: "ngx_http_parse_complex_uri ?m ?n ?r merge = Some (rc, blk, r2)"
      by (auto simp: cu_view_def cu_spec_def)
    have "uri_bytes ?m blk (uri r2) = blk" if "rc = NGX_OK"
      using complex_uri_uri [of ?m ?n ?r merge blk r2] res that by (simp add: uri_bytes_def)
    with True res view show ?thesis
      by (auto simp: ngx_http_process_request_uri_def cu_view_def cu_spec_def Let_def split: option.splits if_splits)
  qed
qed

text \<open>
  C1: from the bytes of an accepted request line to \<^verbatim>\<open>r->uri\<close>. Whichever of the fast and the slow
  path is taken, no read or write leaves its buffer (in particular the block of \<^verbatim>\<open>r->uri.len\<close>
  bytes suffices for the decoded path), and \<^verbatim>\<open>r->uri\<close> is the path that the reference definition
  gives for the URI as it was sent; the request is refused exactly where the reference has no path.
\<close>

theorem process_request_uri_refinement:
  assumes "rl_initial r" "ngx_http_parse_request_line r b = (NGX_OK, b', r1)"
  shows "\<exists>rc blk r2. ngx_http_process_request_uri (mem b) r1 merge True = Some (rc, blk, r2)
    \<and> (case request_path merge (mem b) r1 of
         Some path \<Rightarrow> rc = NGX_OK \<and> uri_bytes (mem b) blk (uri r2) = path
       | None \<Rightarrow> rc = NGX_ERROR)"
  using assms by (rule process_uri_path)

text \<open>
  C2: no request reaches a location with a path that climbs: when the request line is accepted and
  its URI processed, \<^verbatim>\<open>r->uri\<close> starts with a slash, has no segment \<^verbatim>\<open>.\<close> or \<^verbatim>\<open>..\<close>, no
  empty segment inside when slashes are merged, and no NUL byte.
\<close>

theorem request_uri_normal:
  assumes "rl_initial r" "ngx_http_parse_request_line r b = (NGX_OK, b', r1)"
    and "ngx_http_process_request_uri (mem b) r1 merge True = Some (NGX_OK, blk, r2)"
  shows "normal_form merge (uri_bytes (mem b) blk (uri r2)) \<and> 0 \<notin> set (uri_bytes (mem b) blk (uri r2))"
proof -
  obtain us ue where u: "uri_start r1 = Some us" "uri_end r1 = Some ue" "list_all uri_byte (subbuf (mem b) us ue)"
    using request_line_uri [OF assms(1,2)] by metis
  then have nul: "0 \<notin> set (subbuf (mem b) us ue)" by (auto simp: list_all_iff uri_byte_def)
  from process_uri_path [OF assms(1,2), of merge] assms(3)
  have path: "request_path merge (mem b) r1 = Some (uri_bytes (mem b) blk (uri r2))"
    by (auto split: option.splits)
  show ?thesis
  proof (cases "empty_path_in_uri r1")
    case True
    then have "uri_bytes (mem b) blk (uri r2) = render [] []" using path by (simp add: request_path_def render_def)
    then show ?thesis using normal_formI [of merge "[]" "[]"] by (simp add: normal_segments_def render_def)
  next
    case False
    then show ?thesis using normal_path_normal [OF _ nul, of merge] path u by (simp add: request_path_def)
  qed
qed

section \<open>Witnesses\<close>

definition sample_dots :: ngx_buf_t where
  "sample_dots = \<lparr>mem = str ''GET /a/%2e./b//c?q HTTP/1.1'' @ [CR, LF], pos = 0\<rparr>"

lemma sample_dots_ok:
  obtains b' r1 blk r2 where "ngx_http_parse_request_line fresh_request sample_dots = (NGX_OK, b', r1)"
    "ngx_http_process_request_uri (mem sample_dots) r1 True True = Some (NGX_OK, blk, r2)"
    "request_path True (mem sample_dots) r1 = Some (str ''/b/c'')"
proof -
  have "case ngx_http_parse_request_line fresh_request sample_dots of (rc, b', r1) \<Rightarrow> rc = NGX_OK \<and>
      map_option fst (ngx_http_process_request_uri (mem sample_dots) r1 True True) = Some NGX_OK \<and>
      request_path True (mem sample_dots) r1 = Some (str ''/b/c'')"
    by code_simp
  then show thesis using that by (auto split: prod.splits)
qed

theorem process_request_uri_refinement_witness:
  "\<exists>b' r1 blk r2. ngx_http_parse_request_line fresh_request sample_dots = (NGX_OK, b', r1)
    \<and> ngx_http_process_request_uri (mem sample_dots) r1 True True = Some (NGX_OK, blk, r2)
    \<and> uri_bytes (mem sample_dots) blk (uri r2) = str ''/b/c''"
proof -
  obtain b' r1 blk r2 where s: "ngx_http_parse_request_line fresh_request sample_dots = (NGX_OK, b', r1)"
    "ngx_http_process_request_uri (mem sample_dots) r1 True True = Some (NGX_OK, blk, r2)"
    "request_path True (mem sample_dots) r1 = Some (str ''/b/c'')" by (rule sample_dots_ok)
  with process_request_uri_refinement [OF rl_initial_fresh s(1), of True] show ?thesis
    by (auto simp del: str_simps)
qed

theorem request_uri_normal_witness:
  "\<exists>b' r1 blk r2. ngx_http_parse_request_line fresh_request sample_dots = (NGX_OK, b', r1)
    \<and> ngx_http_process_request_uri (mem sample_dots) r1 True True = Some (NGX_OK, blk, r2)
    \<and> normal_form True (uri_bytes (mem sample_dots) blk (uri r2))"
proof -
  obtain b' r1 blk r2 where s: "ngx_http_parse_request_line fresh_request sample_dots = (NGX_OK, b', r1)"
    "ngx_http_process_request_uri (mem sample_dots) r1 True True = Some (NGX_OK, blk, r2)" by (rule sample_dots_ok)
  with request_uri_normal [OF rl_initial_fresh s] show ?thesis by blast
qed

end
