(* ===== verification/Ngx_Number.thy ===== *)
theory Ngx_Number
  imports Ngx_Prelude
begin

text \<open>
  Reading numbers, from \<^verbatim>\<open>src/reference/nginx-master/src/core/ngx_string.c\<close>:
  \<^verbatim>\<open>ngx_atoi\<close>, \<^verbatim>\<open>ngx_atosz\<close>, \<^verbatim>\<open>ngx_atoof\<close>, \<^verbatim>\<open>ngx_atotm\<close>,
  \<^verbatim>\<open>ngx_atofp\<close> and \<^verbatim>\<open>ngx_hextoi\<close>, on a platform with 64-bit \<^verbatim>\<open>ngx_int_t\<close>,
  \<^verbatim>\<open>ssize_t\<close>, \<^verbatim>\<open>off_t\<close> and \<^verbatim>\<open>time_t\<close>.

  The argument pair \<^verbatim>\<open>(line, n)\<close> is the list of the \<open>n\<close> bytes at \<open>line\<close>. The signed
  accumulator is an \<^typ>\<open>int\<close>; an assignment that leaves the 64-bit range would be undefined
  behaviour in C and is the result \<open>None\<close>, so that a theorem with \<open>Some\<close> on the right-hand side
  says in particular that no overflow happens.
\<close>

section \<open>The functions\<close>

abbreviation (input) NGX_MAX_INT_T_VALUE :: int where "NGX_MAX_INT_T_VALUE \<equiv> 9223372036854775807"
abbreviation (input) NGX_MAX_SIZE_T_VALUE :: int where "NGX_MAX_SIZE_T_VALUE \<equiv> 9223372036854775807"
abbreviation (input) NGX_MAX_OFF_T_VALUE :: int where "NGX_MAX_OFF_T_VALUE \<equiv> 9223372036854775807"
abbreviation (input) NGX_MAX_TIME_T_VALUE :: int where "NGX_MAX_TIME_T_VALUE \<equiv> 9223372036854775807"

text \<open>A signed 64-bit result.\<close>

definition int64 :: "int \<Rightarrow> int option" where
  "int64 v = (if - (2 ^ 63) \<le> v \<and> v < 2 ^ 63 then Some v else None)"

text \<open>\<^verbatim>\<open>*line - '0'\<close>, an \<^verbatim>\<open>int\<close> after promotion.\<close>

abbreviation digit :: "u_char \<Rightarrow> int" where
  "digit c \<equiv> uint c - 48"

text \<open>The loop of the four decimal functions; they differ in the type of \<^verbatim>\<open>value\<close> and in
  the constant that \<open>cutoff\<close> and \<open>cutlim\<close> come from.\<close>

fun ato_loop :: "int \<Rightarrow> int \<Rightarrow> u_char list \<Rightarrow> int \<Rightarrow> int option" where
  "ato_loop cutoff cutlim [] value = Some value"
| "ato_loop cutoff cutlim (c # line) value =
     (if c < ch_0 \<or> c > ch_9 then Some NGX_ERROR
      else if value \<ge> cutoff \<and> (value > cutoff \<or> digit c > cutlim) then Some NGX_ERROR
      else Option.bind (int64 (value * 10 + digit c)) (ato_loop cutoff cutlim line))"

definition ngx_atoi :: "u_char list \<Rightarrow> int option" where
  "ngx_atoi line =
     (if line = [] then Some NGX_ERROR
      else ato_loop (NGX_MAX_INT_T_VALUE div 10) (NGX_MAX_INT_T_VALUE mod 10) line 0)"

definition ngx_atosz :: "u_char list \<Rightarrow> int option" where
  "ngx_atosz line =
     (if line = [] then Some NGX_ERROR
      else ato_loop (NGX_MAX_SIZE_T_VALUE div 10) (NGX_MAX_SIZE_T_VALUE mod 10) line 0)"

definition ngx_atoof :: "u_char list \<Rightarrow> int option" where
  "ngx_atoof line =
     (if line = [] then Some NGX_ERROR
      else ato_loop (NGX_MAX_OFF_T_VALUE div 10) (NGX_MAX_OFF_T_VALUE mod 10) line 0)"

definition ngx_atotm :: "u_char list \<Rightarrow> int option" where
  "ngx_atotm line =
     (if line = [] then Some NGX_ERROR
      else ato_loop (NGX_MAX_TIME_T_VALUE div 10) (NGX_MAX_TIME_T_VALUE mod 10) line 0)"

text \<open>\<^verbatim>\<open>ngx_atofp\<close>: the loop over the bytes, then the loop \<^verbatim>\<open>while (point--)\<close>.\<close>

fun atofp_scale :: "int \<Rightarrow> nat \<Rightarrow> int \<Rightarrow> int option" where
  "atofp_scale cutoff 0 value = Some value"
| "atofp_scale cutoff (Suc point) value =
     (if value > cutoff then Some NGX_ERROR
      else Option.bind (int64 (value * 10)) (atofp_scale cutoff point))"

fun atofp_loop :: "int \<Rightarrow> int \<Rightarrow> u_char list \<Rightarrow> nat \<Rightarrow> bool \<Rightarrow> int \<Rightarrow> int option" where
  "atofp_loop cutoff cutlim [] point dot value = atofp_scale cutoff point value"
| "atofp_loop cutoff cutlim (c # line) point dot value =
     (if point = 0 then Some NGX_ERROR
      else if c = ch_dot then
        (if dot then Some NGX_ERROR else atofp_loop cutoff cutlim line point True value)
      else if c < ch_0 \<or> c > ch_9 then Some NGX_ERROR
      else if value \<ge> cutoff \<and> (value > cutoff \<or> digit c > cutlim) then Some NGX_ERROR
      else Option.bind (int64 (value * 10 + digit c))
        (atofp_loop cutoff cutlim line (point - (if dot then 1 else 0)) dot))"

definition ngx_atofp :: "u_char list \<Rightarrow> nat \<Rightarrow> int option" where
  "ngx_atofp line point =
     (if line = [] then Some NGX_ERROR
      else atofp_loop (NGX_MAX_INT_T_VALUE div 10) (NGX_MAX_INT_T_VALUE mod 10) line point False 0)"

text \<open>\<^verbatim>\<open>ngx_hextoi\<close>\<close>

fun hextoi_loop :: "int \<Rightarrow> u_char list \<Rightarrow> int \<Rightarrow> int option" where
  "hextoi_loop cutoff [] value = Some value"
| "hextoi_loop cutoff (ch # line) value =
     (if value > cutoff then Some NGX_ERROR
      else if is_digit ch then Option.bind (int64 (value * 16 + digit ch)) (hextoi_loop cutoff line)
      else (let c = fold_case ch in
        if ch_a \<le> c \<and> c \<le> ch_f then
          Option.bind (int64 (value * 16 + (uint c - 97 + 10))) (hextoi_loop cutoff line)
        else Some NGX_ERROR))"

definition ngx_hextoi :: "u_char list \<Rightarrow> int option" where
  "ngx_hextoi line =
     (if line = [] then Some NGX_ERROR else hextoi_loop (NGX_MAX_INT_T_VALUE div 16) line 0)"

section \<open>Positional notation\<close>

text \<open>The reference: a digit function and the value of a list of digits, undefined when a byte is
  not a digit.\<close>

definition dec_digit :: "u_char \<Rightarrow> int option" where
  "dec_digit c = (if is_digit c then Some (uint c - 48) else None)"

definition hex_digit :: "u_char \<Rightarrow> int option" where
  "hex_digit c =
     (if is_digit c then Some (uint c - 48)
      else if ch_a \<le> c \<and> c \<le> ch_f then Some (uint c - 97 + 10)
      else if ch_A \<le> c \<and> c \<le> ch_F then Some (uint c - 65 + 10)
      else None)"

fun numeral_value :: "int \<Rightarrow> (u_char \<Rightarrow> int option) \<Rightarrow> u_char list \<Rightarrow> int \<Rightarrow> int option" where
  "numeral_value base dig [] v = Some v"
| "numeral_value base dig (c # cs) v =
     (case dig c of None \<Rightarrow> None | Some d \<Rightarrow> numeral_value base dig cs (base * v + d))"

text \<open>What a reader promises: the value when the text is a numeral of at least one digit in range,
  \<^verbatim>\<open>NGX_ERROR\<close> otherwise.\<close>

definition in_range :: "int \<Rightarrow> int option \<Rightarrow> int" where
  "in_range lim v = (case v of Some n \<Rightarrow> if n \<le> lim then n else NGX_ERROR | None \<Rightarrow> NGX_ERROR)"

definition read_numeral :: "int \<Rightarrow> (u_char \<Rightarrow> int option) \<Rightarrow> int \<Rightarrow> u_char list \<Rightarrow> int" where
  "read_numeral base dig lim cs =
     (if cs = [] then NGX_ERROR else in_range lim (numeral_value base dig cs 0))"

text \<open>
  The contract of a digit-by-digit reader: one step either refuses the byte or takes the digit in,
  and it refuses exactly the bytes that are no digit or would push the value out of range.
\<close>

locale digit_reader =
  fixes base :: int and dig :: "u_char \<Rightarrow> int option" and lim :: int
    and loop :: "u_char list \<Rightarrow> int \<Rightarrow> int option"
  assumes base: "1 \<le> base"
    and dig_nonneg: "dig c = Some d \<Longrightarrow> 0 \<le> d"
    and loop_Nil: "loop [] v = Some v"
    and loop_no_digit: "dig c = None \<Longrightarrow> 0 \<le> v \<Longrightarrow> v \<le> lim \<Longrightarrow> loop (c # cs) v = Some NGX_ERROR"
    and loop_overflow: "dig c = Some d \<Longrightarrow> 0 \<le> v \<Longrightarrow> v \<le> lim \<Longrightarrow> lim < base * v + d \<Longrightarrow>
      loop (c # cs) v = Some NGX_ERROR"
    and loop_digit: "dig c = Some d \<Longrightarrow> 0 \<le> v \<Longrightarrow> base * v + d \<le> lim \<Longrightarrow>
      loop (c # cs) v = loop cs (base * v + d)"
begin

lemma step_ge:
  assumes "dig c = Some d" "0 \<le> v"
  shows "v \<le> base * v + d" and "0 \<le> base * v + d"
proof -
  have "1 * v \<le> base * v" using base assms(2) by (intro mult_right_mono)
  with dig_nonneg [OF assms(1)] show "v \<le> base * v + d" by simp
  with assms(2) show "0 \<le> base * v + d" by simp
qed

lemma value_ge:
  "numeral_value base dig cs v = Some n \<Longrightarrow> 0 \<le> v \<Longrightarrow> v \<le> n"
proof (induction cs arbitrary: v)
  case (Cons c cs)
  then obtain d where d: "dig c = Some d" "numeral_value base dig cs (base * v + d) = Some n"
    by (auto split: option.splits)
  with Cons.IH [OF d(2)] step_ge [OF d(1) Cons.prems(2)] show ?case by simp
qed simp

lemma value_overflow:
  assumes "lim < v" "0 \<le> v"
  shows "in_range lim (numeral_value base dig cs v) = NGX_ERROR"
  using value_ge [of cs v] assms by (fastforce simp: in_range_def split: option.splits)

lemma loop_reads:
  "0 \<le> v \<Longrightarrow> v \<le> lim \<Longrightarrow> loop cs v = Some (in_range lim (numeral_value base dig cs v))"
proof (induction cs arbitrary: v)
  case Nil
  then show ?case by (simp add: loop_Nil in_range_def)
next
  case (Cons c cs)
  show ?case
  proof (cases "dig c")
    case None
    with Cons.prems show ?thesis by (simp add: loop_no_digit in_range_def)
  next
    case (Some d)
    note ge = step_ge [OF Some Cons.prems(1)]
    show ?thesis
    proof (cases "base * v + d \<le> lim")
      case True
      with Cons.IH [OF ge(2)] Cons.prems Some show ?thesis by (simp add: loop_digit)
    next
      case False
      with Cons.prems Some ge show ?thesis by (simp add: loop_overflow value_overflow)
    qed
  qed
qed

lemma reads:
  assumes "0 \<le> lim"
  shows "(if cs = [] then Some NGX_ERROR else loop cs 0) = Some (read_numeral base dig lim cs)"
  using loop_reads [of 0 cs] assms by (simp add: read_numeral_def)

end

section \<open>The functions meet the contract\<close>

lemma is_digit_uint: "is_digit c \<longleftrightarrow> 48 \<le> uint c \<and> uint c \<le> 57"
  by (simp add: word_le_def)

lemma not_digit_test: "c < ch_0 \<or> c > ch_9 \<longleftrightarrow> \<not> is_digit c"
  by auto

lemma int64_Some [simp]: "- (2 ^ 63) \<le> v \<Longrightarrow> v < 2 ^ 63 \<Longrightarrow> int64 v = Some v"
  by (simp add: int64_def)

interpretation dec: digit_reader 10 dec_digit NGX_MAX_INT_T_VALUE
    "ato_loop (NGX_MAX_INT_T_VALUE div 10) (NGX_MAX_INT_T_VALUE mod 10)"
proof (unfold_locales, goal_cases)
  case (5 c d v cs)
  then show ?case unfolding ato_loop.simps not_digit_test by (auto simp: dec_digit_def is_digit_uint split: if_splits)
next
  case (6 c d v cs)
  then show ?case unfolding ato_loop.simps not_digit_test
    by (auto simp: dec_digit_def is_digit_uint algebra_simps split: if_splits)
next
  case (4 c v cs)
  then show ?case unfolding ato_loop.simps not_digit_test by (auto simp: dec_digit_def split: if_splits)
qed (auto simp: dec_digit_def is_digit_uint split: if_splits)

text \<open>The folded test \<^verbatim>\<open>c | 0x20\<close> accepts the letters of both cases and nothing else.\<close>

lemma hex_alpha_cases:
  "\<not> is_digit c \<Longrightarrow> hex_digit c = (if is_hex_alpha c then Some (uint (fold_case c) - 97 + 10) else None)"
proof -
  have "\<not> is_digit c \<longrightarrow> hex_digit c =
      (if is_hex_alpha c then Some (uint (fold_case c) - 97 + 10) else None)"
    by (rule byte_all) code_simp
  then show "\<not> is_digit c \<Longrightarrow> ?thesis" ..
qed

lemma hex_digit_range: "hex_digit c = Some d \<Longrightarrow> 0 \<le> d \<and> d < 16"
  by (auto simp: hex_digit_def word_le_def split: if_splits)

lemma hextoi_step:
  "hextoi_loop cutoff (c # cs) v =
    (if v > cutoff then Some NGX_ERROR
     else case hex_digit c of
       None \<Rightarrow> Some NGX_ERROR
     | Some d \<Rightarrow> Option.bind (int64 (v * 16 + d)) (hextoi_loop cutoff cs))"
proof (cases "is_digit c")
  case True
  then show ?thesis by (simp add: hex_digit_def)
next
  case False
  then show ?thesis unfolding hextoi_loop.simps hex_alpha_cases [OF False] by (auto simp: Let_def)
qed

interpretation hex: digit_reader 16 hex_digit NGX_MAX_INT_T_VALUE
    "hextoi_loop (NGX_MAX_INT_T_VALUE div 16)"
proof (unfold_locales, goal_cases)
  case (5 c d v cs)
  then show ?case using hex_digit_range [of c d] unfolding hextoi_step by auto
next
  case (6 c d v cs)
  then show ?case using hex_digit_range [of c d] unfolding hextoi_step by (auto simp: algebra_simps)
qed (auto dest: hex_digit_range simp: hextoi_step simp del: hextoi_loop.simps(2))

text \<open>
  C33: the integer readers are exact: they return the value of the text as a decimal numeral (for
  \<^verbatim>\<open>ngx_hextoi\<close>, a hexadecimal one with digits of either case) when it consists of digits, at
  least one, and the value is representable, and \<^verbatim>\<open>NGX_ERROR\<close> in every other case; no
  accumulator overflows.
\<close>

theorem atoi_exact:
  "ngx_atoi line = Some (read_numeral 10 dec_digit NGX_MAX_INT_T_VALUE line)
    \<and> ngx_atosz line = Some (read_numeral 10 dec_digit NGX_MAX_SIZE_T_VALUE line)
    \<and> ngx_atoof line = Some (read_numeral 10 dec_digit NGX_MAX_OFF_T_VALUE line)
    \<and> ngx_atotm line = Some (read_numeral 10 dec_digit NGX_MAX_TIME_T_VALUE line)
    \<and> ngx_hextoi line = Some (read_numeral 16 hex_digit NGX_MAX_INT_T_VALUE line)"
  unfolding ngx_atoi_def ngx_atosz_def ngx_atoof_def ngx_atotm_def ngx_hextoi_def
  using dec.reads [of line] hex.reads [of line] by simp

section \<open>Fixed point numbers\<close>

text \<open>
  The reference: the text before and after the first dot. The digits of both parts together are
  read as one numeral and scaled up by the places that the fraction leaves unused. There is no
  value when the fraction is longer than \<open>point\<close>, and none at all when \<open>point\<close> is 0.
\<close>

definition whole_part :: "u_char list \<Rightarrow> u_char list" where
  "whole_part line = takeWhile (\<lambda>c. c \<noteq> ch_dot) line"

definition fraction_part :: "u_char list \<Rightarrow> u_char list" where
  "fraction_part line = drop 1 (dropWhile (\<lambda>c. c \<noteq> ch_dot) line)"

definition fixed_point :: "u_char list \<Rightarrow> nat \<Rightarrow> int option" where
  "fixed_point line point =
     (if point = 0 \<or> length (fraction_part line) > point then None
      else map_option (\<lambda>v. v * 10 ^ (point - length (fraction_part line)))
             (numeral_value 10 dec_digit (whole_part line @ fraction_part line) 0))"

lemma atofp_scale_exact:
  "0 \<le> v \<Longrightarrow> v \<le> NGX_MAX_INT_T_VALUE \<Longrightarrow>
    atofp_scale (NGX_MAX_INT_T_VALUE div 10) n v = Some (in_range NGX_MAX_INT_T_VALUE (Some (v * 10 ^ n)))"
proof (induction n arbitrary: v)
  case (Suc n)
  show ?case
  proof (cases "v > NGX_MAX_INT_T_VALUE div 10")
    case True
    have "(NGX_MAX_INT_T_VALUE div 10 + 1) * 10 * 1 \<le> v * 10 * 10 ^ n"
      using True by (intro mult_mono) auto
    with True show ?thesis by (simp add: in_range_def)
  next
    case False
    with Suc.IH [of "v * 10"] Suc.prems show ?thesis by (simp add: algebra_simps)
  qed
qed (simp add: in_range_def)

lemma atofp_digit:
  assumes "c \<noteq> ch_dot" "point \<noteq> 0" "0 \<le> v" "v \<le> NGX_MAX_INT_T_VALUE"
  shows "atofp_loop (NGX_MAX_INT_T_VALUE div 10) (NGX_MAX_INT_T_VALUE mod 10) (c # cs) point dot v =
    (case dec_digit c of
       None \<Rightarrow> Some NGX_ERROR
     | Some d \<Rightarrow> if 10 * v + d \<le> NGX_MAX_INT_T_VALUE
         then atofp_loop (NGX_MAX_INT_T_VALUE div 10) (NGX_MAX_INT_T_VALUE mod 10) cs
                (point - (if dot then 1 else 0)) dot (10 * v + d)
         else Some NGX_ERROR)"
proof (cases "is_digit c")
  case True
  with assms show ?thesis
    unfolding atofp_loop.simps not_digit_test
    by (auto simp: dec_digit_def is_digit_uint algebra_simps)
next
  case False
  with assms show ?thesis unfolding atofp_loop.simps not_digit_test by (auto simp: dec_digit_def)
qed

text \<open>Scaling up cannot bring a value back into range.\<close>

lemma in_range_scaled:
  assumes "NGX_MAX_INT_T_VALUE < v" "0 \<le> v"
  shows "in_range NGX_MAX_INT_T_VALUE (map_option (\<lambda>n. n * 10 ^ k) (numeral_value 10 dec_digit cs v)) = NGX_ERROR"
proof (cases "numeral_value 10 dec_digit cs v")
  case (Some n)
  have "v * 1 \<le> n * 10 ^ k" using dec.value_ge [OF Some assms(2)] assms(2) by (intro mult_mono) auto
  with Some assms(1) show ?thesis by (simp add: in_range_def)
qed (simp add: in_range_def)

lemma atofp_fraction:
  "0 \<le> v \<Longrightarrow> v \<le> NGX_MAX_INT_T_VALUE \<Longrightarrow>
    atofp_loop (NGX_MAX_INT_T_VALUE div 10) (NGX_MAX_INT_T_VALUE mod 10) cs point True v =
    Some (in_range NGX_MAX_INT_T_VALUE
      (if length cs > point then None
       else map_option (\<lambda>n. n * 10 ^ (point - length cs)) (numeral_value 10 dec_digit cs v)))"
proof (induction cs arbitrary: point v)
  case Nil
  then show ?case using atofp_scale_exact [of v point] by simp
next
  case (Cons c cs)
  show ?case
  proof (cases "point = 0 \<or> c = ch_dot")
    case True
    then show ?thesis by (auto simp: in_range_def dec_digit_def)
  next
    case False
    then obtain p where p: "point = Suc p" by (cases point) auto
    show ?thesis
    proof (cases "dec_digit c")
      case None
      with False p Cons.prems show ?thesis by (subst atofp_digit) (auto simp: in_range_def)
    next
      case (Some d)
      note ge = dec.step_ge [OF Some Cons.prems(1)]
      show ?thesis
        using False Some Cons.prems p Cons.IH [of "10 * v + d" p] ge(2)
          in_range_scaled [of "10 * v + d" _ cs]
        by (subst atofp_digit) (auto simp: in_range_def)
    qed
  qed
qed

lemma atofp_whole:
  "0 \<le> v \<Longrightarrow> v \<le> NGX_MAX_INT_T_VALUE \<Longrightarrow> point \<noteq> 0 \<Longrightarrow>
    atofp_loop (NGX_MAX_INT_T_VALUE div 10) (NGX_MAX_INT_T_VALUE mod 10) cs point False v =
    Some (in_range NGX_MAX_INT_T_VALUE
      (if length (fraction_part cs) > point then None
       else map_option (\<lambda>n. n * 10 ^ (point - length (fraction_part cs)))
              (numeral_value 10 dec_digit (whole_part cs @ fraction_part cs) v)))"
proof (induction cs arbitrary: v)
  case Nil
  then show ?case using atofp_scale_exact [of v point] by (simp add: whole_part_def fraction_part_def)
next
  case (Cons c cs)
  show ?case
  proof (cases "c = ch_dot")
    case True
    with Cons.prems atofp_fraction [of v cs point] show ?thesis by (simp add: whole_part_def fraction_part_def)
  next
    case False
    then have parts: "whole_part (c # cs) = c # whole_part cs" "fraction_part (c # cs) = fraction_part cs"
      by (simp_all add: whole_part_def fraction_part_def)
    show ?thesis
    proof (cases "dec_digit c")
      case None
      with False parts Cons.prems show ?thesis by (subst atofp_digit) (auto simp: in_range_def)
    next
      case (Some d)
      note ge = dec.step_ge [OF Some Cons.prems(1)]
      show ?thesis
        using False Some Cons.prems parts Cons.IH [of "10 * v + d"] ge(2)
          in_range_scaled [of "10 * v + d" _ "whole_part cs @ fraction_part cs"]
        by (subst atofp_digit) (auto simp: in_range_def)
    qed
  qed
qed

text \<open>
  \<^verbatim>\<open>ngx_atofp\<close> reads a decimal fraction as an integer with
  \<open>point\<close> implied decimal places, exactly, without overflow, and refuses everything else.
\<close>

theorem atofp_exact:
  "ngx_atofp line point =
    Some (if line = [] then NGX_ERROR else in_range NGX_MAX_INT_T_VALUE (fixed_point line point))"
proof (cases "line = [] \<or> point = 0")
  case True
  then show ?thesis by (cases line) (auto simp: ngx_atofp_def fixed_point_def in_range_def)
next
  case False
  with atofp_whole [of 0 point line] show ?thesis by (simp add: ngx_atofp_def fixed_point_def)
qed

end
