(* ===== verification/Ngx_Sprintf.thy ===== *)
theory Ngx_Sprintf
  imports Ngx_Number
begin

text \<open>
  Formatted output, from \<^verbatim>\<open>src/reference/nginx-master/src/core/ngx_string.c\<close>:
  \<^verbatim>\<open>ngx_vslprintf\<close> with \<^verbatim>\<open>ngx_sprintf_num\<close> and \<^verbatim>\<open>ngx_sprintf_str\<close>, and
  \<^verbatim>\<open>ngx_hex_dump\<close>, on a platform with 64-bit \<^verbatim>\<open>long\<close>, \<^verbatim>\<open>size_t\<close>, pointers
  and atomics and 32-bit \<^verbatim>\<open>int\<close> and \<^verbatim>\<open>pid_t\<close> (not \<^verbatim>\<open>NGX_WIN32\<close>).

  The bytes written so far are the list \<open>out\<close>, \<open>cap\<close> is the size of the destination:
  \<^verbatim>\<open>buf < last\<close> is \<open>length out < cap\<close>. A write without room is the fault \<open>Overrun\<close>,
  a read behind the end of a source string \<open>Overread\<close>, an argument of another type than the
  format asks for \<open>Va_mismatch\<close>. The format string is the list of its bytes with the final NUL.
\<close>

section \<open>The functions\<close>

datatype vsl_fault = Overrun | Overread | Va_mismatch

type_synonym 'a vsl = "vsl_fault + 'a"

definition bind_vsl :: "'a vsl \<Rightarrow> ('a \<Rightarrow> 'b vsl) \<Rightarrow> 'b vsl" where
  "bind_vsl x f = (case x of Inl e \<Rightarrow> Inl e | Inr a \<Rightarrow> f a)"

lemma bind_vsl_simps [simp]: "bind_vsl (Inl e) f = Inl e" "bind_vsl (Inr a) f = f a"
  by (simp_all add: bind_vsl_def)

text \<open>\<^verbatim>\<open>*buf++ = c\<close>\<close>

definition put :: "nat \<Rightarrow> u_char list \<Rightarrow> u_char \<Rightarrow> u_char list vsl" where
  "put cap out c = (if length out < cap then Inr (out @ [c]) else Inl Overrun)"

definition hex_lower :: "u_char list" where "hex_lower = str ''0123456789abcdef''"
definition HEX_upper :: "u_char list" where "HEX_upper = str ''0123456789ABCDEF''"

abbreviation (input) NGX_INT64_LEN :: nat where "NGX_INT64_LEN \<equiv> 20"
abbreviation (input) NGX_MAX_UINT32_VALUE :: "32 word" where "NGX_MAX_UINT32_VALUE \<equiv> 0xffffffff"

text \<open>The loops that write digits backwards into \<^verbatim>\<open>temp\<close>; the first argument is
  \<^verbatim>\<open>p - temp\<close>, and a step below \<^verbatim>\<open>temp\<close> is the fault.\<close>

fun dec_digits :: "nat \<Rightarrow> 'w::len word \<Rightarrow> u_char list \<Rightarrow> u_char list vsl" where
  "dec_digits 0 n temp = Inl Overrun"
| "dec_digits (Suc p) n temp =
     (let temp = ucast (n mod 10 + 48) # temp; n = n div 10
      in if n \<noteq> 0 then dec_digits p n temp else Inr temp)"

fun hex_digits :: "u_char list \<Rightarrow> nat \<Rightarrow> 64 word \<Rightarrow> u_char list \<Rightarrow> u_char list vsl" where
  "hex_digits tab 0 n temp = Inl Overrun"
| "hex_digits tab (Suc p) n temp =
     (let temp = tab ! unat (ucast (n AND 0xf) :: 32 word) # temp; n = drop_bit 4 n
      in if n \<noteq> 0 then hex_digits tab p n temp else Inr temp)"

definition sprintf_temp :: "64 word \<Rightarrow> nat \<Rightarrow> u_char list vsl" where
  "sprintf_temp ui64 hexadecimal =
     (if hexadecimal = 0 then
        (if ui64 \<le> ucast NGX_MAX_UINT32_VALUE then dec_digits NGX_INT64_LEN (ucast ui64 :: 32 word) []
         else dec_digits NGX_INT64_LEN ui64 [])
      else if hexadecimal = 1 then hex_digits hex_lower NGX_INT64_LEN ui64 []
      else hex_digits HEX_upper NGX_INT64_LEN ui64 [])"

text \<open>\<^verbatim>\<open>while (len++ < width && buf < last) *buf++ = zero\<close>\<close>

function pad_loop :: "nat \<Rightarrow> u_char \<Rightarrow> nat \<Rightarrow> nat \<Rightarrow> u_char list \<Rightarrow> u_char list" where
  "pad_loop cap zero len width out =
     (if len < width \<and> length out < cap then pad_loop cap zero (Suc len) width (out @ [zero]) else out)"
  by pat_completeness auto
termination
  by (relation "measure (\<lambda>(cap, zero, len, width, out). width - len)") auto

declare pad_loop.simps [simp del]

definition ngx_sprintf_num ::
  "nat \<Rightarrow> u_char list \<Rightarrow> 64 word \<Rightarrow> u_char \<Rightarrow> nat \<Rightarrow> 64 word \<Rightarrow> u_char list vsl" where
  "ngx_sprintf_num cap out ui64 zero hexadecimal width =
     bind_vsl (sprintf_temp ui64 hexadecimal) (\<lambda>p.
       let out = pad_loop cap zero (length p) (unat width) out;
           len = (if length out + length p > cap then cap - length out else length p)
       in Inr (out @ take len p))"

text \<open>\<^verbatim>\<open>ngx_sprintf_str\<close>; \<open>src\<close> holds the bytes that may be read from \<^verbatim>\<open>src\<close> on.\<close>

fun str_until_nul :: "nat \<Rightarrow> u_char list \<Rightarrow> u_char list \<Rightarrow> u_char list vsl" where
  "str_until_nul cap [] out = Inl Overread"
| "str_until_nul cap (c # src) out =
     (if c \<noteq> 0 \<and> length out < cap then str_until_nul cap src (out @ [c]) else Inr out)"

fun hex_until_nul :: "u_char list \<Rightarrow> nat \<Rightarrow> u_char list \<Rightarrow> u_char list \<Rightarrow> u_char list vsl" where
  "hex_until_nul tab cap [] out = Inl Overread"
| "hex_until_nul tab cap (c # src) out =
     (if c \<noteq> 0 \<and> int (length out) < int cap - 1
      then bind_vsl (put cap out (tab ! unat (drop_bit 4 c))) (\<lambda>out.
           bind_vsl (put cap out (tab ! unat (c AND 0xf))) (hex_until_nul tab cap src))
      else Inr out)"

fun hex_counted :: "u_char list \<Rightarrow> nat \<Rightarrow> u_char list \<Rightarrow> nat \<Rightarrow> u_char list \<Rightarrow> u_char list vsl" where
  "hex_counted tab cap src 0 out = Inr out"
| "hex_counted tab cap src (Suc len) out =
     (if int (length out) < int cap - 1
      then (case src of
              [] \<Rightarrow> Inl Overread
            | c # src \<Rightarrow>
                bind_vsl (put cap out (tab ! unat (drop_bit 4 c))) (\<lambda>out.
                bind_vsl (put cap out (tab ! unat (c AND 0xf))) (hex_counted tab cap src len)))
      else Inr out)"

definition ngx_sprintf_str ::
  "nat \<Rightarrow> u_char list \<Rightarrow> u_char list \<Rightarrow> 64 word \<Rightarrow> nat \<Rightarrow> u_char list vsl" where
  "ngx_sprintf_str cap out src len hexadecimal =
     (if hexadecimal = 0 then
        (if len = -1 then str_until_nul cap src out
         else (let n = min (cap - length out) (unat len)
               in if n \<le> length src then Inr (out @ take n src) else Inl Overread))
      else (let tab = (if hexadecimal = 1 then hex_lower else HEX_upper)
            in if len = -1 then hex_until_nul tab cap src out
               else hex_counted tab cap src (unat len) out))"

text \<open>\<^verbatim>\<open>ngx_hex_dump\<close>: the bytes written to \<^verbatim>\<open>dst\<close>.\<close>

fun ngx_hex_dump :: "u_char list \<Rightarrow> u_char list" where
  "ngx_hex_dump [] = []"
| "ngx_hex_dump (c # src) =
     hex_lower ! unat (drop_bit 4 c) # hex_lower ! unat (c AND 0xf) # ngx_hex_dump src"

section \<open>The formatter\<close>

text \<open>
  A value fetched by \<^verbatim>\<open>va_arg\<close>: a string with its length, a pointer to bytes, a 64-bit integer, a
  32-bit integer, a double. The arithmetic on doubles of the \<^verbatim>\<open>f\<close> conversion is a parameter:
  the test \<^verbatim>\<open>f < 0\<close>, the negation, the conversion \<^verbatim>\<open>(int64_t) f\<close> and the rounded fraction
  \<^verbatim>\<open>(uint64_t) ((f - (double) ui64) * scale + 0.5)\<close>.
\<close>

datatype 'd va_arg =
    Va_str "u_char list" | Va_chars "u_char list" | Va_64 "64 word" | Va_32 "32 word" | Va_double 'd

record 'd fpu =
  f_negative :: "'d \<Rightarrow> bool"
  f_minus :: "'d \<Rightarrow> 'd"
  f_trunc :: "'d \<Rightarrow> 64 word"
  f_frac :: "'d \<Rightarrow> 64 word \<Rightarrow> 64 word \<Rightarrow> 64 word"

record fmt_spec =
  fs_zero :: u_char
  fs_width :: "64 word"
  fs_sign :: bool
  fs_hex :: nat
  fs_max_width :: bool
  fs_frac_width :: "64 word"
  fs_slen :: "64 word"

fun fmt_digits :: "u_char list \<Rightarrow> 64 word \<Rightarrow> u_char list \<times> 64 word" where
  "fmt_digits [] n = ([], n)"
| "fmt_digits (c # fmt) n =
     (if is_digit c then fmt_digits fmt (n * 10 + ucast (c - ch_0)) else (c # fmt, n))"

text \<open>The loop over the modifiers; it ends at the conversion byte, or after a fraction width.\<close>

fun fmt_modifiers ::
  "u_char list \<Rightarrow> 'd va_arg list \<Rightarrow> fmt_spec \<Rightarrow> (u_char list \<times> 'd va_arg list \<times> fmt_spec) vsl" where
  "fmt_modifiers [] args s = Inr ([], args, s)"
| "fmt_modifiers (c # fmt) args s =
     (if c = ch_u then fmt_modifiers fmt args (s\<lparr>fs_sign := False\<rparr>)
      else if c = ch_m then fmt_modifiers fmt args (s\<lparr>fs_max_width := True\<rparr>)
      else if c = ch_X then fmt_modifiers fmt args (s\<lparr>fs_hex := 2, fs_sign := False\<rparr>)
      else if c = ch_x then fmt_modifiers fmt args (s\<lparr>fs_hex := 1, fs_sign := False\<rparr>)
      else if c = ch_dot then
        (case fmt_digits fmt (fs_frac_width s) of (fmt, n) \<Rightarrow> Inr (fmt, args, s\<lparr>fs_frac_width := n\<rparr>))
      else if c = ch_star then
        (case args of Va_64 n # args \<Rightarrow> fmt_modifiers fmt args (s\<lparr>fs_slen := n\<rparr>) | _ \<Rightarrow> Inl Va_mismatch)
      else Inr (c # fmt, args, s))"

text \<open>The tail of an integer conversion: the sign, then the digits.\<close>

definition fmt_signed ::
  "nat \<Rightarrow> u_char list \<Rightarrow> fmt_spec \<Rightarrow> 64 word \<Rightarrow> u_char list vsl" where
  "fmt_signed cap out s i64 =
     (if sint i64 < 0 then bind_vsl (put cap out ch_dash) (\<lambda>out.
        ngx_sprintf_num cap out (- i64) (fs_zero s) (fs_hex s) (fs_width s))
      else ngx_sprintf_num cap out i64 (fs_zero s) (fs_hex s) (fs_width s))"

definition fmt_unsigned ::
  "nat \<Rightarrow> u_char list \<Rightarrow> fmt_spec \<Rightarrow> 64 word \<Rightarrow> u_char list vsl" where
  "fmt_unsigned cap out s ui64 = ngx_sprintf_num cap out ui64 (fs_zero s) (fs_hex s) (fs_width s)"

definition fmt_int :: "nat \<Rightarrow> u_char list \<Rightarrow> fmt_spec \<Rightarrow> 64 word \<Rightarrow> u_char list vsl" where
  "fmt_int cap out s n = (if fs_sign s then fmt_signed cap out s n else fmt_unsigned cap out s n)"

text \<open>A 32-bit argument is widened with its sign for a signed conversion.\<close>

definition widen :: "fmt_spec \<Rightarrow> 32 word \<Rightarrow> 64 word" where
  "widen s n = (if fs_sign s then signed n else ucast n)"

definition fmt_scale :: "64 word \<Rightarrow> 64 word" where
  "fmt_scale frac_width = 10 ^ unat frac_width"

definition fmt_double ::
  "'d fpu \<Rightarrow> nat \<Rightarrow> u_char list \<Rightarrow> fmt_spec \<Rightarrow> 'd \<Rightarrow> u_char list vsl" where
  "fmt_double fp cap out s f0 =
     bind_vsl (if f_negative fp f0 then put cap out ch_dash else Inr out) (\<lambda>out.
       let f = (if f_negative fp f0 then f_minus fp f0 else f0);
           ui64 = f_trunc fp f;
           scale = fmt_scale (fs_frac_width s);
           frac = (if fs_frac_width s \<noteq> 0 then f_frac fp f ui64 scale else 0);
           carry = (fs_frac_width s \<noteq> 0 \<and> frac = scale)
       in bind_vsl (ngx_sprintf_num cap out (if carry then ui64 + 1 else ui64) (fs_zero s) 0 (fs_width s)) (\<lambda>out.
         if fs_frac_width s \<noteq> 0 then
           bind_vsl (if length out < cap then put cap out ch_dot else Inr out) (\<lambda>out.
             ngx_sprintf_num cap out (if carry then 0 else frac) ch_0 0 (fs_frac_width s))
         else Inr out))"

text \<open>The switch over the conversion byte, on an argument list whose first element has the type
  the conversion fetches.\<close>

definition fmt_convert ::
  "'d fpu \<Rightarrow> nat \<Rightarrow> u_char \<Rightarrow> 'd va_arg list \<Rightarrow> fmt_spec \<Rightarrow> u_char list \<Rightarrow>
    (u_char list \<times> 'd va_arg list) vsl" where
  "fmt_convert fp cap c args s out =
     (let w64 = (\<lambda>k. case args of Va_64 n # args \<Rightarrow> bind_vsl (k n) (\<lambda>out. Inr (out, args)) | _ \<Rightarrow> Inl Va_mismatch);
          w32 = (\<lambda>k. case args of Va_32 n # args \<Rightarrow> bind_vsl (k n) (\<lambda>out. Inr (out, args)) | _ \<Rightarrow> Inl Va_mismatch);
          one = (\<lambda>b. bind_vsl (put cap out b) (\<lambda>out. Inr (out, args)));
          s_max = (if fs_max_width s then s\<lparr>fs_width := of_nat NGX_INT64_LEN\<rparr> else s)
      in
      if c = ch_V \<or> c = ch_v then
        (case args of
           Va_str v # args \<Rightarrow>
             bind_vsl (ngx_sprintf_str cap out v (of_nat (length v)) (fs_hex s)) (\<lambda>out. Inr (out, args))
         | _ \<Rightarrow> Inl Va_mismatch)
      else if c = ch_s then
        (case args of
           Va_chars p # args \<Rightarrow>
             bind_vsl (ngx_sprintf_str cap out p (fs_slen s) (fs_hex s)) (\<lambda>out. Inr (out, args))
         | _ \<Rightarrow> Inl Va_mismatch)
      else if c = ch_O \<or> c = ch_T \<or> c = ch_r then w64 (fmt_signed cap out s)
      else if c = ch_P then w32 (\<lambda>n. fmt_signed cap out s (signed n))
      else if c = ch_M then
        w64 (\<lambda>ms. if ms = -1 then fmt_signed cap out s (-1) else fmt_unsigned cap out s ms)
      else if c = ch_z \<or> c = ch_l \<or> c = ch_L then w64 (fmt_int cap out s)
      else if c = ch_i \<or> c = ch_A then w64 (fmt_int cap out s_max)
      else if c = ch_d \<or> c = ch_D then w32 (\<lambda>n. fmt_int cap out s (widen s n))
      else if c = ch_f then
        (case args of
           Va_double f # args \<Rightarrow> bind_vsl (fmt_double fp cap out s f) (\<lambda>out. Inr (out, args))
         | _ \<Rightarrow> Inl Va_mismatch)
      else if c = ch_p then
        w64 (fmt_unsigned cap out (s\<lparr>fs_hex := 2, fs_zero := ch_0, fs_width := 16\<rparr>))
      else if c = ch_c then w32 (\<lambda>d. put cap out (ucast (d AND 0xff)))
      else if c = ch_Z then one 0
      else if c = ch_N then one LF
      else if c = ch_percent then one ch_percent
      else one c)"

definition fmt_start :: "u_char list \<Rightarrow> fmt_spec" where
  "fmt_start fmt = \<lparr>fs_zero = (if fmt \<noteq> [] \<and> hd fmt = ch_0 then ch_0 else ch_sp), fs_width = 0, fs_sign = True,
     fs_hex = 0, fs_max_width = False, fs_frac_width = 0, fs_slen = -1\<rparr>"

text \<open>One iteration of the loop, on a format that does not stand at its NUL.\<close>

definition fmt_item ::
  "'d fpu \<Rightarrow> nat \<Rightarrow> u_char \<Rightarrow> u_char list \<Rightarrow> 'd va_arg list \<Rightarrow> u_char list \<Rightarrow>
    (u_char list \<times> 'd va_arg list \<times> u_char list) vsl" where
  "fmt_item fp cap c fmt args out =
     (if c = ch_percent then
        (case fmt_digits fmt 0 of (fmt1, width) \<Rightarrow>
         bind_vsl (fmt_modifiers fmt1 args ((fmt_start fmt)\<lparr>fs_width := width\<rparr>)) (\<lambda>(fmt2, args, s).
           case fmt2 of
             [] \<Rightarrow> Inl Overread
           | conv # fmt3 \<Rightarrow>
               bind_vsl (fmt_convert fp cap conv args s out) (\<lambda>(out, args). Inr (fmt3, args, out))))
      else bind_vsl (put cap out c) (\<lambda>out. Inr (fmt, args, out)))"

text \<open>Every iteration consumes a byte of the format.\<close>

lemma fmt_digits_length: "fmt_digits fmt n = (fmt', n') \<Longrightarrow> length fmt' \<le> length fmt"
  by (induction fmt n rule: fmt_digits.induct) (auto split: if_splits)

lemma bind_vsl_InrE:
  assumes "bind_vsl x f = Inr b"
  obtains a where "x = Inr a" "f a = Inr b"
  using assms by (cases x) auto

lemma fmt_modifiers_length:
  "fmt_modifiers fmt args s = Inr (fmt', args', s') \<Longrightarrow> length fmt' \<le> length fmt"
proof (induction fmt arbitrary: args s)
  case (Cons c fmt)
  then show ?case
    by (auto split: if_splits list.splits va_arg.splits prod.splits dest!: Cons.IH fmt_digits_length)
qed simp

lemma fmt_item_length:
  assumes "fmt_item fp cap c fmt args out = Inr (fmt', args', out')"
  shows "length fmt' \<le> length fmt"
  using assms
  by (auto simp: fmt_item_def split: if_splits prod.splits list.splits elim!: bind_vsl_InrE
      dest!: fmt_digits_length fmt_modifiers_length)

function vslprintf_loop ::
  "'d fpu \<Rightarrow> nat \<Rightarrow> u_char list \<Rightarrow> 'd va_arg list \<Rightarrow> u_char list \<Rightarrow> u_char list vsl" where
  "vslprintf_loop fp cap [] args out = Inl Overread"
| "vslprintf_loop fp cap (c # fmt) args out =
     (if c \<noteq> 0 \<and> length out < cap then
        (case fmt_item fp cap c fmt args out of
           Inl e \<Rightarrow> Inl e
         | Inr (fmt', args', out') \<Rightarrow> vslprintf_loop fp cap fmt' args' out')
      else Inr out)"
  by pat_completeness auto
termination
  by (relation "measure (\<lambda>(fp, cap, fmt, args, out). length fmt)") (auto dest: fmt_item_length)

definition ngx_vslprintf ::
  "'d fpu \<Rightarrow> nat \<Rightarrow> u_char list \<Rightarrow> 'd va_arg list \<Rightarrow> u_char list vsl" where
  "ngx_vslprintf fp cap fmt args = vslprintf_loop fp cap fmt args []"

section \<open>The destination is respected\<close>

text \<open>
  What every writer promises: started inside the destination, it adds to what is there, stays inside,
  and makes no write without room.
\<close>

definition writes_within :: "nat \<Rightarrow> u_char list \<Rightarrow> u_char list vsl \<Rightarrow> bool" where
  "writes_within cap out res \<longleftrightarrow>
     (case res of Inl e \<Rightarrow> e \<noteq> Overrun | Inr out' \<Rightarrow> length out' \<le> cap \<and> (\<exists>w. out' = out @ w))"

lemma writes_within_simps [simp]:
  "writes_within cap out (Inl e) \<longleftrightarrow> e \<noteq> Overrun"
  "writes_within cap out (Inr out') \<longleftrightarrow> length out' \<le> cap \<and> (\<exists>w. out' = out @ w)"
  by (simp_all add: writes_within_def)

lemma writes_within_bind:
  assumes "writes_within cap out res"
    and "\<And>out'. length out' \<le> cap \<Longrightarrow> writes_within cap out' (k out')"
  shows "writes_within cap out (bind_vsl res k)"
proof (cases res)
  case (Inr out')
  with assms(1) obtain w where w: "out' = out @ w" "length out' \<le> cap" by auto
  with assms(2) [of out'] Inr show ?thesis by (auto simp: writes_within_def split: sum.splits)
qed (use assms(1) in simp)

lemma writes_within_put [intro]: "length out < cap \<Longrightarrow> writes_within cap out (put cap out c)"
  by (simp add: put_def)

text \<open>The digits fit into \<^verbatim>\<open>temp\<close>, in both bases.\<close>

lemma dec_digits_fit:
  assumes "unat (10 :: 'w::len word) = 10"
  shows "unat (n :: 'w word) < 10 ^ p \<Longrightarrow> 0 < p \<Longrightarrow> \<exists>ds. dec_digits p n temp = Inr ds"
proof (induction p arbitrary: n temp)
  case (Suc p)
  show ?case
  proof (cases "n div 10 = 0")
    case False
    then have "unat (n div 10) \<noteq> 0" by (simp add: unat_eq_0)
    moreover have "unat (n div 10) = unat n div 10" unfolding unat_div assms ..
    ultimately have "unat (n div 10) < 10 ^ p" "0 < p"
      using Suc.prems by (auto simp: less_mult_imp_div_less mult.commute intro: Nat.gr0I)
    with Suc.IH False show ?thesis by (simp add: Let_def)
  qed simp
qed simp

lemma hex_digits_fit: "unat n < 16 ^ p \<Longrightarrow> 0 < p \<Longrightarrow> \<exists>ds. hex_digits tab p n temp = Inr ds"
proof (induction p arbitrary: n temp)
  case (Suc p)
  show ?case
  proof (cases "drop_bit 4 n = 0")
    case False
    then have "unat (drop_bit 4 n) \<noteq> 0" by (simp add: unat_eq_0)
    moreover have "unat (drop_bit 4 n) = unat n div 16" by (simp add: drop_bit_eq_div unat_div)
    ultimately have "unat (drop_bit 4 n) < 16 ^ p" "0 < p"
      using Suc.prems by (auto simp: less_mult_imp_div_less mult.commute intro: Nat.gr0I)
    with Suc.IH False show ?thesis by (simp add: Let_def)
  qed simp
qed simp

lemma sprintf_temp_fits: "\<exists>p. sprintf_temp ui64 hexadecimal = Inr p"
proof -
  have "unat ui64 < 2 ^ 64" "unat (ucast ui64 :: 32 word) < 2 ^ 32"
    using unsigned_less [of ui64] unsigned_less [of "ucast ui64 :: 32 word"] by simp_all
  then have "unat ui64 < 10 ^ 20" "unat (ucast ui64 :: 32 word) < 10 ^ 20" "unat ui64 < 16 ^ 20" by simp_all
  then show ?thesis
    unfolding sprintf_temp_def
    using dec_digits_fit [of ui64 20] dec_digits_fit [of "ucast ui64 :: 32 word" 20] hex_digits_fit [of ui64 20]
    by (simp del: dec_digits.simps hex_digits.simps)
qed

lemma pad_loop_within:
  "length out \<le> cap \<Longrightarrow> \<exists>k. pad_loop cap zero len width out = out @ replicate k zero
     \<and> length (pad_loop cap zero len width out) \<le> cap"
proof (induction cap zero len width out rule: pad_loop.induct)
  case (1 cap zero len width out)
  show ?case
  proof (cases "len < width \<and> length out < cap")
    case True
    then obtain k where "pad_loop cap zero (Suc len) width (out @ [zero]) = (out @ [zero]) @ replicate k zero
        \<and> length (pad_loop cap zero (Suc len) width (out @ [zero])) \<le> cap"
      using "1.IH" by auto
    with True show ?thesis
      by (intro exI [of _ "Suc k"]) (auto simp: pad_loop.simps [of cap zero len])
  next
    case False
    with "1.prems" show ?thesis by (intro exI [of _ 0]) (auto simp: pad_loop.simps [of cap zero len])
  qed
qed

lemma sprintf_num_within:
  assumes "length out \<le> cap"
  shows "writes_within cap out (ngx_sprintf_num cap out ui64 zero hexadecimal width)"
proof -
  obtain p where p: "sprintf_temp ui64 hexadecimal = Inr p" using sprintf_temp_fits by blast
  obtain k where "pad_loop cap zero (length p) (unat width) out = out @ replicate k zero"
    "length (pad_loop cap zero (length p) (unat width) out) \<le> cap"
    using pad_loop_within [OF assms] by blast
  with p show ?thesis by (simp add: ngx_sprintf_num_def Let_def)
qed

lemma str_until_nul_within: "length out \<le> cap \<Longrightarrow> writes_within cap out (str_until_nul cap src out)"
proof (induction cap src out rule: str_until_nul.induct)
  case (2 cap c src out)
  then have "c \<noteq> 0 \<and> length out < cap \<Longrightarrow> writes_within cap (out @ [c]) (str_until_nul cap src (out @ [c]))"
    by auto
  with "2.prems" show ?case by (auto simp: writes_within_def split: sum.splits)
qed simp

lemma hex_pair_within:
  assumes "int (length out) < int cap - 1"
    and "\<And>out'. length out' \<le> cap \<Longrightarrow> writes_within cap out' (k out')"
  shows "writes_within cap out (bind_vsl (put cap out a) (\<lambda>out. bind_vsl (put cap out b) k))"
proof -
  have "bind_vsl (put cap out a) (\<lambda>out. bind_vsl (put cap out b) k) = k (out @ [a, b])"
    using assms(1) by (simp add: put_def)
  moreover have "writes_within cap (out @ [a, b]) (k (out @ [a, b]))" using assms by simp
  ultimately show ?thesis by (auto simp: writes_within_def split: sum.splits)
qed

lemma hex_until_nul_within: "length out \<le> cap \<Longrightarrow> writes_within cap out (hex_until_nul tab cap src out)"
proof (induction src arbitrary: out)
  case (Cons c src)
  then show ?case using hex_pair_within [of out cap "hex_until_nul tab cap src"] by simp
qed simp

lemma hex_counted_within: "length out \<le> cap \<Longrightarrow> writes_within cap out (hex_counted tab cap src n out)"
proof (induction n arbitrary: src out)
  case (Suc n)
  show ?case
  proof (cases src)
    case (Cons c src')
    with Suc show ?thesis using hex_pair_within [of out cap "hex_counted tab cap src' n"] by simp
  qed (use Suc in simp)
qed simp

lemma sprintf_str_within:
  assumes "length out \<le> cap"
  shows "writes_within cap out (ngx_sprintf_str cap out src len hexadecimal)"
  using assms str_until_nul_within [OF assms] hex_until_nul_within [OF assms] hex_counted_within [OF assms]
  by (auto simp: ngx_sprintf_str_def Let_def)

lemma fmt_signed_within:
  assumes "length out < cap"
  shows "writes_within cap out (fmt_signed cap out s i64)"
  using assms sprintf_num_within [of out cap]
  by (auto simp: fmt_signed_def intro!: writes_within_bind sprintf_num_within)

lemma fmt_unsigned_within:
  assumes "length out < cap"
  shows "writes_within cap out (fmt_unsigned cap out s ui64)"
  using assms by (auto simp: fmt_unsigned_def intro!: sprintf_num_within)

lemma fmt_int_within:
  assumes "length out < cap"
  shows "writes_within cap out (fmt_int cap out s n)"
  using assms by (simp add: fmt_int_def fmt_signed_within fmt_unsigned_within)

lemma fmt_double_within:
  assumes "length out < cap"
  shows "writes_within cap out (fmt_double fp cap out s f)"
  unfolding fmt_double_def Let_def using assms
  by (intro writes_within_bind sprintf_num_within) (auto intro!: writes_within_bind sprintf_num_within)

lemmas fmt_within = fmt_signed_within fmt_unsigned_within fmt_int_within fmt_double_within
  writes_within_put

text \<open>The result of a conversion, without the rest of the arguments.\<close>

definition written :: "('a \<times> 'b) vsl \<Rightarrow> 'a vsl" where
  "written res = map_sum id fst res"

lemma written_simps [simp]: "written (Inl e) = Inl e" "written (Inr (a, b)) = Inr a"
  by (simp_all add: written_def)

lemma written_bind [simp]: "written (bind_vsl res (\<lambda>out. Inr (out, args))) = res"
  by (cases res) simp_all

lemma fmt_convert_within:
  assumes "length out < cap"
  shows "writes_within cap out (written (fmt_convert fp cap c args s out))"
proof -
  note le = less_imp_le [OF assms]
  show ?thesis
    unfolding fmt_convert_def Let_def
    using fmt_within [OF assms] fmt_double_within [OF assms, of fp s] sprintf_str_within [OF le]
    by (simp split: list.split va_arg.split)
qed

lemma fmt_item_within:
  assumes "length out < cap"
  shows "case fmt_item fp cap c fmt args out of
      Inl e \<Rightarrow> e \<noteq> Overrun | Inr (fmt', args', out') \<Rightarrow> writes_within cap out (Inr out')"
proof -
  have mod: "fmt_modifiers fmt1 args s \<noteq> Inl Overrun" for fmt1 s
    by (induction fmt1 arbitrary: args s) (auto split: list.splits va_arg.splits prod.splits)
  have conv: "case fmt_convert fp cap conv args s out of
      Inl e \<Rightarrow> e \<noteq> Overrun | Inr (out', args') \<Rightarrow> writes_within cap out (Inr out')" for conv args s
    using fmt_convert_within [OF assms, of fp conv args s] by (auto split: sum.splits)
  show ?thesis
  proof (cases "c = ch_percent")
    case True
    obtain fmt1 width where d: "fmt_digits fmt 0 = (fmt1, width)" by force
    let ?s = "(fmt_start fmt)\<lparr>fs_width := width\<rparr>"
    show ?thesis
    proof (cases "fmt_modifiers fmt1 args ?s")
      case (Inl e)
      with True d mod [of fmt1 ?s] show ?thesis by (simp add: fmt_item_def)
    next
      case (Inr x)
      obtain fmt2 args2 s where x: "x = (fmt2, args2, s)" by (metis prod_cases3)
      show ?thesis
      proof (cases fmt2)
        case Nil
        with True d Inr x show ?thesis by (simp add: fmt_item_def)
      next
        case (Cons cv fmt3)
        with True d Inr x conv [of cv args2 s] show ?thesis
          by (cases "fmt_convert fp cap cv args2 s out") (auto simp: fmt_item_def)
      qed
    qed
  next
    case False
    with assms show ?thesis by (simp add: fmt_item_def put_def)
  qed
qed

lemma vslprintf_loop_within: "length out \<le> cap \<Longrightarrow> writes_within cap out (vslprintf_loop fp cap fmt args out)"
proof (induction fp cap fmt args out rule: vslprintf_loop.induct)
  case (2 fp cap c fmt args out)
  show ?case
  proof (cases "c \<noteq> 0 \<and> length out < cap")
    case True
    then have item: "case fmt_item fp cap c fmt args out of
        Inl e \<Rightarrow> e \<noteq> Overrun | Inr (fmt', args', out') \<Rightarrow> writes_within cap out (Inr out')"
      by (intro fmt_item_within) simp
    show ?thesis
    proof (cases "fmt_item fp cap c fmt args out")
      case (Inl e)
      with True item show ?thesis by simp
    next
      case (Inr x)
      obtain fmt' args' out' where x: "x = (fmt', args', out')" by (metis prod_cases3)
      with item Inr obtain w where w: "out' = out @ w" "length out' \<le> cap" by auto
      with "2.IH" [OF True Inr, of fmt' "(args', out')" args' out'] x
      have "writes_within cap out' (vslprintf_loop fp cap fmt' args' out')" by simp
      with True Inr x w show ?thesis
        by (cases "vslprintf_loop fp cap fmt' args' out'") auto
    qed
  next
    case False
    with "2.prems" show ?thesis by auto
  qed
qed simp

text \<open>
  C32: the formatter never writes at or behind \<^verbatim>\<open>last\<close>, for every format string, every list of
  arguments and every floating point unit: there is no write without room, the internal buffer of
  the digits included, and the text produced is no longer than the destination.
\<close>

theorem vslprintf_within:
  "case ngx_vslprintf fp cap fmt args of Inl e \<Rightarrow> e \<noteq> Overrun | Inr out \<Rightarrow> length out \<le> cap"
  using vslprintf_loop_within [of "[]" cap fp fmt args]
  by (auto simp: ngx_vslprintf_def writes_within_def split: sum.splits)

section \<open>Printing and reading numbers\<close>

lemma numeral_value_append:
  "numeral_value base dig (xs @ ys) v = Option.bind (numeral_value base dig xs v) (numeral_value base dig ys)"
  by (induction xs arbitrary: v) (auto split: option.splits)

lemma dec_digit_of:
  assumes "8 \<le> LENGTH('w::len)"
  shows "dec_digit (ucast (n mod 10 + 48 :: 'w word)) = Some (uint n mod 10)"
proof -
  have "(2::nat) ^ 8 \<le> 2 ^ LENGTH('w)" using assms by (intro power_increasing) auto
  then have small: "(58::nat) < 2 ^ LENGTH('w)" "unat (10 :: 'w word) = 10" "unat (48 :: 'w word) = 48"
    by (simp_all add: unat_of_nat take_bit_nat_eq_self)
  have "unat (n mod 10) = unat n mod 10" unfolding unat_mod small(2) ..
  then have "unat (n mod 10 + 48) = unat n mod 10 + 48"
    using small by (subst unat_plus_if') (auto simp: not_less intro: order.trans)
  then have u: "unat (ucast (n mod 10 + 48 :: 'w word) :: u_char) = unat n mod 10 + 48"
    by (simp add: unsigned_ucast_eq take_bit_nat_eq_self)
  then have "uint (ucast (n mod 10 + 48 :: 'w word) :: u_char) = uint n mod 10 + 48"
    by (metis of_nat_add of_nat_mod of_nat_numeral uint_nat)
  then show ?thesis by (simp add: dec_digit_def is_digit_uint)
qed

lemma dec_digits_value:
  assumes "8 \<le> LENGTH('w::len)"
  shows "dec_digits p (n :: 'w word) temp = Inr ds \<Longrightarrow>
    \<exists>new. ds = new @ temp \<and> new \<noteq> [] \<and> numeral_value 10 dec_digit new 0 = Some (uint n)"
proof (induction p arbitrary: n temp)
  case (Suc p)
  have "(2::nat) ^ 8 \<le> 2 ^ LENGTH('w)" using assms by (intro power_increasing) auto
  then have ten: "uint (10 :: 'w word) = 10" by (simp add: uint_nat unat_of_nat take_bit_nat_eq_self)
  have div: "uint (n div 10) = uint n div 10" unfolding uint_div ten ..
  let ?c = "ucast (n mod 10 + 48) :: u_char"
  note c = dec_digit_of [OF assms, of n]
  show ?case
  proof (cases "n div 10 = 0")
    case True
    with Suc.prems have ds: "ds = [?c] @ temp" by (simp add: Let_def)
    from True div have "uint n div 10 = 0" by simp
    then have "uint n mod 10 = uint n" by (metis add_0 mult_zero_right mult_div_mod_eq)
    with ds c show ?thesis by (intro exI [of _ "[?c]"]) simp
  next
    case False
    with Suc.prems Suc.IH [of "n div 10" "?c # temp"] obtain new where
      new: "ds = new @ ?c # temp" "numeral_value 10 dec_digit new 0 = Some (uint n div 10)"
      by (auto simp: Let_def div)
    then show ?thesis using c by (intro exI [of _ "new @ [?c]"]) (simp add: numeral_value_append)
  qed
qed simp

lemma hex_table:
  "k < 16 \<Longrightarrow> hex_digit (hex_lower ! k) = Some (int k)" "k < 16 \<Longrightarrow> hex_digit (HEX_upper ! k) = Some (int k)"
proof -
  have "\<forall>k\<in>{0..<16}. hex_digit (hex_lower ! k) = Some (int k) \<and> hex_digit (HEX_upper ! k) = Some (int k)"
    by code_simp
  then show "k < 16 \<Longrightarrow> hex_digit (hex_lower ! k) = Some (int k)"
    "k < 16 \<Longrightarrow> hex_digit (HEX_upper ! k) = Some (int k)" by auto
qed

lemma nibble: "unat (ucast (n AND 0xf :: 64 word) :: 32 word) = unat n mod 16"
proof -
  have "n AND 0xf = take_bit 4 n" using take_bit_eq_mask [of 4 n] by (simp add: mask_eq_decr_exp)
  then have "unat (n AND 0xf) = take_bit 4 (unat n)" by (simp only: unsigned_take_bit_eq)
  then have "unat (n AND 0xf) = unat n mod 16" by (simp add: take_bit_eq_mod)
  moreover have "unat n mod 16 < 2 ^ 32" by (rule order.strict_trans [OF mod_less_divisor]) simp_all
  ultimately show ?thesis by (simp add: unsigned_ucast_eq take_bit_nat_eq_self)
qed

lemma hex_digits_value:
  assumes "\<And>k. k < 16 \<Longrightarrow> hex_digit (tab ! k) = Some (int k)"
  shows "hex_digits tab p n temp = Inr ds \<Longrightarrow>
    \<exists>new. ds = new @ temp \<and> new \<noteq> [] \<and> numeral_value 16 hex_digit new 0 = Some (uint n)"
proof (induction p arbitrary: n temp)
  case (Suc p)
  let ?c = "tab ! (unat n mod 16)"
  have c: "hex_digit ?c = Some (uint n mod 16)" using assms [of "unat n mod 16"] by (metis mod_less_divisor of_nat_mod of_nat_numeral uint_nat zero_less_numeral)
  have "drop_bit 4 n = n div 16" by (simp add: drop_bit_eq_div)
  then have div: "uint (drop_bit 4 n) = uint n div 16" by (simp only: uint_div) simp
  show ?case
  proof (cases "drop_bit 4 n = 0")
    case True
    with Suc.prems have ds: "ds = [?c] @ temp" by (simp add: Let_def nibble)
    from True div have "uint n div 16 = 0" by simp
    then have "uint n mod 16 = uint n" by (metis add_0 mult_zero_right mult_div_mod_eq)
    with ds c show ?thesis by (intro exI [of _ "[?c]"]) simp
  next
    case False
    with Suc.prems Suc.IH [of "drop_bit 4 n" "?c # temp"] obtain new where
      new: "ds = new @ ?c # temp" "numeral_value 16 hex_digit new 0 = Some (uint n div 16)"
      by (auto simp: Let_def nibble div)
    then show ?thesis using c by (intro exI [of _ "new @ [?c]"]) (simp add: numeral_value_append)
  qed
qed simp

lemma dec_digits_length: "dec_digits p n temp = Inr ds \<Longrightarrow> length ds \<le> p + length temp"
  by (induction p n temp rule: dec_digits.induct) (auto simp: Let_def split: if_splits)

lemma hex_digits_length: "hex_digits tab p n temp = Inr ds \<Longrightarrow> length ds \<le> p + length temp"
  by (induction tab p n temp rule: hex_digits.induct) (auto simp: Let_def split: if_splits)

lemma sprintf_num_plain:
  assumes "20 \<le> cap" "sprintf_temp ui64 hexadecimal = Inr p" "length p \<le> 20"
  shows "ngx_sprintf_num cap [] ui64 zero hexadecimal 0 = Inr p"
  using assms by (simp add: ngx_sprintf_num_def pad_loop.simps)

lemma sprintf_dec:
  assumes "20 \<le> cap"
  obtains ds where "ngx_sprintf_num cap [] n zero 0 0 = Inr ds" "ds \<noteq> []"
    "numeral_value 10 dec_digit ds 0 = Some (uint n)"
proof -
  obtain ds where ds: "sprintf_temp n 0 = Inr ds" using sprintf_temp_fits by blast
  have val: "ds \<noteq> [] \<and> numeral_value 10 dec_digit ds 0 = Some (uint n) \<and> length ds \<le> 20"
  proof (cases "n \<le> ucast NGX_MAX_UINT32_VALUE")
    case True
    with ds have d: "dec_digits 20 (ucast n :: 32 word) [] = Inr ds"
      unfolding sprintf_temp_def by (simp del: dec_digits.simps)
    from True have "uint n < 2 ^ 32" by (simp add: word_le_def)
    then have "uint (ucast n :: 32 word) = uint n" by (simp add: unsigned_ucast_eq take_bit_int_eq_self)
    with dec_digits_value [OF _ d] dec_digits_length [OF d] show ?thesis by auto
  next
    case False
    with ds have d: "dec_digits 20 n [] = Inr ds" unfolding sprintf_temp_def by (simp del: dec_digits.simps)
    from dec_digits_value [OF _ d] dec_digits_length [OF d] show ?thesis by auto
  qed
  with sprintf_num_plain [OF assms ds] that show thesis by blast
qed

lemma sprintf_hex:
  assumes "20 \<le> cap" "h \<in> {1, 2}"
  obtains ds where "ngx_sprintf_num cap [] n zero h 0 = Inr ds" "ds \<noteq> []"
    "numeral_value 16 hex_digit ds 0 = Some (uint n)"
proof -
  obtain ds where ds: "sprintf_temp n h = Inr ds" using sprintf_temp_fits by blast
  then obtain tab where tab: "tab \<in> {hex_lower, HEX_upper}" "hex_digits tab 20 n [] = Inr ds"
    using assms(2) unfolding sprintf_temp_def by (auto simp del: hex_digits.simps split: if_splits)
  then have "\<And>k. k < 16 \<Longrightarrow> hex_digit (tab ! k) = Some (int k)" using hex_table by auto
  from hex_digits_value [OF this tab(2)] hex_digits_length [OF tab(2)] sprintf_num_plain [OF assms(1) ds] that
  show thesis by auto
qed

text \<open>The formats used below, run by the interpreter loop.\<close>

lemma vslprintf_formats:
  assumes "0 < cap"
  shows "ngx_sprintf_num cap [] n ch_sp 0 0 = Inr ds \<Longrightarrow> ngx_vslprintf fp cap (str ''%uL'' @ [0]) [Va_64 n] = Inr ds"
    and "ngx_sprintf_num cap [] n ch_sp 1 0 = Inr ds \<Longrightarrow> ngx_vslprintf fp cap (str ''%xL'' @ [0]) [Va_64 n] = Inr ds"
    and "ngx_sprintf_num cap [] n ch_sp 2 0 = Inr ds \<Longrightarrow> ngx_vslprintf fp cap (str ''%XL'' @ [0]) [Va_64 n] = Inr ds"
  using assms
  by (simp_all add: ngx_vslprintf_def fmt_item_def fmt_start_def fmt_convert_def fmt_int_def fmt_unsigned_def Let_def)

text \<open>
  Printing and reading a number agree. The formats \<^verbatim>\<open>%uL\<close>, \<^verbatim>\<open>%xL\<close> and \<^verbatim>\<open>%XL\<close>
  write any 64-bit number into 20 bytes, and the readers \<^verbatim>\<open>ngx_atoof\<close> and \<^verbatim>\<open>ngx_hextoi\<close>
  give it back, or report an error when it does not fit their signed result.
\<close>

theorem sprintf_read_back:
  assumes "20 \<le> cap"
  shows "\<exists>ds xs Xs. ngx_vslprintf fp cap (str ''%uL'' @ [0]) [Va_64 n] = Inr ds
    \<and> ngx_vslprintf fp cap (str ''%xL'' @ [0]) [Va_64 n] = Inr xs
    \<and> ngx_vslprintf fp cap (str ''%XL'' @ [0]) [Va_64 n] = Inr Xs
    \<and> ngx_atoof ds = Some (in_range NGX_MAX_OFF_T_VALUE (Some (uint n)))
    \<and> ngx_hextoi xs = Some (in_range NGX_MAX_INT_T_VALUE (Some (uint n)))
    \<and> ngx_hextoi Xs = Some (in_range NGX_MAX_INT_T_VALUE (Some (uint n)))"
proof -
  from assms have cap: "0 < cap" by simp
  obtain ds where ds: "ngx_sprintf_num cap [] n ch_sp 0 0 = Inr ds" "ds \<noteq> []"
    "numeral_value 10 dec_digit ds 0 = Some (uint n)" by (rule sprintf_dec [OF assms])
  obtain xs where xs: "ngx_sprintf_num cap [] n ch_sp 1 0 = Inr xs" "xs \<noteq> []"
    "numeral_value 16 hex_digit xs 0 = Some (uint n)" by (rule sprintf_hex [OF assms, of 1]) auto
  obtain Xs where Xs: "ngx_sprintf_num cap [] n ch_sp 2 0 = Inr Xs" "Xs \<noteq> []"
    "numeral_value 16 hex_digit Xs 0 = Some (uint n)" by (rule sprintf_hex [OF assms, of 2]) auto
  have "ngx_atoof ds = Some (in_range NGX_MAX_OFF_T_VALUE (Some (uint n)))"
    using dec.reads [of ds] ds by (simp add: ngx_atoof_def read_numeral_def)
  moreover have "ngx_hextoi xs = Some (in_range NGX_MAX_INT_T_VALUE (Some (uint n)))"
    "ngx_hextoi Xs = Some (in_range NGX_MAX_INT_T_VALUE (Some (uint n)))"
    using hex.reads [of xs] hex.reads [of Xs] xs Xs by (simp_all add: ngx_hextoi_def read_numeral_def)
  ultimately show ?thesis
    using vslprintf_formats(1) [OF cap ds(1), of fp] vslprintf_formats(2) [OF cap xs(1), of fp]
      vslprintf_formats(3) [OF cap Xs(1), of fp] by blast
qed

definition no_fpu :: "unit fpu" where
  "no_fpu = \<lparr>f_negative = (\<lambda>_. False), f_minus = id, f_trunc = (\<lambda>_. 0), f_frac = (\<lambda>_ _ _. 0)\<rparr>"

theorem sprintf_read_back_witness:
  "\<exists>ds. ngx_vslprintf no_fpu 20 (str ''%uL'' @ [0]) [Va_64 18446744073709551615] = Inr ds
    \<and> ngx_atoof ds = Some NGX_ERROR"
  using sprintf_read_back [of 20 no_fpu 18446744073709551615]
  by (auto simp: in_range_def simp del: str_simps)

end
