(* ===== verification/Ngx_Base64.thy ===== *)
theory Ngx_Base64
  imports Ngx_Prelude
begin

text \<open>
  Base64, from \<^verbatim>\<open>src/reference/nginx-master/src/core/ngx_string.c\<close>:
  \<^verbatim>\<open>ngx_encode_base64\<close>, \<^verbatim>\<open>ngx_encode_base64url\<close>, \<^verbatim>\<open>ngx_decode_base64\<close>,
  \<^verbatim>\<open>ngx_decode_base64url\<close> and the two internal functions.

  A string argument is the list of its bytes, the result is the list of the bytes written to
  \<^verbatim>\<open>dst->data\<close> (its length is \<^verbatim>\<open>dst->len\<close>), or \<open>None\<close> where the C code returns
  \<^verbatim>\<open>NGX_ERROR\<close>. The C arithmetic is on promoted \<^verbatim>\<open>int\<close>s and cast back to
  \<^verbatim>\<open>u_char\<close>; on the bytes at hand this is 8-bit arithmetic.
\<close>

section \<open>The functions\<close>

text \<open>\<^verbatim>\<open>basis64\<close> of the encoders.\<close>

definition basis64_enc :: "u_char list" where
  "basis64_enc = str ''ABCDEFGHIJKLMNOPQRSTUVWXYZabcdefghijklmnopqrstuvwxyz0123456789+/''"

definition basis64url_enc :: "u_char list" where
  "basis64url_enc = str ''ABCDEFGHIJKLMNOPQRSTUVWXYZabcdefghijklmnopqrstuvwxyz0123456789-_''"

fun ngx_encode_base64_internal :: "u_char list \<Rightarrow> bool \<Rightarrow> u_char list \<Rightarrow> u_char list" where
  "ngx_encode_base64_internal basis padding (s0 # s1 # s2 # s) =
     basis ! unat (drop_bit 2 s0 AND 0x3f)
     # basis ! unat (push_bit 4 (s0 AND 3) OR drop_bit 4 s1)
     # basis ! unat (push_bit 2 (s1 AND 0x0f) OR drop_bit 6 s2)
     # basis ! unat (s2 AND 0x3f)
     # ngx_encode_base64_internal basis padding s"
| "ngx_encode_base64_internal basis padding [s0, s1] =
     [basis ! unat (drop_bit 2 s0 AND 0x3f),
      basis ! unat (push_bit 4 (s0 AND 3) OR drop_bit 4 s1),
      basis ! unat (push_bit 2 (s1 AND 0x0f))]
     @ (if padding then [ch_eq] else [])"
| "ngx_encode_base64_internal basis padding [s0] =
     [basis ! unat (drop_bit 2 s0 AND 0x3f), basis ! unat (push_bit 4 (s0 AND 3))]
     @ (if padding then [ch_eq] else []) @ (if padding then [ch_eq] else [])"
| "ngx_encode_base64_internal basis padding [] = []"

definition ngx_encode_base64 :: "u_char list \<Rightarrow> u_char list" where
  "ngx_encode_base64 src = ngx_encode_base64_internal basis64_enc True src"

definition ngx_encode_base64url :: "u_char list \<Rightarrow> u_char list" where
  "ngx_encode_base64url src = ngx_encode_base64_internal basis64url_enc False src"

text \<open>\<^verbatim>\<open>basis64\<close> of the decoders.\<close>

definition basis64_dec :: "u_char list" where
  "basis64_dec =
    [77, 77, 77, 77, 77, 77, 77, 77, 77, 77, 77, 77, 77, 77, 77, 77,
     77, 77, 77, 77, 77, 77, 77, 77, 77, 77, 77, 77, 77, 77, 77, 77,
     77, 77, 77, 77, 77, 77, 77, 77, 77, 77, 77, 62, 77, 77, 77, 63,
     52, 53, 54, 55, 56, 57, 58, 59, 60, 61, 77, 77, 77, 77, 77, 77,
     77, 0, 1, 2, 3, 4, 5, 6, 7, 8, 9, 10, 11, 12, 13, 14,
     15, 16, 17, 18, 19, 20, 21, 22, 23, 24, 25, 77, 77, 77, 77, 77,
     77, 26, 27, 28, 29, 30, 31, 32, 33, 34, 35, 36, 37, 38, 39, 40,
     41, 42, 43, 44, 45, 46, 47, 48, 49, 50, 51, 77, 77, 77, 77, 77,
     77, 77, 77, 77, 77, 77, 77, 77, 77, 77, 77, 77, 77, 77, 77, 77,
     77, 77, 77, 77, 77, 77, 77, 77, 77, 77, 77, 77, 77, 77, 77, 77,
     77, 77, 77, 77, 77, 77, 77, 77, 77, 77, 77, 77, 77, 77, 77, 77,
     77, 77, 77, 77, 77, 77, 77, 77, 77, 77, 77, 77, 77, 77, 77, 77,
     77, 77, 77, 77, 77, 77, 77, 77, 77, 77, 77, 77, 77, 77, 77, 77,
     77, 77, 77, 77, 77, 77, 77, 77, 77, 77, 77, 77, 77, 77, 77, 77,
     77, 77, 77, 77, 77, 77, 77, 77, 77, 77, 77, 77, 77, 77, 77, 77,
     77, 77, 77, 77, 77, 77, 77, 77, 77, 77, 77, 77, 77, 77, 77, 77]"

definition basis64url_dec :: "u_char list" where
  "basis64url_dec =
    [77, 77, 77, 77, 77, 77, 77, 77, 77, 77, 77, 77, 77, 77, 77, 77,
     77, 77, 77, 77, 77, 77, 77, 77, 77, 77, 77, 77, 77, 77, 77, 77,
     77, 77, 77, 77, 77, 77, 77, 77, 77, 77, 77, 77, 77, 62, 77, 77,
     52, 53, 54, 55, 56, 57, 58, 59, 60, 61, 77, 77, 77, 77, 77, 77,
     77, 0, 1, 2, 3, 4, 5, 6, 7, 8, 9, 10, 11, 12, 13, 14,
     15, 16, 17, 18, 19, 20, 21, 22, 23, 24, 25, 77, 77, 77, 77, 63,
     77, 26, 27, 28, 29, 30, 31, 32, 33, 34, 35, 36, 37, 38, 39, 40,
     41, 42, 43, 44, 45, 46, 47, 48, 49, 50, 51, 77, 77, 77, 77, 77,
     77, 77, 77, 77, 77, 77, 77, 77, 77, 77, 77, 77, 77, 77, 77, 77,
     77, 77, 77, 77, 77, 77, 77, 77, 77, 77, 77, 77, 77, 77, 77, 77,
     77, 77, 77, 77, 77, 77, 77, 77, 77, 77, 77, 77, 77, 77, 77, 77,
     77, 77, 77, 77, 77, 77, 77, 77, 77, 77, 77, 77, 77, 77, 77, 77,
     77, 77, 77, 77, 77, 77, 77, 77, 77, 77, 77, 77, 77, 77, 77, 77,
     77, 77, 77, 77, 77, 77, 77, 77, 77, 77, 77, 77, 77, 77, 77, 77,
     77, 77, 77, 77, 77, 77, 77, 77, 77, 77, 77, 77, 77, 77, 77, 77,
     77, 77, 77, 77, 77, 77, 77, 77, 77, 77, 77, 77, 77, 77, 77, 77]"

text \<open>The first loop: the number of bytes before the padding, or the error.\<close>

fun base64_length :: "u_char list \<Rightarrow> u_char list \<Rightarrow> nat option" where
  "base64_length basis [] = Some 0"
| "base64_length basis (c # src) =
     (if c = ch_eq then Some 0
      else if basis ! unat c = 77 then None
      else map_option Suc (base64_length basis src))"

text \<open>The second loop and the tail; \<open>s\<close> are the \<^verbatim>\<open>len\<close> bytes that are left.\<close>

fun base64_groups :: "u_char list \<Rightarrow> u_char list \<Rightarrow> u_char list" where
  "base64_groups basis (s0 # s1 # s2 # s3 # s) =
     (push_bit 2 (basis ! unat s0) OR drop_bit 4 (basis ! unat s1))
     # (push_bit 4 (basis ! unat s1) OR drop_bit 2 (basis ! unat s2))
     # (push_bit 6 (basis ! unat s2) OR basis ! unat s3)
     # base64_groups basis s"
| "base64_groups basis s =
     (if length s > 1
      then [push_bit 2 (basis ! unat (s ! 0)) OR drop_bit 4 (basis ! unat (s ! 1))] else [])
     @ (if length s > 2
        then [push_bit 4 (basis ! unat (s ! 1)) OR drop_bit 2 (basis ! unat (s ! 2))] else [])"

definition ngx_decode_base64_internal :: "u_char list \<Rightarrow> u_char list \<Rightarrow> u_char list option" where
  "ngx_decode_base64_internal basis src =
     (case base64_length basis src of
        None \<Rightarrow> None
      | Some len \<Rightarrow> if len mod 4 = 1 then None else Some (base64_groups basis (take len src)))"

definition ngx_decode_base64 :: "u_char list \<Rightarrow> u_char list option" where
  "ngx_decode_base64 src = ngx_decode_base64_internal basis64_dec src"

definition ngx_decode_base64url :: "u_char list \<Rightarrow> u_char list option" where
  "ngx_decode_base64url src = ngx_decode_base64_internal basis64url_dec src"

text \<open>The sizes callers allocate: \<^verbatim>\<open>ngx_base64_encoded_length\<close>, \<^verbatim>\<open>ngx_base64_decoded_length\<close>.\<close>

definition ngx_base64_encoded_length :: "nat \<Rightarrow> nat" where
  "ngx_base64_encoded_length len = ((len + 2) div 3) * 4"

definition ngx_base64_decoded_length :: "nat \<Rightarrow> nat" where
  "ngx_base64_decoded_length len = ((len + 3) div 4) * 3"

section \<open>Alphabets\<close>

text \<open>A pair of tables that belong together: the decoder's table inverts the encoder's on the
  sixty-four digits, and the padding byte is not a digit.\<close>

locale base64_alphabet =
  fixes enc dec :: "u_char list"
  assumes dec_enc: "x < 64 \<Longrightarrow> dec ! unat (enc ! unat (x :: u_char)) = x"
    and enc_not_pad: "x < 64 \<Longrightarrow> enc ! unat (x :: u_char) \<noteq> ch_eq"
begin

lemma digit_ok: "x < 64 \<Longrightarrow> dec ! unat (enc ! unat (x :: u_char)) \<noteq> 77"
  by (frule dec_enc) auto

end

text \<open>The digits that the encoder forms are below 64, and regrouping them restores the bytes.\<close>

lemma and_masks: "a AND 0x3f = take_bit 6 a" "a AND 0x0f = take_bit 4 a" "a AND 3 = take_bit 2 (a :: u_char)"
  by (simp_all add: take_bit_eq_mask mask_eq_decr_exp)

lemma below_64: "drop_bit 6 x = 0 \<Longrightarrow> x < (64 :: u_char)"
proof -
  have "drop_bit 6 x = 0 \<longrightarrow> x < (64 :: u_char)" by (rule byte_all) code_simp
  then show "drop_bit 6 x = 0 \<Longrightarrow> x < 64" ..
qed

lemma sextet_less:
  fixes a b :: u_char
  shows "drop_bit 2 a AND 0x3f < 64" "a AND 0x3f < 64"
    "push_bit 4 (a AND 3) OR drop_bit 4 b < 64" "push_bit 2 (a AND 0x0f) OR drop_bit 6 b < 64"
    "push_bit 4 (a AND 3) < 64" "push_bit 2 (a AND 0x0f) < 64"
  unfolding and_masks
  by (rule below_64, rule bit_word_eqI, auto simp: bit_simps dest: bit_imp_le_length)+

lemma Suc_Suc_minus_2: "2 \<le> n \<Longrightarrow> Suc (Suc (n - 2)) = n"
  by simp

lemma regroup:
  fixes a b c :: u_char
  shows "push_bit 2 (drop_bit 2 a AND 0x3f) OR drop_bit 4 (push_bit 4 (a AND 3) OR drop_bit 4 b) = a"
    "push_bit 4 (push_bit 4 (a AND 3) OR drop_bit 4 b) OR drop_bit 2 (push_bit 2 (b AND 0x0f) OR drop_bit 6 c) = b"
    "push_bit 6 (push_bit 2 (b AND 0x0f) OR drop_bit 6 c) OR (c AND 0x3f) = c"
    "push_bit 2 (drop_bit 2 a AND 0x3f) OR drop_bit 4 (push_bit 4 (a AND 3)) = a"
    "push_bit 4 (push_bit 4 (a AND 3) OR drop_bit 4 b) OR drop_bit 2 (push_bit 2 (b AND 0x0f)) = b"
  unfolding and_masks
  by (rule bit_word_eqI, auto simp: bit_simps Suc_Suc_minus_2 not_less dest: bit_imp_le_length,
      (rule ccontr, simp add: not_less)?)+

section \<open>Decoding what was encoded\<close>

text \<open>Induction in steps of three bytes.\<close>

lemma triples_induct [case_names More Two One Nil]:
  assumes "\<And>a b c s. P s \<Longrightarrow> P (a # b # c # s :: u_char list)" "\<And>a b. P [a, b]" "\<And>a. P [a]" "P []"
  shows "P s"
  using assms by (rule ngx_encode_base64_internal.induct [of "\<lambda>_ _. P"])

text \<open>The three shapes of a group as digits.\<close>

lemma encode_more:
  obtains x y z w :: u_char where "x < 64" "y < 64" "z < 64" "w < 64"
    "push_bit 2 x OR drop_bit 4 y = a" "push_bit 4 y OR drop_bit 2 z = b" "push_bit 6 z OR w = c"
    "\<And>enc padding s. ngx_encode_base64_internal enc padding (a # b # c # s) =
      [enc ! unat x, enc ! unat y, enc ! unat z, enc ! unat w] @ ngx_encode_base64_internal enc padding s"
  using that [OF sextet_less(1,3,4,2) regroup(1-3)] by simp

lemma encode_two:
  obtains x y z :: u_char where "x < 64" "y < 64" "z < 64"
    "push_bit 2 x OR drop_bit 4 y = a" "push_bit 4 y OR drop_bit 2 z = b"
    "\<And>enc padding. ngx_encode_base64_internal enc padding [a, b] =
      [enc ! unat x, enc ! unat y, enc ! unat z] @ (if padding then [ch_eq] else [])"
  using that [OF sextet_less(1,3,6) regroup(1,5)] by simp

lemma encode_one:
  obtains x y :: u_char where "x < 64" "y < 64" "push_bit 2 x OR drop_bit 4 y = a"
    "\<And>enc padding. ngx_encode_base64_internal enc padding [a] =
      [enc ! unat x, enc ! unat y] @ (if padding then [ch_eq, ch_eq] else [])"
  using that [OF sextet_less(1,5) regroup(4)] by simp

context base64_alphabet
begin

lemma scan_digit:
  "x < 64 \<Longrightarrow> base64_length dec (enc ! unat (x :: u_char) # s) = map_option Suc (base64_length dec s)"
  by (simp add: digit_ok enc_not_pad)

lemma encode_scan:
  "\<exists>body tail. ngx_encode_base64_internal enc padding s = body @ tail
    \<and> base64_length dec (body @ tail) = Some (length body) \<and> length body mod 4 \<noteq> 1
    \<and> base64_groups dec body = s"
proof (induction s rule: triples_induct)
  case (More a b c s)
  then obtain body tail where IH: "ngx_encode_base64_internal enc padding s = body @ tail"
    "base64_length dec (body @ tail) = Some (length body)" "length body mod 4 \<noteq> 1" "base64_groups dec body = s"
    by blast
  obtain x y z w :: u_char where d: "x < 64" "y < 64" "z < 64" "w < 64"
    "push_bit 2 x OR drop_bit 4 y = a" "push_bit 4 y OR drop_bit 2 z = b" "push_bit 6 z OR w = c"
    "\<And>s. ngx_encode_base64_internal enc padding (a # b # c # s) =
      [enc ! unat x, enc ! unat y, enc ! unat z, enc ! unat w] @ ngx_encode_base64_internal enc padding s"
    using encode_more [of a b c] by metis
  have m: "length ([enc ! unat x, enc ! unat y, enc ! unat z, enc ! unat w] @ body) mod 4 = length body mod 4"
    by simp
  show ?case
    by (rule exI [of _ "[enc ! unat x, enc ! unat y, enc ! unat z, enc ! unat w] @ body"], rule exI [of _ tail])
      (use d m IH in \<open>simp add: scan_digit dec_enc del: base64_length.simps(2) ngx_encode_base64_internal.simps\<close>)
next
  case (Two a b)
  obtain x y z :: u_char where d: "x < 64" "y < 64" "z < 64"
    "push_bit 2 x OR drop_bit 4 y = a" "push_bit 4 y OR drop_bit 2 z = b"
    "ngx_encode_base64_internal enc padding [a, b] =
      [enc ! unat x, enc ! unat y, enc ! unat z] @ (if padding then [ch_eq] else [])"
    using encode_two [of a b] by metis
  show ?case
    by (rule exI [of _ "[enc ! unat x, enc ! unat y, enc ! unat z]"],
        rule exI [of _ "if padding then [ch_eq] else []"])
      (use d in \<open>simp add: scan_digit dec_enc base64_length.simps(2) [of _ ch_eq]
        del: base64_length.simps(2) ngx_encode_base64_internal.simps\<close>)
next
  case (One a)
  obtain x y :: u_char where d: "x < 64" "y < 64" "push_bit 2 x OR drop_bit 4 y = a"
    "ngx_encode_base64_internal enc padding [a] =
      [enc ! unat x, enc ! unat y] @ (if padding then [ch_eq, ch_eq] else [])"
    using encode_one [of a] by metis
  show ?case
    by (rule exI [of _ "[enc ! unat x, enc ! unat y]"],
        rule exI [of _ "if padding then [ch_eq, ch_eq] else []"])
      (use d in \<open>simp add: scan_digit dec_enc base64_length.simps(2) [of _ ch_eq]
        del: base64_length.simps(2) ngx_encode_base64_internal.simps\<close>)
next
  case Nil
  show ?case by simp
qed

lemma decode_encode: "ngx_decode_base64_internal dec (ngx_encode_base64_internal enc padding s) = Some s"
proof -
  obtain body tail where "ngx_encode_base64_internal enc padding s = body @ tail"
    "base64_length dec (body @ tail) = Some (length body)" "length body mod 4 \<noteq> 1" "base64_groups dec body = s"
    using encode_scan by blast
  then show ?thesis by (simp add: ngx_decode_base64_internal_def)
qed

end

text \<open>The tables of the source are alphabets.\<close>

lemma sextet_all:
  assumes "list_all (\<lambda>n. P (word_of_int n)) [0..63]" "x < (64 :: u_char)"
  shows "P x"
proof -
  from assms(2) have "uint x \<in> {0..63}" by (simp add: word_less_def)
  moreover from assms(1) have "\<forall>n\<in>{0..63}. P (word_of_int n)" by (simp add: list_all_iff)
  ultimately have "P (word_of_int (uint x))" by (rule bspec [rotated])
  then show ?thesis by simp
qed

interpretation b64: base64_alphabet basis64_enc basis64_dec
proof
  fix x :: u_char
  assume "x < 64"
  then show "basis64_dec ! unat (basis64_enc ! unat x) = x" by (rule sextet_all [rotated]) code_simp
next
  fix x :: u_char
  assume "x < 64"
  then show "basis64_enc ! unat x \<noteq> ch_eq" by (rule sextet_all [rotated]) code_simp
qed

interpretation b64url: base64_alphabet basis64url_enc basis64url_dec
proof
  fix x :: u_char
  assume "x < 64"
  then show "basis64url_dec ! unat (basis64url_enc ! unat x) = x" by (rule sextet_all [rotated]) code_simp
next
  fix x :: u_char
  assume "x < 64"
  then show "basis64url_enc ! unat x \<noteq> ch_eq" by (rule sextet_all [rotated]) code_simp
qed

text \<open>
  C35: decoding what was encoded restores every byte string, in the standard alphabet with padding and
  in the URL-safe alphabet without.
\<close>

theorem base64_roundtrip:
  "ngx_decode_base64 (ngx_encode_base64 s) = Some s \<and> ngx_decode_base64url (ngx_encode_base64url s) = Some s"
  unfolding ngx_decode_base64_def ngx_encode_base64_def ngx_decode_base64url_def ngx_encode_base64url_def
  by (simp add: b64.decode_encode b64url.decode_encode)

section \<open>Sizes and errors\<close>

lemma encode_length:
  "length (ngx_encode_base64_internal enc True s) = ngx_base64_encoded_length (length s)"
  "length (ngx_encode_base64_internal enc False s) = (4 * length s + 2) div 3"
proof (induction s rule: triples_induct)
  case (More a b c s)
  have "(n + 3 + 2) div 3 = (n + 2) div 3 + 1" "(4 * (n + 3) + 2) div 3 = (4 * n + 2) div 3 + 4" for n :: nat
    by presburger+
  from this [of "length s"] have "(length (a # b # c # s) + 2) div 3 = (length s + 2) div 3 + 1"
    "(4 * length (a # b # c # s) + 2) div 3 = (4 * length s + 2) div 3 + 4" by (simp_all add: algebra_simps)
  with More show "length (ngx_encode_base64_internal enc True (a # b # c # s)) =
      ngx_base64_encoded_length (length (a # b # c # s))"
    "length (ngx_encode_base64_internal enc False (a # b # c # s)) = (4 * length (a # b # c # s) + 2) div 3"
    by (simp_all add: ngx_base64_encoded_length_def)
qed (simp_all add: ngx_base64_encoded_length_def)

text \<open>The digits of the two alphabets.\<close>

definition is_b64 :: "u_char \<Rightarrow> bool" where
  "is_b64 c \<longleftrightarrow> (ch_A \<le> c \<and> c \<le> ch_Z) \<or> (ch_a \<le> c \<and> c \<le> ch_z) \<or> is_digit c \<or> c = ch_plus \<or> c = ch_slash"

definition is_b64url :: "u_char \<Rightarrow> bool" where
  "is_b64url c \<longleftrightarrow> (ch_A \<le> c \<and> c \<le> ch_Z) \<or> (ch_a \<le> c \<and> c \<le> ch_z) \<or> is_digit c \<or> c = ch_dash \<or> c = ch_under"

lemma decoder_tables:
  "basis64_dec ! unat (c :: u_char) = 77 \<longleftrightarrow> \<not> is_b64 c"
  "basis64url_dec ! unat (c :: u_char) = 77 \<longleftrightarrow> \<not> is_b64url c"
  by (rule byte_table [where t = basis64_dec and Q = "\<lambda>c v. v = 77 \<longleftrightarrow> \<not> is_b64 c"], code_simp, code_simp)
    (rule byte_table [where t = basis64url_dec and Q = "\<lambda>c v. v = 77 \<longleftrightarrow> \<not> is_b64url c"], code_simp, code_simp)

text \<open>The part before the padding, and when it is decodable.\<close>

abbreviation unpadded :: "u_char list \<Rightarrow> u_char list" where
  "unpadded s \<equiv> takeWhile (\<lambda>c. c \<noteq> ch_eq) s"

lemma base64_length_unpadded:
  "base64_length basis s =
    (if \<forall>c\<in>set (unpadded s). basis ! unat c \<noteq> 77 then Some (length (unpadded s)) else None)"
  by (induction s) auto

lemma base64_groups_length: "length (base64_groups basis s) = 3 * length s div 4"
  by (induction basis s rule: base64_groups.induct) simp_all

lemma decode_result:
  assumes "\<And>c. basis ! unat (c :: u_char) = 77 \<longleftrightarrow> \<not> digit c"
  shows "case ngx_decode_base64_internal basis s of
      None \<Rightarrow> \<not> (list_all digit (unpadded s) \<and> length (unpadded s) mod 4 \<noteq> 1)
    | Some d \<Rightarrow> list_all digit (unpadded s) \<and> length (unpadded s) mod 4 \<noteq> 1
        \<and> length d = 3 * length (unpadded s) div 4 \<and> length d \<le> ngx_base64_decoded_length (length s)"
proof -
  have ok: "(\<forall>c\<in>set (unpadded s). basis ! unat c \<noteq> 77) \<longleftrightarrow> list_all digit (unpadded s)"
    using assms by (auto simp: list_all_iff)
  have "length (unpadded s) \<le> length s" by (rule length_takeWhile_le)
  then have "3 * length (unpadded s) div 4 \<le> ngx_base64_decoded_length (length s)"
    unfolding ngx_base64_decoded_length_def by linarith
  then show ?thesis
    unfolding ngx_decode_base64_internal_def base64_length_unpadded ok
    by (simp add: base64_groups_length min_absorb2 length_takeWhile_le)
qed

text \<open>
  C36: the decoders refuse exactly the texts with a byte outside the alphabet before the padding and
  those whose number of digits is 1 modulo 4; every other text gives three bytes for four digits,
  and never more than \<^verbatim>\<open>ngx_base64_decoded_length\<close>, the size callers allocate.
\<close>

theorem base64_decode_result:
  "(case ngx_decode_base64 s of
      None \<Rightarrow> \<not> (list_all is_b64 (unpadded s) \<and> length (unpadded s) mod 4 \<noteq> 1)
    | Some d \<Rightarrow> list_all is_b64 (unpadded s) \<and> length (unpadded s) mod 4 \<noteq> 1
        \<and> length d = 3 * length (unpadded s) div 4 \<and> length d \<le> ngx_base64_decoded_length (length s))
   \<and> (case ngx_decode_base64url s of
      None \<Rightarrow> \<not> (list_all is_b64url (unpadded s) \<and> length (unpadded s) mod 4 \<noteq> 1)
    | Some d \<Rightarrow> list_all is_b64url (unpadded s) \<and> length (unpadded s) mod 4 \<noteq> 1
        \<and> length d = 3 * length (unpadded s) div 4 \<and> length d \<le> ngx_base64_decoded_length (length s))"
  unfolding ngx_decode_base64_def ngx_decode_base64url_def
  by (intro conjI decode_result decoder_tables)

text \<open>
  The encoders fill exactly the size callers allocate when they pad, and no more when they do not.
\<close>

lemma base64_encode_size:
  "length (ngx_encode_base64 s) = ngx_base64_encoded_length (length s)
   \<and> length (ngx_encode_base64url s) = (4 * length s + 2) div 3
   \<and> length (ngx_encode_base64url s) \<le> ngx_base64_encoded_length (length s)"
proof -
  have "(4 * length s + 2) div 3 \<le> ngx_base64_encoded_length (length s)"
    unfolding ngx_base64_encoded_length_def by linarith
  then show ?thesis unfolding ngx_encode_base64_def ngx_encode_base64url_def by (simp add: encode_length)
qed

end
