(* ===== verification/Ngx_Escape.thy ===== *)
theory Ngx_Escape
  imports Ngx_Prelude
begin

text \<open>
  Escaping, from \<^verbatim>\<open>src/reference/nginx-master/src/core/ngx_string.c\<close>:
  \<^verbatim>\<open>ngx_escape_uri\<close>, \<^verbatim>\<open>ngx_unescape_uri\<close>, \<^verbatim>\<open>ngx_escape_html\<close> and
  \<^verbatim>\<open>ngx_escape_json\<close>.

  Each escaper has two modes: with \<^verbatim>\<open>dst == NULL\<close> it counts, otherwise it writes. The pair
  \<^verbatim>\<open>(src, size)\<close> is the list of its bytes; \<open>dst\<close> is \<open>None\<close> for \<^verbatim>\<open>NULL\<close> and
  \<open>Some out\<close> for a destination with \<open>out\<close> in front of the pointer; the result is the number
  (\<open>Inl\<close>) or what stands in front of the returned pointer (\<open>Inr\<close>).
\<close>

section \<open>ngx\_escape\_uri\<close>

datatype ngx_escape_type = NGX_ESCAPE_URI | NGX_ESCAPE_ARGS | NGX_ESCAPE_URI_COMPONENT | NGX_ESCAPE_HTML
  | NGX_ESCAPE_REFRESH | NGX_ESCAPE_MEMCACHED | NGX_ESCAPE_MAIL_AUTH

definition esc_uri :: "32 word list" where
  "esc_uri = [0xffffffff, 0xd000002d, 0x50000000, 0xb8000001, 0xffffffff, 0xffffffff, 0xffffffff, 0xffffffff]"

definition esc_args :: "32 word list" where
  "esc_args = [0xffffffff, 0xd800086d, 0x50000000, 0xb8000001, 0xffffffff, 0xffffffff, 0xffffffff, 0xffffffff]"

definition esc_uri_component :: "32 word list" where
  "esc_uri_component =
     [0xffffffff, 0xfc009fff, 0x78000001, 0xb8000001, 0xffffffff, 0xffffffff, 0xffffffff, 0xffffffff]"

definition esc_html :: "32 word list" where
  "esc_html = [0xffffffff, 0x500000ad, 0x50000000, 0xb8000001, 0xffffffff, 0xffffffff, 0xffffffff, 0xffffffff]"

definition esc_refresh :: "32 word list" where
  "esc_refresh = [0xffffffff, 0x50000085, 0x50000000, 0xd8000001, 0xffffffff, 0xffffffff, 0xffffffff, 0xffffffff]"

definition esc_memcached :: "32 word list" where
  "esc_memcached = [0xffffffff, 0x00000021, 0x00000000, 0x00000000, 0x00000000, 0x00000000, 0x00000000, 0x00000000]"

fun esc_map :: "ngx_escape_type \<Rightarrow> 32 word list" where
  "esc_map NGX_ESCAPE_URI = esc_uri"
| "esc_map NGX_ESCAPE_ARGS = esc_args"
| "esc_map NGX_ESCAPE_URI_COMPONENT = esc_uri_component"
| "esc_map NGX_ESCAPE_HTML = esc_html"
| "esc_map NGX_ESCAPE_REFRESH = esc_refresh"
| "esc_map NGX_ESCAPE_MEMCACHED = esc_memcached"
| "esc_map NGX_ESCAPE_MAIL_AUTH = esc_memcached"

definition esc_hex :: "u_char list" where
  "esc_hex = str ''0123456789ABCDEF''"

fun escape_uri_count :: "32 word list \<Rightarrow> u_char list \<Rightarrow> nat" where
  "escape_uri_count escape [] = 0"
| "escape_uri_count escape (c # src) = (if in_bitmap escape c then 1 else 0) + escape_uri_count escape src"

fun escape_uri_copy :: "32 word list \<Rightarrow> u_char list \<Rightarrow> u_char list" where
  "escape_uri_copy escape [] = []"
| "escape_uri_copy escape (c # src) =
     (if in_bitmap escape c
      then ch_percent # esc_hex ! unat (drop_bit 4 c) # esc_hex ! unat (c AND 0xf) # escape_uri_copy escape src
      else c # escape_uri_copy escape src)"

definition ngx_escape_uri ::
  "u_char list option \<Rightarrow> u_char list \<Rightarrow> ngx_escape_type \<Rightarrow> nat + u_char list" where
  "ngx_escape_uri dst src ty =
     (case dst of
        None \<Rightarrow> Inl (escape_uri_count (esc_map ty) src)
      | Some out \<Rightarrow> Inr (out @ escape_uri_copy (esc_map ty) src))"

section \<open>ngx\_unescape\_uri\<close>

abbreviation (input) NGX_UNESCAPE_URI :: ngx_uint_t where "NGX_UNESCAPE_URI \<equiv> 1"
abbreviation (input) NGX_UNESCAPE_REDIRECT :: ngx_uint_t where "NGX_UNESCAPE_REDIRECT \<equiv> 2"

datatype un_state = un_sw_usual | un_sw_quoted | un_sw_quoted_second

text \<open>What one byte does: go on in a state, or \<^verbatim>\<open>goto done\<close>; the list is what is written.\<close>

datatype un_act = Un_next un_state u_char "u_char list" | Un_done "u_char list"

definition un_usual :: "ngx_uint_t \<Rightarrow> u_char \<Rightarrow> u_char \<Rightarrow> un_act" where
  "un_usual ty decoded ch =
     (if ch = ch_qmark \<and> ty AND (NGX_UNESCAPE_URI OR NGX_UNESCAPE_REDIRECT) \<noteq> 0 then Un_done [ch]
      else if ch = ch_percent then Un_next un_sw_quoted decoded []
      else Un_next un_sw_usual decoded [ch])"

definition un_quoted :: "u_char \<Rightarrow> u_char \<Rightarrow> un_act" where
  "un_quoted decoded ch =
     (if is_digit ch then Un_next un_sw_quoted_second (ch - ch_0) []
      else (let c = fold_case ch in
        if ch_a \<le> c \<and> c \<le> ch_f then Un_next un_sw_quoted_second (c - ch_a + 10) []
        else Un_next un_sw_usual decoded [ch]))"

text \<open>\<open>prev\<close> and \<open>cur\<close> are \<^verbatim>\<open>*(s - 2)\<close> and \<^verbatim>\<open>*(s - 1)\<close>.\<close>

definition un_quoted_second :: "ngx_uint_t \<Rightarrow> u_char \<Rightarrow> u_char \<Rightarrow> u_char \<Rightarrow> un_act" where
  "un_quoted_second ty decoded prev cur =
     (if is_digit cur then
        (let ch = push_bit 4 decoded + (cur - ch_0) in
         if ty AND NGX_UNESCAPE_REDIRECT \<noteq> 0 then
           (if ch > ch_percent \<and> ch < 0x7f then Un_next un_sw_usual decoded [ch]
            else Un_next un_sw_usual decoded [ch_percent, prev, cur])
         else Un_next un_sw_usual decoded [ch])
      else (let c = fold_case cur in
        if ch_a \<le> c \<and> c \<le> ch_f then
          (let ch = push_bit 4 decoded + (c - ch_a) + 10 in
           if ty AND NGX_UNESCAPE_URI \<noteq> 0 then
             (if ch = ch_qmark then Un_done [ch] else Un_next un_sw_usual decoded [ch])
           else if ty AND NGX_UNESCAPE_REDIRECT \<noteq> 0 then
             (if ch = ch_qmark then Un_done [ch]
              else if ch > ch_percent \<and> ch < 0x7f then Un_next un_sw_usual decoded [ch]
              else Un_next un_sw_usual decoded [ch_percent, prev, cur])
           else Un_next un_sw_usual decoded [ch])
        else Un_next un_sw_usual decoded []))"

definition un_step :: "ngx_uint_t \<Rightarrow> un_state \<Rightarrow> u_char \<Rightarrow> u_char \<Rightarrow> u_char \<Rightarrow> un_act" where
  "un_step ty state decoded prev ch =
     (case state of
        un_sw_usual \<Rightarrow> un_usual ty decoded ch
      | un_sw_quoted \<Rightarrow> un_quoted decoded ch
      | un_sw_quoted_second \<Rightarrow> un_quoted_second ty decoded prev ch)"

text \<open>The result is the list of the bytes written and the source that is left.\<close>

fun un_loop ::
  "ngx_uint_t \<Rightarrow> un_state \<Rightarrow> u_char \<Rightarrow> u_char \<Rightarrow> u_char list \<Rightarrow> u_char list \<times> u_char list" where
  "un_loop ty state decoded prev [] = ([], [])"
| "un_loop ty state decoded prev (ch # src) =
     (case un_step ty state decoded prev ch of
        Un_done w \<Rightarrow> (w, src)
      | Un_next state' decoded' w \<Rightarrow>
          (case un_loop ty state' decoded' ch src of (out, rest) \<Rightarrow> (w @ out, rest)))"

definition ngx_unescape_uri :: "u_char list \<Rightarrow> ngx_uint_t \<Rightarrow> u_char list \<times> u_char list" where
  "ngx_unescape_uri src ty = un_loop ty un_sw_usual 0 0 src"

section \<open>ngx\_escape\_html\<close>

fun escape_html_count :: "u_char list \<Rightarrow> nat" where
  "escape_html_count [] = 0"
| "escape_html_count (c # src) =
     (if c = ch_lt then length ''&lt;'' - 1
      else if c = ch_gt then length ''&gt;'' - 1
      else if c = ch_amp then length ''&amp;'' - 1
      else if c = ch_dquote then length ''&quot;'' - 1
      else 0) + escape_html_count src"

fun escape_html_copy :: "u_char list \<Rightarrow> u_char list" where
  "escape_html_copy [] = []"
| "escape_html_copy (ch # src) =
     (if ch = ch_lt then [ch_amp, ch_l, ch_t, ch_semi]
      else if ch = ch_gt then [ch_amp, ch_g, ch_t, ch_semi]
      else if ch = ch_amp then [ch_amp, ch_a, ch_m, ch_p, ch_semi]
      else if ch = ch_dquote then [ch_amp, ch_q, ch_u, ch_o, ch_t, ch_semi]
      else [ch]) @ escape_html_copy src"

definition ngx_escape_html :: "u_char list option \<Rightarrow> u_char list \<Rightarrow> nat + u_char list" where
  "ngx_escape_html dst src =
     (case dst of None \<Rightarrow> Inl (escape_html_count src) | Some out \<Rightarrow> Inr (out @ escape_html_copy src))"

section \<open>ngx\_escape\_json\<close>

fun escape_json_count :: "u_char list \<Rightarrow> nat" where
  "escape_json_count [] = 0"
| "escape_json_count (ch # src) =
     (if ch = ch_bslash \<or> ch = ch_dquote then 1
      else if ch \<le> 0x1f then
        (if ch = LF \<or> ch = CR \<or> ch = ch_tab \<or> ch = ch_bs \<or> ch = ch_ff then 1 else 5)
      else 0) + escape_json_count src"

fun escape_json_copy :: "u_char list \<Rightarrow> u_char list" where
  "escape_json_copy [] = []"
| "escape_json_copy (ch # src) =
     (if ch > 0x1f then (if ch = ch_bslash \<or> ch = ch_dquote then [ch_bslash] else []) @ [ch]
      else ch_bslash #
        (if ch = LF then [ch_n]
         else if ch = CR then [ch_r]
         else if ch = ch_tab then [ch_t]
         else if ch = ch_bs then [ch_b]
         else if ch = ch_ff then [ch_f]
         else [ch_u, ch_0, ch_0, ch_0 + drop_bit 4 ch,
               (let c = ch AND 0xf in if c < 10 then ch_0 + c else ch_A + c - 10)]))
     @ escape_json_copy src"

definition ngx_escape_json :: "u_char list option \<Rightarrow> u_char list \<Rightarrow> nat + u_char list" where
  "ngx_escape_json dst src =
     (case dst of None \<Rightarrow> Inl (escape_json_count src) | Some out \<Rightarrow> Inr (out @ escape_json_copy src))"

section \<open>The contract of an escaper\<close>

text \<open>
  An escaper replaces every byte by a non-empty text of its own, and a reader of the escaped form
  takes that text back to the byte, whatever follows. Counting announces the growth.
\<close>

locale escaper =
  fixes one :: "u_char \<Rightarrow> u_char list" and copy :: "u_char list \<Rightarrow> u_char list"
    and growth :: "u_char list \<Rightarrow> nat" and reader :: "u_char list \<Rightarrow> u_char list option"
  assumes copy_Nil: "copy [] = []" and copy_Cons: "copy (c # s) = one c @ copy s"
    and growth_Nil: "growth [] = 0" and growth_Cons: "Suc (growth (c # s)) = length (one c) + growth s"
    and reader_Nil: "reader [] = Some []"
    and reader_one: "reader (one c @ t) = map_option ((#) c) (reader t)"
begin

lemma copy_length: "length (copy s) = length s + growth s"
proof (induction s)
  case (Cons c s)
  then show ?case using growth_Cons [of c s] by (simp add: copy_Cons)
qed (simp add: copy_Nil growth_Nil)

lemma read_copy: "reader (copy s) = Some s"
  by (induction s) (simp_all add: copy_Nil copy_Cons reader_Nil reader_one)

lemma copy_bytes:
  assumes "\<And>c. set (one c) \<subseteq> S"
  shows "set (copy s) \<subseteq> S"
  using assms by (induction s) (auto simp: copy_Nil copy_Cons)

end

section \<open>Percent escapes\<close>

definition uri_one :: "32 word list \<Rightarrow> u_char \<Rightarrow> u_char list" where
  "uri_one escape c =
     (if in_bitmap escape c then [ch_percent, esc_hex ! unat (drop_bit 4 c), esc_hex ! unat (c AND 0xf)] else [c])"

lemma un_loop_usual:
  "un_loop ty un_sw_usual d p s = un_loop ty un_sw_usual 0 0 s
   \<and> un_loop ty un_sw_quoted d p s = un_loop ty un_sw_quoted 0 0 s"
proof (induction s arbitrary: d p)
  case (Cons c s)
  define U Q where "U = un_loop ty un_sw_usual 0 0 s" and "Q = un_loop ty un_sw_quoted 0 0 s"
  have U: "un_loop ty un_sw_usual d p s = U" and Q: "un_loop ty un_sw_quoted d p s = Q" for d p
    using Cons by (simp_all add: U_def Q_def)
  show ?case by (simp add: un_step_def un_usual_def un_quoted_def Let_def U Q)
qed simp

text \<open>The value of a hexadecimal digit as the state machine computes it.\<close>

definition hex_val :: "u_char \<Rightarrow> u_char option" where
  "hex_val h =
     (if is_digit h then Some (h - ch_0)
      else if is_hex_alpha h then Some (fold_case h - ch_a + 10)
      else None)"

lemma un_quoted_hex: "hex_val h = Some v \<Longrightarrow> un_quoted d h = Un_next un_sw_quoted_second v []"
  by (auto simp: hex_val_def un_quoted_def Let_def split: if_splits)

lemma un_quoted_second_hex:
  assumes "hex_val h = Some v"
  shows "un_quoted_second 0 d p h = Un_next un_sw_usual d [push_bit 4 d + v]"
proof -
  have "push_bit 4 d + (fold_case h - ch_a) + 10 = push_bit 4 d + (fold_case h - ch_a + 10)"
    by (rule add.assoc)
  with assms show ?thesis
    unfolding un_quoted_second_def hex_val_def Let_def
    by (simp only: bit.conj_zero_left simp_thms if_True if_False option.inject split: if_splits) auto
qed

lemma esc_hex_code [code]:
  "esc_hex = [ch_0, ch_1, ch_2, ch_3, ch_4, ch_5, ch_6, ch_7, ch_8, ch_9, ch_A, ch_B, ch_C, ch_D, ch_E, ch_F]"
  by (simp add: esc_hex_def)

lemma esc_hex_val:
  "hex_val (esc_hex ! unat (drop_bit 4 c)) = Some (drop_bit 4 c)"
  "hex_val (esc_hex ! unat (c AND 0xf)) = Some (c AND 0xf)"
  "push_bit 4 (drop_bit 4 c) + (c AND 0xf) = (c :: u_char)"
  by (rule byte_all [where x = c], code_simp)+

lemma unescape_one:
  assumes "in_bitmap escape ch_percent"
  shows "ngx_unescape_uri (uri_one escape c @ t) 0 = (case ngx_unescape_uri t 0 of (out, rest) \<Rightarrow> (c # out, rest))"
proof (cases "in_bitmap escape c")
  case True
  have "un_loop 0 un_sw_usual (drop_bit 4 c) (esc_hex ! unat (c AND 0xf)) t = un_loop 0 un_sw_usual 0 0 t"
    by (rule un_loop_usual [THEN conjunct1])
  with True show ?thesis
    by (simp add: ngx_unescape_uri_def uri_one_def un_step_def un_usual_def
        un_quoted_hex [OF esc_hex_val(1)] un_quoted_second_hex [OF esc_hex_val(2)] esc_hex_val(3)
        split: prod.splits)
next
  case False
  with assms have "c \<noteq> ch_percent" by auto
  moreover have "un_loop 0 un_sw_usual 0 c t = un_loop 0 un_sw_usual 0 0 t"
    by (rule un_loop_usual [THEN conjunct1])
  ultimately show ?thesis using False
    by (simp add: ngx_unescape_uri_def uri_one_def un_step_def un_usual_def split: prod.splits)
qed

text \<open>A map that escapes the percent sign gives an escaper; the reader is \<^verbatim>\<open>ngx_unescape_uri\<close>
  of type 0, which reads to the end.\<close>

locale percent_map =
  fixes escape :: "32 word list"
  assumes percent: "in_bitmap escape ch_percent"

definition unescape_all :: "u_char list \<Rightarrow> u_char list option" where
  "unescape_all s = (case ngx_unescape_uri s 0 of (out, rest) \<Rightarrow> if rest = [] then Some out else None)"

sublocale percent_map \<subseteq> escaper "uri_one escape" "escape_uri_copy escape" "\<lambda>s. 2 * escape_uri_count escape s"
  unescape_all
proof
  show "unescape_all (uri_one escape c @ t) = map_option ((#) c) (unescape_all t)" for c t
    by (simp add: unescape_all_def unescape_one [OF percent] split: prod.splits)
qed (simp_all add: uri_one_def unescape_all_def ngx_unescape_uri_def)

context percent_map
begin

lemma copy_announced: "length (escape_uri_copy escape s) = length s + 2 * escape_uri_count escape s"
  by (rule copy_length)

lemma unescape_copy: "ngx_unescape_uri (escape_uri_copy escape s) 0 = (s, [])"
  using read_copy [of s] by (simp add: unescape_all_def split: prod.splits if_splits)

end

interpretation uri: percent_map esc_uri by standard code_simp
interpretation args: percent_map esc_args by standard code_simp
interpretation uri_component: percent_map esc_uri_component by standard code_simp
interpretation html: percent_map esc_html by standard code_simp
interpretation memcached: percent_map esc_memcached by standard code_simp

lemma escape_uri_modes:
  "ngx_escape_uri None src ty = Inl (escape_uri_count (esc_map ty) src)"
  "ngx_escape_uri (Some out) src ty = Inr (out @ escape_uri_copy (esc_map ty) src)"
  by (simp_all add: ngx_escape_uri_def)

text \<open>
  C34: for every type but \<^verbatim>\<open>NGX_ESCAPE_REFRESH\<close>, whose map leaves the percent sign alone, the
  counting mode announces exactly how much longer the escaped text is (two bytes for each byte
  counted), and \<^verbatim>\<open>ngx_unescape_uri\<close> of type 0 restores the text and reads to its end.
\<close>

theorem escape_uri_roundtrip:
  assumes "ty \<noteq> NGX_ESCAPE_REFRESH"
  shows "\<exists>w n. ngx_escape_uri (Some out) src ty = Inr (out @ w) \<and> ngx_escape_uri None src ty = Inl n
    \<and> length w = length src + 2 * n \<and> ngx_unescape_uri w 0 = (src, [])"
proof -
  have "percent_map (esc_map ty)"
    using assms by (cases ty)
      (simp_all add: uri.percent_map_axioms args.percent_map_axioms uri_component.percent_map_axioms
        html.percent_map_axioms memcached.percent_map_axioms)
  then show ?thesis unfolding escape_uri_modes
    by (simp add: percent_map.copy_announced percent_map.unescape_copy)
qed

theorem escape_uri_roundtrip_witness:
  "\<exists>w n. ngx_escape_uri (Some []) (str ''a b%'') NGX_ESCAPE_URI = Inr w
    \<and> length w = 4 + 2 * n \<and> ngx_unescape_uri w 0 = (str ''a b%'', [])"
  using escape_uri_roundtrip [of NGX_ESCAPE_URI "[]" "str ''a b%''"] by (auto simp del: str_simps)

section \<open>What the maps let through\<close>

text \<open>The bytes that may stand in a URI, after the comment in \<^verbatim>\<open>ngx_escape_uri\<close>: everything but
  \<^verbatim>\<open>%00-%1F\<close>, \<^verbatim>\<open>%7F-%FF\<close> and the ten printable bytes it lists; and the unreserved ones.\<close>

definition uri_permitted :: "u_char \<Rightarrow> bool" where
  "uri_permitted c \<longleftrightarrow> 0x20 < c \<and> c < 0x7f \<and>
     c \<noteq> ch_dquote \<and> c \<noteq> ch_lt \<and> c \<noteq> ch_gt \<and> c \<noteq> ch_bslash \<and> c \<noteq> 0x5e \<and> c \<noteq> 0x60
     \<and> c \<noteq> 0x7b \<and> c \<noteq> 0x7c \<and> c \<noteq> 0x7d"

definition uri_unreserved :: "u_char \<Rightarrow> bool" where
  "uri_unreserved c \<longleftrightarrow> (ch_A \<le> c \<and> c \<le> ch_Z) \<or> (ch_a \<le> c \<and> c \<le> ch_z) \<or> is_digit c
     \<or> c = ch_dash \<or> c = ch_dot \<or> c = ch_under \<or> c = ch_tilde"

lemma map_permitted:
  "\<not> in_bitmap esc_uri c \<longrightarrow> uri_permitted c" "\<not> in_bitmap esc_args c \<longrightarrow> uri_permitted c"
  "\<not> in_bitmap esc_html c \<longrightarrow> uri_permitted c" "in_bitmap esc_uri_component c \<longleftrightarrow> \<not> uri_unreserved c"
  by (rule bitmap_table [where m = esc_uri and Q = "\<lambda>c b. \<not> b \<longrightarrow> uri_permitted c"], code_simp)
    (rule bitmap_table [where m = esc_args and Q = "\<lambda>c b. \<not> b \<longrightarrow> uri_permitted c"], code_simp,
     rule bitmap_table [where m = esc_html and Q = "\<lambda>c b. \<not> b \<longrightarrow> uri_permitted c"], code_simp,
     rule bitmap_table [where m = esc_uri_component and Q = "\<lambda>c b. b \<longleftrightarrow> \<not> uri_unreserved c"], code_simp)

lemma unreserved_permitted: "uri_unreserved c \<longrightarrow> uri_permitted c"
  by (rule byte_all [where x = c], code_simp)

lemma hex_unreserved:
  "uri_unreserved (esc_hex ! unat (drop_bit 4 c)) \<and> uri_unreserved (esc_hex ! unat (c AND 0xf :: u_char))"
  by (rule byte_all [where x = c], code_simp)

lemma escape_uri_bytes:
  assumes "\<And>c. \<not> in_bitmap escape c \<Longrightarrow> P c" "P ch_percent" "\<And>c. uri_unreserved c \<Longrightarrow> P c"
  shows "list_all P (escape_uri_copy escape s)"
  using assms hex_unreserved by (induction s) auto

text \<open>
  the escaped text is fit for its place: for the types for URIs, arguments and HTML attributes it
  holds only bytes that may stand in a URI, and for \<^verbatim>\<open>NGX_ESCAPE_URI_COMPONENT\<close> only unreserved
  bytes and percent signs.
\<close>

theorem escape_uri_permitted:
  "list_all uri_permitted (escape_uri_copy (esc_map NGX_ESCAPE_URI) s)
   \<and> list_all uri_permitted (escape_uri_copy (esc_map NGX_ESCAPE_ARGS) s)
   \<and> list_all uri_permitted (escape_uri_copy (esc_map NGX_ESCAPE_HTML) s)
   \<and> list_all (\<lambda>c. uri_unreserved c \<or> c = ch_percent) (escape_uri_copy (esc_map NGX_ESCAPE_URI_COMPONENT) s)"
proof -
  have percent: "uri_permitted ch_percent" by code_simp
  show ?thesis
    using map_permitted unreserved_permitted percent by (auto intro!: escape_uri_bytes)
qed

text \<open>
  the map of \<^verbatim>\<open>NGX_ESCAPE_REFRESH\<close> has two bits swapped against its comment: the closing
  brace, which may not stand in a URI, is left alone, and the tilde, which may, is escaped.
\<close>

theorem escape_refresh_braces:
  "ngx_escape_uri (Some []) (str ''~}'') NGX_ESCAPE_REFRESH = Inr (str ''%7E}'')
   \<and> ngx_escape_uri (Some []) (str ''~}'') NGX_ESCAPE_URI = Inr (str ''~%7D'')"
  by code_simp

section \<open>Readers of HTML text and JSON strings\<close>

text \<open>
  Reference readers: HTML character data with the four entities, in which a raw angle bracket or
  double quote is an error; and the inside of a JSON string, in which a raw double quote or control
  byte is an error and a backslash starts a short escape or \<^verbatim>\<open>u00\<close> with two hexadecimal digits.
\<close>

function html_read :: "u_char list \<Rightarrow> u_char list option" where
  "html_read [] = Some []"
| "html_read (c # t) =
     (if c = ch_amp then
        (if take 3 t = [ch_l, ch_t, ch_semi] then map_option ((#) ch_lt) (html_read (drop 3 t))
         else if take 3 t = [ch_g, ch_t, ch_semi] then map_option ((#) ch_gt) (html_read (drop 3 t))
         else if take 4 t = [ch_a, ch_m, ch_p, ch_semi] then map_option ((#) ch_amp) (html_read (drop 4 t))
         else if take 5 t = [ch_q, ch_u, ch_o, ch_t, ch_semi] then map_option ((#) ch_dquote) (html_read (drop 5 t))
         else None)
      else if c = ch_lt \<or> c = ch_gt \<or> c = ch_dquote then None
      else map_option ((#) c) (html_read t))"
  by pat_completeness auto
termination
  by (relation "measure length") auto

fun json_short :: "u_char \<Rightarrow> u_char option" where
  "json_short c =
     (if c = ch_n then Some LF else if c = ch_r then Some CR else if c = ch_t then Some ch_tab
      else if c = ch_b then Some ch_bs else if c = ch_f then Some ch_ff
      else if c = ch_bslash \<or> c = ch_dquote \<or> c = ch_slash then Some c
      else None)"

function json_read :: "u_char list \<Rightarrow> u_char list option" where
  "json_read [] = Some []"
| "json_read (c # t) =
     (if c = ch_bslash then
        (case t of
           [] \<Rightarrow> None
         | e # t1 \<Rightarrow>
             (if e = ch_u then
                (case t1 of
                   z1 # z2 # h # l # t2 \<Rightarrow>
                     (case (hex_val h, hex_val l) of
                        (Some hv, Some lv) \<Rightarrow>
                          if z1 = ch_0 \<and> z2 = ch_0 then map_option ((#) (push_bit 4 hv + lv)) (json_read t2) else None
                      | _ \<Rightarrow> None)
                 | _ \<Rightarrow> None)
              else (case json_short e of Some b \<Rightarrow> map_option ((#) b) (json_read t1) | None \<Rightarrow> None)))
      else if c \<le> 0x1f \<or> c = ch_dquote then None
      else map_option ((#) c) (json_read t))"
  by pat_completeness auto
termination
  by (relation "measure length") auto

definition html_one :: "u_char \<Rightarrow> u_char list" where
  "html_one ch = escape_html_copy [ch]"

definition json_one :: "u_char \<Rightarrow> u_char list" where
  "json_one ch = escape_json_copy [ch]"

interpretation html_text: escaper html_one escape_html_copy escape_html_count html_read
proof
  show "html_read (html_one c @ t) = map_option ((#) c) (html_read t)" for c t
    by (simp add: html_one_def)
qed (simp_all add: html_one_def)

text \<open>The digits of the numeric escape.\<close>

lemma json_hex:
  assumes "ch \<le> 0x1f"
  shows "hex_val (ch_0 + drop_bit 4 ch) = Some (drop_bit 4 ch)"
    "hex_val (let c = ch AND 0xf in if c < 10 then ch_0 + c else ch_A + c - 10) = Some (ch AND 0xf)"
proof -
  have "ch \<le> 0x1f \<longrightarrow> hex_val (ch_0 + drop_bit 4 ch) = Some (drop_bit 4 ch)
      \<and> hex_val (let c = ch AND 0xf in if c < 10 then ch_0 + c else ch_A + c - 10) = Some (ch AND 0xf)"
    by (rule byte_all [where x = ch]) code_simp
  with assms show "hex_val (ch_0 + drop_bit 4 ch) = Some (drop_bit 4 ch)"
    "hex_val (let c = ch AND 0xf in if c < 10 then ch_0 + c else ch_A + c - 10) = Some (ch AND 0xf)" by simp_all
qed

lemma json_read_one: "json_read (json_one c @ t) = map_option ((#) c) (json_read t)"
proof (cases "c > 0x1f")
  case True
  then show ?thesis by (auto simp: json_one_def)
next
  case False
  then have c: "c \<le> 0x1f" by simp
  let ?h = "ch_0 + drop_bit 4 c" and ?l = "let d = c AND 0xf in if d < 10 then ch_0 + d else ch_A + d - 10"
  show ?thesis
  proof (cases "c = LF \<or> c = CR \<or> c = ch_tab \<or> c = ch_bs \<or> c = ch_ff")
    case True
    then show ?thesis by (auto simp: json_one_def)
  next
    case False
    then have "json_one c @ t = ch_bslash # ch_u # ch_0 # ch_0 # ?h # ?l # t"
      using c by (simp add: json_one_def not_less)
    then have "json_read (json_one c @ t) = map_option ((#) (push_bit 4 (drop_bit 4 c) + (c AND 0xf))) (json_read t)"
      using json_hex [OF c] by (simp only: json_read.simps) simp
    then show ?thesis by (simp only: esc_hex_val(3))
  qed
qed

interpretation json_text: escaper json_one escape_json_copy escape_json_count json_read
proof
  show "json_read (json_one c @ t) = map_option ((#) c) (json_read t)" for c t by (rule json_read_one)
qed (auto simp: json_one_def not_less)

text \<open>
  Text escaped for HTML and for JSON reads back as it was, so that in particular no raw special
  byte is left in it, and the counting mode announces exactly the growth.
\<close>

theorem escape_text_roundtrip:
  "\<exists>h j m n. ngx_escape_html (Some out) src = Inr (out @ h) \<and> ngx_escape_html None src = Inl m
     \<and> length h = length src + m \<and> html_read h = Some src
     \<and> ngx_escape_json (Some out) src = Inr (out @ j) \<and> ngx_escape_json None src = Inl n
     \<and> length j = length src + n \<and> json_read j = Some src"
  by (simp add: ngx_escape_html_def ngx_escape_json_def html_text.copy_length html_text.read_copy
      json_text.copy_length json_text.read_copy)

end
