(* ===== verification/Ngx_Unsafe_Uri.thy ===== *)
theory Ngx_Unsafe_Uri
  imports Ngx_Request Ngx_Escape
begin

text \<open>
  \<^verbatim>\<open>ngx_http_parse_unsafe_uri\<close> of \<^verbatim>\<open>src/reference/nginx-master/src/http/ngx_http_parse.c\<close>:
  the check of a URI that comes from a less trusted place (a response header, a subrequest), on a
  system whose path separator is the slash. A string is the list of its bytes; \<open>alloc\<close> says
  whether \<^verbatim>\<open>ngx_pnalloc\<close> succeeds. The request and the flags are used for logging only.
\<close>

section \<open>The function\<close>

abbreviation ngx_path_separator :: "u_char \<Rightarrow> bool" where
  "ngx_path_separator c \<equiv> c = ch_slash"

text \<open>\<^verbatim>\<open>p[0] == '.' && len > 1 && p[1] == '.' && (len == 2 || ngx_path_separator(p[2]))\<close>\<close>

definition uu_leading :: "u_char list \<Rightarrow> bool" where
  "uu_leading p \<longleftrightarrow>
     length p > 1 \<and> p ! 0 = ch_dot \<and> p ! 1 = ch_dot \<and> (length p = 2 \<or> ngx_path_separator (p ! 2))"

text \<open>The test for \<^verbatim>\<open>"/../"\<close> and \<^verbatim>\<open>"/.."\<close>, on the byte \<open>ch\<close> and what follows it.\<close>

definition uu_climbs :: "u_char \<Rightarrow> u_char list \<Rightarrow> bool" where
  "uu_climbs ch p \<longleftrightarrow>
     ngx_path_separator ch \<and> Suc (length p) > 2 \<and> p ! 0 = ch_dot \<and> p ! 1 = ch_dot
     \<and> (Suc (length p) = 3 \<or> ngx_path_separator (p ! 2))"

text \<open>The first loop; the result is \<open>None\<close> for \<^verbatim>\<open>goto unsafe\<close>, or the value of
  \<^verbatim>\<open>quoted\<close>, the number of bytes in front of the query and the query.\<close>

fun uu_first :: "u_char list \<Rightarrow> bool \<Rightarrow> nat \<Rightarrow> (bool \<times> nat \<times> u_char list option) option" where
  "uu_first [] quoted n = Some (quoted, n, None)"
| "uu_first (ch # p) quoted n =
     (if ch = ch_percent then uu_first p True (Suc n)
      else if is_usual ch then uu_first p quoted (Suc n)
      else if ch = ch_qmark then Some (quoted, n, Some p)
      else if ch = ch_nul then None
      else if uu_climbs ch p then None
      else uu_first p quoted (Suc n))"

text \<open>The second loop, on the unescaped URI.\<close>

fun uu_second :: "u_char list \<Rightarrow> bool" where
  "uu_second [] \<longleftrightarrow> True"
| "uu_second (ch # p) \<longleftrightarrow> ch \<noteq> ch_nul \<and> \<not> uu_climbs ch p \<and> uu_second p"

text \<open>The result is the return code with the strings \<^verbatim>\<open>*uri\<close> and \<^verbatim>\<open>*args\<close>.\<close>

definition ngx_http_parse_unsafe_uri ::
  "bool \<Rightarrow> u_char list \<Rightarrow> u_char list \<Rightarrow> int \<times> u_char list \<times> u_char list" where
  "ngx_http_parse_unsafe_uri alloc path query =
     (if path = [] \<or> path ! 0 = ch_qmark then (NGX_ERROR, path, query)
      else if uu_leading path then (NGX_ERROR, path, query)
      else (case uu_first path False 0 of
          None \<Rightarrow> (NGX_ERROR, path, query)
        | Some (quoted, n, rest) \<Rightarrow>
            (let path = take n path; query = (case rest of None \<Rightarrow> query | Some q \<Rightarrow> q)
             in if quoted then
                  (if \<not> alloc then (NGX_ERROR, path, query)
                   else (let path = fst (ngx_unescape_uri path 0)
                         in if uu_leading path then (NGX_ERROR, path, query)
                            else if uu_second path then (NGX_OK, path, query)
                            else (NGX_ERROR, path, query)))
                else (NGX_OK, path, query))))"

section \<open>Climbing paths\<close>

text \<open>The segments of a path, and what makes it climb.\<close>

fun segments :: "u_char list \<Rightarrow> u_char list list" where
  "segments [] = [[]]"
| "segments (c # p) =
     (if c = ch_slash then [] # segments p
      else (case segments p of s # ss \<Rightarrow> (c # s) # ss | [] \<Rightarrow> [[c]]))"

definition climbing :: "u_char list \<Rightarrow> bool" where
  "climbing p \<longleftrightarrow> [ch_dot, ch_dot] \<in> set (segments p)"

lemma segments_not_Nil [simp]: "segments p \<noteq> []"
  by (induction p) (auto split: list.splits)

lemma hd_segments: "hd (segments p) = takeWhile (\<lambda>c. c \<noteq> ch_slash) p"
proof (induction p)
  case (Cons c p)
  then show ?case by (cases "segments p") auto
qed simp

lemma segments_Cons:
  "segments (c # p) = (if c = ch_slash then [] # segments p else (c # hd (segments p)) # tl (segments p))"
  by (cases "segments p") auto

text \<open>The segment that a path starts with, against the tests of the code.\<close>

lemma leading_segment: "hd (segments p) = [ch_dot, ch_dot] \<longleftrightarrow> uu_leading p"
proof -
  obtain a b c q where "p = [] \<or> p = [a] \<or> p = [a, b] \<or> p = a # b # c # q"
    by (metis list.exhaust)
  then show ?thesis by (auto simp: hd_segments uu_leading_def split: if_splits)
qed

lemma climbs_iff: "uu_climbs ch p \<longleftrightarrow> ch = ch_slash \<and> uu_leading p"
  by (auto simp: uu_climbs_def uu_leading_def)

text \<open>The later segments of a path are found behind its slashes.\<close>

abbreviation later_climb :: "u_char list \<Rightarrow> bool" where
  "later_climb p \<equiv> [ch_dot, ch_dot] \<in> set (tl (segments p))"

lemma later_climb_Cons: "later_climb (c # p) \<longleftrightarrow> (c = ch_slash \<and> uu_leading p) \<or> later_climb p"
  unfolding leading_segment [symmetric] by (cases "segments p") auto

lemma climbing_iff: "climbing p \<longleftrightarrow> uu_leading p \<or> later_climb p"
  unfolding leading_segment [symmetric] climbing_def by (cases "segments p") auto

lemma second_iff: "uu_second p \<longleftrightarrow> 0 \<notin> set p \<and> \<not> later_climb p"
proof (induction p)
  case (Cons c p)
  then show ?case by (auto simp: later_climb_Cons climbs_iff simp del: segments.simps)
qed simp

text \<open>The first loop looks at the path in front of the query, but tests for dots with the query in
  view: it finds every climbing segment that a slash or the end of the whole string follows.\<close>

lemma leading_query: "uu_leading (x @ ch_qmark # q) \<longleftrightarrow> uu_leading x \<and> length x \<noteq> 2"
  by (cases x; cases "tl x"; cases "tl (tl x)") (auto simp: uu_leading_def)

lemma leading_two: "uu_leading x \<Longrightarrow> length x = 2 \<Longrightarrow> tl (segments x) = []"
  by (cases x; cases "tl x") (auto simp: uu_leading_def)

definition inner_climb :: "u_char list \<Rightarrow> bool" where
  "inner_climb p \<longleftrightarrow> [ch_dot, ch_dot] \<in> set (butlast (tl (segments p)))"

lemma inner_climb_Cons:
  "inner_climb (c # p) \<longleftrightarrow> (c = ch_slash \<and> uu_leading p \<and> tl (segments p) \<noteq> []) \<or> inner_climb p"
  unfolding leading_segment [symmetric] inner_climb_def by (cases "segments p") auto

lemma first_query:
  "uu_first p quoted k = Some (quoted', n, Some q) \<Longrightarrow>
    \<exists>x. n = k + length x \<and> p = x @ ch_qmark # q \<and> 0 \<notin> set x \<and> \<not> inner_climb x"
proof (induction p quoted k rule: uu_first.induct)
  case (2 ch p quoted k)
  show ?case
  proof (cases "ch \<noteq> ch_percent \<and> \<not> is_usual ch \<and> ch = ch_qmark")
    case True
    with "2.prems" show ?thesis by (intro exI [of _ "[]"]) (auto simp: inner_climb_def)
  next
    case False
    with "2.prems" have nul: "ch \<noteq> 0" and climb: "\<not> uu_climbs ch p"
      by (auto split: if_splits simp: uu_climbs_def)
    from "2.prems" False have "\<exists>quoted. uu_first p quoted (Suc k) = Some (quoted', n, Some q)"
      by (auto split: if_splits)
    then obtain x where x: "n = Suc k + length x" "p = x @ ch_qmark # q" "0 \<notin> set x" "\<not> inner_climb x"
      using "2.IH" "2.prems" False by (auto split: if_splits)
    with climb have "\<not> inner_climb (ch # x)"
      by (auto simp: inner_climb_Cons climbs_iff leading_query dest: leading_two)
    with x nul show ?thesis by (intro exI [of _ "ch # x"]) auto
  qed
qed simp

lemma first_whole:
  "uu_first p quoted k = Some (quoted', n, None) \<Longrightarrow>
    n = k + length p \<and> 0 \<notin> set p \<and> \<not> later_climb p"
proof (induction p quoted k rule: uu_first.induct)
  case (2 ch p quoted k)
  from "2.prems" have "ch \<noteq> 0" "\<not> uu_climbs ch p" by (auto split: if_splits simp: uu_climbs_def)
  moreover have "n = Suc k + length p \<and> 0 \<notin> set p \<and> \<not> later_climb p"
    using "2.IH" "2.prems" by (simp split: if_splits)
  ultimately show ?case by (auto simp: later_climb_Cons climbs_iff simp del: segments.simps)
qed simp

text \<open>
  C28: a URI that is accepted is safe to be mapped to a file: it holds no NUL byte, no segment
  \<^verbatim>\<open>..\<close> is followed by another one, and when the text had no query there is no segment
  \<^verbatim>\<open>..\<close> at all; the tests hold for the path after unescaping.
\<close>

theorem unsafe_uri_safe:
  assumes "ngx_http_parse_unsafe_uri alloc path query = (NGX_OK, path', query')"
  shows "0 \<notin> set path' \<and> [ch_dot, ch_dot] \<notin> set (butlast (segments path'))
    \<and> (ch_qmark \<notin> set path \<longrightarrow> \<not> climbing path')"
proof -
  from assms obtain quoted n rest where lead: "\<not> uu_leading path" and
    first: "uu_first path False 0 = Some (quoted, n, rest)"
    by (auto simp: ngx_http_parse_unsafe_uri_def split: if_splits option.splits)
  have not_climbing: "[ch_dot, ch_dot] \<notin> set (butlast (segments p))" if "\<not> climbing p" for p
    using that by (auto simp: climbing_def dest: in_set_butlastD)
  show ?thesis
  proof (cases quoted)
    case True
    with assms lead first have "\<not> uu_leading path'" "uu_second path'"
      by (auto simp: ngx_http_parse_unsafe_uri_def Let_def split: if_splits option.splits)
    then have "0 \<notin> set path'" "\<not> climbing path'" by (simp_all add: second_iff climbing_iff)
    with not_climbing show ?thesis by blast
  next
    case False
    with assms lead first have path': "path' = take n path"
      by (auto simp: ngx_http_parse_unsafe_uri_def Let_def split: if_splits option.splits)
    show ?thesis
    proof (cases rest)
      case None
      from first_whole [OF first [unfolded None]] lead path' have "0 \<notin> set path'" "\<not> climbing path'"
        by (simp_all add: climbing_iff)
      with not_climbing show ?thesis by blast
    next
      case (Some q)
      then obtain x where x: "n = length x" "path = x @ ch_qmark # q" "0 \<notin> set x" "\<not> inner_climb x"
        using first_query [of path False 0 quoted n q] first by auto
      have "[ch_dot, ch_dot] \<notin> set (butlast (segments x))"
      proof
        assume "[ch_dot, ch_dot] \<in> set (butlast (segments x))"
        with x(4) have "uu_leading x" "tl (segments x) \<noteq> []"
          unfolding leading_segment [symmetric] inner_climb_def
          by (cases "segments x"; auto split: if_splits)+
        with lead x(2) leading_two show False by (auto simp: leading_query)
      qed
      with x path' show ?thesis by simp
    qed
  qed
qed

theorem unsafe_uri_safe_witness:
  "ngx_http_parse_unsafe_uri True (str ''/a%2Fb/.c'') [] = (NGX_OK, str ''/a/b/.c'', [])
   \<and> \<not> climbing (str ''/a/b/.c'')"
proof -
  have ok: "ngx_http_parse_unsafe_uri True (str ''/a%2Fb/.c'') [] = (NGX_OK, str ''/a/b/.c'', [])"
    by code_simp
  from unsafe_uri_safe [OF ok] ok show ?thesis by (auto simp: str_def)
qed

text \<open>
  A query hides a final \<^verbatim>\<open>..\<close> from the test: the URIs \<^verbatim>\<open>/..?x\<close> and \<^verbatim>\<open>..?x\<close>
  are accepted, and the path handed on is \<^verbatim>\<open>/..\<close> and \<^verbatim>\<open>..\<close>, while each of these paths
  alone is refused.
\<close>

theorem unsafe_uri_query_hides_dots:
  "ngx_http_parse_unsafe_uri alloc (str ''/..?x'') [] = (NGX_OK, str ''/..'', str ''x'')
   \<and> ngx_http_parse_unsafe_uri alloc (str ''..?x'') [] = (NGX_OK, str ''..'', str ''x'')
   \<and> fst (ngx_http_parse_unsafe_uri alloc (str ''/..'') []) = NGX_ERROR
   \<and> fst (ngx_http_parse_unsafe_uri alloc (str ''..'') []) = NGX_ERROR"
  by (simp add: ngx_http_parse_unsafe_uri_def uu_leading_def uu_climbs_def)

end
