(* ===== verification/Ngx_Parse_Time.thy ===== *)
theory Ngx_Parse_Time
  imports Ngx_Prelude
begin

text \<open>
  \<^verbatim>\<open>ngx_parse_http_time\<close> of \<^verbatim>\<open>src/reference/nginx-master/src/core/ngx_parse_time.c\<close>, on a
  platform with a 64-bit \<^verbatim>\<open>time_t\<close>: the three date formats of HTTP and Gauss' formula.

  The pair \<^verbatim>\<open>(value, len)\<close> is the list \<open>m\<close> of the bytes, \<open>p\<close> an index into it. A read
  outside the list is the result \<open>Fault\<close>, \<^verbatim>\<open>return NGX_ERROR\<close> is \<open>Err\<close>.
  \<^verbatim>\<open>year\<close> is unsigned in C and may wrap, and so may \<^verbatim>\<open>time\<close>: both are 64-bit words.
\<close>

section \<open>The function\<close>

datatype 'a parse = Fault | Err | Val 'a

primrec bind_parse :: "'a parse \<Rightarrow> ('a \<Rightarrow> 'b parse) \<Rightarrow> 'b parse" where
  "bind_parse Fault f = Fault"
| "bind_parse Err f = Err"
| "bind_parse (Val a) f = f a"

text \<open>\<^verbatim>\<open>*p\<close>\<close>

definition rd :: "u_char list \<Rightarrow> nat \<Rightarrow> u_char parse" where
  "rd m p = (if p < length m then Val (m ! p) else Fault)"

definition expect :: "u_char list \<Rightarrow> nat \<Rightarrow> u_char \<Rightarrow> nat parse" where
  "expect m p c = bind_parse (rd m p) (\<lambda>x. if x \<noteq> c then Err else Val (Suc p))"

definition digit_at :: "u_char list \<Rightarrow> nat \<Rightarrow> nat parse" where
  "digit_at m p = bind_parse (rd m p) (\<lambda>x. if x < ch_0 \<or> x > ch_9 then Err else Val (unat (x - ch_0)))"

definition digits2 :: "u_char list \<Rightarrow> nat \<Rightarrow> nat parse" where
  "digits2 m p = bind_parse (digit_at m p) (\<lambda>a. bind_parse (digit_at m (p + 1)) (\<lambda>b. Val (a * 10 + b)))"

definition digits4 :: "u_char list \<Rightarrow> nat \<Rightarrow> nat parse" where
  "digits4 m p =
     bind_parse (digit_at m p) (\<lambda>a. bind_parse (digit_at m (p + 1)) (\<lambda>b.
     bind_parse (digit_at m (p + 2)) (\<lambda>c. bind_parse (digit_at m (p + 3)) (\<lambda>d.
       Val (a * 1000 + b * 100 + c * 10 + d)))))"

datatype pt_fmt = pt_no | rfc822 | rfc850 | isoc

text \<open>The loop that looks for the comma or blank behind the day of the week.\<close>

function pt_find :: "u_char list \<Rightarrow> nat \<Rightarrow> nat \<times> pt_fmt" where
  "pt_find m p =
     (if p < length m then
        (if m ! p = ch_comma then (p, pt_no) else if m ! p = ch_sp then (p, isoc) else pt_find m (Suc p))
      else (p, pt_no))"
  by pat_completeness auto
termination
  by (relation "measure (\<lambda>(m, p). length m - p)") auto

function pt_skip :: "u_char list \<Rightarrow> nat \<Rightarrow> nat" where
  "pt_skip m p = (if p < length m \<and> m ! p = ch_sp then pt_skip m (Suc p) else p)"
  by pat_completeness auto
termination
  by (relation "measure (\<lambda>(m, p). length m - p)") auto

declare pt_find.simps [simp del] pt_skip.simps [simp del]

text \<open>\<^verbatim>\<open>end - p < n\<close>\<close>

abbreviation left_less :: "u_char list \<Rightarrow> nat \<Rightarrow> nat \<Rightarrow> bool" where
  "left_less m p n \<equiv> int (length m) - int p < int n"

text \<open>The day of the month in front of the month, and which format it is.\<close>

definition pt_day :: "u_char list \<Rightarrow> nat \<Rightarrow> (nat \<times> pt_fmt \<times> nat) parse" where
  "pt_day m p =
     bind_parse (digits2 m p) (\<lambda>day.
     bind_parse (rd m (p + 2)) (\<lambda>c.
       if c = ch_sp then (if left_less m (p + 2) 18 then Err else Val (day, rfc822, p + 3))
       else if c = ch_dash then Val (day, rfc850, p + 3)
       else Err))"

definition pt_month :: "u_char list \<Rightarrow> nat \<Rightarrow> int parse" where
  "pt_month m p =
     bind_parse (rd m p) (\<lambda>c.
       if c = ch_J then
         bind_parse (rd m (p + 1)) (\<lambda>c1. if c1 = ch_a then Val 0
           else bind_parse (rd m (p + 2)) (\<lambda>c2. Val (if c2 = ch_n then 5 else 6)))
       else if c = ch_F then Val 1
       else if c = ch_M then bind_parse (rd m (p + 2)) (\<lambda>c2. Val (if c2 = ch_r then 2 else 4))
       else if c = ch_A then bind_parse (rd m (p + 1)) (\<lambda>c1. Val (if c1 = ch_p then 3 else 7))
       else if c = ch_S then Val 8
       else if c = ch_O then Val 9
       else if c = ch_N then Val 10
       else if c = ch_D then Val 11
       else Err)"

text \<open>The separator behind the month and the year behind it, or the day and its blank; the pair is
  the day and the year, each still to be set where the format has it elsewhere.\<close>

definition pt_year :: "u_char list \<Rightarrow> pt_fmt \<Rightarrow> nat \<Rightarrow> (64 word \<times> nat) parse" where
  "pt_year m fmt p =
     bind_parse (if fmt = rfc822 \<or> fmt = rfc850 then rd m p else Val ch_sp) (\<lambda>c.
       if (fmt = rfc822 \<and> c \<noteq> ch_sp) \<or> (fmt = rfc850 \<and> c \<noteq> ch_dash) then Err
       else if fmt = rfc822 then
         bind_parse (digits4 m (p + 1)) (\<lambda>y. Val (of_nat y, p + 5))
       else if fmt = rfc850 then
         bind_parse (digits2 m (p + 1)) (\<lambda>y. Val (of_nat (y + (if y < 70 then 2000 else 1900)), p + 3))
       else Val (0, p + 1))"

definition pt_isoc_day :: "u_char list \<Rightarrow> nat \<Rightarrow> (nat \<times> nat) parse" where
  "pt_isoc_day m p =
     bind_parse (rd m p) (\<lambda>c.
     let p = (if c = ch_sp then p + 1 else p) in
     bind_parse (digit_at m p) (\<lambda>day.
     bind_parse (rd m (p + 1)) (\<lambda>c1.
     bind_parse (if c1 \<noteq> ch_sp
                 then bind_parse (digit_at m (p + 1)) (\<lambda>d. Val (day * 10 + d, p + 2))
                 else Val (day, p + 1)) (\<lambda>(day, p).
       if left_less m p 14 then Err else Val (day, p)))))"

text \<open>The blank and the clock; the index returned stands at the seconds.\<close>

definition pt_clock :: "u_char list \<Rightarrow> nat \<Rightarrow> (nat \<times> nat \<times> nat \<times> nat) parse" where
  "pt_clock m p =
     bind_parse (expect m p ch_sp) (\<lambda>p.
     bind_parse (digits2 m p) (\<lambda>hour.
     bind_parse (expect m (p + 2) ch_colon) (\<lambda>p.
     bind_parse (digits2 m p) (\<lambda>minute.
     bind_parse (expect m (p + 2) ch_colon) (\<lambda>p.
     bind_parse (digits2 m p) (\<lambda>sec. Val (hour, minute, sec, p)))))))"

definition pt_isoc_year :: "u_char list \<Rightarrow> nat \<Rightarrow> (64 word) parse" where
  "pt_isoc_year m p =
     bind_parse (expect m (p + 2) ch_sp) (\<lambda>p. bind_parse (digits4 m p) (\<lambda>y. Val (of_nat y)))"

definition mday :: "nat list" where
  "mday = [31, 28, 31, 30, 31, 30, 31, 31, 30, 31, 30, 31]"

text \<open>The checks of the ranges.\<close>

definition pt_valid :: "64 word \<Rightarrow> int \<Rightarrow> nat \<Rightarrow> nat \<Rightarrow> nat \<Rightarrow> nat \<Rightarrow> bool" where
  "pt_valid year month day hour minute sec \<longleftrightarrow>
     \<not> (hour > 23 \<or> minute > 59 \<or> sec > 59)
     \<and> (if day = 29 \<and> month = 1
        then \<not> (year AND 3 \<noteq> 0 \<or> (year mod 100 = 0 \<and> year mod 400 \<noteq> 0))
        else \<not> day > mday ! nat month)"

text \<open>Gauss' formula, in unsigned 64-bit arithmetic; \<^verbatim>\<open>367 * month / 12\<close> is signed.\<close>

definition pt_time :: "64 word \<Rightarrow> int \<Rightarrow> nat \<Rightarrow> nat \<Rightarrow> nat \<Rightarrow> nat \<Rightarrow> 64 word" where
  "pt_time year month day hour minute sec =
     (let (month, year) = (if month - 1 \<le> 0 then (month - 1 + 12, year - 1) else (month - 1, year))
      in (365 * year + year div 4 - year div 100 + year div 400
          + of_int (367 * month div 12) - 30
          + of_nat day - 1
          - 719527 + 31 + 28) * 86400 + of_nat hour * 3600 + of_nat minute * 60 + of_nat sec)"

definition ngx_parse_http_time :: "u_char list \<Rightarrow> int parse" where
  "ngx_parse_http_time m =
     (case pt_find m 0 of (p, fmt) \<Rightarrow>
      let p = pt_skip m (Suc p) in
      if left_less m p 18 then Err
      else
      bind_parse (if fmt \<noteq> isoc then pt_day m p else Val (0, fmt, p)) (\<lambda>(day, fmt, p).
      bind_parse (pt_month m p) (\<lambda>month.
      bind_parse (pt_year m fmt (p + 3)) (\<lambda>(year, p).
      bind_parse (if fmt = isoc then pt_isoc_day m p else Val (day, p)) (\<lambda>(day, p).
      bind_parse (pt_clock m p) (\<lambda>(hour, minute, sec, p).
      bind_parse (if fmt = isoc then pt_isoc_year m p else Val year) (\<lambda>year.
        if \<not> pt_valid year month day hour minute sec then Err
        else Val (sint (pt_time year month day hour minute sec)))))))))"

section \<open>No read leaves the text\<close>

text \<open>Bounds under which each part cannot fault.\<close>

lemma bind_parse_Fault: "bind_parse x f = Fault \<longleftrightarrow> x = Fault \<or> (\<exists>a. x = Val a \<and> f a = Fault)"
  by (cases x) auto

lemma bind_parse_Val: "bind_parse x f = Val b \<longleftrightarrow> (\<exists>a. x = Val a \<and> f a = Val b)"
  by (cases x) auto

lemma rd_Fault: "rd m p = Fault \<longleftrightarrow> length m \<le> p"
  by (simp add: rd_def)

lemma rd_Val: "rd m p = Val c \<longleftrightarrow> p < length m \<and> c = m ! p"
  by (auto simp: rd_def)

lemma expect_Fault: "expect m p c = Fault \<longleftrightarrow> length m \<le> p"
  by (simp add: expect_def rd_def)

lemma expect_Val: "expect m p c = Val q \<longleftrightarrow> p < length m \<and> m ! p = c \<and> q = Suc p"
  by (auto simp: expect_def rd_def)

lemma digit_at_Fault: "digit_at m p = Fault \<longleftrightarrow> length m \<le> p"
  by (simp add: digit_at_def rd_def)

lemmas parse_faults = bind_parse_Fault rd_Fault expect_Fault digit_at_Fault

lemma digits2_ok: "p + 1 < length m \<Longrightarrow> digits2 m p \<noteq> Fault"
  by (auto simp: digits2_def parse_faults)

lemma digits4_ok: "p + 3 < length m \<Longrightarrow> digits4 m p \<noteq> Fault"
  by (auto simp: digits4_def parse_faults)

lemma pt_day_ok: "p + 2 < length m \<Longrightarrow> pt_day m p \<noteq> Fault"
  using digits2_ok [of p m] by (auto simp: pt_day_def parse_faults split: if_splits)

lemma pt_day_Val:
  assumes "pt_day m p = Val (day, fmt, q)"
  shows "q = p + 3 \<and> (fmt = rfc850 \<or> fmt = rfc822 \<and> q + 17 \<le> length m)"
  using assms by (auto simp: pt_day_def bind_parse_Val split: if_splits)

lemma pt_month_ok: "p + 2 < length m \<Longrightarrow> pt_month m p \<noteq> Fault"
  by (auto simp: pt_month_def parse_faults split: if_splits)

lemma pt_year_ok:
  assumes "fmt = rfc822 \<Longrightarrow> p + 4 < length m" "fmt = rfc850 \<Longrightarrow> p + 2 < length m"
  shows "pt_year m fmt p \<noteq> Fault"
  using assms digits2_ok [of "p + 1" m] digits4_ok [of "p + 1" m]
  by (cases fmt) (auto simp: pt_year_def parse_faults split: if_splits)

lemma pt_year_Val:
  assumes "pt_year m fmt p = Val (y, q)"
  shows "q = p + (if fmt = rfc822 then 5 else if fmt = rfc850 then 3 else 1)"
  using assms by (auto simp: pt_year_def bind_parse_Val split: if_splits)

lemma pt_isoc_day_ok: "p + 2 < length m \<Longrightarrow> pt_isoc_day m p \<noteq> Fault"
  by (auto simp: pt_isoc_day_def Let_def parse_faults bind_parse_Val split: if_splits)

lemma pt_isoc_day_Val: "pt_isoc_day m p = Val (d, q) \<Longrightarrow> q + 14 \<le> length m"
  by (auto simp: pt_isoc_day_def Let_def bind_parse_Val split: if_splits)

lemma pt_clock_ok: "p + 8 < length m \<Longrightarrow> pt_clock m p \<noteq> Fault"
  using digits2_ok [of "p + 1" m] digits2_ok [of "p + 4" m] digits2_ok [of "p + 7" m]
  by (auto simp: pt_clock_def parse_faults expect_Val eval_nat_numeral)

lemma pt_clock_Val: "pt_clock m p = Val (h, mi, s, q) \<Longrightarrow> q = p + 7"
  by (auto simp: pt_clock_def bind_parse_Val expect_Val)

lemma pt_isoc_year_ok: "p + 6 < length m \<Longrightarrow> pt_isoc_year m p \<noteq> Fault"
  using digits4_ok [of "p + 3" m] by (auto simp: pt_isoc_year_def parse_faults expect_Val eval_nat_numeral)

text \<open>The parts behind the format and the day, at an index with enough of the text left.\<close>

definition pt_rest :: "u_char list \<Rightarrow> nat \<Rightarrow> pt_fmt \<Rightarrow> nat \<Rightarrow> int parse" where
  "pt_rest m day fmt p =
     bind_parse (pt_month m p) (\<lambda>month.
     bind_parse (pt_year m fmt (p + 3)) (\<lambda>(year, p).
     bind_parse (if fmt = isoc then pt_isoc_day m p else Val (day, p)) (\<lambda>(day, p).
     bind_parse (pt_clock m p) (\<lambda>(hour, minute, sec, p).
     bind_parse (if fmt = isoc then pt_isoc_year m p else Val year) (\<lambda>year.
       if \<not> pt_valid year month day hour minute sec then Err
       else Val (sint (pt_time year month day hour minute sec)))))))"

lemma http_time_rest:
  "ngx_parse_http_time m =
     (case pt_find m 0 of (p, fmt) \<Rightarrow>
      let p = pt_skip m (Suc p) in
      if left_less m p 18 then Err
      else bind_parse (if fmt \<noteq> isoc then pt_day m p else Val (0, fmt, p)) (\<lambda>(day, fmt, p). pt_rest m day fmt p))"
  unfolding ngx_parse_http_time_def pt_rest_def ..

lemma pt_rest_ok:
  assumes "fmt = isoc \<Longrightarrow> p + 18 \<le> length m" "fmt = rfc822 \<Longrightarrow> p + 17 \<le> length m"
    "fmt = rfc850 \<Longrightarrow> p + 15 \<le> length m" "fmt \<noteq> pt_no"
  shows "pt_rest m day fmt p \<noteq> Fault"
proof
  assume F: "pt_rest m day fmt p = Fault"
  have len: "p + 15 \<le> length m" using assms by (cases fmt) auto
  have "pt_month m p \<noteq> Fault" using len by (intro pt_month_ok) simp
  moreover have "pt_year m fmt (p + 3) \<noteq> Fault" using assms by (intro pt_year_ok) auto
  ultimately obtain month year q where y: "pt_year m fmt (p + 3) = Val (year, q)" and
    F1: "bind_parse (if fmt = isoc then pt_isoc_day m q else Val (day, q)) (\<lambda>(day, p).
     bind_parse (pt_clock m p) (\<lambda>(hour, minute, sec, p).
     bind_parse (if fmt = isoc then pt_isoc_year m p else Val year) (\<lambda>year.
       if \<not> pt_valid year month day hour minute sec then Err
       else Val (sint (pt_time year month day hour minute sec))))) = Fault"
    using F by (auto simp: pt_rest_def bind_parse_Fault)
  note q = pt_year_Val [OF y]
  have "(if fmt = isoc then pt_isoc_day m q else Val (day, q)) \<noteq> Fault"
    using q assms pt_isoc_day_ok [of q m] by auto
  then obtain day' q' where d: "(if fmt = isoc then pt_isoc_day m q else Val (day, q)) = Val (day', q')" and
    F2: "bind_parse (pt_clock m q') (\<lambda>(hour, minute, sec, p).
     bind_parse (if fmt = isoc then pt_isoc_year m p else Val year) (\<lambda>year.
       if \<not> pt_valid year month day' hour minute sec then Err
       else Val (sint (pt_time year month day' hour minute sec)))) = Fault"
    using F1 by (auto simp: bind_parse_Fault)
  have q': "q' + 9 \<le> length m" "fmt = isoc \<Longrightarrow> q' + 14 \<le> length m"
    using d q assms pt_isoc_day_Val [of m q day' q'] by (cases fmt; auto)+
  then have "pt_clock m q' \<noteq> Fault" by (intro pt_clock_ok) simp
  then obtain h mi s q2 where c: "pt_clock m q' = Val (h, mi, s, q2)" and
    F3: "fmt = isoc" "pt_isoc_year m q2 = Fault"
    using F2 by (auto simp: bind_parse_Fault split: if_splits)
  from pt_clock_Val [OF c] q'(2) [OF F3(1)] have "pt_isoc_year m q2 \<noteq> Fault" by (intro pt_isoc_year_ok) simp
  with F3(2) show False by contradiction
qed

text \<open>
  C29: whatever bytes a client sends as a date, \<^verbatim>\<open>ngx_parse_http_time\<close> reads none outside of them:
  the three checks of the length that is left cover every later access, in each of the formats.
\<close>

theorem http_time_in_bounds: "ngx_parse_http_time m \<noteq> Fault"
proof -
  obtain p fmt where f: "pt_find m 0 = (p, fmt)" by force
  define q where "q = pt_skip m (Suc p)"
  show ?thesis
  proof (cases "left_less m q 18")
    case True
    then show ?thesis by (simp add: http_time_rest f q_def)
  next
    case False
    then have q: "q + 18 \<le> length m" by simp
    show ?thesis
    proof (cases "fmt = isoc")
      case True
      with q have "pt_rest m 0 isoc q \<noteq> Fault" by (intro pt_rest_ok) simp_all
      with False True show ?thesis by (simp add: http_time_rest f flip: q_def)
    next
      case not_isoc: False
      have "pt_day m q \<noteq> Fault" using q by (intro pt_day_ok) simp
      moreover have "pt_rest m day fmt' q' \<noteq> Fault" if "pt_day m q = Val (day, fmt', q')" for day fmt' q'
        using pt_day_Val [OF that] q by (intro pt_rest_ok) auto
      ultimately have "bind_parse (pt_day m q) (\<lambda>(day, fmt, p). pt_rest m day fmt p) \<noteq> Fault"
        by (auto simp: bind_parse_Fault)
      with False not_isoc show ?thesis by (simp add: http_time_rest f flip: q_def)
    qed
  qed
qed

section \<open>The calendar\<close>

text \<open>
  The reference: the Gregorian calendar by counting. \<open>days_before_year y\<close> are the days of the years
  0 to \<open>y - 1\<close>; months count from 0, days from 1.
\<close>

definition leap :: "nat \<Rightarrow> bool" where
  "leap y \<longleftrightarrow> 4 dvd y \<and> (\<not> 100 dvd y \<or> 400 dvd y)"

definition month_days :: "nat \<Rightarrow> nat \<Rightarrow> nat" where
  "month_days y k = (if k = 1 \<and> leap y then 29 else mday ! k)"

primrec days_before_year :: "nat \<Rightarrow> nat" where
  "days_before_year 0 = 0"
| "days_before_year (Suc y) = days_before_year y + (if leap y then 366 else 365)"

definition day_number :: "nat \<Rightarrow> nat \<Rightarrow> nat \<Rightarrow> int" where
  "day_number y k d = int (days_before_year y) + int (sum_list (map (month_days y) [0..<k])) + int d - 1"

definition epoch_seconds :: "nat \<Rightarrow> nat \<Rightarrow> nat \<Rightarrow> nat \<Rightarrow> nat \<Rightarrow> nat \<Rightarrow> int" where
  "epoch_seconds y k d h mi s =
     (day_number y k d - day_number 1970 0 1) * 86400 + int h * 3600 + int mi * 60 + int s"

lemma days_before_year_Suc:
  "days_before_year (Suc y) + y div 100 = 365 * Suc y + y div 4 + y div 400 + 1"
proof (induction y)
  case (Suc y)
  have "(Suc y div 4 :: nat) = (if 4 dvd Suc y then Suc (y div 4) else y div 4)"
    "(Suc y div 100 :: nat) = (if 100 dvd Suc y then Suc (y div 100) else y div 100)"
    "(Suc y div 400 :: nat) = (if 400 dvd Suc y then Suc (y div 400) else y div 400)"
    by (simp_all add: div_Suc dvd_eq_mod_eq_0)
  moreover have "(100 :: nat) dvd Suc y \<Longrightarrow> 4 dvd Suc y" "(400 :: nat) dvd Suc y \<Longrightarrow> 100 dvd Suc y"
    by presburger+
  ultimately show ?case using Suc by (auto simp: leap_def)
qed (simp add: leap_def)

text \<open>The days of a year in front of a month, counted from the end of the year or of the year before.\<close>

lemma months_from_march:
  "2 \<le> k \<Longrightarrow> k < 12 \<Longrightarrow> int (sum_list (map (month_days y) [0..<k])) =
    int (if leap y then 366 else 365) - 336 + 367 * (int k - 1) div 12"
proof (induction k rule: nat_induct_at_least)
  case base
  show ?case by (simp add: month_days_def mday_def numeral_2_eq_2)
next
  case (Suc k)
  then have "k = 2 \<or> k = 3 \<or> k = 4 \<or> k = 5 \<or> k = 6 \<or> k = 7 \<or> k = 8 \<or> k = 9 \<or> k = 10" by arith
  then have "int (month_days y k) = 367 * (int (Suc k) - 1) div 12 - 367 * (int k - 1) div 12"
    by (elim disjE) (simp_all add: month_days_def mday_def)
  with Suc show ?case by simp
qed

lemma gauss_march:
  assumes "2 \<le> k" "k < 12"
  shows "day_number y k d =
    365 * int y + int (y div 4) - int (y div 100) + int (y div 400) + 367 * (int k - 1) div 12 - 30 + int d - 1 + 60"
  using days_before_year_Suc [of y] months_from_march [OF assms, of y]
  by (simp add: day_number_def)

lemma gauss_january:
  assumes "k < 2"
  shows "day_number (Suc y) k d =
    365 * int y + int (y div 4) - int (y div 100) + int (y div 400) + 367 * (int k + 11) div 12 - 30 + int d - 1 + 60"
  using days_before_year_Suc [of y] assms
  by (auto simp: day_number_def less_2_cases_iff month_days_def mday_def)

lemma epoch_day: "day_number 1970 0 1 = 719528"
proof -
  have "days_before_year (Suc 1969) + 1969 div 100 = 365 * Suc 1969 + 1969 div 4 + 1969 div 400 + 1"
    by (rule days_before_year_Suc)
  then have "days_before_year (Suc 1969) = 719528" by simp
  then show ?thesis by (simp add: day_number_def del: days_before_year.simps)
qed

text \<open>The unsigned formula of the code computes the day number of the reference, for every year
  from 1 on.\<close>

lemma uint_year:
  assumes "y < 10000"
  shows "uint (of_nat y :: 64 word) = int y"
  using assms by (simp add: unsigned_of_nat take_bit_nat_eq_self)

lemma word_year_terms:
  assumes "y < 10000"
  shows "365 * (of_nat y :: 64 word) + of_nat y div 4 - of_nat y div 100 + of_nat y div 400 =
    of_int (365 * int y + int (y div 4) - int (y div 100) + int (y div 400))"
proof -
  have div: "(of_nat y :: 64 word) div numeral k = of_int (int (y div numeral k))"
    if "unat (numeral k :: 64 word) = numeral k" for k
  proof -
    have "unat (of_nat y :: 64 word) = y" using assms by (simp add: unsigned_of_nat take_bit_nat_eq_self)
    then have "unat ((of_nat y :: 64 word) div numeral k) = y div numeral k" by (simp only: unat_div that)
    moreover have "of_nat (unat ((of_nat y :: 64 word) div numeral k)) = (of_nat y :: 64 word) div numeral k"
      by simp
    ultimately show ?thesis by (simp only: of_int_of_nat_eq)
  qed
  show ?thesis by (simp add: div)
qed

lemma epoch_seconds_eq:
  "epoch_seconds y k d h mi s = (day_number y k d - 719528) * 86400 + int h * 3600 + int mi * 60 + int s"
  unfolding epoch_seconds_def epoch_day ..

lemma word_gauss:
  assumes "(w :: 64 word) = of_int e"
  shows "(w + of_int a - 30 + of_nat d - 1 - 719527 + 31 + 28) * 86400 + of_nat h * 3600 + of_nat mi * 60 + of_nat s =
    of_int ((e + a - 30 + int d - 1 + 60 - 719528) * 86400 + int h * 3600 + int mi * 60 + int s)"
  unfolding assms by simp

lemma pt_time_reference:
  assumes "1 \<le> y" "y < 10000" "k < 12"
  shows "pt_time (of_nat y) (int k) d h mi s = of_int (epoch_seconds y k d h mi s)"
proof (cases "2 \<le> k")
  case True
  then have "pt_time (of_nat y) (int k) d h mi s =
      (365 * of_nat y + of_nat y div 4 - of_nat y div 100 + of_nat y div 400
        + of_int (367 * (int k - 1) div 12) - 30 + of_nat d - 1 - 719527 + 31 + 28) * 86400
        + of_nat h * 3600 + of_nat mi * 60 + of_nat s"
    unfolding pt_time_def by (simp only: Let_def split: prod.split if_split) auto
  then show ?thesis
    unfolding word_gauss [OF word_year_terms [OF assms(2)]] epoch_seconds_eq gauss_march [OF True assms(3)] .
next
  case False
  then have k: "k < 2" by simp
  obtain x where y: "y = Suc x" using assms(1) by (cases y) auto
  then have x: "x < 10000" using assms(2) by simp
  have "pt_time (of_nat (Suc x)) (int k) d h mi s =
      (365 * of_nat x + of_nat x div 4 - of_nat x div 100 + of_nat x div 400
        + of_int (367 * (int k + 11) div 12) - 30 + of_nat d - 1 - 719527 + 31 + 28) * 86400
        + of_nat h * 3600 + of_nat mi * 60 + of_nat s"
    using k unfolding pt_time_def by (simp only: Let_def split: prod.split if_split) (auto simp: algebra_simps)
  then show ?thesis
    unfolding word_gauss [OF word_year_terms [OF x]] epoch_seconds_eq y gauss_january [OF k] .
qed

section \<open>Dates as text\<close>

definition two :: "nat \<Rightarrow> u_char list" where
  "two n = [ch_0 + of_nat (n div 10), ch_0 + of_nat (n mod 10)]"

definition four :: "nat \<Rightarrow> u_char list" where
  "four n = two (n div 100) @ two (n mod 100)"

definition month_name :: "nat \<Rightarrow> u_char list" where
  "month_name k = map str [''Jan'', ''Feb'', ''Mar'', ''Apr'', ''May'', ''Jun'', ''Jul'', ''Aug'', ''Sep'',
     ''Oct'', ''Nov'', ''Dec''] ! k"

definition clock :: "nat \<Rightarrow> nat \<Rightarrow> nat \<Rightarrow> u_char list" where
  "clock h mi s = ch_sp # two h @ ch_colon # two mi @ ch_colon # two s"

text \<open>The three formats, behind the day of the week.\<close>

definition rfc822_date :: "nat \<Rightarrow> nat \<Rightarrow> nat \<Rightarrow> nat \<Rightarrow> nat \<Rightarrow> nat \<Rightarrow> u_char list" where
  "rfc822_date y k d h mi s =
     [ch_comma, ch_sp] @ two d @ [ch_sp] @ month_name k @ [ch_sp] @ four y @ clock h mi s"

definition rfc850_date :: "nat \<Rightarrow> nat \<Rightarrow> nat \<Rightarrow> nat \<Rightarrow> nat \<Rightarrow> nat \<Rightarrow> u_char list" where
  "rfc850_date y k d h mi s =
     [ch_comma, ch_sp] @ two d @ [ch_dash] @ month_name k @ [ch_dash] @ two (y mod 100) @ clock h mi s"

definition isoc_date :: "nat \<Rightarrow> nat \<Rightarrow> nat \<Rightarrow> nat \<Rightarrow> nat \<Rightarrow> nat \<Rightarrow> u_char list" where
  "isoc_date y k d h mi s =
     [ch_sp] @ month_name k @ [ch_sp] @ (if d < 10 then [ch_sp, ch_0 + of_nat d] else two d)
     @ clock h mi s @ [ch_sp] @ four y"

definition valid_date :: "nat \<Rightarrow> nat \<Rightarrow> nat \<Rightarrow> nat \<Rightarrow> nat \<Rightarrow> nat \<Rightarrow> bool" where
  "valid_date y k d h mi s \<longleftrightarrow> 1 \<le> y \<and> y < 10000 \<and> k < 12 \<and> 1 \<le> d \<and> d \<le> month_days y k \<and> h < 24 \<and> mi < 60 \<and> s < 60"

lemma digit_byte:
  assumes "n < 10"
  shows "\<not> (ch_0 + of_nat n < ch_0 \<or> ch_0 + of_nat n > (ch_9 :: u_char))" "unat (ch_0 + of_nat n - ch_0 :: u_char) = n"
    "ch_0 + of_nat n \<noteq> ch_sp"
proof -
  have u: "unat (of_nat n :: u_char) = n" using assms by (simp add: unsigned_of_nat take_bit_nat_eq_self)
  then have v: "unat (ch_0 + of_nat n) = 48 + n" using assms by (subst unat_plus_if') simp_all
  show "unat (ch_0 + of_nat n - ch_0 :: u_char) = n" using u by simp
  show "\<not> (ch_0 + of_nat n < ch_0 \<or> ch_0 + of_nat n > (ch_9 :: u_char))"
    using assms v by (simp add: word_less_nat_alt)
  show "ch_0 + of_nat n \<noteq> ch_sp"
  proof
    assume "ch_0 + of_nat n = ch_sp"
    then have "unat (ch_0 + of_nat n) = unat ch_sp" by (rule arg_cong)
    with v show False by simp
  qed
qed

lemma digit_at_found: "p < length m \<Longrightarrow> m ! p = ch_0 + of_nat n \<Longrightarrow> n < 10 \<Longrightarrow> digit_at m p = Val n"
  using digit_byte [of n] by (simp add: digit_at_def rd_def del: add_diff_cancel_left')

lemma plus_Sucs:
  "p + 2 = Suc (Suc p)" "p + 3 = Suc (Suc (Suc p))" "p + 4 = Suc (Suc (Suc (Suc p)))"
  "p + 5 = Suc (Suc (Suc (Suc (Suc p))))" "p + 6 = Suc (Suc (Suc (Suc (Suc (Suc p)))))"
  "p + 7 = Suc (Suc (Suc (Suc (Suc (Suc (Suc p))))))" "p + 8 = Suc (Suc (Suc (Suc (Suc (Suc (Suc (Suc p)))))))"
  by simp_all

lemma digits2_found:
  assumes "found_at m p (two n)" "n < 100"
  shows "digits2 m p = Val n"
proof -
  have "digit_at m p = Val (n div 10)" "digit_at m (p + 1) = Val (n mod 10)"
    using assms by (simp_all add: two_def digit_at_found)
  then show ?thesis by (simp add: digits2_def)
qed

lemma digits4_split: "digits4 m p = bind_parse (digits2 m p) (\<lambda>a. bind_parse (digits2 m (p + 2)) (\<lambda>b. Val (a * 100 + b)))"
  by (cases "digit_at m p"; cases "digit_at m (p + 1)"; cases "digit_at m (p + 2)"; cases "digit_at m (p + 3)")
    (simp_all add: digits4_def digits2_def algebra_simps plus_Sucs)

lemma length_two [simp]: "length (two n) = 2"
  by (simp add: two_def)

lemma digits4_found:
  assumes "found_at m p (four n)" "n < 10000"
  shows "digits4 m p = Val n"
proof -
  have "digits2 m p = Val (n div 100)" "digits2 m (p + 2) = Val (n mod 100)"
    using assms by (auto simp: four_def intro!: digits2_found)
  then show ?thesis by (simp add: digits4_split)
qed

lemma clock_found:
  assumes "found_at m p (clock h mi s)" "h < 24" "mi < 60" "s < 60"
  shows "pt_clock m p = Val (h, mi, s, p + 7)"
proof -
  have "expect m p ch_sp = Val (p + 1)" "digits2 m (p + 1) = Val h" "expect m (p + 3) ch_colon = Val (p + 4)"
    "digits2 m (p + 4) = Val mi" "expect m (p + 6) ch_colon = Val (p + 7)" "digits2 m (p + 7) = Val s"
    using assms by (auto simp: clock_def expect_Val plus_Sucs intro!: digits2_found)
  then show ?thesis by (simp add: pt_clock_def plus_Sucs)
qed

lemma month_found:
  assumes "found_at m p (month_name k)" "k < 12"
  shows "pt_month m p = Val (int k)"
proof -
  have "k = 0 \<or> k = 1 \<or> k = 2 \<or> k = 3 \<or> k = 4 \<or> k = 5 \<or> k = 6 \<or> k = 7 \<or> k = 8 \<or> k = 9 \<or> k = 10 \<or> k = 11"
    using assms(2) by arith
  then show ?thesis
    using assms(1) by (elim disjE) (simp_all add: month_name_def pt_month_def rd_def)
qed

section \<open>Reading a date\<close>

lemma found_at_length: "found_at m p xs \<Longrightarrow> xs \<noteq> [] \<Longrightarrow> p + length xs \<le> length m"
  using found_at_nth [of m p xs "length xs - 1"] by (cases xs) auto

lemma pt_find_word:
  assumes "\<forall>c\<in>set w. c \<noteq> ch_comma \<and> c \<noteq> ch_sp" "c = ch_comma \<or> c = ch_sp"
  shows "pt_find (v @ w @ c # t) (length v) = (length v + length w, if c = ch_sp then isoc else pt_no)"
  using assms(1)
proof (induction w arbitrary: v)
  case Nil
  show ?case using assms(2) by (subst pt_find.simps) auto
next
  case (Cons a w)
  then show ?case using Cons.IH [of "v @ [a]"] by (subst pt_find.simps) (simp add: nth_append)
qed

lemma pt_skip_stop: "p < length m \<Longrightarrow> m ! p \<noteq> ch_sp \<Longrightarrow> pt_skip m p = p"
  by (subst pt_skip.simps) simp

lemma pt_skip_one: "p < length m \<Longrightarrow> m ! p = ch_sp \<Longrightarrow> Suc p < length m \<Longrightarrow> m ! Suc p \<noteq> ch_sp \<Longrightarrow> pt_skip m p = Suc p"
  by (subst pt_skip.simps) (simp add: pt_skip_stop)

text \<open>A valid date passes the checks, and its number of seconds fits a signed 64-bit integer.\<close>

lemma month_days_le: "k < 12 \<Longrightarrow> month_days y k \<le> 31"
proof -
  assume "k < 12"
  then have "k \<in> set [0..<12]" by simp
  moreover have "list_all (\<lambda>k. mday ! k \<le> 31) [0..<12]" by code_simp
  ultimately show ?thesis by (auto simp: month_days_def list_all_iff)
qed

lemma valid_checks:
  assumes "valid_date y k d h mi s"
  shows "pt_valid (of_nat y) (int k) d h mi s"
proof -
  have y: "unat (of_nat y :: 64 word) = y"
    using assms by (simp add: valid_date_def unsigned_of_nat take_bit_nat_eq_self)
  have "(of_nat y :: 64 word) AND 3 = take_bit 2 (of_nat y)" by (simp add: take_bit_eq_mask mask_eq_decr_exp)
  then have "unat ((of_nat y :: 64 word) AND 3) = take_bit 2 y" by (simp only: unsigned_take_bit_eq y)
  then have and3: "(of_nat y :: 64 word) AND 3 \<noteq> 0 \<longleftrightarrow> \<not> 4 dvd y"
    by (simp add: take_bit_eq_mod dvd_eq_mod_eq_0 flip: unat_eq_0)
  have md: "(of_nat y :: 64 word) mod numeral n = 0 \<longleftrightarrow> numeral n dvd y"
    if "unat (numeral n :: 64 word) = numeral n" for n
  proof -
    have "unat ((of_nat y :: 64 word) mod numeral n) = y mod numeral n" by (simp only: unat_mod y that)
    then show ?thesis by (simp add: dvd_eq_mod_eq_0 flip: unat_eq_0)
  qed
  show ?thesis
    using assms by (auto simp: pt_valid_def valid_date_def month_days_def leap_def and3 md mday_def split: if_splits)
qed

lemma days_before_year_le: "days_before_year y \<le> 366 * y"
  by (induction y) auto

lemma epoch_seconds_range:
  assumes "valid_date y k d h mi s"
  shows "sint (of_int (epoch_seconds y k d h mi s) :: 64 word) = epoch_seconds y k d h mi s"
proof -
  have v: "y < 10000" "k < 12" "1 \<le> d" "d \<le> 31" "h < 24" "mi < 60" "s < 60"
    using assms month_days_le [of k y] by (auto simp: valid_date_def)
  have "sum_list (map (month_days y) [0..<k]) \<le> sum_list (map (\<lambda>_. 31) [0..<k])"
    using v(2) by (intro sum_list_mono) (auto intro!: month_days_le)
  then have "sum_list (map (month_days y) [0..<k]) \<le> 31 * 12" using v(2) by (simp add: sum_list_triv)
  moreover have "days_before_year y \<le> 366 * 10000" using days_before_year_le [of y] v(1) by simp
  ultimately have "0 \<le> day_number y k d \<and> day_number y k d \<le> 3660403" using v(3,4) by (simp add: day_number_def)
  then have "- (2 ^ 63) \<le> epoch_seconds y k d h mi s \<and> epoch_seconds y k d h mi s < 2 ^ 63"
    using v(5-7) by (simp add: epoch_seconds_eq)
  then show ?thesis by (simp add: signed_of_int signed_take_bit_int_eq_self)
qed

lemma valid_result:
  assumes "valid_date y k d h mi s"
  shows "sint (pt_time (of_nat y) (int k) d h mi s) = epoch_seconds y k d h mi s"
proof -
  have "1 \<le> y" "y < 10000" "k < 12" using assms by (simp_all add: valid_date_def)
  then show ?thesis by (simp only: pt_time_reference epoch_seconds_range [OF assms])
qed

lemma length_month_name [simp]: "k < 12 \<Longrightarrow> length (month_name k) = 3"
proof -
  assume "k < 12"
  then have "k \<in> set [0..<12]" by simp
  moreover have "list_all (\<lambda>k. length (month_name k) = 3) [0..<12]" by code_simp
  ultimately show ?thesis by (auto simp: list_all_iff)
qed

lemma length_four [simp]: "length (four n) = 4"
  by (simp add: four_def)

lemma length_clock [simp]: "length (clock h mi s) = 9"
  by (simp add: clock_def)

lemma valid_bounds:
  assumes "valid_date y k d h mi s"
  shows "y < 10000" "k < 12" "d < 100" "h < 24" "mi < 60" "s < 60"
  using assms month_days_le [of k y] by (auto simp: valid_date_def)

text \<open>The parts behind the day, in the formats with a comma.\<close>

lemma rest_rfc822:
  assumes v: "valid_date y k d h mi s"
    and f: "found_at m p (month_name k @ [ch_sp] @ four y @ clock h mi s)"
  shows "pt_rest m d rfc822 p = Val (epoch_seconds y k d h mi s)"
proof -
  note b = valid_bounds [OF v]
  from f b(2) have "found_at m p (month_name k)" "rd m (p + 3) = Val ch_sp" "found_at m (p + 4) (four y)"
    "found_at m (p + 8) (clock h mi s)"
    by (simp_all add: rd_def plus_Sucs)
  moreover from this b have "digits4 m (p + 4) = Val y" by (simp add: digits4_found)
  ultimately have "pt_month m p = Val (int k)" "pt_year m rfc822 (p + 3) = Val (of_nat y, p + 8)"
    "pt_clock m (p + 8) = Val (h, mi, s, p + 8 + 7)"
    using b by (simp_all add: month_found clock_found pt_year_def add.commute)
  with valid_checks [OF v] valid_result [OF v] show ?thesis by (simp add: pt_rest_def)
qed

lemma short_year:
  assumes "1970 \<le> y" "y < (2070 :: nat)"
  shows "y mod 100 + (if y mod 100 < 70 then 2000 else 1900) = y"
proof (cases "y < 2000")
  case True
  then have "y = (y - 1900) + 19 * 100" "y - 1900 < 100" "70 \<le> y - 1900" using assms by simp_all
  then have "y mod 100 = y - 1900" by (metis mod_less mod_mult_self1 mult.commute)
  with \<open>70 \<le> y - 1900\<close> show ?thesis by simp
next
  case False
  then have "y = (y - 2000) + 20 * 100" "y - 2000 < 100" "y - 2000 < 70" using assms by simp_all
  then have "y mod 100 = y - 2000" by (metis mod_less mod_mult_self1 mult.commute)
  with \<open>y - 2000 < 70\<close> False show ?thesis by simp
qed

lemma rest_rfc850:
  assumes v: "valid_date y k d h mi s" and y: "1970 \<le> y" "y < 2070"
    and f: "found_at m p (month_name k @ [ch_dash] @ two (y mod 100) @ clock h mi s)"
  shows "pt_rest m d rfc850 p = Val (epoch_seconds y k d h mi s)"
proof -
  note b = valid_bounds [OF v]
  from f b(2) have "found_at m p (month_name k)" "rd m (p + 3) = Val ch_dash" "found_at m (p + 4) (two (y mod 100))"
    "found_at m (p + 6) (clock h mi s)"
    by (simp_all add: rd_def plus_Sucs)
  moreover from this have "digits2 m (p + 4) = Val (y mod 100)" by (simp add: digits2_found)
  moreover note short_year [OF y]
  ultimately have "pt_month m p = Val (int k)" "pt_year m rfc850 (p + 3) = Val (of_nat y, p + 6)"
    "pt_clock m (p + 6) = Val (h, mi, s, p + 6 + 7)"
    using b by (simp_all add: month_found clock_found pt_year_def add.commute del: of_nat_add)
  with valid_checks [OF v] valid_result [OF v] show ?thesis by (simp add: pt_rest_def)
qed

lemma found_at_drop: "found_at m p (xs @ ys) \<Longrightarrow> length xs = n \<Longrightarrow> found_at m (p + n) ys"
  by simp

lemma isoc_day_found:
  assumes "found_at m p ((if d < 10 then [ch_sp, ch_0 + of_nat d] else two d) @ [ch_sp])" "d < 100" "p + 16 \<le> length m"
  shows "pt_isoc_day m p = Val (d, p + 2)"
proof (cases "d < 10")
  case True
  with assms(1) have "rd m p = Val ch_sp" "digit_at m (Suc p) = Val d" "rd m (Suc (Suc p)) = Val ch_sp"
    by (simp_all add: rd_def digit_at_found)
  with assms(3) show ?thesis by (simp add: pt_isoc_day_def)
next
  case False
  with assms(1,2) digit_byte [of "d div 10"] digit_byte [of "d mod 10"]
  have "rd m p = Val (ch_0 + of_nat (d div 10))" "ch_0 + of_nat (d div 10) \<noteq> ch_sp" "digit_at m p = Val (d div 10)"
    "rd m (Suc p) = Val (ch_0 + of_nat (d mod 10))" "ch_0 + of_nat (d mod 10) \<noteq> ch_sp" "digit_at m (Suc p) = Val (d mod 10)"
    by (simp_all add: rd_def two_def digit_at_found)
  with assms(3) show ?thesis by (simp add: pt_isoc_day_def Let_def)
qed

lemma rest_isoc:
  assumes v: "valid_date y k d h mi s"
    and f: "found_at m p (month_name k @ [ch_sp] @ (if d < 10 then [ch_sp, ch_0 + of_nat d] else two d)
      @ clock h mi s @ [ch_sp] @ four y)"
  shows "pt_rest m day isoc p = Val (epoch_seconds y k d h mi s)"
proof -
  note b = valid_bounds [OF v]
  define dd where "dd = (if d < 10 then [ch_sp, ch_0 + of_nat d] else two d)"
  have dd: "length dd = 2" by (simp add: dd_def)
  note f = f [folded dd_def]
  have len: "p + 20 \<le> length m" using found_at_length [OF f] b(2) dd by simp
  have f4: "found_at m (p + 4) (dd @ clock h mi s @ [ch_sp] @ four y)"
  proof -
    have "found_at m p ((month_name k @ [ch_sp]) @ dd @ clock h mi s @ [ch_sp] @ four y)"
      using f by (simp only: append_assoc)
    then show ?thesis by (rule found_at_drop) (use b(2) in simp)
  qed
  have f6: "found_at m (p + 4 + 2) (clock h mi s @ [ch_sp] @ four y)" using found_at_drop [OF f4 dd] .
  have f15: "found_at m (p + 4 + 2 + 9) ([ch_sp] @ four y)" using found_at_drop [OF f6 length_clock] .
  have "found_at m (p + 4) (dd @ [ch_sp])" using f4 f6 dd by (simp add: clock_def)
  then have day: "pt_isoc_day m (p + 4) = Val (d, p + 4 + 2)"
    unfolding dd_def using b(3) len by (intro isoc_day_found) simp_all
  have "found_at m (p + 4 + 2) (clock h mi s)" using f6 by simp
  then have clk: "pt_clock m (p + 4 + 2) = Val (h, mi, s, p + 4 + 2 + 7)" using b by (intro clock_found)
  have "expect m (p + 4 + 2 + 7 + 2) ch_sp = Val (Suc (p + 4 + 2 + 9))" "digits4 m (Suc (p + 4 + 2 + 9)) = Val y"
    using f15 b(1) by (simp_all add: expect_Val digits4_found)
  then have year: "pt_isoc_year m (p + 4 + 2 + 7) = Val (of_nat y)" by (simp add: pt_isoc_year_def)
  have "pt_month m p = Val (int k)" using f b(2) by (intro month_found) simp_all
  moreover have "pt_year m isoc (p + 3) = Val (0, p + 4)" by (simp add: pt_year_def)
  ultimately show ?thesis
    unfolding pt_rest_def using day clk year valid_checks [OF v] valid_result [OF v] by simp
qed

text \<open>The way from the start of the text to the day or the month.\<close>

lemma http_time_comma:
  assumes "\<forall>c\<in>set w. c \<noteq> ch_comma \<and> c \<noteq> ch_sp" "c \<noteq> ch_sp" "18 \<le> length (c # t)"
  shows "ngx_parse_http_time (w @ ch_comma # ch_sp # c # t) =
    bind_parse (pt_day (w @ ch_comma # ch_sp # c # t) (length w + 2))
      (\<lambda>(day, fmt, p). pt_rest (w @ ch_comma # ch_sp # c # t) day fmt p)"
proof -
  let ?m = "w @ ch_comma # ch_sp # c # t"
  have "pt_find ?m 0 = (length w, pt_no)" using pt_find_word [of w ch_comma "[]"] assms(1) by simp
  moreover have "pt_skip ?m (Suc (length w)) = length w + 2"
    using assms(2) by (subst pt_skip_one) (simp_all add: nth_append)
  ultimately show ?thesis using assms(3) by (simp add: http_time_rest)
qed

lemma http_time_blank:
  assumes "\<forall>c\<in>set w. c \<noteq> ch_comma \<and> c \<noteq> ch_sp" "c \<noteq> ch_sp" "18 \<le> length (c # t)"
  shows "ngx_parse_http_time (w @ ch_sp # c # t) = pt_rest (w @ ch_sp # c # t) 0 isoc (length w + 1)"
proof -
  let ?m = "w @ ch_sp # c # t"
  have "pt_find ?m 0 = (length w, isoc)" using pt_find_word [of w ch_sp "[]"] assms(1) by simp
  moreover have "pt_skip ?m (Suc (length w)) = length w + 1"
    using assms(2) by (subst pt_skip_stop) (simp_all add: nth_append)
  ultimately show ?thesis using assms(3) by (simp add: http_time_rest)
qed

lemma pt_day_found:
  assumes "found_at m p (two d @ [sep])" "d < 100" "sep = ch_sp \<and> p + 20 \<le> length m \<or> sep = ch_dash"
  shows "pt_day m p = Val (d, if sep = ch_sp then rfc822 else rfc850, p + 3)"
proof -
  have "digits2 m p = Val d" "rd m (p + 2) = Val sep" using assms(1,2) by (simp_all add: digits2_found rd_def)
  with assms(3) show ?thesis by (auto simp: pt_day_def)
qed

lemma two_first:
  assumes "d < 100"
  shows "two d = (ch_0 + of_nat (d div 10)) # [ch_0 + of_nat (d mod 10)]" "ch_0 + of_nat (d div 10) \<noteq> ch_sp"
  using assms digit_byte(3) [of "d div 10"] by (simp_all add: two_def)

lemma rfc822_reads:
  assumes v: "valid_date y k d h mi s" and w: "\<forall>c\<in>set w. c \<noteq> ch_comma \<and> c \<noteq> ch_sp"
  shows "ngx_parse_http_time (w @ rfc822_date y k d h mi s @ t) = Val (epoch_seconds y k d h mi s)"
proof -
  note b = valid_bounds [OF v]
  note first = two_first [OF b(3)]
  let ?r = "month_name k @ [ch_sp] @ four y @ clock h mi s"
  let ?m = "w @ [ch_comma, ch_sp] @ (two d @ [ch_sp] @ ?r) @ t"
  have f: "found_at ?m (length w + 2) (two d @ [ch_sp] @ ?r)"
    using found_at_whole [of "w @ [ch_comma, ch_sp]" "two d @ [ch_sp] @ ?r" t] by simp
  have "pt_day ?m (length w + 2) = Val (d, rfc822, length w + 2 + 3)"
    using pt_day_found [of ?m "length w + 2" d ch_sp] f b by simp
  moreover have "found_at ?m (length w + 2 + 3) ?r"
    using found_at_drop [of ?m "length w + 2" "two d @ [ch_sp]" ?r 3] f by simp
  ultimately show ?thesis
    using http_time_comma [OF w first(2), of "(ch_0 + of_nat (d mod 10)) # [ch_sp] @ ?r @ t"] rest_rfc822 [OF v] b(2)
    by (simp add: rfc822_date_def first(1) del: found_at_append)
qed

lemma rfc850_reads:
  assumes v: "valid_date y k d h mi s" and w: "\<forall>c\<in>set w. c \<noteq> ch_comma \<and> c \<noteq> ch_sp" and y: "1970 \<le> y" "y < 2070"
  shows "ngx_parse_http_time (w @ rfc850_date y k d h mi s @ t) = Val (epoch_seconds y k d h mi s)"
proof -
  note b = valid_bounds [OF v]
  note first = two_first [OF b(3)]
  let ?r = "month_name k @ [ch_dash] @ two (y mod 100) @ clock h mi s"
  let ?m = "w @ [ch_comma, ch_sp] @ (two d @ [ch_dash] @ ?r) @ t"
  have f: "found_at ?m (length w + 2) (two d @ [ch_dash] @ ?r)"
    using found_at_whole [of "w @ [ch_comma, ch_sp]" "two d @ [ch_dash] @ ?r" t] by simp
  have "pt_day ?m (length w + 2) = Val (d, rfc850, length w + 2 + 3)"
    using pt_day_found [of ?m "length w + 2" d ch_dash] f b by simp
  moreover have "found_at ?m (length w + 2 + 3) ?r"
    using found_at_drop [of ?m "length w + 2" "two d @ [ch_dash]" ?r 3] f by simp
  ultimately show ?thesis
    using http_time_comma [OF w first(2), of "(ch_0 + of_nat (d mod 10)) # [ch_dash] @ ?r @ t"]
      rest_rfc850 [OF v y] b(2)
    by (simp add: rfc850_date_def first(1) del: found_at_append)
qed

lemma month_name_first: "k < 12 \<Longrightarrow> \<exists>c r. month_name k = c # r \<and> c \<noteq> ch_sp \<and> length r = 2"
proof -
  assume "k < 12"
  then have "k \<in> set [0..<12]" by simp
  moreover have "list_all (\<lambda>k. month_name k \<noteq> [] \<and> hd (month_name k) \<noteq> ch_sp \<and> length (tl (month_name k)) = 2) [0..<12]"
    by code_simp
  ultimately have "month_name k \<noteq> [] \<and> hd (month_name k) \<noteq> ch_sp \<and> length (tl (month_name k)) = 2"
    unfolding list_all_iff by blast
  then show ?thesis by (cases "month_name k") auto
qed

lemma isoc_reads:
  assumes v: "valid_date y k d h mi s" and w: "\<forall>c\<in>set w. c \<noteq> ch_comma \<and> c \<noteq> ch_sp"
  shows "ngx_parse_http_time (w @ isoc_date y k d h mi s @ t) = Val (epoch_seconds y k d h mi s)"
proof -
  note b = valid_bounds [OF v]
  let ?dd = "if d < 10 then [ch_sp, ch_0 + of_nat d] else two d"
  let ?r = "[ch_sp] @ ?dd @ clock h mi s @ [ch_sp] @ four y"
  obtain c r where c: "month_name k = c # r" "c \<noteq> ch_sp" "length r = 2" using month_name_first [OF b(2)] by blast
  have "found_at (w @ [ch_sp] @ (month_name k @ ?r) @ t) (length w + 1) (month_name k @ ?r)"
    using found_at_whole [of "w @ [ch_sp]" "month_name k @ ?r" t] by simp
  then have "pt_rest (w @ [ch_sp] @ (month_name k @ ?r) @ t) 0 isoc (length w + 1) = Val (epoch_seconds y k d h mi s)"
    using rest_isoc [OF v] by (simp only: append_assoc)
  then show ?thesis
    using http_time_blank [OF w c(2), of "r @ ?r @ t"] c by (simp add: isoc_date_def)
qed

text \<open>
  C27: a date means what the calendar says. In each of the three formats, any day of the week, any
  valid date and any text behind it are read as the number of seconds from the start of 1970,
  counted day by day over the Gregorian calendar: for the years 1 to 9999, and for the years 1970 to
  2069 in the format with two digits.
\<close>

theorem http_time_reads_dates:
  assumes "valid_date y k d h mi s" and "list_all (\<lambda>c. c \<noteq> ch_comma \<and> c \<noteq> ch_sp) w"
  shows "ngx_parse_http_time (w @ rfc822_date y k d h mi s @ t) = Val (epoch_seconds y k d h mi s)
    \<and> ngx_parse_http_time (w @ isoc_date y k d h mi s @ t) = Val (epoch_seconds y k d h mi s)
    \<and> (1970 \<le> y \<and> y < 2070 \<longrightarrow>
         ngx_parse_http_time (w @ rfc850_date y k d h mi s @ t) = Val (epoch_seconds y k d h mi s))"
  using assms by (simp add: rfc822_reads isoc_reads rfc850_reads list_all_iff)

theorem http_time_reads_dates_witness:
  "ngx_parse_http_time (str ''Sun, 06 Nov 1994 08:49:37 GMT'') = Val 784111777
   \<and> ngx_parse_http_time (str ''Sunday, 06-Nov-94 08:49:37 GMT'') = Val 784111777
   \<and> ngx_parse_http_time (str ''Sun Nov  6 08:49:37 1994'') = Val 784111777"
proof -
  have v: "valid_date 1994 10 6 8 49 37" by code_simp
  have e: "epoch_seconds 1994 10 6 8 49 37 = 784111777"
    by (simp add: epoch_seconds_eq gauss_march)
  have "str ''Sun, 06 Nov 1994 08:49:37 GMT'' = str ''Sun'' @ rfc822_date 1994 10 6 8 49 37 @ str '' GMT''"
    "str ''Sunday, 06-Nov-94 08:49:37 GMT'' = str ''Sunday'' @ rfc850_date 1994 10 6 8 49 37 @ str '' GMT''"
    "str ''Sun Nov  6 08:49:37 1994'' = str ''Sun'' @ isoc_date 1994 10 6 8 49 37 @ []"
    "list_all (\<lambda>c. c \<noteq> ch_comma \<and> c \<noteq> ch_sp) (str ''Sun'')" "list_all (\<lambda>c. c \<noteq> ch_comma \<and> c \<noteq> ch_sp) (str ''Sunday'')"
    by code_simp+
  then show ?thesis using http_time_reads_dates [OF v] http_time_reads_dates [OF v, of "str ''Sun''" "[]"] e
    by (simp del: str_simps)
qed

text \<open>
  The day of the month is checked against the length of the month only: a day 0 is accepted, and
  counts as the last day of the month before.
\<close>

lemma http_time_day_zero:
  "ngx_parse_http_time (str ''Sun, 00 Jan 1970 00:00:00'') = Val (- 86400)"
  by code_simp

end
