(* ===== verification/Ngx_Parse.thy ===== *)
theory Ngx_Parse
  imports Ngx_Number
begin

text \<open>
  Sizes, offsets and times of the configuration, from
  \<^verbatim>\<open>src/reference/nginx-master/src/core/ngx_parse.c\<close>: \<^verbatim>\<open>ngx_parse_size\<close>,
  \<^verbatim>\<open>ngx_parse_offset\<close> and \<^verbatim>\<open>ngx_parse_time\<close>, on a 64-bit platform. The line is the list of
  its bytes; as in \<^verbatim>\<open>Ngx_Number\<close>, a signed result outside the 64-bit range is \<open>None\<close>.
\<close>

section \<open>Sizes and offsets\<close>

text \<open>The switch over the unit: whether it is dropped from the line, \<^verbatim>\<open>max\<close> and \<^verbatim>\<open>scale\<close>.\<close>

definition size_unit :: "u_char \<Rightarrow> bool \<times> int \<times> int" where
  "size_unit unit =
     (if unit = ch_K \<or> unit = ch_k then (True, NGX_MAX_SIZE_T_VALUE div 1024, 1024)
      else if unit = ch_M \<or> unit = ch_m then (True, NGX_MAX_SIZE_T_VALUE div (1024 * 1024), 1024 * 1024)
      else (False, NGX_MAX_SIZE_T_VALUE, 1))"

definition offset_unit :: "u_char \<Rightarrow> bool \<times> int \<times> int" where
  "offset_unit unit =
     (if unit = ch_K \<or> unit = ch_k then (True, NGX_MAX_OFF_T_VALUE div 1024, 1024)
      else if unit = ch_M \<or> unit = ch_m then (True, NGX_MAX_OFF_T_VALUE div (1024 * 1024), 1024 * 1024)
      else if unit = ch_G \<or> unit = ch_g then
        (True, NGX_MAX_OFF_T_VALUE div (1024 * 1024 * 1024), 1024 * 1024 * 1024)
      else (False, NGX_MAX_OFF_T_VALUE, 1))"

definition ngx_parse_size :: "u_char list \<Rightarrow> int option" where
  "ngx_parse_size line =
     (if line = [] then Some NGX_ERROR
      else (case size_unit (last line) of (unit, lim, scale) \<Rightarrow>
        Option.bind (ngx_atosz (if unit then butlast line else line)) (\<lambda>size.
          if size = NGX_ERROR \<or> size > lim then Some NGX_ERROR else int64 (size * scale))))"

definition ngx_parse_offset :: "u_char list \<Rightarrow> int option" where
  "ngx_parse_offset line =
     (if line = [] then Some NGX_ERROR
      else (case offset_unit (last line) of (unit, lim, scale) \<Rightarrow>
        Option.bind (ngx_atoof (if unit then butlast line else line)) (\<lambda>offset.
          if offset = NGX_ERROR \<or> offset > lim then Some NGX_ERROR else int64 (offset * scale))))"

section \<open>Times\<close>

text \<open>The enumerators of \<^verbatim>\<open>step\<close>, in their order.\<close>

abbreviation (input) st_start :: nat where "st_start \<equiv> 0"
abbreviation (input) st_year :: nat where "st_year \<equiv> 1"
abbreviation (input) st_month :: nat where "st_month \<equiv> 2"
abbreviation (input) st_week :: nat where "st_week \<equiv> 3"
abbreviation (input) st_day :: nat where "st_day \<equiv> 4"
abbreviation (input) st_hour :: nat where "st_hour \<equiv> 5"
abbreviation (input) st_min :: nat where "st_min \<equiv> 6"
abbreviation (input) st_sec :: nat where "st_sec \<equiv> 7"
abbreviation (input) st_msec :: nat where "st_msec \<equiv> 8"
abbreviation (input) st_last :: nat where "st_last \<equiv> 9"

text \<open>The switch over the unit: the next step, \<^verbatim>\<open>max\<close>, \<^verbatim>\<open>scale\<close> and the rest of the line,
  or \<open>None\<close> for the error.\<close>

definition time_unit :: "bool \<Rightarrow> nat \<Rightarrow> u_char \<Rightarrow> u_char list \<Rightarrow> (nat \<times> int \<times> int \<times> u_char list) option" where
  "time_unit is_sec step c p =
     (if c = ch_y then
        (if step > st_start then None
         else Some (st_year, NGX_MAX_INT_T_VALUE div (60 * 60 * 24 * 365), 60 * 60 * 24 * 365, p))
      else if c = ch_M then
        (if step \<ge> st_month then None
         else Some (st_month, NGX_MAX_INT_T_VALUE div (60 * 60 * 24 * 30), 60 * 60 * 24 * 30, p))
      else if c = ch_w then
        (if step \<ge> st_week then None
         else Some (st_week, NGX_MAX_INT_T_VALUE div (60 * 60 * 24 * 7), 60 * 60 * 24 * 7, p))
      else if c = ch_d then
        (if step \<ge> st_day then None
         else Some (st_day, NGX_MAX_INT_T_VALUE div (60 * 60 * 24), 60 * 60 * 24, p))
      else if c = ch_h then
        (if step \<ge> st_hour then None
         else Some (st_hour, NGX_MAX_INT_T_VALUE div (60 * 60), 60 * 60, p))
      else if c = ch_m then
        (if p \<noteq> [] \<and> hd p = ch_s then
           (if is_sec \<or> step \<ge> st_msec then None else Some (st_msec, NGX_MAX_INT_T_VALUE, 1, tl p))
         else if step \<ge> st_min then None
         else Some (st_min, NGX_MAX_INT_T_VALUE div 60, 60, p))
      else if c = ch_s then
        (if step \<ge> st_sec then None else Some (st_sec, NGX_MAX_INT_T_VALUE, 1, p))
      else if c = ch_sp then
        (if step \<ge> st_sec then None else Some (st_last, NGX_MAX_INT_T_VALUE, 1, p))
      else None)"

text \<open>What follows the switch: the scale in milliseconds, the two checks and the new total; the inner
  option is the error.\<close>

definition time_add :: "bool \<Rightarrow> nat \<Rightarrow> int \<Rightarrow> int \<Rightarrow> int \<Rightarrow> int \<Rightarrow> int option option" where
  "time_add is_sec step lim scale value tot =
     (let scaled = step \<noteq> st_msec \<and> \<not> is_sec in
      Option.bind (int64 (if scaled then scale * 1000 else scale)) (\<lambda>scale.
      let lim = (if scaled then lim div 1000 else lim) in
      if value > lim then Some None
      else Option.bind (int64 (value * scale)) (\<lambda>value.
        if tot > NGX_MAX_INT_T_VALUE - value then Some None
        else map_option Some (int64 (tot + value)))))"

text \<open>The code behind the loop.\<close>

definition time_end :: "bool \<Rightarrow> bool \<Rightarrow> int \<Rightarrow> int \<Rightarrow> int option" where
  "time_end is_sec valid value tot =
     (if \<not> valid then Some NGX_ERROR
      else if \<not> is_sec \<and> value > NGX_MAX_INT_T_VALUE div 1000 then Some NGX_ERROR
      else Option.bind (int64 (if is_sec then value else value * 1000)) (\<lambda>value.
        if tot > NGX_MAX_INT_T_VALUE - value then Some NGX_ERROR else int64 (tot + value)))"

function time_loop :: "bool \<Rightarrow> nat \<Rightarrow> bool \<Rightarrow> int \<Rightarrow> int \<Rightarrow> u_char list \<Rightarrow> int option" where
  "time_loop is_sec step valid value tot [] = time_end is_sec valid value tot"
| "time_loop is_sec step valid value tot (c # p) =
     (if is_digit c then
        (if value \<ge> NGX_MAX_INT_T_VALUE div 10
            \<and> (value > NGX_MAX_INT_T_VALUE div 10 \<or> digit c > NGX_MAX_INT_T_VALUE mod 10)
         then Some NGX_ERROR
         else Option.bind (int64 (value * 10 + digit c)) (\<lambda>value. time_loop is_sec step True value tot p))
      else (case time_unit is_sec step c p of
          None \<Rightarrow> Some NGX_ERROR
        | Some (step', lim, scale, p') \<Rightarrow>
            (case time_add is_sec step' lim scale value tot of
               None \<Rightarrow> None
             | Some None \<Rightarrow> Some NGX_ERROR
             | Some (Some tot') \<Rightarrow>
                 time_loop is_sec step' valid 0 tot' (dropWhile (\<lambda>c. c = ch_sp) p'))))"
  by pat_completeness auto
termination
proof (relation "measure (\<lambda>(is_sec, step, valid, value, tot, p). length p)", goal_cases)
  case (3 is_sec step valid v tot c p a step' y lim z scale p')
  then have "length p' \<le> length p" by (auto simp: time_unit_def split: if_splits)
  then show ?case using length_dropWhile_le [of "\<lambda>c. c = ch_sp" p'] by simp
qed auto

definition ngx_parse_time :: "u_char list \<Rightarrow> bool \<Rightarrow> int option" where
  "ngx_parse_time line is_sec = time_loop is_sec (if is_sec then st_start else st_month) False 0 0 line"

section \<open>What the lines mean\<close>

text \<open>
  The reference is a grammar in unbounded arithmetic, with the units as tables of texts and factors of their own.
  \<open>size_means units line n\<close>: the line is a decimal number followed by a unit of the table, and n is their product.
\<close>

definition decimal :: "u_char list \<Rightarrow> int" where
  "decimal ds = foldl (\<lambda>n c. 10 * n + (uint c - 48)) 0 ds"

definition size_units :: "(u_char list \<times> int) list" where
  "size_units = [([], 1), (str ''k'', 2 ^ 10), (str ''K'', 2 ^ 10), (str ''m'', 2 ^ 20), (str ''M'', 2 ^ 20)]"

definition offset_units :: "(u_char list \<times> int) list" where
  "offset_units = size_units @ [(str ''g'', 2 ^ 30), (str ''G'', 2 ^ 30)]"

definition size_means :: "(u_char list \<times> int) list \<Rightarrow> u_char list \<Rightarrow> int \<Rightarrow> bool" where
  "size_means units line n \<longleftrightarrow>
     (\<exists>ds u f. line = ds @ u \<and> ds \<noteq> [] \<and> list_all is_digit ds \<and> (u, f) \<in> set units \<and> n = decimal ds * f)"

text \<open>What the code computes on the unit it has selected.\<close>

definition with_unit :: "bool \<times> int \<times> int \<Rightarrow> u_char list \<Rightarrow> int option" where
  "with_unit u line =
     (case u of (unit, lim, scale) \<Rightarrow>
        let digits = (if unit then butlast line else line)
        in if digits = [] then None else map_option (\<lambda>n. n * scale) (numeral_value 10 dec_digit digits 0))"

lemma numeral_nonneg: "numeral_value 10 dec_digit cs 0 = Some n \<Longrightarrow> 0 \<le> n"
  using dec.value_ge [of cs 0 n] by simp

lemma le_zdiv_iff:
  assumes "(1 :: int) \<le> s"
  shows "n \<le> m div s \<longleftrightarrow> n * s \<le> m"
proof
  assume "n \<le> m div s"
  then have "n * s \<le> m div s * s" using assms by (intro mult_right_mono) simp_all
  also have "\<dots> \<le> m" using assms pos_mod_sign [of s m] div_mult_mod_eq [of m s] by linarith
  finally show "n * s \<le> m" .
next
  assume "n * s \<le> m"
  then have "(n * s) div s \<le> m div s" using assms by (intro zdiv_mono1) simp_all
  with assms show "n \<le> m div s" by simp
qed

lemma scaled_exact:
  assumes "lim = NGX_MAX_INT_T_VALUE div scale" "1 \<le> scale"
  shows "Option.bind (Some (read_numeral 10 dec_digit NGX_MAX_INT_T_VALUE digits))
      (\<lambda>n. if n = NGX_ERROR \<or> n > lim then Some NGX_ERROR else int64 (n * scale)) =
    Some (in_range NGX_MAX_INT_T_VALUE
      (if digits = [] then None else map_option (\<lambda>n. n * scale) (numeral_value 10 dec_digit digits 0)))"
proof (cases "digits \<noteq> [] \<and> numeral_value 10 dec_digit digits 0 \<noteq> None")
  case True
  then obtain n where n: "numeral_value 10 dec_digit digits 0 = Some n" "0 \<le> n" "digits \<noteq> []"
    using numeral_nonneg by fastforce
  have iff: "n \<le> lim \<longleftrightarrow> n * scale \<le> NGX_MAX_INT_T_VALUE" using assms by (simp add: le_zdiv_iff)
  have "n * 1 \<le> n * scale" using assms(2) n(2) by (rule mult_left_mono)
  with n iff show ?thesis by (auto simp: read_numeral_def in_range_def)
next
  case False
  then show ?thesis by (auto simp: read_numeral_def in_range_def)
qed

lemma atosz_reads: "ngx_atosz line = Some (read_numeral 10 dec_digit NGX_MAX_SIZE_T_VALUE line)"
  and atoof_reads: "ngx_atoof line = Some (read_numeral 10 dec_digit NGX_MAX_OFF_T_VALUE line)"
  unfolding ngx_atosz_def ngx_atoof_def using dec.reads [of line] by simp_all

lemma units_exact:
  "case size_unit c of (unit, lim, scale) \<Rightarrow> lim = NGX_MAX_INT_T_VALUE div scale \<and> 1 \<le> scale"
  "case offset_unit c of (unit, lim, scale) \<Rightarrow> lim = NGX_MAX_INT_T_VALUE div scale \<and> 1 \<le> scale"
  by (simp_all add: size_unit_def offset_unit_def)

lemma parse_size_reads:
  "ngx_parse_size line =
    Some (if line = [] then NGX_ERROR else in_range NGX_MAX_SIZE_T_VALUE (with_unit (size_unit (last line)) line))"
  and parse_offset_reads:
  "ngx_parse_offset line =
    Some (if line = [] then NGX_ERROR else in_range NGX_MAX_OFF_T_VALUE (with_unit (offset_unit (last line)) line))"
  using units_exact(1) [of "last line"] units_exact(2) [of "last line"]
  by (auto simp: ngx_parse_size_def ngx_parse_offset_def with_unit_def Let_def atosz_reads atoof_reads
      scaled_exact simp del: bind.bind_lunit split: prod.splits)

lemma numeral_value_decimal:
  "numeral_value 10 dec_digit ds v = (if list_all is_digit ds then Some (foldl (\<lambda>n c. 10 * n + (uint c - 48)) v ds) else None)"
  by (induction ds arbitrary: v) (auto simp: dec_digit_def)

lemma decimal_append: "decimal (ds @ [c]) = 10 * decimal ds + (uint c - 48)"
  by (simp add: decimal_def)

lemma decimal_Nil [simp]: "decimal [] = 0"
  by (simp add: decimal_def)

lemma decimal_nonneg: "list_all is_digit ds \<Longrightarrow> 0 \<le> decimal ds"
  by (induction ds rule: rev_induct) (auto simp: decimal_append is_digit_uint)

lemma unit_letters: "\<not> is_digit ch_k" "\<not> is_digit ch_K" "\<not> is_digit ch_m" "\<not> is_digit ch_M" "\<not> is_digit ch_g" "\<not> is_digit ch_G"
  by (simp_all add: is_digit_uint)

lemma append_unit_iff: "line = ds @ [c] \<longleftrightarrow> line \<noteq> [] \<and> butlast line = ds \<and> last line = c"
  by (cases line rule: rev_cases) auto

lemma size_means_Cons:
  "size_means ((u, f) # units) line n \<longleftrightarrow>
     (\<exists>ds. line = ds @ u \<and> ds \<noteq> [] \<and> list_all is_digit ds \<and> n = decimal ds * f) \<or> size_means units line n"
  by (auto simp: size_means_def)

lemma size_means_Nil: "\<not> size_means [] line n"
  by (simp add: size_means_def)

lemma numeral_decimal: "numeral_value 10 dec_digit ds 0 = (if list_all is_digit ds then Some (decimal ds) else None)"
  by (simp add: numeral_value_decimal decimal_def)

lemmas size_table = size_means_Cons size_means_Nil size_units_def offset_units_def with_unit_def numeral_decimal unit_letters

text \<open>The code's choice by the last byte is the choice of a unit of the table.\<close>

lemma size_means_unit:
  "size_means size_units line n \<longleftrightarrow> line \<noteq> [] \<and> with_unit (size_unit (last line)) line = Some n"
proof (cases line rule: rev_cases)
  case (snoc ys c)
  consider "c = ch_k" | "c = ch_K" | "c = ch_m" | "c = ch_M" | "c \<notin> {ch_k, ch_K, ch_m, ch_M}" by blast
  then show ?thesis unfolding snoc by cases (auto simp: size_table size_unit_def)
qed (simp add: size_means_def)

lemma offset_means_unit:
  "size_means offset_units line n \<longleftrightarrow> line \<noteq> [] \<and> with_unit (offset_unit (last line)) line = Some n"
proof (cases line rule: rev_cases)
  case (snoc ys c)
  consider "c = ch_k" | "c = ch_K" | "c = ch_m" | "c = ch_M" | "c = ch_g" | "c = ch_G"
    | "c \<notin> {ch_k, ch_K, ch_m, ch_M, ch_g, ch_G}" by blast
  then show ?thesis unfolding snoc by cases (auto simp: size_table offset_unit_def)
qed (simp add: size_means_def)

lemma in_range_means:
  assumes "\<And>n. means n \<longleftrightarrow> v = Some n" "\<And>n. v = Some n \<Longrightarrow> 0 \<le> n"
  shows "in_range lim v = r \<longleftrightarrow> means r \<and> r \<le> lim \<or> r = NGX_ERROR \<and> \<not> (\<exists>n. means n \<and> n \<le> lim)"
  using assms by (fastforce simp: in_range_def split: option.splits)


lemma size_means_nonneg: "size_means units line n \<Longrightarrow> (\<forall>u\<in>set units. 0 \<le> snd u) \<Longrightarrow> 0 \<le> n"
  by (fastforce simp: size_means_def decimal_nonneg)

text \<open>
  C31: sizes and offsets are read exactly. A size is a decimal number, optionally followed by k or K (1024) or m or M
  (1024 squared); an offset also by g or G (1024 cubed). The result is the product when the line is such a text and the
  product is representable, and \<^verbatim>\<open>NGX_ERROR\<close> otherwise: for an empty line, for a unit without a number, for any
  other text, and when the product does not fit; no product overflows.
\<close>

theorem parse_size_exact:
  "(ngx_parse_size line = Some r \<longleftrightarrow>
      size_means size_units line r \<and> r \<le> NGX_MAX_SIZE_T_VALUE
      \<or> r = NGX_ERROR \<and> \<not> (\<exists>n. size_means size_units line n \<and> n \<le> NGX_MAX_SIZE_T_VALUE))
   \<and> (ngx_parse_offset line = Some r \<longleftrightarrow>
      size_means offset_units line r \<and> r \<le> NGX_MAX_OFF_T_VALUE
      \<or> r = NGX_ERROR \<and> \<not> (\<exists>n. size_means offset_units line n \<and> n \<le> NGX_MAX_OFF_T_VALUE))"
proof -
  have nonneg: "0 \<le> n" if "size_means size_units line n \<or> size_means offset_units line n" for n
    using that size_means_nonneg by (auto simp: size_units_def offset_units_def)
  let ?v = "if line = [] then None else with_unit (size_unit (last line)) line"
  let ?w = "if line = [] then None else with_unit (offset_unit (last line)) line"
  have v: "size_means size_units line n \<longleftrightarrow> ?v = Some n" for n by (auto simp: size_means_unit)
  have w: "size_means offset_units line n \<longleftrightarrow> ?w = Some n" for n by (auto simp: offset_means_unit)
  have "ngx_parse_size line = Some (in_range NGX_MAX_SIZE_T_VALUE ?v)"
    "ngx_parse_offset line = Some (in_range NGX_MAX_OFF_T_VALUE ?w)"
    by (simp_all add: parse_size_reads parse_offset_reads in_range_def)
  moreover note in_range_means [OF v, of NGX_MAX_SIZE_T_VALUE r] in_range_means [OF w, of NGX_MAX_OFF_T_VALUE r]
  ultimately show ?thesis using nonneg v w by simp
qed

theorem parse_size_exact_witness:
  "ngx_parse_size (str ''64k'') = Some 65536 \<and> ngx_parse_offset (str ''1g'') = Some 1073741824"
proof -
  have "size_means size_units (str ''64k'') 65536" "size_means offset_units (str ''1g'') 1073741824"
    by (auto simp: size_table decimal_def is_digit_uint append_eq_Cons_conv Cons_eq_append_conv)
  then show ?thesis
    using parse_size_exact [of "str ''64k''" 65536] parse_size_exact [of "str ''1g''" 1073741824] by simp
qed

section \<open>What a time means\<close>

text \<open>
  First step: the loop with its checks is the same loop in unbounded arithmetic, and a total that is not
  representable is an error. The grammar below says what this loop accepts.
\<close>

function time_value :: "bool \<Rightarrow> nat \<Rightarrow> bool \<Rightarrow> int \<Rightarrow> int \<Rightarrow> u_char list \<Rightarrow> int option" where
  "time_value is_sec step valid value tot [] =
     (if valid then Some (tot + value * (if is_sec then 1 else 1000)) else None)"
| "time_value is_sec step valid value tot (c # p) =
     (if is_digit c then time_value is_sec step True (10 * value + digit c) tot p
      else (case time_unit is_sec step c p of
          None \<Rightarrow> None
        | Some (step', lim, scale, p') \<Rightarrow>
            time_value is_sec step' valid 0
              (tot + value * (if step' \<noteq> st_msec \<and> \<not> is_sec then scale * 1000 else scale))
              (dropWhile (\<lambda>c. c = ch_sp) p')))"
  by pat_completeness auto
termination
proof (relation "measure (\<lambda>(is_sec, step, valid, value, tot, p). length p)", goal_cases)
  case (3 is_sec step valid v tot c p a step' y lim z scale p')
  then have "length p' \<le> length p" by (auto simp: time_unit_def split: if_splits)
  then show ?case using length_dropWhile_le [of "\<lambda>c. c = ch_sp" p'] by simp
qed auto

definition unit_factor :: "bool \<Rightarrow> nat \<Rightarrow> int \<Rightarrow> int" where
  "unit_factor is_sec step scale = (if step \<noteq> st_msec \<and> \<not> is_sec then scale * 1000 else scale)"

lemma time_unit_range:
  assumes "time_unit is_sec step c p = Some (step', lim, scale, p')"
  shows "1 \<le> scale" "scale \<le> 31536000" "lim = NGX_MAX_INT_T_VALUE div scale"
  using assms by (auto simp: time_unit_def split: if_splits)

lemma unit_factor_range: "1 \<le> scale \<Longrightarrow> 1 \<le> unit_factor is_sec step scale"
  by (simp add: unit_factor_def)

lemma time_value_ge:
  "time_value is_sec step valid v tot p = Some n \<Longrightarrow> 0 \<le> v \<Longrightarrow> 0 \<le> tot \<Longrightarrow> tot + v \<le> n"
proof (induction is_sec step valid v tot p rule: time_value.induct)
  case (1 is_sec step valid v tot)
  then show ?case by (auto split: if_splits)
next
  case (2 is_sec step valid v tot c p)
  show ?case
  proof (cases "is_digit c")
    case True
    then have "0 \<le> digit c" by (simp add: is_digit_uint)
    with True 2 show ?thesis by simp
  next
    case False
    with "2.prems"(1) obtain step' lim scale p' where u: "time_unit is_sec step c p = Some (step', lim, scale, p')"
      by (auto split: option.splits)
    have "v * 1 \<le> v * unit_factor is_sec step' scale"
      using unit_factor_range [OF time_unit_range(1) [OF u]] "2.prems"(2) by (rule mult_left_mono)
    moreover have "tot + v * unit_factor is_sec step' scale \<le> n"
      using "2.IH"(2) [OF False u refl refl refl] "2.prems" False u calculation
      by (simp add: unit_factor_def split: if_splits)
    ultimately show ?thesis by simp
  qed
qed

lemma time_overflow:
  assumes "NGX_MAX_INT_T_VALUE < tot + v" "0 \<le> v" "0 \<le> tot"
  shows "in_range NGX_MAX_INT_T_VALUE (time_value is_sec step valid v tot p) = NGX_ERROR"
  using time_value_ge [of is_sec step valid v tot p] assms
  by (fastforce simp: in_range_def split: option.splits)

lemma time_add_exact:
  assumes "1 \<le> scale" "scale \<le> 31536000" "lim = NGX_MAX_INT_T_VALUE div scale"
    and "0 \<le> v" "0 \<le> tot" "tot \<le> NGX_MAX_INT_T_VALUE"
  shows "time_add is_sec step lim scale v tot =
    (let t = tot + v * unit_factor is_sec step scale in Some (if t \<le> NGX_MAX_INT_T_VALUE then Some t else None))"
proof -
  let ?f = "unit_factor is_sec step scale"
  let ?lim = "if step \<noteq> st_msec \<and> \<not> is_sec then lim div 1000 else lim"
  have "?lim = NGX_MAX_INT_T_VALUE div ?f"
    using assms(1,3) by (simp add: unit_factor_def zdiv_zmult2_eq)
  then have iff: "v \<le> ?lim \<longleftrightarrow> v * ?f \<le> NGX_MAX_INT_T_VALUE"
    using unit_factor_range [OF assms(1), of is_sec step] by (simp only: le_zdiv_iff)
  have pos: "0 \<le> v * ?f" using unit_factor_range [OF assms(1), of is_sec step] assms(4) by simp
  have i64: "int64 (if step \<noteq> st_msec \<and> \<not> is_sec then scale * 1000 else scale) = Some ?f"
    using assms(1,2) by (simp add: unit_factor_def)
  show ?thesis
  proof (cases "v \<le> ?lim")
    case True
    then have "v * ?f \<le> NGX_MAX_INT_T_VALUE" using iff by simp
    with True pos assms(5,6) i64 show ?thesis by (auto simp: time_add_def Let_def)
  next
    case False
    then have "\<not> v * ?f \<le> NGX_MAX_INT_T_VALUE" using iff by simp
    with False assms(5) i64 show ?thesis by (auto simp: time_add_def Let_def)
  qed
qed

lemma time_digit:
  assumes "is_digit c" "0 \<le> v" "v \<le> NGX_MAX_INT_T_VALUE"
  shows "time_loop is_sec step valid v tot (c # p) =
    (if 10 * v + digit c \<le> NGX_MAX_INT_T_VALUE
     then time_loop is_sec step True (10 * v + digit c) tot p else Some NGX_ERROR)"
  using assms by (auto simp: is_digit_uint algebra_simps)

lemma time_end_exact:
  assumes "0 \<le> v" "v \<le> NGX_MAX_INT_T_VALUE" "0 \<le> tot" "tot \<le> NGX_MAX_INT_T_VALUE"
  shows "time_end is_sec valid v tot =
    Some (in_range NGX_MAX_INT_T_VALUE (if valid then Some (tot + v * (if is_sec then 1 else 1000)) else None))"
  using assms by (auto simp: time_end_def in_range_def)

lemma time_loop_exact:
  "0 \<le> v \<Longrightarrow> v \<le> NGX_MAX_INT_T_VALUE \<Longrightarrow> 0 \<le> tot \<Longrightarrow> tot \<le> NGX_MAX_INT_T_VALUE \<Longrightarrow>
    time_loop is_sec step valid v tot p =
    Some (in_range NGX_MAX_INT_T_VALUE (time_value is_sec step valid v tot p))"
proof (induction is_sec step valid v tot p rule: time_value.induct)
  case (1 is_sec step valid v tot)
  then show ?case by (simp add: time_end_exact)
next
  case (2 is_sec step valid v tot c p)
  show ?case
  proof (cases "is_digit c")
    case True
    then have d: "0 \<le> digit c" by (simp add: is_digit_uint)
    show ?thesis
    proof (cases "10 * v + digit c \<le> NGX_MAX_INT_T_VALUE")
      case True
      with \<open>is_digit c\<close> d "2.IH"(1) "2.prems" show ?thesis by (subst time_digit) simp_all
    next
      case False
      then have "in_range NGX_MAX_INT_T_VALUE (time_value is_sec step True (10 * v + digit c) tot p) = NGX_ERROR"
        using d "2.prems" by (intro time_overflow) simp_all
      with False \<open>is_digit c\<close> "2.prems" show ?thesis by (subst time_digit) simp_all
    qed
  next
    case False
    show ?thesis
    proof (cases "time_unit is_sec step c p")
      case None
      with False show ?thesis by (auto simp: in_range_def)
    next
      case (Some x)
      then obtain step' lim scale p' where u: "time_unit is_sec step c p = Some (step', lim, scale, p')"
        by (metis prod_cases4)
      define t where "t = tot + v * unit_factor is_sec step' scale"
      note r = time_unit_range [OF u]
      have t: "0 \<le> t" using unit_factor_range [OF r(1), of is_sec step'] "2.prems" by (simp add: t_def)
      have add: "time_add is_sec step' lim scale v tot = Some (if t \<le> NGX_MAX_INT_T_VALUE then Some t else None)"
        unfolding t_def using time_add_exact [OF r] "2.prems" by (simp add: Let_def)
      have ref: "time_value is_sec step valid v tot (c # p) =
          time_value is_sec step' valid 0 t (dropWhile (\<lambda>c. c = ch_sp) p')"
        using False u unfolding t_def unit_factor_def by (simp split del: if_split) auto
      have loop: "time_loop is_sec step valid v tot (c # p) =
          (if t \<le> NGX_MAX_INT_T_VALUE
           then time_loop is_sec step' valid 0 t (dropWhile (\<lambda>c. c = ch_sp) p') else Some NGX_ERROR)"
        using False u add by auto
      show ?thesis
      proof (cases "t \<le> NGX_MAX_INT_T_VALUE")
        case True
        with "2.IH"(2) [OF False u refl refl refl] t show ?thesis
          unfolding ref loop t_def unit_factor_def by (simp split del: if_split)
      next
        case over: False
        then show ?thesis unfolding ref loop using t by (simp add: time_overflow)
      qed
    qed
  qed
qed

section \<open>The grammar of times\<close>

text \<open>
  The reference is independent of the loop: the units are a type of their own with their texts and their lengths in
  milliseconds, and a time is a sequence of parts, each of digits, a unit and blanks, followed by the digits of a
  last number without unit. \<open>Bare\<close> is the number that is followed by blanks instead of a unit; it counts seconds.
\<close>

datatype time_measure = Years | Months | Weeks | Days | Hours | Minutes | Seconds | Milliseconds | Bare

type_synonym time_part = "u_char list \<times> time_measure \<times> nat"

fun measure_text :: "time_measure \<Rightarrow> u_char list" where
  "measure_text Years = str ''y''"
| "measure_text Months = str ''M''"
| "measure_text Weeks = str ''w''"
| "measure_text Days = str ''d''"
| "measure_text Hours = str ''h''"
| "measure_text Minutes = str ''m''"
| "measure_text Seconds = str ''s''"
| "measure_text Milliseconds = str ''ms''"
| "measure_text Bare = str '' ''"

fun measure_msec :: "time_measure \<Rightarrow> int" where
  "measure_msec Milliseconds = 1"
| "measure_msec Seconds = 1000"
| "measure_msec Bare = 1000"
| "measure_msec Minutes = 60 * 1000"
| "measure_msec Hours = 60 * 60 * 1000"
| "measure_msec Days = 24 * 60 * 60 * 1000"
| "measure_msec Weeks = 7 * 24 * 60 * 60 * 1000"
| "measure_msec Months = 30 * 24 * 60 * 60 * 1000"
| "measure_msec Years = 365 * 24 * 60 * 60 * 1000"

text \<open>The length in the unit of the result: seconds have no part of milliseconds, milliseconds no years and months.\<close>

definition measure_len :: "bool \<Rightarrow> time_measure \<Rightarrow> int" where
  "measure_len is_sec u = (if is_sec then measure_msec u div 1000 else measure_msec u)"

definition measure_allowed :: "bool \<Rightarrow> time_measure \<Rightarrow> bool" where
  "measure_allowed is_sec u \<longleftrightarrow> u \<notin> (if is_sec then {Milliseconds} else {Years, Months})"

definition time_text :: "time_part list \<Rightarrow> u_char list \<Rightarrow> u_char list" where
  "time_text parts fin = concat (map (\<lambda>(ds, u, k). ds @ measure_text u @ replicate k ch_sp) parts) @ fin"

definition time_sum :: "bool \<Rightarrow> time_part list \<Rightarrow> u_char list \<Rightarrow> int" where
  "time_sum is_sec parts fin =
     (\<Sum>(ds, u, k)\<leftarrow>parts. decimal ds * measure_len is_sec u) + decimal fin * measure_len is_sec Seconds"

text \<open>
  Each unit is shorter than the one before it, and none follows a number without unit. The digits of a part may be
  missing, but then its unit must not be taken for a piece of the part before it: blanks belong to the part they follow,
  and \<^verbatim>\<open>ms\<close> is one unit.
\<close>

definition part_follows :: "time_part \<Rightarrow> time_part \<Rightarrow> bool" where
  "part_follows = (\<lambda>(_, u, k) (ds, v, _).
     measure_msec v < measure_msec u \<and> u \<noteq> Bare
     \<and> (ds = [] \<longrightarrow> v \<noteq> Bare \<and> \<not> (u = Minutes \<and> k = 0 \<and> v = Seconds)))"

definition part_ok :: "bool \<Rightarrow> time_part \<Rightarrow> bool" where
  "part_ok is_sec = (\<lambda>(ds, u, _). list_all is_digit ds \<and> measure_allowed is_sec u)"

definition has_digits :: "time_part list \<Rightarrow> u_char list \<Rightarrow> bool" where
  "has_digits parts fin \<longleftrightarrow> fin \<noteq> [] \<or> list_ex (\<lambda>(ds, _, _). ds \<noteq> []) parts"

definition time_ok :: "bool \<Rightarrow> time_part list \<Rightarrow> u_char list \<Rightarrow> bool" where
  "time_ok is_sec parts fin \<longleftrightarrow>
     list_all (part_ok is_sec) parts \<and> list_all is_digit fin \<and> successively part_follows parts \<and> has_digits parts fin"

definition time_means :: "bool \<Rightarrow> u_char list \<Rightarrow> int \<Rightarrow> bool" where
  "time_means is_sec line n \<longleftrightarrow>
     (\<exists>parts fin. time_ok is_sec parts fin \<and> line = time_text parts fin \<and> n = time_sum is_sec parts fin)"

text \<open>The step the code is in behind a unit, and the units it accepts in a step.\<close>

fun step_of :: "time_measure \<Rightarrow> nat" where
  "step_of Years = st_year"
| "step_of Months = st_month"
| "step_of Weeks = st_week"
| "step_of Days = st_day"
| "step_of Hours = st_hour"
| "step_of Minutes = st_min"
| "step_of Seconds = st_sec"
| "step_of Milliseconds = st_msec"
| "step_of Bare = st_last"

definition step_accepts :: "bool \<Rightarrow> nat \<Rightarrow> time_measure \<Rightarrow> bool" where
  "step_accepts is_sec step u \<longleftrightarrow>
     step < (if u = Bare then st_sec else step_of u) \<and> (u = Milliseconds \<longrightarrow> \<not> is_sec)"

lemma step_accepts_follows:
  "step_accepts is_sec (step_of u) v \<longleftrightarrow>
     measure_msec v < measure_msec u \<and> u \<noteq> Bare \<and> (v = Milliseconds \<longrightarrow> \<not> is_sec)"
  by (cases u; cases v) (simp_all add: step_accepts_def)

lemma step_accepts_first:
  "step_accepts is_sec (if is_sec then st_start else st_month) u \<longleftrightarrow> measure_allowed is_sec u"
  by (cases u) (simp_all add: step_accepts_def measure_allowed_def)

lemma step_accepts_allowed: "step_accepts is_sec step u \<Longrightarrow> is_sec \<or> st_month \<le> step \<Longrightarrow> measure_allowed is_sec u"
  by (cases u) (auto simp: step_accepts_def measure_allowed_def)

text \<open>The unit at the head of a text is the one the switch takes, unless an s follows the m of minutes.\<close>

lemma time_unit_measure:
  assumes "step_accepts is_sec step u" "u = Minutes \<longrightarrow> rest = [] \<or> hd rest \<noteq> ch_s"
  obtains c p lim scale where "measure_text u @ rest = c # p" "\<not> is_digit c"
    "time_unit is_sec step c p = Some (step_of u, lim, scale, rest)"
    "unit_factor is_sec (step_of u) scale = measure_len is_sec u"
  using assms
  by (cases u) (auto simp: step_accepts_def time_unit_def unit_factor_def measure_len_def is_digit_uint)

lemma time_unit_text:
  assumes "time_unit is_sec step c p = Some (step', lim, scale, p')"
  obtains u where "c # p = measure_text u @ p'" "step' = step_of u" "step_accepts is_sec step u"
    "u = Minutes \<longrightarrow> p' = [] \<or> hd p' \<noteq> ch_s"
    "unit_factor is_sec step' scale = measure_len is_sec u"
proof -
  define u where "u = (if c = ch_y then Years else if c = ch_M then Months else if c = ch_w then Weeks else if c = ch_d then Days
    else if c = ch_h then Hours else if c = ch_m then (if p \<noteq> [] \<and> hd p = ch_s then Milliseconds else Minutes)
    else if c = ch_s then Seconds else Bare)"
  from assms have u: "c # p = measure_text u @ p'" "step' = step_of u" "step_accepts is_sec step u"
    "u = Minutes \<longrightarrow> p' = [] \<or> hd p' \<noteq> ch_s"
    unfolding time_unit_def u_def by (auto simp: step_accepts_def neq_Nil_conv split: if_splits)
  moreover obtain lim' scale' where "time_unit is_sec step c p = Some (step_of u, lim', scale', p')"
    "unit_factor is_sec (step_of u) scale' = measure_len is_sec u"
    using u time_unit_measure [of is_sec step u p'] by (metis list.inject)
  ultimately show thesis using assms that by simp
qed

lemma time_value_digits:
  "list_all is_digit ds \<Longrightarrow> time_value is_sec step valid v tot (ds @ rest) =
    time_value is_sec step (valid \<or> ds \<noteq> []) (foldl (\<lambda>n c. 10 * n + (uint c - 48)) v ds) tot rest"
  by (induction ds arbitrary: valid v) simp_all

lemma time_text_Cons: "time_text ((ds, u, k) # parts) fin = ds @ measure_text u @ replicate k ch_sp @ time_text parts fin"
  by (simp add: time_text_def)

lemma time_sum_Cons: "time_sum is_sec ((ds, u, k) # parts) fin = decimal ds * measure_len is_sec u + time_sum is_sec parts fin"
  by (simp add: time_sum_def)

lemma time_text_Nil [simp]: "time_text [] fin = fin"
  by (simp add: time_text_def)

lemma time_text_hd:
  assumes "list_all (part_ok is_sec) parts" "list_all is_digit fin"
    "time_text parts fin \<noteq> []" "\<not> is_digit (hd (time_text parts fin))"
  obtains v j ps where "parts = ([], v, j) # ps" "hd (time_text parts fin) = hd (measure_text v)"
proof (cases parts)
  case Nil
  with assms show thesis by (cases fin) simp_all
next
  case (Cons x ps)
  obtain ds v j where x: "x = (ds, v, j)" by (cases x)
  with Cons assms have "ds = []" by (cases ds) (auto simp: time_text_Cons part_ok_def)
  moreover have "hd (measure_text v @ xs) = hd (measure_text v)" for xs by (cases v) simp_all
  ultimately show thesis using Cons x by (intro that [of v j ps]) (simp_all add: time_text_Cons)
qed

text \<open>Behind a part, its blanks end where the next part starts, and that does not start with the s of ms.\<close>

lemma part_end:
  assumes "list_all (part_ok is_sec) parts" "list_all is_digit fin" "successively part_follows ((ds, u, k) # parts)"
  shows "dropWhile (\<lambda>c. c = ch_sp) (replicate k ch_sp @ time_text parts fin) = time_text parts fin"
    and "u = Minutes \<longrightarrow> replicate k ch_sp @ time_text parts fin = [] \<or> hd (replicate k ch_sp @ time_text parts fin) \<noteq> ch_s"
proof -
  have follows: "v \<noteq> Bare \<and> \<not> (u = Minutes \<and> k = 0 \<and> v = Seconds)" if "parts = ([], v, j) # ps" for v j ps
    using assms(3) that by (simp add: part_follows_def)
  have sp: "hd (time_text parts fin) \<noteq> ch_sp" if ne: "time_text parts fin \<noteq> []"
  proof (cases "is_digit (hd (time_text parts fin))")
    case False
    then obtain v j ps where "parts = ([], v, j) # ps" "hd (time_text parts fin) = hd (measure_text v)"
      using time_text_hd [OF assms(1,2) ne] by blast
    with follows [of v j ps] show ?thesis by (cases v) simp_all
  qed (auto simp: is_digit_uint)
  then show "dropWhile (\<lambda>c. c = ch_sp) (replicate k ch_sp @ time_text parts fin) = time_text parts fin"
    by (cases "time_text parts fin") (simp_all add: dropWhile_append3)
  show "u = Minutes \<longrightarrow> replicate k ch_sp @ time_text parts fin = [] \<or> hd (replicate k ch_sp @ time_text parts fin) \<noteq> ch_s"
  proof (cases "k = 0 \<and> time_text parts fin \<noteq> [] \<and> \<not> is_digit (hd (time_text parts fin))")
    case True
    then obtain v j ps where "parts = ([], v, j) # ps" "hd (time_text parts fin) = hd (measure_text v)"
      using time_text_hd [OF assms(1,2)] by blast
    with follows [of v j ps] True show ?thesis by (cases v) simp_all
  next
    case False
    then show ?thesis by (cases k) (auto simp: is_digit_uint)
  qed
qed

text \<open>A text of the grammar is read with its sum.\<close>

lemma time_value_complete:
  assumes "list_all (part_ok is_sec) parts" "list_all is_digit fin" "successively part_follows parts"
    "parts \<noteq> [] \<longrightarrow> step_accepts is_sec step (fst (snd (hd parts)))"
  shows "time_value is_sec step valid 0 tot (time_text parts fin) =
    (if valid \<or> has_digits parts fin then Some (tot + time_sum is_sec parts fin) else None)"
  using assms
proof (induction parts arbitrary: step valid tot)
  case Nil
  then show ?case using time_value_digits [of fin is_sec step valid 0 tot "[]"]
    by (simp add: has_digits_def time_sum_def measure_len_def decimal_def)
next
  case (Cons x parts)
  obtain ds u k where x: "x = (ds, u, k)" by (cases x)
  let ?rest = "replicate k ch_sp @ time_text parts fin"
  from Cons.prems x have ok: "list_all is_digit ds" "list_all (part_ok is_sec) parts" "list_all is_digit fin"
    "successively part_follows parts" "step_accepts is_sec step u"
    by (auto simp: part_ok_def successively_Cons)
  note ends = part_end [OF ok(2,3) Cons.prems(3) [unfolded x]]
  obtain c p lim scale where u: "measure_text u @ ?rest = c # p" "\<not> is_digit c"
    "time_unit is_sec step c p = Some (step_of u, lim, scale, ?rest)"
    "unit_factor is_sec (step_of u) scale = measure_len is_sec u"
    using time_unit_measure [OF ok(5) ends(2)] .
  have accepts: "parts \<noteq> [] \<longrightarrow> step_accepts is_sec (step_of u) (fst (snd (hd parts)))"
    using Cons.prems(3) ok(2) x
    by (cases parts) (auto simp: step_accepts_follows part_follows_def part_ok_def measure_allowed_def)
  have "time_value is_sec step valid 0 tot (time_text (x # parts) fin) =
      time_value is_sec step (valid \<or> ds \<noteq> []) (decimal ds) tot (c # p)"
    using time_value_digits [OF ok(1)] u(1) by (simp add: x time_text_Cons decimal_def)
  also have "\<dots> = time_value is_sec (step_of u) (valid \<or> ds \<noteq> []) 0 (tot + decimal ds * measure_len is_sec u)
      (time_text parts fin)"
    by (simp only: time_value.simps u(2,3) if_False option.case prod.case ends(1) u(4) [unfolded unit_factor_def])
  also have "\<dots> = (if (valid \<or> ds \<noteq> []) \<or> has_digits parts fin
      then Some (tot + decimal ds * measure_len is_sec u + time_sum is_sec parts fin) else None)"
    by (rule Cons.IH [OF ok(2,3,4) accepts])
  also have "\<dots> = (if valid \<or> has_digits (x # parts) fin then Some (tot + time_sum is_sec (x # parts) fin) else None)"
    by (auto simp: x has_digits_def time_sum_Cons)
  finally show ?case .
qed

lemma takeWhile_replicate: "takeWhile (\<lambda>c. c = a) xs = replicate (length (takeWhile (\<lambda>c. c = a) xs)) a"
  by (induction xs) simp_all

text \<open>Conversely, what is read is a text of the grammar.\<close>

lemma time_value_sound:
  assumes "time_value is_sec step valid v tot p = Some n" "is_sec \<or> st_month \<le> step"
  shows "\<exists>parts fin. p = time_text parts fin \<and> list_all (part_ok is_sec) parts \<and> list_all is_digit fin
    \<and> successively part_follows parts \<and> (parts \<noteq> [] \<longrightarrow> step_accepts is_sec step (fst (snd (hd parts))))
    \<and> (valid \<or> has_digits parts fin)"
  using assms
proof (induction is_sec step valid v tot p rule: time_value.induct)
  case (1 is_sec step valid v tot)
  then show ?case by (intro exI [of _ "[]"]) (auto split: if_splits)
next
  case (2 is_sec step valid v tot c p)
  show ?case
  proof (cases "is_digit c")
    case True
    with "2.IH"(1) "2.prems" obtain parts fin where ih: "p = time_text parts fin" "list_all (part_ok is_sec) parts"
      "list_all is_digit fin" "successively part_follows parts"
      "parts \<noteq> [] \<longrightarrow> step_accepts is_sec step (fst (snd (hd parts)))" by auto
    show ?thesis
    proof (cases parts)
      case Nil
      with ih True show ?thesis by (intro exI [of _ "[]"] exI [of _ "c # fin"]) (simp add: has_digits_def)
    next
      case (Cons x ps)
      obtain ds u k where x: "x = (ds, u, k)" by (cases x)
      show ?thesis using ih True Cons x
        by (intro exI [of _ "(c # ds, u, k) # ps"] exI [of _ fin])
          (auto simp: has_digits_def time_text_Cons part_ok_def successively_Cons part_follows_def)
    qed
  next
    case False
    with "2.prems"(1) obtain step' lim scale p' where t: "time_unit is_sec step c p = Some (step', lim, scale, p')"
      by (auto split: option.splits)
    obtain u where u: "c # p = measure_text u @ p'" "step' = step_of u" "step_accepts is_sec step u"
      "u = Minutes \<longrightarrow> p' = [] \<or> hd p' \<noteq> ch_s"
      using time_unit_text [OF t] by metis
    define q where "q = dropWhile (\<lambda>c. c = ch_sp) p'"
    define k where "k = length (takeWhile (\<lambda>c. c = ch_sp) p')"
    have p': "p' = replicate k ch_sp @ q"
      using takeWhile_dropWhile_id [of "\<lambda>c. c = ch_sp" p'] takeWhile_replicate [of ch_sp p'] by (simp add: k_def q_def)
    have q: "q = [] \<or> hd q \<noteq> ch_sp" unfolding q_def using hd_dropWhile by blast
    have "is_sec \<or> st_month \<le> step'" using u(2,3) "2.prems"(2) by (cases u) (auto simp: step_accepts_def)
    moreover have "time_value is_sec step' valid 0
        (tot + v * (if step' \<noteq> st_msec \<and> \<not> is_sec then scale * 1000 else scale)) q = Some n"
      using "2.prems"(1) by (simp only: time_value.simps False t if_False option.case prod.case q_def)
    ultimately have "\<exists>parts fin. q = time_text parts fin \<and> list_all (part_ok is_sec) parts \<and> list_all is_digit fin
      \<and> successively part_follows parts \<and> (parts \<noteq> [] \<longrightarrow> step_accepts is_sec step' (fst (snd (hd parts))))
      \<and> (valid \<or> has_digits parts fin)"
      unfolding q_def by (intro "2.IH"(2) [OF False t refl refl refl])
    then obtain parts fin where ih: "q = time_text parts fin" "list_all (part_ok is_sec) parts"
      "list_all is_digit fin" "successively part_follows parts"
      "parts \<noteq> [] \<longrightarrow> step_accepts is_sec step' (fst (snd (hd parts)))" "valid \<or> has_digits parts fin" by blast
    have "part_follows ([], u, k) (hd parts)" if ne: "parts \<noteq> []"
    proof -
      obtain ds v j ps where parts: "parts = (ds, v, j) # ps" using ne by (cases parts; cases "hd parts") auto
      have "ds = [] \<Longrightarrow> v \<noteq> Bare \<and> \<not> (u = Minutes \<and> k = 0 \<and> v = Seconds)"
        using q u(4) ih(1) p' parts by (auto simp: time_text_Cons)
      with ih(5) parts u(2) show ?thesis by (simp add: part_follows_def step_accepts_follows)
    qed
    then have "successively part_follows (([], u, k) # parts)"
      using ih(4) by (cases parts) simp_all
    moreover have "c # p = time_text (([], u, k) # parts) fin" using u(1) p' ih(1) by (simp add: time_text_Cons)
    ultimately show ?thesis using ih(2,3,6) u(3) step_accepts_allowed [OF u(3) "2.prems"(2)]
      by (intro exI [of _ "([], u, k) # parts"] exI [of _ fin]) (auto simp: part_ok_def has_digits_def)
  qed
qed

lemma time_means_value:
  "time_means is_sec line n \<longleftrightarrow>
     time_value is_sec (if is_sec then st_start else st_month) False 0 0 line = Some n"
    (is "_ \<longleftrightarrow> time_value is_sec ?step False 0 0 line = Some n")
proof -
  have read: "time_value is_sec ?step False 0 0 (time_text parts fin) = Some (time_sum is_sec parts fin)"
    if "time_ok is_sec parts fin" for parts fin
    using time_value_complete [of is_sec parts fin ?step False 0] that
    by (cases parts) (auto simp: time_ok_def step_accepts_first part_ok_def)
  have "\<exists>parts fin. time_ok is_sec parts fin \<and> line = time_text parts fin"
    if "time_value is_sec ?step False 0 0 line = Some n"
    using time_value_sound [OF that] by (cases is_sec) (auto simp: time_ok_def)
  with read show ?thesis unfolding time_means_def by (metis option.inject)
qed

text \<open>
  C30: a time of the configuration is read exactly. A time is a sequence of numbers with the units y (365 days), M (30
  days), w, d, h, m, s and ms, each unit shorter than the one before it, with blanks allowed behind a unit, and an optional
  last number that counts seconds; y and M are allowed only for a result in seconds, ms only for one in milliseconds, and a
  number may be missing before a unit, as in \<^verbatim>\<open>1dh\<close>, and then counts 0, as long as the line has a digit. The
  result is the sum of the products when the line is such a text and the sum is representable, and \<^verbatim>\<open>NGX_ERROR\<close>
  otherwise; none of the products and sums overflows, and the checks refuse no representable time.
\<close>

theorem parse_time_exact:
  "ngx_parse_time line is_sec = Some r \<longleftrightarrow>
     time_means is_sec line r \<and> r \<le> NGX_MAX_INT_T_VALUE
     \<or> r = NGX_ERROR \<and> \<not> (\<exists>n. time_means is_sec line n \<and> n \<le> NGX_MAX_INT_T_VALUE)"
proof -
  let ?v = "time_value is_sec (if is_sec then st_start else st_month) False 0 0 line"
  have means: "time_means is_sec line n \<longleftrightarrow> ?v = Some n" for n by (rule time_means_value)
  have "ngx_parse_time line is_sec = Some (in_range NGX_MAX_INT_T_VALUE ?v)"
    unfolding ngx_parse_time_def by (rule time_loop_exact) simp_all
  moreover have "?v = Some n \<Longrightarrow> 0 \<le> n" for n
    using time_value_ge [of is_sec "if is_sec then st_start else st_month" False 0 0 line n] by simp
  ultimately show ?thesis using in_range_means [OF means, of NGX_MAX_INT_T_VALUE r] by simp
qed

theorem parse_time_exact_witness:
  "ngx_parse_time (str ''1d 2h30'') False = Some 93630000"
proof -
  have "time_means False (str ''1d 2h30'') 93630000"
    unfolding time_means_def
    by (rule exI [of _ "[(str ''1'', Days, 1), (str ''2'', Hours, 0)]"], rule exI [of _ "str ''30''"])
      (simp add: time_ok_def has_digits_def time_text_def time_sum_def part_ok_def part_follows_def measure_allowed_def measure_len_def
        decimal_def is_digit_uint)
  then show ?thesis using parse_time_exact [of "str ''1d 2h30''" False 93630000] by simp
qed

end
