(* ===== verification/Ngx_Rbtree.thy ===== *)
theory Ngx_Rbtree
  imports Ngx_Prelude "HOL-Library.Tree" "HOL-Library.Monad_Syntax"
begin

text \<open>
  The red-black tree of \<^verbatim>\<open>src/reference/nginx-master/src/core/ngx_rbtree.c\<close> and
  \<^verbatim>\<open>ngx_rbtree.h\<close>, at the level of its pointers.

  A node is an address; the fields of all nodes are functions on addresses (one function for each
  field), \<^verbatim>\<open>NULL\<close> is \<open>None\<close>, and to follow \<^verbatim>\<open>NULL\<close> is the result \<open>None\<close>, as is a
  loop that does not end. The structures \<^verbatim>\<open>ngx_rbtree_t\<close> and the nodes form one record, the state.
  The colour byte holds 0 or 1 in the code and is a truth value here, \<open>True\<close> for red.
\<close>

section \<open>The state\<close>

type_synonym rb_key_t = "64 word"

record rb =
  rb_root :: "nat option"
  rb_sentinel :: nat
  rb_key :: "nat \<Rightarrow> rb_key_t"
  rb_left :: "nat \<Rightarrow> nat option"
  rb_right :: "nat \<Rightarrow> nat option"
  rb_parent :: "nat \<Rightarrow> nat option"
  rb_color :: "nat \<Rightarrow> bool"

definition set_left :: "nat \<Rightarrow> nat option \<Rightarrow> rb \<Rightarrow> rb" where
  "set_left a p st = st\<lparr>rb_left := (rb_left st)(a := p)\<rparr>"

definition set_right :: "nat \<Rightarrow> nat option \<Rightarrow> rb \<Rightarrow> rb" where
  "set_right a p st = st\<lparr>rb_right := (rb_right st)(a := p)\<rparr>"

definition set_parent :: "nat \<Rightarrow> nat option \<Rightarrow> rb \<Rightarrow> rb" where
  "set_parent a p st = st\<lparr>rb_parent := (rb_parent st)(a := p)\<rparr>"

definition set_color :: "nat \<Rightarrow> bool \<Rightarrow> rb \<Rightarrow> rb" where
  "set_color a c st = st\<lparr>rb_color := (rb_color st)(a := c)\<rparr>"

abbreviation ngx_rbt_red :: "nat \<Rightarrow> rb \<Rightarrow> rb" where "ngx_rbt_red a st \<equiv> set_color a True st"
abbreviation ngx_rbt_black :: "nat \<Rightarrow> rb \<Rightarrow> rb" where "ngx_rbt_black a st \<equiv> set_color a False st"

section \<open>Rotations\<close>

text \<open>\<^verbatim>\<open>node->parent->left\<close> or \<^verbatim>\<open>node->parent->right\<close> or \<^verbatim>\<open>*root\<close> is set to \<open>temp\<close>;
  the left rotation looks at the left child first, the right one at the right child.\<close>

definition relink_left :: "nat \<Rightarrow> nat option \<Rightarrow> rb \<Rightarrow> rb option" where
  "relink_left node temp st =
     (if Some node = rb_root st then Some (st\<lparr>rb_root := temp\<rparr>)
      else do {
        q \<leftarrow> rb_parent st node;
        Some (if Some node = rb_left st q then set_left q temp st else set_right q temp st)
      })"

definition relink_right :: "nat \<Rightarrow> nat option \<Rightarrow> rb \<Rightarrow> rb option" where
  "relink_right node temp st =
     (if Some node = rb_root st then Some (st\<lparr>rb_root := temp\<rparr>)
      else do {
        q \<leftarrow> rb_parent st node;
        Some (if Some node = rb_right st q then set_right q temp st else set_left q temp st)
      })"

text \<open>\<^verbatim>\<open>if (p != sentinel) p->parent = node\<close>\<close>

definition adopt :: "nat option \<Rightarrow> nat \<Rightarrow> rb \<Rightarrow> rb option" where
  "adopt p node st =
     (if p \<noteq> Some (rb_sentinel st) then do { c \<leftarrow> p; Some (set_parent c (Some node) st) } else Some st)"

definition ngx_rbtree_left_rotate :: "nat \<Rightarrow> rb \<Rightarrow> rb option" where
  "ngx_rbtree_left_rotate node st =
     do {
       temp \<leftarrow> rb_right st node;
       let st = set_right node (rb_left st temp) st;
       st \<leftarrow> adopt (rb_left st temp) node st;
       let st = set_parent temp (rb_parent st node) st;
       st \<leftarrow> relink_left node (Some temp) st;
       let st = set_left temp (Some node) st;
       Some (set_parent node (Some temp) st)
     }"

definition ngx_rbtree_right_rotate :: "nat \<Rightarrow> rb \<Rightarrow> rb option" where
  "ngx_rbtree_right_rotate node st =
     do {
       temp \<leftarrow> rb_left st node;
       let st = set_left node (rb_right st temp) st;
       st \<leftarrow> adopt (rb_right st temp) node st;
       let st = set_parent temp (rb_parent st node) st;
       st \<leftarrow> relink_right node (Some temp) st;
       let st = set_right temp (Some node) st;
       Some (set_parent node (Some temp) st)
     }"

section \<open>Insertion\<close>

text \<open>The loop of \<^verbatim>\<open>ngx_rbtree_insert_value\<close> and \<^verbatim>\<open>ngx_rbtree_insert_timer_value\<close>, which
  differ in the comparison \<open>lt\<close> of the keys only. The result is \<^verbatim>\<open>temp\<close> and whether \<^verbatim>\<open>p\<close>
  is the address of its left field.\<close>

partial_function (option) rb_descend ::
  "(rb_key_t \<Rightarrow> rb_key_t \<Rightarrow> bool) \<Rightarrow> rb \<Rightarrow> nat \<Rightarrow> nat \<Rightarrow> (nat \<times> bool) option" where
  "rb_descend lt st temp node =
     (let l = lt (rb_key st node) (rb_key st temp);
          p = (if l then rb_left st temp else rb_right st temp)
      in if p = Some (rb_sentinel st) then Some (temp, l)
         else do { t \<leftarrow> p; rb_descend lt st t node })"

definition rb_insert_by ::
  "(rb_key_t \<Rightarrow> rb_key_t \<Rightarrow> bool) \<Rightarrow> nat \<Rightarrow> nat \<Rightarrow> rb \<Rightarrow> rb option" where
  "rb_insert_by lt temp node st =
     do {
       (temp, l) \<leftarrow> rb_descend lt st temp node;
       let st = (if l then set_left temp (Some node) st else set_right temp (Some node) st);
       let st = set_parent node (Some temp) st;
       let st = set_left node (Some (rb_sentinel st)) st;
       let st = set_right node (Some (rb_sentinel st)) st;
       Some (ngx_rbt_red node st)
     }"

definition ngx_rbtree_insert_value :: "nat \<Rightarrow> nat \<Rightarrow> rb \<Rightarrow> rb option" where
  "ngx_rbtree_insert_value = rb_insert_by (\<lambda>a b. a < b)"

text \<open>\<^verbatim>\<open>(ngx_rbtree_key_int_t) (a - b) < 0\<close>\<close>

definition timer_less :: "rb_key_t \<Rightarrow> rb_key_t \<Rightarrow> bool" where
  "timer_less a b \<longleftrightarrow> sint (a - b) < 0"

definition ngx_rbtree_insert_timer_value :: "nat \<Rightarrow> nat \<Rightarrow> rb \<Rightarrow> rb option" where
  "ngx_rbtree_insert_timer_value = rb_insert_by timer_less"

text \<open>The body of the loop that rebalances, on a node whose parent is red.\<close>

definition rb_insert_fix_left :: "nat \<Rightarrow> nat \<Rightarrow> nat \<Rightarrow> rb \<Rightarrow> (nat \<times> rb) option" where
  "rb_insert_fix_left node p g st =
     do {
       temp \<leftarrow> rb_right st g;
       if rb_color st temp then
         Some (g, ngx_rbt_red g (ngx_rbt_black temp (ngx_rbt_black p st)))
       else do {
         (node, st) \<leftarrow> (if Some node = rb_right st p
           then do { st \<leftarrow> ngx_rbtree_left_rotate p st; Some (p, st) } else Some (node, st));
         p \<leftarrow> rb_parent st node;
         let st = ngx_rbt_black p st;
         g \<leftarrow> rb_parent st p;
         let st = ngx_rbt_red g st;
         st \<leftarrow> ngx_rbtree_right_rotate g st;
         Some (node, st)
       }
     }"

definition rb_insert_fix_right :: "nat \<Rightarrow> nat \<Rightarrow> nat \<Rightarrow> rb \<Rightarrow> (nat \<times> rb) option" where
  "rb_insert_fix_right node p g st =
     do {
       temp \<leftarrow> rb_left st g;
       if rb_color st temp then
         Some (g, ngx_rbt_red g (ngx_rbt_black temp (ngx_rbt_black p st)))
       else do {
         (node, st) \<leftarrow> (if Some node = rb_left st p
           then do { st \<leftarrow> ngx_rbtree_right_rotate p st; Some (p, st) } else Some (node, st));
         p \<leftarrow> rb_parent st node;
         let st = ngx_rbt_black p st;
         g \<leftarrow> rb_parent st p;
         let st = ngx_rbt_red g st;
         st \<leftarrow> ngx_rbtree_left_rotate g st;
         Some (node, st)
       }
     }"

definition rb_insert_fix_step :: "nat \<Rightarrow> rb \<Rightarrow> (nat \<times> rb) option" where
  "rb_insert_fix_step node st =
     do {
       p \<leftarrow> rb_parent st node;
       g \<leftarrow> rb_parent st p;
       if Some p = rb_left st g then rb_insert_fix_left node p g st
       else rb_insert_fix_right node p g st
     }"

partial_function (option) rb_insert_fix :: "nat \<Rightarrow> rb \<Rightarrow> rb option" where
  "rb_insert_fix node st =
     (if Some node = rb_root st then Some st
      else do {
        p \<leftarrow> rb_parent st node;
        if \<not> rb_color st p then Some st
        else do {
          (node, st) \<leftarrow> rb_insert_fix_step node st;
          rb_insert_fix node st
        }
      })"

text \<open>\<open>ins\<close> is the function pointer \<^verbatim>\<open>tree->insert\<close>.\<close>

definition ngx_rbtree_insert :: "(nat \<Rightarrow> nat \<Rightarrow> rb \<Rightarrow> rb option) \<Rightarrow> nat \<Rightarrow> rb \<Rightarrow> rb option" where
  "ngx_rbtree_insert ins node st =
     (if rb_root st = Some (rb_sentinel st) then
        (let st = set_parent node None st;
             st = set_left node (Some (rb_sentinel st)) st;
             st = set_right node (Some (rb_sentinel st)) st;
             st = ngx_rbt_black node st
         in Some (st\<lparr>rb_root := Some node\<rparr>))
      else do {
        r \<leftarrow> rb_root st;
        st \<leftarrow> ins r node st;
        st \<leftarrow> rb_insert_fix node st;
        r \<leftarrow> rb_root st;
        Some (ngx_rbt_black r st)
      })"

section \<open>Walking\<close>

partial_function (option) ngx_rbtree_min :: "rb \<Rightarrow> nat \<Rightarrow> nat option" where
  "ngx_rbtree_min st node =
     (if rb_left st node \<noteq> Some (rb_sentinel st)
      then do { l \<leftarrow> rb_left st node; ngx_rbtree_min st l } else Some node)"

text \<open>The loop of \<^verbatim>\<open>ngx_rbtree_next\<close>; the inner option is the pointer returned.\<close>

partial_function (option) rb_ascend :: "rb \<Rightarrow> nat \<Rightarrow> nat option option" where
  "rb_ascend st node =
     (if Some node = rb_root st then Some None
      else do {
        p \<leftarrow> rb_parent st node;
        if Some node = rb_left st p then Some (Some p) else rb_ascend st p
      })"

definition ngx_rbtree_next :: "rb \<Rightarrow> nat \<Rightarrow> nat option option" where
  "ngx_rbtree_next st node =
     (if rb_right st node \<noteq> Some (rb_sentinel st)
      then do { r \<leftarrow> rb_right st node; m \<leftarrow> ngx_rbtree_min st r; Some (Some m) }
      else rb_ascend st node)"

section \<open>Deletion\<close>

text \<open>The choice of \<^verbatim>\<open>subst\<close>, the node taken out of its place, and \<^verbatim>\<open>temp\<close>, its only child or
  the sentinel.\<close>

definition rb_subst :: "nat \<Rightarrow> rb \<Rightarrow> (nat \<times> nat) option" where
  "rb_subst node st =
     (if rb_left st node = Some (rb_sentinel st) then do { temp \<leftarrow> rb_right st node; Some (node, temp) }
      else if rb_right st node = Some (rb_sentinel st) then do { temp \<leftarrow> rb_left st node; Some (node, temp) }
      else do {
        r \<leftarrow> rb_right st node;
        subst \<leftarrow> ngx_rbtree_min st r;
        temp \<leftarrow> rb_right st subst;
        Some (subst, temp)
      })"

text \<open>\<^verbatim>\<open>subst\<close> is unlinked and, if it is not the node to delete, takes the place of that node.\<close>

definition rb_replace :: "nat \<Rightarrow> nat \<Rightarrow> rb \<Rightarrow> rb option" where
  "rb_replace node subst st =
     do {
       let st = set_left subst (rb_left st node) st;
       let st = set_right subst (rb_right st node) st;
       let st = set_parent subst (rb_parent st node) st;
       let st = set_color subst (rb_color st node) st;
       st \<leftarrow> relink_left node (Some subst) st;
       st \<leftarrow> adopt (rb_left st subst) subst st;
       adopt (rb_right st subst) subst st
     }"

definition rb_splice :: "nat \<Rightarrow> nat \<Rightarrow> nat \<Rightarrow> rb \<Rightarrow> rb option" where
  "rb_splice node subst temp st =
     do {
       q \<leftarrow> rb_parent st subst;
       let st = (if Some subst = rb_left st q then set_left q (Some temp) st else set_right q (Some temp) st);
       if subst = node then Some (set_parent temp (rb_parent st subst) st)
       else
         (let st = (if rb_parent st subst = Some node then set_parent temp (Some subst) st
                    else set_parent temp (rb_parent st subst) st)
          in rb_replace node subst st)
     }"

definition rb_clear :: "nat \<Rightarrow> rb \<Rightarrow> rb" where
  "rb_clear node st =
     (let st = set_left node None st; st = set_right node None st; st = set_parent node None st
      in st\<lparr>rb_key := (rb_key st)(node := 0)\<rparr>)"

text \<open>The two halves of the body of the loop, for a \<^verbatim>\<open>temp\<close> that is a left child: a red sibling
  \<^verbatim>\<open>w\<close> is rotated away, then the black one is recoloured or rotated.\<close>

definition rb_delete_red_left :: "nat \<Rightarrow> rb \<Rightarrow> (nat \<times> rb) option" where
  "rb_delete_red_left temp st =
     do {
       p \<leftarrow> rb_parent st temp;
       w \<leftarrow> rb_right st p;
       if rb_color st w then do {
         let st = ngx_rbt_black w st;
         let st = ngx_rbt_red p st;
         st \<leftarrow> ngx_rbtree_left_rotate p st;
         p \<leftarrow> rb_parent st temp;
         w \<leftarrow> rb_right st p;
         Some (w, st)
       } else Some (w, st)
     }"

definition rb_delete_black_left :: "nat \<Rightarrow> nat \<Rightarrow> rb \<Rightarrow> (nat \<times> rb) option" where
  "rb_delete_black_left temp w st =
     do {
       wl \<leftarrow> rb_left st w;
       wr \<leftarrow> rb_right st w;
       if \<not> rb_color st wl \<and> \<not> rb_color st wr then do {
         let st = ngx_rbt_red w st;
         p \<leftarrow> rb_parent st temp;
         Some (p, st)
       } else do {
         (w, st) \<leftarrow> (if \<not> rb_color st wr then do {
             let st = ngx_rbt_black wl st;
             let st = ngx_rbt_red w st;
             st \<leftarrow> ngx_rbtree_right_rotate w st;
             p \<leftarrow> rb_parent st temp;
             w \<leftarrow> rb_right st p;
             Some (w, st)
           } else Some (w, st));
         p \<leftarrow> rb_parent st temp;
         let st = set_color w (rb_color st p) st;
         let st = ngx_rbt_black p st;
         wr \<leftarrow> rb_right st w;
         let st = ngx_rbt_black wr st;
         st \<leftarrow> ngx_rbtree_left_rotate p st;
         r \<leftarrow> rb_root st;
         Some (r, st)
       }
     }"

definition rb_delete_red_right :: "nat \<Rightarrow> rb \<Rightarrow> (nat \<times> rb) option" where
  "rb_delete_red_right temp st =
     do {
       p \<leftarrow> rb_parent st temp;
       w \<leftarrow> rb_left st p;
       if rb_color st w then do {
         let st = ngx_rbt_black w st;
         let st = ngx_rbt_red p st;
         st \<leftarrow> ngx_rbtree_right_rotate p st;
         p \<leftarrow> rb_parent st temp;
         w \<leftarrow> rb_left st p;
         Some (w, st)
       } else Some (w, st)
     }"

definition rb_delete_black_right :: "nat \<Rightarrow> nat \<Rightarrow> rb \<Rightarrow> (nat \<times> rb) option" where
  "rb_delete_black_right temp w st =
     do {
       wl \<leftarrow> rb_left st w;
       wr \<leftarrow> rb_right st w;
       if \<not> rb_color st wl \<and> \<not> rb_color st wr then do {
         let st = ngx_rbt_red w st;
         p \<leftarrow> rb_parent st temp;
         Some (p, st)
       } else do {
         (w, st) \<leftarrow> (if \<not> rb_color st wl then do {
             let st = ngx_rbt_black wr st;
             let st = ngx_rbt_red w st;
             st \<leftarrow> ngx_rbtree_left_rotate w st;
             p \<leftarrow> rb_parent st temp;
             w \<leftarrow> rb_left st p;
             Some (w, st)
           } else Some (w, st));
         p \<leftarrow> rb_parent st temp;
         let st = set_color w (rb_color st p) st;
         let st = ngx_rbt_black p st;
         wl \<leftarrow> rb_left st w;
         let st = ngx_rbt_black wl st;
         st \<leftarrow> ngx_rbtree_right_rotate p st;
         r \<leftarrow> rb_root st;
         Some (r, st)
       }
     }"

definition rb_delete_fix_step :: "nat \<Rightarrow> rb \<Rightarrow> (nat \<times> rb) option" where
  "rb_delete_fix_step temp st =
     do {
       p \<leftarrow> rb_parent st temp;
       if Some temp = rb_left st p then do {
         (w, st) \<leftarrow> rb_delete_red_left temp st;
         rb_delete_black_left temp w st
       } else do {
         (w, st) \<leftarrow> rb_delete_red_right temp st;
         rb_delete_black_right temp w st
       }
     }"

partial_function (option) rb_delete_fix :: "nat \<Rightarrow> rb \<Rightarrow> rb option" where
  "rb_delete_fix temp st =
     (if Some temp = rb_root st \<or> rb_color st temp then Some (ngx_rbt_black temp st)
      else do {
        (temp, st) \<leftarrow> rb_delete_fix_step temp st;
        rb_delete_fix temp st
      })"

definition ngx_rbtree_delete :: "nat \<Rightarrow> rb \<Rightarrow> rb option" where
  "ngx_rbtree_delete node st =
     do {
       (subst, temp) \<leftarrow> rb_subst node st;
       if Some subst = rb_root st then Some (rb_clear node (ngx_rbt_black temp (st\<lparr>rb_root := Some temp\<rparr>)))
       else do {
         let red = rb_color st subst;
         st \<leftarrow> rb_splice node subst temp st;
         let st = rb_clear node st;
         if red then Some st else rb_delete_fix temp st
       }
     }"

definition ngx_rbtree_init :: "nat \<Rightarrow> rb \<Rightarrow> rb" where
  "ngx_rbtree_init s st = (ngx_rbt_black s st)\<lparr>rb_root := Some s, rb_sentinel := s\<rparr>"

section \<open>Trees in the store\<close>

text \<open>The pointer to the root of a tree, and: the nodes of the tree are linked as in the tree, below a
  node \<open>par\<close>.\<close>

fun ptr_to :: "rb \<Rightarrow> nat tree \<Rightarrow> nat option" where
  "ptr_to st Leaf = Some (rb_sentinel st)"
| "ptr_to st (Node l a r) = Some a"

fun at :: "rb \<Rightarrow> nat option \<Rightarrow> nat tree \<Rightarrow> bool" where
  "at st par Leaf \<longleftrightarrow> True"
| "at st par (Node l a r) \<longleftrightarrow>
     a \<noteq> rb_sentinel st \<and> rb_parent st a = par \<and> rb_left st a = ptr_to st l \<and> rb_right st a = ptr_to st r
     \<and> at st (Some a) l \<and> at st (Some a) r"

text \<open>The state holds the tree. The parent of the root is not constrained: the code never reads it.\<close>

definition holds :: "rb \<Rightarrow> nat tree \<Rightarrow> bool" where
  "holds st t \<longleftrightarrow> rb_root st = ptr_to st t \<and> (\<exists>par. at st par t) \<and> distinct (inorder t)"

text \<open>What surrounds a subtree: for each node above it the side it hangs on and the other subtree, from
  the bottom up.\<close>

datatype crumb = LC nat "nat tree" | RC "nat tree" nat

fun plug :: "crumb list \<Rightarrow> nat tree \<Rightarrow> nat tree" where
  "plug [] t = t"
| "plug (LC a r # cs) t = plug cs (Node t a r)"
| "plug (RC l a # cs) t = plug cs (Node l a t)"

fun crumbs_set :: "crumb list \<Rightarrow> nat set" where
  "crumbs_set [] = {}"
| "crumbs_set (LC a t # cs) = insert a (set_tree t) \<union> crumbs_set cs"
| "crumbs_set (RC t a # cs) = insert a (set_tree t) \<union> crumbs_set cs"

fun crumbs_distinct :: "crumb list \<Rightarrow> bool" where
  "crumbs_distinct [] \<longleftrightarrow> True"
| "crumbs_distinct (LC a t # cs) \<longleftrightarrow> distinct (inorder t) \<and> a \<notin> set_tree t
     \<and> insert a (set_tree t) \<inter> crumbs_set cs = {} \<and> crumbs_distinct cs"
| "crumbs_distinct (RC t a # cs) \<longleftrightarrow> distinct (inorder t) \<and> a \<notin> set_tree t
     \<and> insert a (set_tree t) \<inter> crumbs_set cs = {} \<and> crumbs_distinct cs"

fun around :: "rb \<Rightarrow> nat option \<Rightarrow> nat option \<Rightarrow> crumb list \<Rightarrow> bool" where
  "around st x par [] \<longleftrightarrow> rb_root st = x"
| "around st x par (LC a r # cs) \<longleftrightarrow>
     par = Some a \<and> a \<noteq> rb_sentinel st \<and> rb_left st a = x \<and> rb_right st a = ptr_to st r \<and> at st (Some a) r
     \<and> around st (Some a) (rb_parent st a) cs"
| "around st x par (RC l a # cs) \<longleftrightarrow>
     par = Some a \<and> a \<noteq> rb_sentinel st \<and> rb_right st a = x \<and> rb_left st a = ptr_to st l \<and> at st (Some a) l
     \<and> around st (Some a) (rb_parent st a) cs"

lemma plug_set [simp]: "set_tree (plug cs t) = set_tree t \<union> crumbs_set cs"
  by (induction cs t rule: plug.induct) auto

lemma plug_distinct:
  "distinct (inorder (plug cs t)) \<longleftrightarrow>
     distinct (inorder t) \<and> crumbs_distinct cs \<and> set_tree t \<inter> crumbs_set cs = {}"
  by (induction cs t rule: plug.induct) (auto simp flip: set_inorder)

lemma at_around:
  "rb_root st = ptr_to st (plug cs t) \<and> (\<exists>par. at st par (plug cs t)) \<longleftrightarrow>
     (\<exists>par. at st par t \<and> around st (ptr_to st t) par cs)"
  by (induction cs t rule: plug.induct) auto

lemma holds_plug:
  "holds st (plug cs t) \<longleftrightarrow>
     (\<exists>par. at st par t \<and> around st (ptr_to st t) par cs) \<and> distinct (inorder t) \<and> crumbs_distinct cs
     \<and> set_tree t \<inter> crumbs_set cs = {}"
  unfolding holds_def using at_around plug_distinct by metis

text \<open>Only the links of the nodes concerned matter.\<close>

lemma ptr_to_cong: "rb_sentinel st' = rb_sentinel st \<Longrightarrow> ptr_to st' t = ptr_to st t"
  by (cases t) simp_all

lemma at_cong:
  assumes "rb_sentinel st' = rb_sentinel st"
    and "\<And>a. a \<in> set_tree t \<Longrightarrow>
      rb_left st' a = rb_left st a \<and> rb_right st' a = rb_right st a \<and> rb_parent st' a = rb_parent st a"
  shows "at st' par t \<longleftrightarrow> at st par t"
  using assms(2) by (induction t arbitrary: par) (simp_all add: assms(1) ptr_to_cong [OF assms(1)])

lemma around_cong:
  assumes "rb_sentinel st' = rb_sentinel st" "rb_root st' = rb_root st"
    and "\<And>a. a \<in> crumbs_set cs \<Longrightarrow>
      rb_left st' a = rb_left st a \<and> rb_right st' a = rb_right st a \<and> rb_parent st' a = rb_parent st a"
  shows "around st' x par cs \<longleftrightarrow> around st x par cs"
  using assms(3)
proof (induction cs arbitrary: x par)
  case (Cons c cs)
  have "at st' (Some a) t = at st (Some a) t" if "c = LC a t \<or> c = RC t a" for a t
    using that Cons.prems by (intro at_cong) (auto simp: assms(1))
  with Cons show ?case by (cases c) (simp_all add: assms(1) ptr_to_cong [OF assms(1)])
qed (simp add: assms(2))

lemma rb_fields [simp]:
  "rb_left (set_left a p st) = (rb_left st)(a := p)" "rb_right (set_left a p st) = rb_right st"
  "rb_parent (set_left a p st) = rb_parent st" "rb_color (set_left a p st) = rb_color st"
  "rb_right (set_right a p st) = (rb_right st)(a := p)" "rb_left (set_right a p st) = rb_left st"
  "rb_parent (set_right a p st) = rb_parent st" "rb_color (set_right a p st) = rb_color st"
  "rb_parent (set_parent a p st) = (rb_parent st)(a := p)" "rb_left (set_parent a p st) = rb_left st"
  "rb_right (set_parent a p st) = rb_right st" "rb_color (set_parent a p st) = rb_color st"
  "rb_color (set_color a c st) = (rb_color st)(a := c)" "rb_left (set_color a c st) = rb_left st"
  "rb_right (set_color a c st) = rb_right st" "rb_parent (set_color a c st) = rb_parent st"
  "rb_root (set_left a p st) = rb_root st" "rb_root (set_right a p st) = rb_root st"
  "rb_root (set_parent a p st) = rb_root st" "rb_root (set_color a c st) = rb_root st"
  "rb_sentinel (set_left a p st) = rb_sentinel st" "rb_sentinel (set_right a p st) = rb_sentinel st"
  "rb_sentinel (set_parent a p st) = rb_sentinel st" "rb_sentinel (set_color a c st) = rb_sentinel st"
  "rb_key (set_left a p st) = rb_key st" "rb_key (set_right a p st) = rb_key st"
  "rb_key (set_parent a p st) = rb_key st" "rb_key (set_color a c st) = rb_key st"
  by (simp_all add: set_left_def set_right_def set_parent_def set_color_def)

lemma ptr_to_set [simp]:
  "ptr_to (set_left a p st) t = ptr_to st t" "ptr_to (set_right a p st) t = ptr_to st t"
  "ptr_to (set_parent a p st) t = ptr_to st t" "ptr_to (set_color a c st) t = ptr_to st t"
  "ptr_to (st\<lparr>rb_root := p\<rparr>) t = ptr_to st t"
  by (rule ptr_to_cong, simp)+

lemma at_set [simp]:
  "a \<notin> set_tree t \<Longrightarrow> at (set_left a p st) par t = at st par t"
  "a \<notin> set_tree t \<Longrightarrow> at (set_right a p st) par t = at st par t"
  "a \<notin> set_tree t \<Longrightarrow> at (set_parent a p st) par t = at st par t"
  "at (set_color a c st) par t = at st par t" "at (st\<lparr>rb_root := p\<rparr>) par t = at st par t"
  by (rule at_cong; auto)+

lemma around_set [simp]:
  "a \<notin> crumbs_set cs \<Longrightarrow> around (set_left a p st) x par cs = around st x par cs"
  "a \<notin> crumbs_set cs \<Longrightarrow> around (set_right a p st) x par cs = around st x par cs"
  "a \<notin> crumbs_set cs \<Longrightarrow> around (set_parent a p st) x par cs = around st x par cs"
  "around (set_color a c st) x par cs = around st x par cs"
  by (rule around_cong; auto)+

text \<open>Looking around in a tree.\<close>

lemma around_root: "around st x par cs \<Longrightarrow> cs \<noteq> [] \<Longrightarrow> \<exists>a\<in>crumbs_set cs. rb_root st = Some a"
proof (induction cs arbitrary: x par)
  case (Cons c cs)
  then show ?case by (cases c; cases cs) auto
qed simp

lemma ptr_to_in: "ptr_to st t = Some a \<Longrightarrow> a \<noteq> rb_sentinel st \<Longrightarrow> a \<in> set_tree t"
  by (cases t) simp_all

lemma holds_node:
  assumes "holds st (plug cs (Node l a r))"
  shows "a \<noteq> rb_sentinel st" "rb_left st a = ptr_to st l" "rb_right st a = ptr_to st r"
    "rb_root st = Some a \<longleftrightarrow> cs = []"
  using assms around_root [of st "Some a"] unfolding holds_plug by fastforce+

lemma holds_parent:
  assumes "holds st (plug (c # cs) (Node l a r))"
  shows "c = LC b t \<or> c = RC t b \<Longrightarrow> rb_parent st a = Some b"
  using assms unfolding holds_plug by auto

subsection \<open>Rotations\<close>

definition same_data :: "rb \<Rightarrow> rb \<Rightarrow> bool" where
  "same_data st st' \<longleftrightarrow> rb_sentinel st' = rb_sentinel st \<and> rb_key st' = rb_key st \<and> rb_color st' = rb_color st
     \<and> rb_parent st' (rb_sentinel st) = rb_parent st (rb_sentinel st)"

lemma relink_around:
  assumes "around st (Some a) par cs" "rb_parent st a = par" "a \<notin> crumbs_set cs" "crumbs_distinct cs"
    "a \<noteq> rb_sentinel st"
  shows "\<exists>st'. relink_left a x st = Some st' \<and> around st' x par cs \<and> same_data st st'
    \<and> rb_parent st' = rb_parent st
    \<and> (\<forall>b. b \<notin> crumbs_set cs \<longrightarrow> rb_left st' b = rb_left st b \<and> rb_right st' b = rb_right st b)"
proof (cases cs)
  case Nil
  with assms show ?thesis by (auto simp: relink_left_def same_data_def)
next
  case (Cons c cs')
  with assms(1,3) around_root [OF assms(1)] have nr: "rb_root st \<noteq> Some a" by auto
  show ?thesis
  proof (cases c)
    case (LC b t)
    then have "relink_left a x st = Some (set_left b x st)"
      using assms(1,2) nr Cons by (auto simp: relink_left_def)
    then show ?thesis using assms(1,4) Cons LC by (auto simp: same_data_def)
  next
    case (RC t b)
    then have "rb_left st b \<noteq> Some a" using assms Cons ptr_to_in [of st t a] by auto
    then have "relink_left a x st = Some (set_right b x st)"
      using assms(1,2) nr Cons RC by (auto simp: relink_left_def)
    then show ?thesis using assms(1,4) Cons RC by (auto simp: same_data_def)
  qed
qed

lemma left_rotate:
  assumes "holds st (plug cs (Node l a (Node m b r)))"
  shows "\<exists>st'. ngx_rbtree_left_rotate a st = Some st' \<and> holds st' (plug cs (Node (Node l a m) b r))
    \<and> same_data st st'"
proof -
  let ?s = "rb_sentinel st"
  from assms obtain par where A: "at st par (Node l a (Node m b r))" "around st (Some a) par cs"
      and D: "distinct (inorder (Node l a (Node m b r)))" "crumbs_distinct cs"
        "set_tree (Node l a (Node m b r)) \<inter> crumbs_set cs = {}"
    by (auto simp: holds_plug)
  from D(1) have D1: "a \<noteq> b" "a \<notin> set_tree l" "a \<notin> set_tree m" "a \<notin> set_tree r" "b \<notin> set_tree l"
    "b \<notin> set_tree m" "b \<notin> set_tree r" "set_tree l \<inter> set_tree m = {}" "set_tree m \<inter> set_tree r = {}"
    "set_tree l \<inter> set_tree r = {}" "distinct (inorder l)" "distinct (inorder m)" "distinct (inorder r)"
    by (auto simp flip: set_inorder)
  define s1 where "s1 = set_right a (ptr_to st m) st"
  define s2 where "s2 = (if m = Leaf then s1 else set_parent (the (ptr_to st m)) (Some a) s1)"
  have ad: "adopt (rb_left s1 b) a s1 = Some s2"
    using A(1) by (cases m) (auto simp: adopt_def s1_def s2_def)
  define s3 where "s3 = set_parent b par s2"
  have F2: "rb_left s2 = rb_left st" "rb_right s2 = (rb_right st)(a := ptr_to st m)" "rb_root s2 = rb_root st"
    "rb_sentinel s2 = ?s" "rb_key s2 = rb_key st" "rb_color s2 = rb_color st" "rb_parent s2 a = par"
    "rb_parent s2 ?s = rb_parent st ?s" "ptr_to s2 t = ptr_to st t" for t
    using A(1) D1 by (cases m; auto simp: s2_def s1_def)+
  have at2: "at s2 p l = at st p l" "at s2 p r = at st p r" "at s2 (Some a) m" for p
    using A(1) D1 by (cases m; auto simp: s2_def s1_def)+
  have ar: "around s3 (Some a) par cs"
    using A D(3) by (cases m) (auto simp: s3_def s2_def s1_def)
  then obtain s4 where s4: "relink_left a (Some b) s3 = Some s4" "around s4 (Some b) par cs" "same_data s3 s4"
      "rb_parent s4 = rb_parent s3"
      "\<And>b. b \<notin> crumbs_set cs \<Longrightarrow> rb_left s4 b = rb_left s3 b \<and> rb_right s4 b = rb_right s3 b"
    using relink_around [OF ar, of "Some b"] A(1) D D1 F2 by (auto simp: s3_def)
  define s5 where "s5 = set_parent a (Some b) (set_left b (Some a) s4)"
  have "ngx_rbtree_left_rotate a st = Some s5"
    using A(1) ad s4(1) F2 by (simp add: ngx_rbtree_left_rotate_def Let_def s1_def s3_def s5_def)
  have s45: "at s5 p t = at s2 p t" if "a \<notin> set_tree t" "b \<notin> set_tree t" "set_tree t \<inter> crumbs_set cs = {}" for p t
    using that s4 by (intro at_cong) (auto simp: s5_def s3_def same_data_def)
  have sub: "set_tree l \<inter> crumbs_set cs = {}" "set_tree m \<inter> crumbs_set cs = {}" "set_tree r \<inter> crumbs_set cs = {}"
    using D(3) by auto
  have "at s5 (Some a) l" "at s5 (Some a) m" "at s5 (Some b) r"
    using s45 [of l] s45 [of m] s45 [of r] at2 A(1) D1 sub by simp_all
  moreover have "ptr_to s5 t = ptr_to st t" for t
    using s4(3) F2 by (intro ptr_to_cong) (simp add: s5_def s3_def same_data_def)
  ultimately have "at s5 par (Node (Node l a m) b r)"
    using A(1) D D1(1) s4(3,4) s4(5) [of a] s4(5) [of b] F2 by (simp add: s5_def s3_def same_data_def)
  moreover have "around s5 (Some b) par cs" using s4(2) D(3) by (simp add: s5_def)
  ultimately have "holds s5 (plug cs (Node (Node l a m) b r))"
    using D D1 by (auto simp: holds_plug simp flip: set_inorder)
  moreover have "same_data st s5" using s4(3) F2 A(1) by (auto simp: same_data_def s5_def s3_def)
  ultimately show ?thesis using \<open>ngx_rbtree_left_rotate a st = Some s5\<close> by blast
qed

text \<open>The code for the right is the mirror image of the code for the left.\<close>

definition flip :: "rb \<Rightarrow> rb" where
  "flip st = st\<lparr>rb_left := rb_right st, rb_right := rb_left st\<rparr>"

fun crumb_flip :: "crumb \<Rightarrow> crumb" where
  "crumb_flip (LC a t) = RC (mirror t) a"
| "crumb_flip (RC t a) = LC a (mirror t)"

lemma flip_fields [simp]:
  "rb_left (flip st) = rb_right st" "rb_right (flip st) = rb_left st" "rb_parent (flip st) = rb_parent st"
  "rb_root (flip st) = rb_root st" "rb_sentinel (flip st) = rb_sentinel st" "rb_key (flip st) = rb_key st"
  "rb_color (flip st) = rb_color st" "flip (flip st) = st"
  by (simp_all add: flip_def)

lemma flip_set [simp]:
  "flip (set_left a p st) = set_right a p (flip st)" "flip (set_right a p st) = set_left a p (flip st)"
  "flip (set_parent a p st) = set_parent a p (flip st)" "flip (set_color a c st) = set_color a c (flip st)"
  "flip (st\<lparr>rb_root := p\<rparr>) = flip st\<lparr>rb_root := p\<rparr>"
  by (simp_all add: flip_def set_left_def set_right_def set_parent_def set_color_def)

lemma ptr_to_flip [simp]: "ptr_to (flip st) (mirror t) = ptr_to st t"
  by (cases t) simp_all

lemma at_flip [simp]: "at (flip st) par (mirror t) = at st par t"
  by (induction t arbitrary: par) auto

lemma holds_flip [simp]: "holds (flip st) (mirror t) = holds st t"
  by (simp add: holds_def inorder_mirror)

lemma mirror_plug [simp]: "mirror (plug cs t) = plug (map crumb_flip cs) (mirror t)"
  by (induction cs t rule: plug.induct) simp_all

lemma same_data_flip [simp]: "same_data (flip st) st' = same_data st (flip st')"
  "same_data st (flip st') = same_data st st'"
  by (simp_all add: same_data_def)

lemma relink_flip: "relink_right a x (flip st) = map_option flip (relink_left a x st)"
  by (cases "rb_parent st a") (simp_all add: relink_left_def relink_right_def)

lemma adopt_flip: "adopt p a (flip st) = map_option flip (adopt p a st)"
  by (cases p) (simp_all add: adopt_def)

lemma rotate_flip:
  "ngx_rbtree_right_rotate a (flip st) = map_option flip (ngx_rbtree_left_rotate a st)"
  by (cases "rb_right st a") (simp_all add: ngx_rbtree_right_rotate_def ngx_rbtree_left_rotate_def Let_def
      adopt_flip relink_flip bind_map_option map_option_bind comp_def flip: flip_set)

lemma rotate_flip':
  "ngx_rbtree_left_rotate a (flip st) = map_option flip (ngx_rbtree_right_rotate a st)"
  using rotate_flip [of a "flip st"] by (cases "ngx_rbtree_left_rotate a (flip st)") simp_all

lemma right_rotate:
  assumes "holds st (plug cs (Node (Node l b m) a r))"
  shows "\<exists>st'. ngx_rbtree_right_rotate a st = Some st' \<and> holds st' (plug cs (Node l b (Node m a r)))
    \<and> same_data st st'"
proof -
  from assms have "holds (flip st) (plug (map crumb_flip cs) (Node (mirror r) a (Node (mirror m) b (mirror l))))"
    using holds_flip [of st "plug cs (Node (Node l b m) a r)"] by simp
  from left_rotate [OF this] obtain st' where st': "ngx_rbtree_left_rotate a (flip st) = Some st'"
      "holds st' (mirror (plug cs (Node l b (Node m a r))))" "same_data (flip st) st'"
    by auto
  then have "ngx_rbtree_right_rotate a st = Some (flip st')" using rotate_flip [of a "flip st"] by simp
  moreover have "holds (flip st') (plug cs (Node l b (Node m a r)))"
    using st'(2) holds_flip [of "flip st'" "plug cs (Node l b (Node m a r))"] by simp
  ultimately show ?thesis using st'(3) by simp
qed

end
