(* ===== verification/Ngx_Rbtree_Insert.thy ===== *)
theory Ngx_Rbtree_Insert
  imports Ngx_Rbtree
begin

text \<open>
  The red-black invariant on trees of addresses, and the proof that \<^verbatim>\<open>ngx_rbtree_insert\<close> returns,
  keeps it, and puts the new node behind all nodes whose key is not greater.
\<close>

section \<open>The red-black invariant\<close>

fun is_black :: "(nat \<Rightarrow> bool) \<Rightarrow> nat tree \<Rightarrow> bool" where
  "is_black c Leaf \<longleftrightarrow> True"
| "is_black c (Node l a r) \<longleftrightarrow> \<not> c a"

text \<open>\<open>rbt c t n\<close>: no red node has a red child, and every path has \<open>n\<close> black nodes; \<open>c\<close> is the colour
  function, \<open>True\<close> for red.\<close>

fun rbt :: "(nat \<Rightarrow> bool) \<Rightarrow> nat tree \<Rightarrow> nat \<Rightarrow> bool" where
  "rbt c Leaf n \<longleftrightarrow> n = 0"
| "rbt c (Node l a r) n \<longleftrightarrow>
     (if c a then is_black c l \<and> is_black c r \<and> rbt c l n \<and> rbt c r n
      else 0 < n \<and> rbt c l (n - 1) \<and> rbt c r (n - 1))"

text \<open>\<open>ctx c cs n red\<close>: a tree with \<open>n\<close> black nodes on its paths, and a red root if \<open>red\<close> holds, fits
  into the context. The root of the whole tree is black.\<close>

fun ctx :: "(nat \<Rightarrow> bool) \<Rightarrow> crumb list \<Rightarrow> nat \<Rightarrow> bool \<Rightarrow> bool" where
  "ctx c [] n red \<longleftrightarrow> \<not> red"
| "ctx c (LC a t # cs) n red \<longleftrightarrow>
     rbt c t n \<and> (if c a then \<not> red \<and> is_black c t \<and> ctx c cs n True else ctx c cs (Suc n) False)"
| "ctx c (RC t a # cs) n red \<longleftrightarrow>
     rbt c t n \<and> (if c a then \<not> red \<and> is_black c t \<and> ctx c cs n True else ctx c cs (Suc n) False)"

definition red_black :: "(nat \<Rightarrow> bool) \<Rightarrow> nat tree \<Rightarrow> bool" where
  "red_black c t \<longleftrightarrow> is_black c t \<and> (\<exists>n. rbt c t n)"

lemma is_black_upd [simp]: "a \<notin> set_tree t \<Longrightarrow> is_black (c(a := x)) t = is_black c t"
  by (cases t) auto

lemma rbt_upd [simp]: "a \<notin> set_tree t \<Longrightarrow> rbt (c(a := x)) t n = rbt c t n"
  by (induction t arbitrary: n) auto

lemma ctx_upd [simp]: "a \<notin> crumbs_set cs \<Longrightarrow> ctx (c(a := x)) cs n red = ctx c cs n red"
  by (induction c cs n red rule: ctx.induct) auto

lemma is_black_mirror [simp]: "is_black c (mirror t) = is_black c t"
  by (cases t) auto

lemma rbt_mirror [simp]: "rbt c (mirror t) n = rbt c t n"
  by (induction t arbitrary: n) auto

lemma ctx_flip [simp]: "ctx c (map crumb_flip cs) n red = ctx c cs n red"
  by (induction c cs n red rule: ctx.induct) auto

lemma red_black_plug: "red_black c (plug cs t) \<longleftrightarrow> (\<exists>n. rbt c t n \<and> ctx c cs n (\<not> is_black c t))"
proof (induction cs t rule: plug.induct)
  case (1 t)
  then show ?case by (auto simp: red_black_def)
next
  case (2 a r cs t)
  have "(\<exists>n. rbt c (Node t a r) n \<and> ctx c cs n (c a)) \<longleftrightarrow> (\<exists>n. rbt c t n \<and> ctx c (LC a r # cs) n (\<not> is_black c t))"
    by (cases "c a") (auto simp: gr0_conv_Suc)
  with 2 show ?case by simp
next
  case (3 l a cs t)
  have "(\<exists>n. rbt c (Node l a t) n \<and> ctx c cs n (c a)) \<longleftrightarrow> (\<exists>n. rbt c t n \<and> ctx c (RC l a # cs) n (\<not> is_black c t))"
    by (cases "c a") (auto simp: gr0_conv_Suc)
  with 3 show ?case by simp
qed

lemma inorder_plug: "inorder t = inorder t' \<Longrightarrow> inorder (plug cs t) = inorder (plug cs t')"
  by (induction cs t arbitrary: t' rule: plug.induct) simp_all

section \<open>Rebalancing after an insertion\<close>

definition ins_inv :: "rb \<Rightarrow> nat list \<Rightarrow> crumb list \<Rightarrow> nat \<Rightarrow> bool" where
  "ins_inv st xs cs a \<longleftrightarrow> (\<exists>l r n. holds st (plug cs (Node l a r)) \<and> inorder (plug cs (Node l a r)) = xs
     \<and> rb_color st a \<and> rbt (rb_color st) (Node l a r) n \<and> ctx (rb_color st) cs n False
     \<and> \<not> rb_color st (rb_sentinel st))"

definition kept :: "rb \<Rightarrow> rb \<Rightarrow> bool" where
  "kept st st' \<longleftrightarrow> rb_sentinel st' = rb_sentinel st \<and> rb_key st' = rb_key st"

lemma crumb_flip_flip [simp]: "crumb_flip (crumb_flip c) = c"
  by (cases c) simp_all

lemma ins_inv_flip: "ins_inv (flip st) (rev xs) (map crumb_flip cs) a \<longleftrightarrow> ins_inv st xs cs a"
proof -
  have "ins_inv (flip st) (rev xs) (map crumb_flip cs) a" if "ins_inv st xs cs a" for st xs cs
  proof -
    from that obtain l r n where *: "holds st (plug cs (Node l a r))" "inorder (plug cs (Node l a r)) = xs"
        "rb_color st a" "rbt (rb_color st) (Node l a r) n" "ctx (rb_color st) cs n False"
        "\<not> rb_color st (rb_sentinel st)"
      by (auto simp: ins_inv_def)
    have "mirror (plug cs (Node l a r)) = plug (map crumb_flip cs) (Node (mirror r) a (mirror l))" by simp
    with * show ?thesis unfolding ins_inv_def
      using holds_flip [of st "plug cs (Node l a r)"] inorder_mirror [of "plug cs (Node l a r)"]
      by (intro exI [of _ "mirror r"] exI [of _ "mirror l"] exI [of _ n]) simp
  qed
  from this [of st xs cs] this [of "flip st" "rev xs" "map crumb_flip cs"]
  show ?thesis by (auto simp: comp_def crumb_flip_flip)
qed

text \<open>The nodes named in a context and the trees beside them are different.\<close>

lemma holds_distinct: "holds st t \<Longrightarrow> distinct (inorder t)"
  by (simp add: holds_def)

lemma insert_rotate_right:
  assumes T: "holds st (plug cs (Node (Node (Node l a r) p s) g u))"
    and C: "rb_color st a" "rbt (rb_color st) (Node l a r) n" "rbt (rb_color st) s n" "is_black (rb_color st) s"
      "is_black (rb_color st) u" "rbt (rb_color st) u n" "ctx (rb_color st) cs (Suc n) False"
      "\<not> rb_color st (rb_sentinel st)"
  shows "\<exists>st'. do {
      p \<leftarrow> rb_parent st a; let st = ngx_rbt_black p st; g \<leftarrow> rb_parent st p; let st = ngx_rbt_red g st;
      st \<leftarrow> ngx_rbtree_right_rotate g st; Some (a, st) } = Some (a, st')
    \<and> ins_inv st' (inorder (plug cs (Node (Node (Node l a r) p s) g u))) (LC p (Node s g u) # cs) a \<and> kept st st'"
proof -
  let ?st = "ngx_rbt_red g (ngx_rbt_black p st)"
  have pa: "rb_parent st a = Some p" "rb_parent st p = Some g"
    using T by (auto simp: holds_plug)
  have sen: "rb_sentinel st \<noteq> g" using T by (auto simp: holds_plug)
  from holds_distinct [OF T] have D: "distinct [a, p, g]" "{a, p, g} \<inter> (set_tree l \<union> set_tree r \<union> set_tree s \<union> set_tree u) = {}"
      "{a, p, g} \<inter> crumbs_set cs = {}"
    by (auto simp: plug_distinct simp flip: set_inorder)
  have "holds ?st (plug cs (Node (Node (Node l a r) p s) g u))" using T by (simp add: holds_plug)
  from right_rotate [OF this] obtain st' where st': "ngx_rbtree_right_rotate g ?st = Some st'"
      "holds st' (plug cs (Node (Node l a r) p (Node s g u)))" "same_data ?st st'" by auto
  have "inorder (plug cs (Node (Node l a r) p (Node s g u))) = inorder (plug cs (Node (Node (Node l a r) p s) g u))"
    by (rule inorder_plug) simp
  moreover have "rb_color st' = (rb_color st)(p := False, g := True)" "rb_sentinel st' = rb_sentinel st"
      "rb_key st' = rb_key st"
    using st'(3) by (simp_all add: same_data_def)
  ultimately have "ins_inv st' (inorder (plug cs (Node (Node (Node l a r) p s) g u))) (LC p (Node s g u) # cs) a \<and> kept st st'"
    unfolding ins_inv_def kept_def using st'(2) C D sen
    by (intro conjI exI [of _ l] exI [of _ r] exI [of _ n]) auto
  with st'(1) pa show ?thesis by simp
qed

lemma insert_recolour:
  assumes T: "holds st (plug cs (Node t g (Node ul w ur)))" and t: "t = Node (Node l a r) p s \<or> t = Node s p (Node l a r)"
    and C: "rb_color st a" "rbt (rb_color st) (Node l a r) n" "rbt (rb_color st) s n" "rb_color st w"
      "rbt (rb_color st) (Node ul w ur) n" "ctx (rb_color st) cs (Suc n) False" "\<not> rb_color st (rb_sentinel st)"
  shows "ins_inv (ngx_rbt_red g (ngx_rbt_black w (ngx_rbt_black p st)))
    (inorder (plug cs (Node t g (Node ul w ur)))) cs g"
proof -
  from holds_distinct [OF T] t have D: "distinct [a, p, g, w]"
      "{a, p, g, w} \<inter> (set_tree l \<union> set_tree r \<union> set_tree s \<union> set_tree ul \<union> set_tree ur) = {}"
      "{a, p, g, w} \<inter> crumbs_set cs = {}"
    by (auto simp: plug_distinct simp flip: set_inorder)
  have sen: "rb_sentinel st \<noteq> g" using T by (auto simp: holds_plug)
  let ?st = "ngx_rbt_red g (ngx_rbt_black w (ngx_rbt_black p st))"
  have "holds ?st (plug cs (Node t g (Node ul w ur)))" using T by (simp add: holds_plug)
  moreover have "rbt (rb_color ?st) t (Suc n) \<and> is_black (rb_color ?st) t"
    using t C D by (elim disjE) simp_all
  moreover have "rbt (rb_color ?st) (Node ul w ur) (Suc n)" using C D by simp
  moreover have "ctx (rb_color ?st) cs (Suc n) False" using C D by simp
  ultimately show ?thesis unfolding ins_inv_def using C(7) D(1) sen
    by (intro exI [of _ t] exI [of _ "Node ul w ur"] exI [of _ "Suc n"]) simp
qed

lemma insert_fix_left:
  assumes inv: "ins_inv st xs (c1 # LC g u # cs) a" and c1: "c1 = LC p s \<or> c1 = RC s p" and red: "rb_color st p"
  shows "\<exists>b st' cs'. rb_insert_fix_left a p g st = Some (b, st') \<and> ins_inv st' xs cs' b
    \<and> length cs' < length (c1 # LC g u # cs) \<and> kept st st'"
proof -
  let ?c = "rb_color st"
  from inv obtain l r n where T: "holds st (plug (c1 # LC g u # cs) (Node l a r))"
      and xs: "inorder (plug (c1 # LC g u # cs) (Node l a r)) = xs"
      and C: "?c a" "rbt ?c (Node l a r) n" "ctx ?c (c1 # LC g u # cs) n False" "\<not> ?c (rb_sentinel st)"
    by (auto simp: ins_inv_def)
  have s: "rbt ?c s n" "is_black ?c s" "\<not> ?c g" "rbt ?c u n" "ctx ?c cs (Suc n) False"
    using C(3) c1 red by (auto split: if_splits)
  have g: "rb_right st g = ptr_to st u"
    using T c1 holds_node(3) [of st cs _ g u] by auto
  show ?thesis
  proof (cases "is_black ?c u")
    case False
    then obtain ul w ur where u: "u = Node ul w ur" "?c w" by (cases u) auto
    let ?st = "ngx_rbt_red g (ngx_rbt_black w (ngx_rbt_black p st))"
    have "rb_insert_fix_left a p g st = Some (g, ?st)" using g u by (simp add: rb_insert_fix_left_def)
    moreover have "ins_inv ?st xs cs g"
      using c1
    proof
      assume c1: "c1 = LC p s"
      then show ?thesis using insert_recolour [of st cs "Node (Node l a r) p s" g ul w ur l a r p s n] T C s u xs by simp
    next
      assume c1: "c1 = RC s p"
      then show ?thesis using insert_recolour [of st cs "Node s p (Node l a r)" g ul w ur l a r p s n] T C s u xs by simp
    qed
    moreover have "kept st ?st" by (simp add: kept_def)
    ultimately show ?thesis by fastforce
  next
    case True
    then have un: "\<exists>w. rb_right st g = Some w \<and> \<not> ?c w" using g C(4) by (cases u) auto
    show ?thesis using c1
    proof
      assume c1: "c1 = LC p s"
      have "rb_right st p = ptr_to st s" using T c1 holds_node(3) [of st "LC g u # cs" "Node l a r" p s] by simp
      moreover have "a \<notin> set_tree s" "a \<noteq> rb_sentinel st"
        using holds_distinct [OF T] holds_node(1) [OF T] c1 by (auto simp: plug_distinct simp flip: set_inorder)
      ultimately have "rb_right st p \<noteq> Some a" using ptr_to_in [of st s a] by auto
      with un have "rb_insert_fix_left a p g st = do {
          p \<leftarrow> rb_parent st a; let st = ngx_rbt_black p st; g \<leftarrow> rb_parent st p; let st = ngx_rbt_red g st;
          st \<leftarrow> ngx_rbtree_right_rotate g st; Some (a, st) }"
        by (auto simp: rb_insert_fix_left_def)
      with insert_rotate_right [of st cs l a r p s g u n] T C s True c1 xs show ?thesis by fastforce
    next
      assume c1: "c1 = RC s p"
      then have T': "holds st (plug (LC g u # cs) (Node s p (Node l a r)))" using T by simp
      then have "rb_right st p = Some a" using holds_node(3) [OF T'] by simp
      moreover obtain st1 where st1: "ngx_rbtree_left_rotate p st = Some st1"
          "holds st1 (plug (LC g u # cs) (Node (Node s p l) a r))" "same_data st st1"
        using left_rotate [OF T'] by auto
      ultimately have "rb_insert_fix_left a p g st = do {
          q \<leftarrow> rb_parent st1 p; let st = ngx_rbt_black q st1; g \<leftarrow> rb_parent st q; let st = ngx_rbt_red g st;
          st \<leftarrow> ngx_rbtree_right_rotate g st; Some (p, st) }"
        using un by (auto simp: rb_insert_fix_left_def)
      moreover have "inorder (plug (LC g u # cs) (Node (Node s p l) a r)) = xs"
        unfolding xs [symmetric] c1 by (simp, rule inorder_plug) simp
      ultimately show ?thesis
        using insert_rotate_right [of st1 cs s p l a r g u n] st1 C s True red by (fastforce simp: same_data_def kept_def)
    qed
  qed
qed

lemma insert_fix_flip:
  "rb_insert_fix_right a p g (flip st) = map_option (map_prod id flip) (rb_insert_fix_left a p g st)"
  by (simp add: rb_insert_fix_right_def rb_insert_fix_left_def rotate_flip rotate_flip' Let_def
      map_option_bind bind_map_option comp_def if_distrib [of "map_option _"] flip: flip_set cong: if_cong)

lemma insert_fix_right:
  assumes inv: "ins_inv st xs (c1 # RC u g # cs) a" and c1: "c1 = LC p s \<or> c1 = RC s p" and red: "rb_color st p"
  shows "\<exists>b st' cs'. rb_insert_fix_right a p g st = Some (b, st') \<and> ins_inv st' xs cs' b
    \<and> length cs' < length (c1 # RC u g # cs) \<and> kept st st'"
proof -
  have "ins_inv (flip st) (rev xs) (crumb_flip c1 # LC g (mirror u) # map crumb_flip cs) a"
    using inv ins_inv_flip [of st xs "c1 # RC u g # cs" a] by simp
  moreover have "crumb_flip c1 = LC p (mirror s) \<or> crumb_flip c1 = RC (mirror s) p" using c1 by auto
  ultimately obtain b st' cs' where *: "rb_insert_fix_left a p g (flip st) = Some (b, st')"
      "ins_inv st' (rev xs) cs' b" "length cs' < length (c1 # RC u g # cs)" "kept (flip st) st'"
    using insert_fix_left [of "flip st" "rev xs" "crumb_flip c1" g "mirror u" "map crumb_flip cs" a p "mirror s"] red
    by auto
  have "rb_insert_fix_right a p g st = Some (b, flip st')"
    using insert_fix_flip [of a p g "flip st"] *(1) by simp
  moreover have "ins_inv (flip st') xs (map crumb_flip cs') b"
    using *(2) ins_inv_flip [of st' "rev xs" cs' b] by simp
  ultimately show ?thesis using *(3,4) by (force simp: kept_def)
qed

lemma ins_inv_parent:
  assumes "ins_inv st xs (c # cs) a" "c = LC b t \<or> c = RC t b"
  shows "rb_parent st a = Some b"
  using assms holds_parent unfolding ins_inv_def by blast

lemma ins_inv_cases:
  assumes "ins_inv st xs (c1 # cs) a" "c1 = LC p s \<or> c1 = RC s p" "rb_color st p"
  obtains g u cs' where "cs = LC g u # cs'" "rb_parent st p = Some g" "rb_left st g = Some p"
  | g u cs' where "cs = RC u g # cs'" "rb_parent st p = Some g" "rb_left st g \<noteq> Some p"
proof -
  from assms obtain l r n where T: "holds st (plug (c1 # cs) (Node l a r))" and ct: "ctx (rb_color st) (c1 # cs) n False"
    by (auto simp: ins_inv_def)
  from assms(2) obtain t1 t2 where t: "plug (c1 # cs) (Node l a r) = plug cs (Node t1 p t2)" by auto
  note T' = T [unfolded t]
  from ct assms(2,3) obtain c2 cs' where cs: "cs = c2 # cs'" by (cases cs) auto
  note T2 = T' [unfolded cs]
  show ?thesis
  proof (cases c2)
    case (LC g u)
    with T2 holds_parent [OF T2] holds_node(2) [of st cs' "Node t1 p t2" g u] show ?thesis
      using that(1) [of g u cs'] cs by simp
  next
    case (RC u g)
    have "rb_left st g = ptr_to st u" using T2 RC holds_node(2) [of st cs' u g] by simp
    moreover have "p \<notin> set_tree u" "p \<noteq> rb_sentinel st"
      using holds_distinct [OF T2] RC holds_node(1) [OF T'] by (auto simp: plug_distinct simp flip: set_inorder)
    ultimately have "rb_left st g \<noteq> Some p" using ptr_to_in [of st u p] by auto
    with RC holds_parent [OF T2] show ?thesis using that(2) [of u g cs'] cs by simp
  qed
qed

lemma insert_fix_step:
  assumes "ins_inv st xs (c1 # cs) a" "c1 = LC p s \<or> c1 = RC s p" "rb_color st p"
  shows "\<exists>b st' cs'. rb_insert_fix_step a st = Some (b, st') \<and> ins_inv st' xs cs' b
    \<and> length cs' < length (c1 # cs) \<and> kept st st'"
  using assms
proof (cases rule: ins_inv_cases)
  case (1 g u cs')
  with insert_fix_left [of st xs c1 g u cs' a p s] ins_inv_parent [OF assms(1,2)] assms show ?thesis
    by (simp add: rb_insert_fix_step_def)
next
  case (2 g u cs')
  with insert_fix_right [of st xs c1 u g cs' a p s] ins_inv_parent [OF assms(1,2)] assms show ?thesis
    by (simp add: rb_insert_fix_step_def)
qed

text \<open>The loop ends because the context of the current node shrinks, and the root painted black gives a
  red-black tree.\<close>

lemma insert_fix:
  assumes "ins_inv st xs cs a"
  shows "\<exists>st' t b. rb_insert_fix a st = Some st' \<and> holds st' t \<and> inorder t = xs \<and> kept st st'
    \<and> rb_root st' = Some b \<and> b \<noteq> rb_sentinel st \<and> \<not> rb_color st' (rb_sentinel st')
    \<and> red_black ((rb_color st')(b := False)) t"
  using assms
proof (induction "length cs" arbitrary: st cs a rule: less_induct)
  case less
  from less.prems obtain l r n where T: "holds st (plug cs (Node l a r))"
      and C: "inorder (plug cs (Node l a r)) = xs" "rb_color st a" "rbt (rb_color st) (Node l a r) n"
        "ctx (rb_color st) cs n False" "\<not> rb_color st (rb_sentinel st)"
    by (auto simp: ins_inv_def)
  note T_node = holds_node [OF T]
  show ?case
  proof (cases cs)
    case Nil
    have "distinct (inorder (Node l a r))" using holds_distinct [OF T] Nil by simp
    then have "rbt ((rb_color st)(a := False)) (Node l a r) (Suc n)" using C(2,3) by (auto simp flip: set_inorder)
    then have "red_black ((rb_color st)(a := False)) (Node l a r)" by (auto simp: red_black_def simp del: rbt.simps)
    then show ?thesis using T T_node C Nil rb_insert_fix.simps [of a st] by (auto simp: kept_def)
  next
    case (Cons c1 cs1)
    obtain p s where c1: "c1 = LC p s \<or> c1 = RC s p" by (cases c1) auto
    have par: "rb_parent st a = Some p" using ins_inv_parent [of st xs c1 cs1 a p s] less.prems Cons c1 by simp
    show ?thesis
    proof (cases "rb_color st p")
      case True
      with insert_fix_step [of st xs c1 cs1 a p s] less.prems Cons c1 obtain b st1 cs' where
        st1: "rb_insert_fix_step a st = Some (b, st1)" "ins_inv st1 xs cs' b" "length cs' < length cs" "kept st st1"
        by auto
      have "rb_insert_fix a st = rb_insert_fix b st1"
        using rb_insert_fix.simps [of a st] st1(1) T_node Cons par True by simp
      with less.hyps [OF st1(3,2)] st1(4) show ?thesis by (auto simp: kept_def)
    next
      case False
      then have "red_black (rb_color st) (plug cs (Node l a r))"
        unfolding red_black_plug using C c1 Cons by (intro exI [of _ n]) auto
      moreover obtain x b y where pl: "plug cs (Node l a r) = Node x b y"
        using plug_set [of cs "Node l a r"] by (cases "plug cs (Node l a r)") auto
      moreover have b: "rb_root st = Some b" "b \<noteq> rb_sentinel st" using T pl by (auto simp: holds_def)
      ultimately have "red_black ((rb_color st)(b := False)) (plug cs (Node l a r))"
        by (simp add: red_black_def fun_upd_idem del: rbt.simps)
      moreover have "rb_insert_fix a st = Some st"
        using rb_insert_fix.simps [of a st] T_node Cons par False by simp
      ultimately show ?thesis using T C b by (auto simp: kept_def)
    qed
  qed
qed

section \<open>The place of a new node\<close>

text \<open>The place in the sequence of nodes: behind the nodes whose key the new key is not below.\<close>

definition place :: "('k \<Rightarrow> 'k \<Rightarrow> bool) \<Rightarrow> (nat \<Rightarrow> 'k) \<Rightarrow> nat \<Rightarrow> nat list \<Rightarrow> nat list" where
  "place lt key node xs =
     takeWhile (\<lambda>x. \<not> lt (key node) (key x)) xs @ node # dropWhile (\<lambda>x. \<not> lt (key node) (key x)) xs"

lemma place_set: "set (place lt key node xs) = insert node (set xs)"
proof -
  let ?P = "\<lambda>x. \<not> lt (key node) (key x)"
  have "set (takeWhile ?P xs) \<union> set (dropWhile ?P xs) = set xs"
    unfolding set_append [symmetric] takeWhile_dropWhile_id ..
  then show ?thesis by (auto simp: place_def)
qed

text \<open>Once the new key is below a key of the sequence it stays below.\<close>

definition placeable :: "('k \<Rightarrow> 'k \<Rightarrow> bool) \<Rightarrow> (nat \<Rightarrow> 'k) \<Rightarrow> nat \<Rightarrow> nat list \<Rightarrow> bool" where
  "placeable lt key node xs \<longleftrightarrow> sorted_wrt (\<lambda>x y. lt (key node) (key x) \<longrightarrow> lt (key node) (key y)) xs"

lemma place_left:
  assumes "lt (key node) (key a)"
  shows "place lt key node (xs @ a # ys) = place lt key node xs @ a # ys"
proof (cases "\<exists>x\<in>set xs. lt (key node) (key x)")
  case True
  then obtain x where "x \<in> set xs" "lt (key node) (key x)" by blast
  then show ?thesis by (simp add: place_def takeWhile_append1 dropWhile_append1)
next
  case False
  then have tw: "takeWhile (\<lambda>x. \<not> lt (key node) (key x)) xs = xs" "dropWhile (\<lambda>x. \<not> lt (key node) (key x)) xs = []"
    by (simp_all add: takeWhile_eq_all_conv dropWhile_eq_Nil_conv)
  with False assms show ?thesis by (simp add: place_def tw takeWhile_append2 dropWhile_append2)
qed

lemma placeable_parts:
  "placeable lt key node (xs @ a # ys) \<longleftrightarrow> placeable lt key node xs \<and> placeable lt key node ys
     \<and> (\<forall>x\<in>set xs. lt (key node) (key x) \<longrightarrow> lt (key node) (key a))
     \<and> (\<forall>x\<in>set xs. \<forall>y\<in>set ys. lt (key node) (key x) \<longrightarrow> lt (key node) (key y))
     \<and> (\<forall>y\<in>set ys. lt (key node) (key a) \<longrightarrow> lt (key node) (key y))"
  unfolding placeable_def sorted_wrt_append sorted_wrt.simps list.set ball_simps by blast

lemma place_right:
  assumes "placeable lt key node (xs @ a # ys)" "\<not> lt (key node) (key a)"
  shows "place lt key node (xs @ a # ys) = xs @ a # place lt key node ys"
proof -
  have "\<forall>x\<in>set xs. \<not> lt (key node) (key x)" using assms unfolding placeable_parts by blast
  then show ?thesis using assms(2) by (simp add: place_def takeWhile_append2 dropWhile_append2)
qed

text \<open>The descent reaches the place.\<close>

fun hang :: "bool \<Rightarrow> nat \<Rightarrow> nat tree \<Rightarrow> nat tree \<Rightarrow> nat tree" where
  "hang True b s t = Node t b s"
| "hang False b s t = Node s b t"

lemma plug_snoc: "plug (cs @ [LC a r]) t = Node (plug cs t) a r" "plug (cs @ [RC l a]) t = Node l a (plug cs t)"
  by (induction cs t rule: plug.induct) simp_all

lemma descend:
  assumes "at st par t" "t = Node l a r" "placeable lt (rb_key st) node (inorder t)"
  shows "\<exists>b lf cs s. rb_descend lt st a node = Some (b, lf) \<and> t = plug cs (hang lf b s Leaf)
    \<and> inorder (plug cs (hang lf b s (Node Leaf node Leaf))) = place lt (rb_key st) node (inorder t)"
  using assms
proof (induction t arbitrary: par l a r)
  case (Node l' a' r')
  have eqs: "l' = l" "a' = a" "r' = r" using Node.prems(2) by simp_all
  note IH = Node.IH [unfolded eqs]
  have at: "rb_left st a = ptr_to st l" "rb_right st a = ptr_to st r" "at st (Some a) l" "at st (Some a) r"
    and ne: "\<And>x y z. l = Node x y z \<Longrightarrow> y \<noteq> rb_sentinel st" "\<And>x y z. r = Node x y z \<Longrightarrow> y \<noteq> rb_sentinel st"
    using Node.prems(1,2) by auto
  have pl: "placeable lt (rb_key st) node (inorder l @ a # inorder r)" using Node.prems(2,3) by simp
  then have pl2: "placeable lt (rb_key st) node (inorder l)" "placeable lt (rb_key st) node (inorder r)"
    unfolding placeable_parts by blast+
  have eq: "rb_descend lt st a node = (let p = (if lt (rb_key st node) (rb_key st a) then rb_left st a else rb_right st a)
    in if p = Some (rb_sentinel st) then Some (a, lt (rb_key st node) (rb_key st a))
       else p \<bind> (\<lambda>t. rb_descend lt st t node))"
    by (simp add: rb_descend.simps [of lt st a node] Let_def)
  show ?case
  proof (cases "lt (rb_key st node) (rb_key st a)")
    case True
    note P = place_left [where lt = lt and key = "rb_key st" and node = node, OF True, of "inorder l" "inorder r"]
    show ?thesis
    proof (cases l)
      case Leaf
      then show ?thesis using True at eq P eqs
        by (intro exI [of _ a] exI [of _ True] exI [of _ "[]"] exI [of _ r]) (simp add: place_def)
    next
      case (Node x y z)
      from IH(1) [OF at(3) Node pl2(1)] obtain b lf cs s where
        "rb_descend lt st y node = Some (b, lf)" "l = plug cs (hang lf b s Leaf)"
        "inorder (plug cs (hang lf b s (Node Leaf node Leaf))) = place lt (rb_key st) node (inorder l)"
        by blast
      moreover have "rb_descend lt st a node = rb_descend lt st y node"
        using eq True at ne(1) [OF Node] Node by simp
      ultimately show ?thesis using P eqs
        by (intro exI [of _ b] exI [of _ lf] exI [of _ "cs @ [LC a r]"] exI [of _ s]) (simp add: plug_snoc)
    qed
  next
    case False
    note P = place_right [OF pl False]
    show ?thesis
    proof (cases r)
      case Leaf
      then show ?thesis using False at eq P eqs
        by (intro exI [of _ a] exI [of _ False] exI [of _ "[]"] exI [of _ l]) (simp add: place_def)
    next
      case (Node x y z)
      from IH(2) [OF at(4) Node pl2(2)] obtain b lf cs s where
        "rb_descend lt st y node = Some (b, lf)" "r = plug cs (hang lf b s Leaf)"
        "inorder (plug cs (hang lf b s (Node Leaf node Leaf))) = place lt (rb_key st) node (inorder r)"
        by blast
      moreover have "rb_descend lt st a node = rb_descend lt st y node"
        using eq False at ne(2) [OF Node] Node by simp
      ultimately show ?thesis using P eqs
        by (intro exI [of _ b] exI [of _ lf] exI [of _ "cs @ [RC l a]"] exI [of _ s]) (simp add: plug_snoc)
    qed
  qed
qed simp

section \<open>Insertion\<close>

text \<open>The contract of the tree: the state holds a red-black tree with a black root whose nodes are, in
  order, \<open>xs\<close>, and the sentinel is black.\<close>

definition rbtree :: "rb \<Rightarrow> nat list \<Rightarrow> bool" where
  "rbtree st xs \<longleftrightarrow> (\<exists>t. holds st t \<and> inorder t = xs \<and> red_black (rb_color st) t)
     \<and> \<not> rb_color st (rb_sentinel st)"

lemma rbtree_key [simp]: "rbtree (st\<lparr>rb_key := f\<rparr>) xs = rbtree st xs"
proof -
  have "ptr_to (st\<lparr>rb_key := f\<rparr>) t = ptr_to st t" "at (st\<lparr>rb_key := f\<rparr>) par t = at st par t" for par t
    by (rule ptr_to_cong, simp, rule at_cong) simp_all
  then show ?thesis by (simp add: rbtree_def holds_def)
qed

definition hang_crumb :: "bool \<Rightarrow> nat \<Rightarrow> nat tree \<Rightarrow> crumb" where
  "hang_crumb lf b s = (if lf then LC b s else RC s b)"

lemma plug_hang: "plug cs (hang lf b s t) = plug (hang_crumb lf b s # cs) t"
  by (cases lf) (simp_all add: hang_crumb_def)

definition rb_attach :: "bool \<Rightarrow> nat \<Rightarrow> nat \<Rightarrow> rb \<Rightarrow> rb" where
  "rb_attach lf b node st =
     ngx_rbt_red node (set_right node (Some (rb_sentinel st)) (set_left node (Some (rb_sentinel st))
       (set_parent node (Some b) (if lf then set_left b (Some node) st else set_right b (Some node) st))))"

lemma attach_fields [simp]:
  "rb_color (rb_attach lf b node st) = (rb_color st)(node := True)"
  "rb_sentinel (rb_attach lf b node st) = rb_sentinel st" "rb_key (rb_attach lf b node st) = rb_key st"
  by (simp_all add: rb_attach_def)

lemma attach:
  assumes T: "holds st (plug cs (hang lf b s Leaf))" and n: "node \<notin> set_tree (plug cs (hang lf b s Leaf))"
    "node \<noteq> rb_sentinel st"
  shows "holds (rb_attach lf b node st) (plug cs (hang lf b s (Node Leaf node Leaf)))"
proof -
  have D: "b \<notin> set_tree s" "b \<notin> crumbs_set cs" "distinct (inorder s)" "set_tree s \<inter> crumbs_set cs = {}" "crumbs_distinct cs"
    using holds_distinct [OF T] by (cases lf; auto simp: plug_distinct simp flip: set_inorder)+
  have N: "node \<noteq> b" "node \<notin> set_tree s" "node \<notin> crumbs_set cs" using n by (cases lf; auto)+
  from T obtain par where A: "at st par (hang lf b s Leaf)" "around st (Some b) par cs"
    by (cases lf) (auto simp: holds_plug)
  then have "at (rb_attach lf b node st) par (hang lf b s (Node Leaf node Leaf))"
    "around (rb_attach lf b node st) (Some b) par cs"
    using D N n(2) by (cases lf; auto simp: rb_attach_def)+
  then show ?thesis unfolding holds_plug using D N by (cases lf) auto
qed

lemma insert_by:
  assumes T: "holds st (Node l a r)" and rb: "red_black (rb_color st) (Node l a r)" "\<not> rb_color st (rb_sentinel st)"
    and n: "node \<notin> set_tree (Node l a r)" "node \<noteq> rb_sentinel st"
    and pl: "placeable lt (rb_key st) node (inorder (Node l a r))"
  shows "\<exists>st' cs. rb_insert_by lt a node st = Some st'
    \<and> ins_inv st' (place lt (rb_key st) node (inorder (Node l a r))) cs node \<and> kept st st'"
proof -
  from T obtain par where "at st par (Node l a r)" by (auto simp: holds_def)
  from descend [OF this refl pl] obtain b lf cs s where d: "rb_descend lt st a node = Some (b, lf)"
      "Node l a r = plug cs (hang lf b s Leaf)"
      "inorder (plug cs (hang lf b s (Node Leaf node Leaf))) = place lt (rb_key st) node (inorder (Node l a r))"
    by blast
  let ?st = "rb_attach lf b node st" and ?cs = "hang_crumb lf b s # cs"
  have "rb_insert_by lt a node st = Some ?st" using d(1) by (simp add: rb_insert_by_def rb_attach_def Let_def)
  moreover have "holds ?st (plug cs (hang lf b s (Node Leaf node Leaf)))"
    using attach T n d(2) by simp
  moreover have "ctx (rb_color st) ?cs 0 False" using rb(1) d(2) by (simp add: plug_hang red_black_plug)
  moreover have "node \<notin> crumbs_set ?cs"
    using n(1) unfolding d(2) plug_hang plug_set by blast
  ultimately have "ins_inv ?st (place lt (rb_key st) node (inorder (Node l a r))) ?cs node"
    unfolding ins_inv_def using d(3) rb(2) n(2)
    by (intro exI [of _ Leaf] exI [of _ 0]) (simp add: plug_hang del: ctx.simps crumbs_set.simps)
  moreover have "kept st ?st" by (simp add: kept_def)
  ultimately show ?thesis using \<open>rb_insert_by lt a node st = Some ?st\<close> by blast
qed

lemma rbtree_insert_by:
  assumes "rbtree st xs" "node \<notin> set xs" "node \<noteq> rb_sentinel st" "placeable lt (rb_key st) node xs"
  shows "\<exists>st'. ngx_rbtree_insert (rb_insert_by lt) node st = Some st'
    \<and> rbtree st' (place lt (rb_key st) node xs) \<and> kept st st'"
proof -
  from assms(1) obtain t where t: "holds st t" "inorder t = xs" "red_black (rb_color st) t"
      and sen: "\<not> rb_color st (rb_sentinel st)"
    by (auto simp: rbtree_def)
  show ?thesis
  proof (cases t)
    case Leaf
    let ?st = "(ngx_rbt_black node (set_right node (Some (rb_sentinel st)) (set_left node (Some (rb_sentinel st))
      (set_parent node None st))))\<lparr>rb_root := Some node\<rparr>"
    have "ngx_rbtree_insert (rb_insert_by lt) node st = Some ?st"
      using t(1) Leaf by (simp add: ngx_rbtree_insert_def holds_def Let_def)
    moreover have "holds ?st (Node Leaf node Leaf)" using assms(3) by (simp add: holds_def)
    moreover have "red_black (rb_color ?st) (Node Leaf node Leaf)"
      by (auto simp: red_black_def intro: exI [of _ "Suc 0"])
    moreover have "inorder (Node Leaf node Leaf) = place lt (rb_key st) node xs"
      using t(2) Leaf by (auto simp: place_def)
    ultimately show ?thesis using sen assms(3) unfolding rbtree_def kept_def by fastforce
  next
    case (Node l a r)
    have root: "rb_root st = Some a" "a \<noteq> rb_sentinel st" using t(1) Node by (auto simp: holds_def)
    from insert_by [of st l a r node lt] t sen assms Node obtain st1 cs where
      st1: "rb_insert_by lt a node st = Some st1" "ins_inv st1 (place lt (rb_key st) node xs) cs node" "kept st st1"
      by (auto simp flip: set_inorder)
    from insert_fix [OF st1(2)] obtain st2 t2 b where
      st2: "rb_insert_fix node st1 = Some st2" "holds st2 t2" "inorder t2 = place lt (rb_key st) node xs"
        "kept st1 st2" "rb_root st2 = Some b" "b \<noteq> rb_sentinel st1" "\<not> rb_color st2 (rb_sentinel st2)"
        "red_black ((rb_color st2)(b := False)) t2"
      by blast
    have "ngx_rbtree_insert (rb_insert_by lt) node st = Some (ngx_rbt_black b st2)"
      using root st1(1) st2(1,5) by (simp add: ngx_rbtree_insert_def)
    moreover have "holds (ngx_rbt_black b st2) t2" using st2(2) by (simp add: holds_def)
    ultimately show ?thesis using st1(3) st2 unfolding rbtree_def kept_def by fastforce
  qed
qed

section \<open>Orders on the keys\<close>

text \<open>What the tree needs of a comparison of keys, on the keys in use.\<close>

locale key_order =
  fixes lt :: "rb_key_t \<Rightarrow> rb_key_t \<Rightarrow> bool" and K :: "rb_key_t set"
  assumes asym: "a \<in> K \<Longrightarrow> b \<in> K \<Longrightarrow> lt a b \<Longrightarrow> \<not> lt b a"
    and negtrans: "a \<in> K \<Longrightarrow> b \<in> K \<Longrightarrow> c \<in> K \<Longrightarrow> lt a c \<Longrightarrow> lt a b \<or> lt b c"
begin

definition ordered :: "(nat \<Rightarrow> rb_key_t) \<Rightarrow> nat list \<Rightarrow> bool" where
  "ordered key xs \<longleftrightarrow> key ` set xs \<subseteq> K \<and> sorted_wrt (\<lambda>x y. \<not> lt (key y) (key x)) xs"

lemma ordered_placeable:
  assumes "ordered key xs" "key node \<in> K"
  shows "placeable lt key node xs"
  unfolding placeable_def
proof (rule sorted_wrt_mono_rel)
  show "sorted_wrt (\<lambda>x y. \<not> lt (key y) (key x)) xs" using assms(1) by (simp add: ordered_def)
  show "lt (key node) (key x) \<longrightarrow> lt (key node) (key y)"
    if "x \<in> set xs" "y \<in> set xs" "\<not> lt (key y) (key x)" for x y
    using that assms negtrans [of "key node" "key y" "key x"] by (auto simp: ordered_def)
qed

lemma ordered_place:
  assumes o: "ordered key xs" and n: "key node \<in> K"
  shows "ordered key (place lt key node xs)"
proof -
  let ?P = "\<lambda>x. \<not> lt (key node) (key x)"
  have xs: "takeWhile ?P xs @ dropWhile ?P xs = xs" by simp
  have K: "key x \<in> K" if "x \<in> set xs" for x using that o by (auto simp: ordered_def)
  have 1: "\<not> lt (key node) (key x)" if "x \<in> set (takeWhile ?P xs)" for x
    using that by (rule set_takeWhileD [THEN conjunct2])
  have 2: "lt (key node) (key y)" if y: "y \<in> set (dropWhile ?P xs)" for y
  proof -
    obtain z zs where z: "dropWhile ?P xs = z # zs" "lt (key node) (key z)"
      using y hd_dropWhile [of ?P xs] by (cases "dropWhile ?P xs") auto
    moreover have "sorted_wrt (\<lambda>x y. \<not> lt (key y) (key x)) (z # zs)"
      using o xs z unfolding ordered_def by (metis sorted_wrt_append)
    moreover have "key z \<in> K" using K z(1) by (metis list.set_intros(1) set_dropWhileD)
    ultimately show ?thesis
      using y K [OF set_dropWhileD [OF y]] negtrans [of "key node" "key y" "key z"] n by auto
  qed
  have 3: "\<not> lt (key y) (key node)" if "y \<in> set (dropWhile ?P xs)" for y
    using asym [OF n K [OF set_dropWhileD [OF that]]] 2 [OF that] by blast
  have "sorted_wrt (\<lambda>x y. \<not> lt (key y) (key x)) (takeWhile ?P xs @ dropWhile ?P xs)"
    using o by (simp add: ordered_def)
  then have "sorted_wrt (\<lambda>x y. \<not> lt (key y) (key x)) (place lt key node xs)"
    unfolding place_def sorted_wrt_append sorted_wrt.simps set_append list.set using 1 3 by blast
  then show ?thesis using n K by (auto simp: ordered_def place_set)
qed

text \<open>The contract of an insertion that compares keys with \<open>lt\<close>.\<close>

lemma insert_ordered:
  assumes "rbtree st xs" "ordered (rb_key st) xs" "node \<notin> set xs" "node \<noteq> rb_sentinel st" "rb_key st node \<in> K"
  shows "\<exists>st'. ngx_rbtree_insert (rb_insert_by lt) node st = Some st'
    \<and> rbtree st' (place lt (rb_key st) node xs) \<and> ordered (rb_key st') (place lt (rb_key st) node xs) \<and> kept st st'"
proof -
  from rbtree_insert_by [OF assms(1,3,4) ordered_placeable [OF assms(2,5)]] obtain st' where
    "ngx_rbtree_insert (rb_insert_by lt) node st = Some st'" "rbtree st' (place lt (rb_key st) node xs)" "kept st st'"
    by blast
  with ordered_place [OF assms(2,5)] show ?thesis by (auto simp: kept_def)
qed

end

lemma sint_window:
  fixes a b base :: rb_key_t
  assumes "a - base < 0x8000000000000000" "b - base < 0x8000000000000000"
  shows "sint (a - b) = uint (a - base) - uint (b - base)"
proof -
  define x y where xy: "x = a - base" "y = b - base"
  have lt: "x < 0x8000000000000000" "y < 0x8000000000000000" using assms xy by simp_all
  have ij: "0 \<le> uint x" "uint x < 0x8000000000000000" "0 \<le> uint y" "uint y < 0x8000000000000000"
    using lt unfolding word_less_def by simp_all
  have "a - b = x - y" by (simp add: xy)
  also have "\<dots> = word_of_int (uint x - uint y)" by simp
  finally have "sint (a - b) = signed_take_bit 63 (uint x - uint y)"
    by (simp only: signed_of_int) simp
  moreover have "(2 :: int) ^ 63 = 0x8000000000000000" by simp
  ultimately show ?thesis unfolding xy [symmetric] using ij by (simp only: signed_take_bit_int_eq_self)
qed

lemma timer_less_window:
  fixes a b base :: rb_key_t
  assumes "a - base < 0x8000000000000000" "b - base < 0x8000000000000000"
  shows "timer_less a b \<longleftrightarrow> a - base < b - base"
  unfolding timer_less_def sint_window [OF assms] word_less_def by linarith

text \<open>The two comparisons of the code: of unsigned keys, and of timers, which are compared with wrap-around
  and are ordered as long as they lie within half of the range above some \<open>base\<close>.\<close>

definition timer_window :: "rb_key_t \<Rightarrow> rb_key_t set" where
  "timer_window base = {k. k - base < 0x8000000000000000}"

interpretation keys: key_order "\<lambda>a b :: rb_key_t. a < b" UNIV
  by unfold_locales (auto simp: not_less)

interpretation timers: key_order timer_less "timer_window base" for base
  by unfold_locales (auto simp: timer_window_def timer_less_window [where base = base])

lemma keys_ordered: "keys.ordered key xs \<longleftrightarrow> sorted (map key xs)"
  by (simp add: keys.ordered_def sorted_map not_less)

lemma timers_ordered:
  "timers.ordered base key xs \<longleftrightarrow> key ` set xs \<subseteq> timer_window base \<and> sorted (map (\<lambda>x. key x - base) xs)"
proof -
  have "(\<not> timer_less (key y) (key x)) = (key x - base \<le> key y - base)"
    if "key ` set xs \<subseteq> timer_window base" "x \<in> set xs" "y \<in> set xs" for x y
  proof -
    from that have "key y - base < 0x8000000000000000" "key x - base < 0x8000000000000000"
      by (auto simp: timer_window_def image_subset_iff)
    from timer_less_window [OF this] show ?thesis by (simp add: not_less)
  qed
  then show ?thesis unfolding timers.ordered_def sorted_map
    by (auto elim!: sorted_wrt_mono_rel [rotated])
qed

section \<open>Properties\<close>

text \<open>
  C9: \<^verbatim>\<open>ngx_rbtree_insert\<close> with \<^verbatim>\<open>ngx_rbtree_insert_value\<close>, on a red-black tree whose nodes are
  \<open>xs\<close> in the order of their keys, returns and gives a red-black tree with a black root whose nodes are
  \<open>xs\<close> with the new node behind all nodes whose key is not greater; the keys stay sorted and unchanged.
\<close>

theorem rbtree_insert_value:
  assumes "rbtree st xs" "sorted (map (rb_key st) xs)" "node \<notin> set xs" "node \<noteq> rb_sentinel st"
  shows "\<exists>st'. ngx_rbtree_insert ngx_rbtree_insert_value node st = Some st'
    \<and> rbtree st' (place (<) (rb_key st) node xs) \<and> sorted (map (rb_key st') (place (<) (rb_key st) node xs))
    \<and> rb_key st' = rb_key st \<and> rb_sentinel st' = rb_sentinel st"
  using keys.insert_ordered [of st xs node] assms
  by (auto simp: ngx_rbtree_insert_value_def keys_ordered kept_def)

definition rb_sample :: rb where
  "rb_sample = \<lparr>rb_root = Some 2, rb_sentinel = 0, rb_key = (\<lambda>a. of_nat (10 * a)),
     rb_left = (\<lambda>a. if a = 2 then Some 1 else Some 0), rb_right = (\<lambda>a. if a = 2 then Some 3 else Some 0),
     rb_parent = (\<lambda>a. if a = 2 then None else Some 2), rb_color = (\<lambda>a. a \<in> {1, 3})\<rparr>"

lemma rb_sample_tree: "rbtree rb_sample [1, 2, 3]"
proof -
  let ?t = "Node (Node Leaf 1 Leaf) 2 (Node Leaf 3 Leaf) :: nat tree"
  have "holds rb_sample ?t" by (auto simp: holds_def rb_sample_def)
  moreover have "red_black (rb_color rb_sample) ?t"
    by (auto simp: red_black_def rb_sample_def intro: exI [of _ 1])
  ultimately show ?thesis by (force simp: rbtree_def rb_sample_def)
qed

theorem rbtree_insert_value_witness:
  "\<exists>st'. ngx_rbtree_insert ngx_rbtree_insert_value 4 rb_sample = Some st' \<and> rbtree st' [1, 2, 3, 4]"
proof -
  have "place (<) (rb_key rb_sample) 4 [1, 2, 3] = [1, 2, 3, 4]" by code_simp
  moreover have "sorted (map (rb_key rb_sample) [1, 2, 3])" by code_simp
  moreover have "4 \<noteq> rb_sentinel rb_sample" by (simp add: rb_sample_def)
  ultimately show ?thesis using rbtree_insert_value [OF rb_sample_tree, of 4] by auto
qed

text \<open>
  C10: \<^verbatim>\<open>ngx_rbtree_insert\<close> with \<^verbatim>\<open>ngx_rbtree_insert_timer_value\<close> orders the timers by their distance
  from \<open>base\<close>, also across the wrap-around of the 64-bit key, as long as all timers lie less than \<open>2 ^ 63\<close>
  above \<open>base\<close>: it returns, keeps the red-black tree, and puts the new timer behind all that expire no later.
\<close>

theorem rbtree_insert_timer:
  assumes "rbtree st xs" "sorted (map (\<lambda>x. rb_key st x - base) xs)" "node \<notin> set xs" "node \<noteq> rb_sentinel st"
    and "\<forall>x\<in>set (node # xs). rb_key st x - base < 0x8000000000000000"
  shows "\<exists>st'. ngx_rbtree_insert ngx_rbtree_insert_timer_value node st = Some st'
    \<and> rbtree st' (place timer_less (rb_key st) node xs)
    \<and> sorted (map (\<lambda>x. rb_key st' x - base) (place timer_less (rb_key st) node xs))
    \<and> rb_key st' = rb_key st \<and> rb_sentinel st' = rb_sentinel st"
proof -
  have "timers.ordered base (rb_key st) xs" "rb_key st node \<in> timer_window base"
    unfolding timers_ordered using assms(2,5) by (auto simp: timer_window_def)
  with timers.insert_ordered [of st xs base node] assms(1,3,4) show ?thesis
    unfolding timers_ordered ngx_rbtree_insert_timer_value_def kept_def by blast
qed

theorem rbtree_insert_timer_witness:
  "\<exists>st'. ngx_rbtree_insert ngx_rbtree_insert_timer_value 4 (rb_sample\<lparr>rb_key := (\<lambda>a. of_nat a - 3)\<rparr>) = Some st'
     \<and> rbtree st' [1, 2, 3, 4]"
proof -
  let ?st = "rb_sample\<lparr>rb_key := (\<lambda>a. of_nat a - 3)\<rparr>"
  have "rbtree ?st [1, 2, 3]" using rb_sample_tree rbtree_key by simp
  moreover have "place timer_less (rb_key ?st) 4 [1, 2, 3] = [1, 2, 3, 4]" by code_simp
  moreover have "sorted (map (\<lambda>x. rb_key ?st x - (- 2)) [1, 2, 3])" by code_simp
  moreover have "\<forall>x\<in>set [4, 1, 2, 3]. rb_key ?st x - (- 2) < 0x8000000000000000" by code_simp
  moreover have "4 \<noteq> rb_sentinel ?st" by (simp add: rb_sample_def)
  ultimately show ?thesis using rbtree_insert_timer [of ?st "[1, 2, 3]" "- 2" 4] by auto
qed

end
