(* ===== verification/Ngx_Rbtree_Delete.thy ===== *)
theory Ngx_Rbtree_Delete
  imports Ngx_Rbtree_Insert
begin

text \<open>
  \<^verbatim>\<open>ngx_rbtree_delete\<close>, \<^verbatim>\<open>ngx_rbtree_min\<close> and \<^verbatim>\<open>ngx_rbtree_next\<close>: deletion returns, takes exactly
  the node out of the sequence of nodes and keeps the red-black tree; the walk visits the nodes in order.
\<close>

section \<open>Rebalancing after a deletion\<close>

text \<open>A subtree that lacks one black node; its root may be red below a red node.\<close>

fun weak :: "(nat \<Rightarrow> bool) \<Rightarrow> nat tree \<Rightarrow> nat \<Rightarrow> bool" where
  "weak c Leaf n \<longleftrightarrow> n = 0"
| "weak c (Node l a r) n \<longleftrightarrow> (if c a then rbt c l n \<and> rbt c r n else rbt c (Node l a r) n)"

fun up :: "crumb list \<Rightarrow> nat option" where
  "up [] = None"
| "up (LC a t # cs) = Some a"
| "up (RC t a # cs) = Some a"

definition del_inv :: "rb \<Rightarrow> nat list \<Rightarrow> crumb list \<Rightarrow> nat tree \<Rightarrow> bool" where
  "del_inv st xs cs t \<longleftrightarrow> holds st (plug cs t) \<and> inorder (plug cs t) = xs \<and> \<not> rb_color st (rb_sentinel st)
     \<and> (t = Leaf \<longrightarrow> cs \<noteq> [] \<longrightarrow> rb_parent st (rb_sentinel st) = up cs)
     \<and> (\<exists>n. weak (rb_color st) t n \<and> ctx (rb_color st) cs (Suc n) False)"

abbreviation root_of :: "rb \<Rightarrow> nat tree \<Rightarrow> nat" where "root_of st t \<equiv> the (ptr_to st t)"

lemma rbt_weak: "rbt c t n \<Longrightarrow> weak c t n"
  by (cases t) auto

lemma weak_rbt: "weak c t n \<Longrightarrow> is_black c t \<Longrightarrow> rbt c t n"
  by (cases t) auto

lemma ctx_weaken: "ctx c cs n True \<Longrightarrow> ctx c cs n False"
  by (cases cs; cases "hd cs") (auto split: if_splits)

lemma rbt_Suc: "rbt c t (Suc n) \<Longrightarrow> \<exists>l a r. t = Node l a r"
  by (cases t) auto

lemma color_top: "\<not> c (rb_sentinel st) \<Longrightarrow> c (root_of st t) \<longleftrightarrow> \<not> is_black c t"
  by (cases t) auto

lemma ptr_to_top: "ptr_to st t = Some (root_of st t)"
  by (cases t) auto

text \<open>The parent of \<^verbatim>\<open>temp\<close>, also when \<^verbatim>\<open>temp\<close> is the sentinel.\<close>

definition below :: "rb \<Rightarrow> crumb list \<Rightarrow> nat tree \<Rightarrow> bool" where
  "below st cs t \<longleftrightarrow> holds st (plug cs t) \<and> (t = Leaf \<longrightarrow> rb_parent st (rb_sentinel st) = up cs)"

lemma below_parent: "below st (c # cs) t \<Longrightarrow> rb_parent st (root_of st t) = up (c # cs)"
  using holds_parent [of st c cs] by (cases t; cases c) (auto simp: below_def simp del: plug.simps)

lemma below_color [simp]: "below (set_color a c st) cs t = below st cs t"
  by (simp add: below_def holds_def)

lemma top_cong: "rb_sentinel st' = rb_sentinel st \<Longrightarrow> root_of st' t = root_of st t"
  by (drule ptr_to_cong [where t = t]) simp

subsection \<open>The sibling becomes black\<close>

lemma delete_red_left:
  assumes B: "below st (LC p w # cs) t" and C: "ctx (rb_color st) (LC p w # cs) (Suc n) False"
    "weak (rb_color st) t n" "is_black (rb_color st) t" "\<not> rb_color st (rb_sentinel st)"
  shows "\<exists>st' w' cs'. rb_delete_red_left (root_of st t) st = Some (root_of st w', st') \<and> below st' (LC p w' # cs') t
    \<and> ctx (rb_color st') (LC p w' # cs') (Suc n) False \<and> is_black (rb_color st') w' \<and> weak (rb_color st') t n
    \<and> is_black (rb_color st') t
    \<and> \<not> rb_color st' (rb_sentinel st') \<and> (length cs' = length cs \<or> rb_color st' p \<and> length cs' = Suc (length cs))
    \<and> inorder (plug (LC p w' # cs') t) = inorder (plug (LC p w # cs) t) \<and> kept st st'"
proof -
  let ?c = "rb_color st"
  from C(1) obtain wl a wr where w: "w = Node wl a wr" using rbt_Suc by fastforce
  have T: "holds st (plug cs (Node t p w))" using B by (simp add: below_def)
  have par: "rb_parent st (root_of st t) = Some p" using below_parent [OF B] by simp
  have wp: "rb_right st p = Some a" using holds_node(3) [OF T] w by simp
  show ?thesis
  proof (cases "?c a")
    case False
    then have "rb_delete_red_left (root_of st t) st = Some (root_of st w, st)"
      using par wp w by (simp add: rb_delete_red_left_def)
    with False show ?thesis using assms w
      by (intro exI [of _ st] exI [of _ w] exI [of _ cs]) (simp add: kept_def)
  next
    case True
    have p: "\<not> ?c p" using C(1) True w by auto
    from holds_distinct [OF T] have D: "a \<noteq> p" "{a, p} \<inter> (set_tree t \<union> set_tree wl \<union> set_tree wr) = {}"
        "{a, p} \<inter> crumbs_set cs = {}"
      using w by (auto simp: plug_distinct simp flip: set_inorder)
    have sen: "rb_sentinel st \<noteq> p" "rb_sentinel st \<noteq> a" using T w by (auto simp: holds_plug)
    let ?st = "ngx_rbt_red p (ngx_rbt_black a st)"
    have "holds ?st (plug cs (Node t p (Node wl a wr)))" using T w by (simp add: holds_plug)
    from left_rotate [OF this] obtain st' where st': "ngx_rbtree_left_rotate p ?st = Some st'"
        "holds st' (plug cs (Node (Node t p wl) a wr))" "same_data ?st st'"
      by auto
    have c': "rb_color st' = ?c(a := False, p := True)" "rb_sentinel st' = rb_sentinel st" "rb_key st' = rb_key st"
        "rb_parent st' (rb_sentinel st) = rb_parent st (rb_sentinel st)"
      using st'(3) by (simp_all add: same_data_def)
    have B': "below st' (LC p wl # LC a wr # cs) t"
      using st'(2) B c' by (simp add: below_def)
    have wl: "rbt ?c wl (Suc n)" "is_black ?c wl" "rbt ?c wr (Suc n)" "ctx ?c cs (Suc (Suc n)) False"
      using C(1) w True p by auto
    have "rb_right st' p = Some (root_of st wl)"
      using holds_node(3) [of st' "LC a wr # cs" t p wl] st'(2) ptr_to_top [of st' wl] top_cong [OF c'(2)] by simp
    moreover have "rb_parent st' (root_of st t) = Some p" using below_parent [OF B'] top_cong [OF c'(2)] by simp
    ultimately have "rb_delete_red_left (root_of st t) st = Some (root_of st wl, st')"
      using par wp True st'(1) by (simp add: rb_delete_red_left_def)
    moreover have "ctx (rb_color st') (LC p wl # LC a wr # cs) (Suc n) False" "is_black (rb_color st') wl"
        "weak (rb_color st') t n" "is_black (rb_color st') t"
      using C wl D c' p by (cases t; auto)+
    moreover have "inorder (plug (LC p wl # LC a wr # cs) t) = inorder (plug (LC p w # cs) t)"
      unfolding w by (simp, rule inorder_plug) simp
    ultimately show ?thesis using B' C(4) D(1) sen c'
      by (intro exI [of _ st'] exI [of _ wl] exI [of _ "LC a wr # cs"]) (simp add: kept_def del: plug.simps)
  qed
qed

subsection \<open>The sibling is black\<close>

text \<open>The last case: the right child of the sibling is red.\<close>

lemma delete_rotate_left:
  assumes B: "below st (LC p (Node wl w (Node c y d)) # cs) t"
    and C: "ctx (rb_color st) (LC p (Node wl w (Node c y d)) # cs) (Suc n) False" "\<not> rb_color st w" "rb_color st y"
      "rbt (rb_color st) t n" "\<not> rb_color st (rb_sentinel st)"
  shows "\<exists>st' t' r. do {
        p \<leftarrow> rb_parent st (root_of st t);
        let st = set_color w (rb_color st p) st;
        let st = ngx_rbt_black p st;
        wr \<leftarrow> rb_right st w;
        let st = ngx_rbt_black wr st;
        st \<leftarrow> ngx_rbtree_left_rotate p st;
        r \<leftarrow> rb_root st;
        Some (r, st) } = Some (r, st')
    \<and> holds st' t' \<and> red_black (rb_color st') t' \<and> rb_root st' = Some r \<and> \<not> rb_color st' (rb_sentinel st')
    \<and> inorder t' = inorder (plug (LC p (Node wl w (Node c y d)) # cs) t) \<and> kept st st'"
proof -
  let ?c = "rb_color st"
  have T: "holds st (plug cs (Node t p (Node wl w (Node c y d))))" using B by (simp add: below_def)
  have par: "rb_parent st (root_of st t) = Some p" using below_parent [OF B] by simp
  have wr: "rb_right st w = Some y" using holds_node(3) [of st "RC t p # cs" wl w] T by simp
  from holds_distinct [OF T] have D: "distinct [p, w, y]" "{p, w, y} \<inter> (set_tree t \<union> set_tree wl \<union> set_tree c \<union> set_tree d) = {}"
      "{p, w, y} \<inter> crumbs_set cs = {}"
    by (auto simp: plug_distinct simp flip: set_inorder)
  have sen: "rb_sentinel st \<notin> {p, w, y}" using T by (auto simp: holds_plug)
  let ?st = "ngx_rbt_black y (ngx_rbt_black p (set_color w (?c p) st))"
  have "holds ?st (plug cs (Node t p (Node wl w (Node c y d))))" using T by (simp add: holds_plug)
  from left_rotate [OF this] obtain st' where st': "ngx_rbtree_left_rotate p ?st = Some st'"
      "holds st' (plug cs (Node (Node t p wl) w (Node c y d)))" "same_data ?st st'"
    by auto
  have c': "rb_color st' = ?c(w := ?c p, p := False, y := False)" "rb_sentinel st' = rb_sentinel st" "rb_key st' = rb_key st"
    using st'(3) by (simp_all add: same_data_def)
  obtain r where r: "rb_root st' = Some r" using st'(2) ptr_to_top by (auto simp: holds_def)
  have "red_black (rb_color st') (plug cs (Node (Node t p wl) w (Node c y d)))"
    unfolding red_black_plug using C D c'
    by (intro exI [of _ "if ?c p then Suc n else Suc (Suc n)"]) auto
  moreover have "inorder (plug cs (Node (Node t p wl) w (Node c y d))) = inorder (plug (LC p (Node wl w (Node c y d)) # cs) t)"
    by (simp, rule inorder_plug) simp
  ultimately show ?thesis using st'(1,2) r c' C(5) sen par wr
    by (intro exI [of _ st'] exI [of _ "plug cs (Node (Node t p wl) w (Node c y d))"] exI [of _ r])
      (simp add: kept_def del: plug.simps)
qed

definition finished :: "rb \<Rightarrow> nat list \<Rightarrow> nat \<Rightarrow> bool" where
  "finished st xs r \<longleftrightarrow> rbtree st xs \<and> rb_root st = Some r"

lemma delete_black_left:
  assumes B: "below st (LC p (Node wl w wr) # cs) t"
    and C: "ctx (rb_color st) (LC p (Node wl w wr) # cs) (Suc n) False" "\<not> rb_color st w"
      "rbt (rb_color st) t n" "is_black (rb_color st) t" "\<not> rb_color st (rb_sentinel st)"
    and xs: "inorder (plug (LC p (Node wl w wr) # cs) t) = xs"
  shows "\<exists>st' r. rb_delete_black_left (root_of st t) w st = Some (r, st') \<and> kept st st'
    \<and> (r = p \<and> del_inv st' xs cs (Node t p (Node wl w wr)) \<and> rb_color st' p = rb_color st p \<or> finished st' xs r)"
proof -
  let ?c = "rb_color st" and ?W = "Node wl w wr"
  have T: "holds st (plug cs (Node t p ?W))" using B by (simp add: below_def)
  have par: "rb_parent st (root_of st t) = Some p" using below_parent [OF B] by simp
  have w: "rb_left st w = Some (root_of st wl)" "rb_right st w = Some (root_of st wr)"
    using holds_node [of st "RC t p # cs" wl w wr] T ptr_to_top by simp_all
  note col = color_top [of "rb_color st" st, OF C(5)]
  from holds_distinct [OF T] have D: "p \<noteq> w" "{p, w} \<inter> (set_tree t \<union> set_tree wl \<union> set_tree wr) = {}"
      "{p, w} \<inter> crumbs_set cs = {}"
    by (auto simp: plug_distinct simp flip: set_inorder)
  have sen: "rb_sentinel st \<notin> {p, w}" using T by (auto simp: holds_plug)
  have W: "rbt ?c wl n" "rbt ?c wr n" using C(1,2) by auto
  show ?thesis
  proof (cases "is_black ?c wl \<and> is_black ?c wr")
    case True
    then have "rb_delete_black_left (root_of st t) w st = Some (p, ngx_rbt_red w st)"
      using w par col by (simp add: rb_delete_black_left_def)
    moreover have "holds (ngx_rbt_red w st) (plug cs (Node t p ?W))" using T by (simp add: holds_plug)
    moreover have "weak (?c(w := True)) (Node t p ?W) (if ?c p then n else Suc n)
        \<and> ctx (?c(w := True)) cs (Suc (if ?c p then n else Suc n)) False"
      using C D W True ctx_weaken [of ?c cs "Suc n"] by auto
    ultimately have "del_inv (ngx_rbt_red w st) xs cs (Node t p ?W)"
      unfolding del_inv_def using xs sen C(5)
      by (intro conjI exI [of _ "if ?c p then n else Suc n"]) (simp_all del: weak.simps)
    then show ?thesis using \<open>rb_delete_black_left (root_of st t) w st = Some (p, ngx_rbt_red w st)\<close> D(1)
      by (intro exI [of _ "ngx_rbt_red w st"] exI [of _ p]) (simp add: kept_def)
  next
    case notblack: False
    have finish: "\<exists>st' r. do {
        p \<leftarrow> rb_parent st1 (root_of st t);
        let st = set_color w' (rb_color st1 p) st1;
        let st = ngx_rbt_black p st;
        wr \<leftarrow> rb_right st w';
        let st = ngx_rbt_black wr st;
        st \<leftarrow> ngx_rbtree_left_rotate p st;
        r \<leftarrow> rb_root st;
        Some (r, st) } = Some (r, st') \<and> kept st st' \<and> finished st' xs r"
      if "below st1 (LC p (Node wl' w' (Node c y d)) # cs) t" "kept st st1"
        "ctx (rb_color st1) (LC p (Node wl' w' (Node c y d)) # cs) (Suc n) False" "\<not> rb_color st1 w'" "rb_color st1 y"
        "rbt (rb_color st1) t n" "\<not> rb_color st1 (rb_sentinel st1)"
        "inorder (plug (LC p (Node wl' w' (Node c y d)) # cs) t) = xs"
      for st1 wl' w' c y d
    proof -
      have "root_of st1 t = root_of st t" by (rule top_cong) (use that(2) in \<open>simp add: kept_def\<close>)
      with delete_rotate_left [OF that(1,3-7)] that(2,8) show ?thesis
        by (auto simp: finished_def rbtree_def kept_def)
    qed
    show ?thesis
    proof (cases "is_black ?c wr")
      case False
      then obtain c y d where y: "wr = Node c y d" "?c y" by (cases wr) auto
      with finish [of st wl w c y d] B C xs obtain st' r where
        "rb_delete_black_left (root_of st t) w st = Some (r, st') \<and> kept st st' \<and> finished st' xs r"
        using notblack w col by (auto simp: rb_delete_black_left_def kept_def)
      then show ?thesis by blast
    next
      case True
      with notblack obtain a x b where x: "wl = Node a x b" "?c x" by (cases wl) auto
      let ?st = "ngx_rbt_red w (ngx_rbt_black x st)"
      have "holds ?st (plug (RC t p # cs) (Node (Node a x b) w wr))" using T x by (simp add: holds_plug)
      from right_rotate [OF this] obtain st1 where st1: "ngx_rbtree_right_rotate w ?st = Some st1"
          "holds st1 (plug (RC t p # cs) (Node a x (Node b w wr)))" "same_data ?st st1"
        by auto
      have D1: "x \<notin> set_tree t" "x \<notin> set_tree a" "x \<notin> set_tree b" "x \<notin> set_tree wr" "x \<noteq> w" "x \<noteq> p" "x \<notin> crumbs_set cs"
        using holds_distinct [OF T] x by (auto simp: plug_distinct simp flip: set_inorder)
      have sx: "rb_sentinel st \<noteq> x" using T x by (auto simp: holds_plug)
      have c': "rb_color st1 = ?c(x := False, w := True)" "rb_sentinel st1 = rb_sentinel st" "rb_key st1 = rb_key st"
        "rb_parent st1 (rb_sentinel st) = rb_parent st (rb_sentinel st)"
        using st1(3) by (simp_all add: same_data_def)
      have B1: "below st1 (LC p (Node a x (Node b w wr)) # cs) t"
        using st1(2) B c' by (simp add: below_def)
      have rd: "rb_right st1 p = Some x" using holds_node(3) [of st1 cs t p] st1(2) by simp
      have pr: "rb_parent st1 (root_of st t) = Some p"
        using below_parent [OF B1] top_cong [OF c'(2)] by simp
      have "ctx (rb_color st1) (LC p (Node a x (Node b w wr)) # cs) (Suc n) False"
        using C(1,2) W x True D D1 c' by auto
      moreover have "rbt (rb_color st1) t n" using C(3) D D1 c' by simp
      moreover have "inorder (plug (LC p (Node a x (Node b w wr)) # cs) t) = xs"
        unfolding xs [symmetric] x by (simp, rule inorder_plug) simp
      ultimately obtain st' r where *: "do {
          p \<leftarrow> rb_parent st1 (root_of st t);
          let st = set_color x (rb_color st1 p) st1;
          let st = ngx_rbt_black p st;
          wr \<leftarrow> rb_right st x;
          let st = ngx_rbt_black wr st;
          st \<leftarrow> ngx_rbtree_left_rotate p st;
          r \<leftarrow> rb_root st;
          Some (r, st) } = Some (r, st')" "kept st st'" "finished st' xs r"
        using finish [of st1 a x b w wr] B1 c' D1 sen sx C(5) by (auto simp: kept_def)
      have "rb_delete_black_left (root_of st t) w st = Some (r, st')"
        using w x True col [of wr] st1(1) rd pr *(1) by (simp add: rb_delete_black_left_def)
      with *(2,3) show ?thesis by blast
    qed
  qed
qed

subsection \<open>One iteration and the loop\<close>

definition meas :: "(nat \<Rightarrow> bool) \<Rightarrow> crumb list \<Rightarrow> nat tree \<Rightarrow> nat" where
  "meas c cs t = 2 * length cs + (if is_black c t then 1 else 0)"

definition progress :: "rb \<Rightarrow> nat list \<Rightarrow> nat \<Rightarrow> rb \<Rightarrow> nat \<Rightarrow> bool" where
  "progress st xs k st' r \<longleftrightarrow> kept st st'
     \<and> ((\<exists>cs t. del_inv st' xs cs t \<and> r = root_of st t \<and> meas (rb_color st') cs t < k) \<or> finished st' xs r)"

lemma del_inv_below: "del_inv st xs (c # cs) t \<Longrightarrow> below st (c # cs) t"
  by (simp add: del_inv_def below_def)

lemma delete_fix_left:
  assumes inv: "del_inv st xs (LC p w # cs) t" and black: "is_black (rb_color st) t"
  shows "\<exists>st' r. do { (w, st1) \<leftarrow> rb_delete_red_left (root_of st t) st; rb_delete_black_left (root_of st t) w st1 } = Some (r, st')
    \<and> progress st xs (meas (rb_color st) (LC p w # cs) t) st' r"
proof -
  from inv obtain n where n: "weak (rb_color st) t n" "ctx (rb_color st) (LC p w # cs) (Suc n) False"
      "\<not> rb_color st (rb_sentinel st)" "inorder (plug (LC p w # cs) t) = xs"
    by (auto simp: del_inv_def)
  from delete_red_left [OF del_inv_below [OF inv] n(2,1) black n(3)] obtain st1 w1 cs1 where
    1: "rb_delete_red_left (root_of st t) st = Some (root_of st w1, st1)" "below st1 (LC p w1 # cs1) t"
      "ctx (rb_color st1) (LC p w1 # cs1) (Suc n) False" "is_black (rb_color st1) w1" "weak (rb_color st1) t n"
      "is_black (rb_color st1) t" "\<not> rb_color st1 (rb_sentinel st1)"
      "length cs1 = length cs \<or> rb_color st1 p \<and> length cs1 = Suc (length cs)"
      "inorder (plug (LC p w1 # cs1) t) = xs" "kept st st1"
    using n(4) by auto
  then obtain wl a wr where w1: "w1 = Node wl a wr" using rbt_Suc by fastforce
  have tp: "root_of st1 t = root_of st t" by (rule top_cong) (use 1(10) in \<open>simp add: kept_def\<close>)
  from delete_black_left [of st1 p wl a wr cs1 t n xs] 1 w1 weak_rbt obtain st' r where
    2: "rb_delete_black_left (root_of st t) a st1 = Some (r, st')" "kept st1 st'"
      "r = p \<and> del_inv st' xs cs1 (Node t p (Node wl a wr)) \<and> rb_color st' p = rb_color st1 p \<or> finished st' xs r"
    unfolding tp by auto
  have "meas (rb_color st') cs1 (Node t p (Node wl a wr)) < meas (rb_color st) (LC p w # cs) t"
    if "rb_color st' p = rb_color st1 p"
    using 1(8) that black by (auto simp: meas_def)
  moreover have "root_of st (Node t p (Node wl a wr)) = p" by simp
  moreover have "kept st st'" using 1(10) 2(2) by (simp add: kept_def)
  ultimately have "progress st xs (meas (rb_color st) (LC p w # cs) t) st' r"
    unfolding progress_def using 2(3) by metis
  with 1(1) w1 2(1) show ?thesis by simp
qed

lemma weak_mirror [simp]: "weak c (mirror t) n = weak c t n"
  by (cases t) auto

lemma up_flip [simp]: "up (map crumb_flip cs) = up cs"
  by (cases cs rule: up.cases) simp_all

lemma del_inv_flip: "del_inv (flip st) (rev xs) (map crumb_flip cs) (mirror t) \<longleftrightarrow> del_inv st xs cs t"
proof -
  have "holds (flip st) (plug (map crumb_flip cs) (mirror t)) = holds st (plug cs t)"
    using holds_flip [of st "plug cs t"] by simp
  moreover have "inorder (plug (map crumb_flip cs) (mirror t)) = rev (inorder (plug cs t))"
    using inorder_mirror [of "plug cs t"] by simp
  ultimately show ?thesis by (simp add: del_inv_def)
qed

lemma rbtree_flip: "rbtree (flip st) (rev xs) \<longleftrightarrow> rbtree st xs"
proof -
  have "rbtree (flip st) (rev xs)" if "rbtree st xs" for st xs
  proof -
    from that obtain t where "holds st t" "inorder t = xs" "red_black (rb_color st) t" "\<not> rb_color st (rb_sentinel st)"
      by (auto simp: rbtree_def)
    then show ?thesis unfolding rbtree_def
      by (intro conjI exI [of _ "mirror t"]) (simp_all add: inorder_mirror red_black_def)
  qed
  from this [of st xs] this [of "flip st" "rev xs"] show ?thesis by auto
qed

lemmas delete_flip_simps = rotate_flip rotate_flip' Let_def map_option_bind bind_map_option comp_def

lemma delete_red_flip:
  "rb_delete_red_right a (flip st) = map_option (map_prod id flip) (rb_delete_red_left a st)"
  by (simp add: rb_delete_red_right_def rb_delete_red_left_def delete_flip_simps if_distrib [of "map_option _"]
      flip: flip_set cong: if_cong)

lemma delete_black_flip:
  "rb_delete_black_right a w (flip st) = map_option (map_prod id flip) (rb_delete_black_left a w st)"
proof (cases "rb_left st w")
  case (Some wl)
  note wl = this
  show ?thesis
  proof (cases "rb_right st w")
    case (Some wr)
    with wl show ?thesis
      by (cases "rb_color st wl"; cases "rb_color st wr")
        (simp_all add: rb_delete_black_right_def rb_delete_black_left_def delete_flip_simps flip: flip_set)
  qed (use wl in \<open>simp add: rb_delete_black_right_def rb_delete_black_left_def\<close>)
qed (cases "rb_right st w"; simp add: rb_delete_black_right_def rb_delete_black_left_def)

lemma progress_flip:
  assumes "progress (flip st) (rev xs) k st' r"
  shows "progress st xs k (flip st') r"
proof -
  have "del_inv (flip st') xs (map crumb_flip cs) (mirror t)" if "del_inv st' (rev xs) cs t" for cs t
    using del_inv_flip [of st' "rev xs" cs t] that by simp
  moreover have "root_of st (mirror t) = root_of (flip st) t" for t by (cases t) simp_all
  moreover have "meas c (map crumb_flip cs) (mirror t) = meas c cs t" for c cs t by (simp add: meas_def)
  moreover have "finished (flip st') xs r" if "finished st' (rev xs) r"
    using that rbtree_flip [of st' "rev xs"] by (simp add: finished_def)
  ultimately show ?thesis using assms unfolding progress_def kept_def flip_fields by metis
qed

lemma delete_fix_right:
  assumes inv: "del_inv st xs (RC w p # cs) t" and black: "is_black (rb_color st) t"
  shows "\<exists>st' r. do { (w, st1) \<leftarrow> rb_delete_red_right (root_of st t) st; rb_delete_black_right (root_of st t) w st1 } = Some (r, st')
    \<and> progress st xs (meas (rb_color st) (RC w p # cs) t) st' r"
proof -
  let ?f = "flip st"
  have tp: "root_of ?f (mirror t) = root_of st t" by (cases t) simp_all
  have "del_inv ?f (rev xs) (LC p (mirror w) # map crumb_flip cs) (mirror t)"
    using inv del_inv_flip [of st xs "RC w p # cs" t] by simp
  from delete_fix_left [OF this] black tp obtain st' r where
    1: "do { (w, st1) \<leftarrow> rb_delete_red_left (root_of st t) ?f; rb_delete_black_left (root_of st t) w st1 } = Some (r, st')"
      "progress ?f (rev xs) (meas (rb_color st) (LC p (mirror w) # map crumb_flip cs) (mirror t)) st' r"
    by auto
  then obtain w1 st1 where 2: "rb_delete_red_left (root_of st t) ?f = Some (w1, st1)"
      "rb_delete_black_left (root_of st t) w1 st1 = Some (r, st')"
    by (auto split: bind_splits)
  have "rb_delete_red_right (root_of st t) st = Some (w1, flip st1)" "rb_delete_black_right (root_of st t) w1 (flip st1) = Some (r, flip st')"
    using 2 delete_red_flip [of "root_of st t" ?f] delete_black_flip [of "root_of st t" w1 st1] by simp_all
  moreover have "meas c (LC p (mirror w) # map crumb_flip cs) (mirror t) = meas c (RC w p # cs) t" for c
    by (simp add: meas_def)
  ultimately show ?thesis using progress_flip [OF 1(2)] by auto
qed

lemma delete_fix_step:
  assumes inv: "del_inv st xs (c # cs) t" and black: "is_black (rb_color st) t"
  shows "\<exists>st' r. rb_delete_fix_step (root_of st t) st = Some (r, st')
    \<and> progress st xs (meas (rb_color st) (c # cs) t) st' r"
proof (cases c)
  case (LC p w)
  have T: "holds st (plug cs (Node t p w))" using inv LC by (simp add: del_inv_def)
  have "rb_parent st (root_of st t) = Some p" using below_parent [OF del_inv_below [OF inv]] LC by simp
  moreover have "rb_left st p = Some (root_of st t)" using holds_node(2) [OF T] ptr_to_top [of st t] by simp
  ultimately show ?thesis using delete_fix_left [of st xs p w cs t] inv black LC by (simp add: rb_delete_fix_step_def)
next
  case (RC w p)
  have T: "holds st (plug cs (Node w p t))" using inv RC by (simp add: del_inv_def)
  from inv RC obtain n where "ctx (rb_color st) (RC w p # cs) (Suc n) False" by (auto simp: del_inv_def)
  then obtain wl a wr where w: "w = Node wl a wr" using rbt_Suc by fastforce
  have "root_of st t \<noteq> a"
    using holds_distinct [OF T] holds_node(1) [of st "LC p t # cs" wl a wr] T w
    by (cases t) (auto simp: plug_distinct simp flip: set_inorder)
  then have "rb_left st p \<noteq> Some (root_of st t)" using holds_node(2) [OF T] w by simp
  moreover have "rb_parent st (root_of st t) = Some p" using below_parent [OF del_inv_below [OF inv]] RC by simp
  ultimately show ?thesis using delete_fix_right [of st xs w p cs t] inv black RC by (simp add: rb_delete_fix_step_def)
qed

lemma paint_root:
  assumes "holds st t" "red_black ((rb_color st)(root_of st t := False)) t" "\<not> rb_color st (rb_sentinel st)"
  shows "rbtree (ngx_rbt_black (root_of st t) st) (inorder t)"
proof -
  have "holds (ngx_rbt_black (root_of st t) st) t" using assms(1) by (simp add: holds_def)
  with assms(2,3) show ?thesis unfolding rbtree_def by auto
qed

lemma red_black_root:
  assumes "red_black c t" "\<not> c (rb_sentinel st)"
  shows "c(root_of st t := False) = c"
  using assms by (cases t) (auto simp: red_black_def fun_upd_idem)

lemma not_root:
  assumes T: "holds st (plug (c # cs) t)"
  shows "rb_root st \<noteq> Some (root_of st t)"
proof -
  from T obtain a where a: "a \<in> crumbs_set (c # cs)" "rb_root st = Some a"
    using around_root [of st _ _ "c # cs"] unfolding holds_plug by blast
  have "a \<noteq> rb_sentinel st" using T a plug_set [of "c # cs" t]
    by (cases "plug (c # cs) t") (auto simp: holds_def simp del: plug_set)
  then show ?thesis using T a(1,2) unfolding holds_plug by (cases t) auto
qed

lemma finished_fix:
  assumes "finished st xs r"
  shows "\<exists>st'. rb_delete_fix r st = Some st' \<and> rbtree st' xs \<and> kept st st'"
proof -
  from assms obtain t where t: "holds st t" "inorder t = xs" "red_black (rb_color st) t"
      "\<not> rb_color st (rb_sentinel st)" "rb_root st = Some r"
    by (auto simp: finished_def rbtree_def)
  then have "root_of st t = r" by (metis holds_def option.sel)
  with t paint_root [of st t] red_black_root [of "rb_color st" t st] rb_delete_fix.simps [of r st]
  show ?thesis by (simp add: kept_def)
qed

lemma delete_fix:
  assumes "del_inv st xs cs t"
  shows "\<exists>st'. rb_delete_fix (root_of st t) st = Some st' \<and> rbtree st' xs \<and> kept st st'"
  using assms
proof (induction "meas (rb_color st) cs t" arbitrary: st cs t rule: less_induct)
  case less
  let ?c = "rb_color st" and ?a = "root_of st t"
  from less.prems obtain n where T: "holds st (plug cs t)" and n: "weak ?c t n" "ctx ?c cs (Suc n) False"
      "\<not> ?c (rb_sentinel st)" "inorder (plug cs t) = xs"
    by (auto simp: del_inv_def)
  note col = color_top [of ?c st, OF n(3)]
  have fin: ?case if "rb_root st = Some ?a \<or> \<not> is_black ?c t" "rbtree (ngx_rbt_black ?a st) xs"
    using that rb_delete_fix.simps [of ?a st] col by (auto simp: kept_def)
  show ?case
  proof (cases "is_black ?c t")
    case False
    then obtain l a r where t: "t = Node l a r" "?c a" by (cases t) auto
    have "a \<notin> set_tree l \<union> set_tree r \<union> crumbs_set cs" "a \<noteq> rb_sentinel st"
      using holds_distinct [OF T] T t by (auto simp: plug_distinct holds_plug simp flip: set_inorder)
    moreover have "holds (ngx_rbt_black a st) (plug cs t)" using T by (simp add: holds_def)
    moreover have "red_black (?c(a := False)) (plug cs t)"
      unfolding red_black_plug using calculation(1) t n by (intro exI [of _ "Suc n"]) auto
    ultimately have "rbtree (ngx_rbt_black ?a st) xs" unfolding rbtree_def using n(3,4) t by auto
    with fin False show ?thesis by blast
  next
    case black: True
    show ?thesis
    proof (cases cs)
      case Nil
      then have "rb_root st = Some ?a" using T ptr_to_top [of st t] by (simp add: holds_def)
      moreover have "red_black ?c t" using black n(1) weak_rbt by (auto simp: red_black_def)
      ultimately show ?thesis
        using fin paint_root [of st t] T Nil n(3,4) red_black_root [of ?c t st] by simp
    next
      case (Cons c cs')
      from delete_fix_step [of st xs c cs' t] less.prems black Cons obtain st1 r where
        1: "rb_delete_fix_step ?a st = Some (r, st1)" "progress st xs (meas ?c cs t) st1 r"
        by auto
      have "rb_root st \<noteq> Some ?a" using not_root [of st c cs' t] T Cons by simp
      then have eq: "rb_delete_fix ?a st = rb_delete_fix r st1"
        using rb_delete_fix.simps [of ?a st] 1(1) black col by simp
      from 1(2) have k: "kept st st1" by (simp add: progress_def)
      have "\<exists>st'. rb_delete_fix r st1 = Some st' \<and> rbtree st' xs \<and> kept st1 st'"
        using 1(2) unfolding progress_def
      proof (elim conjE disjE exE)
        fix cs1 t1
        assume "del_inv st1 xs cs1 t1" "r = root_of st t1" "meas (rb_color st1) cs1 t1 < meas ?c cs t"
        moreover have "root_of st1 t1 = root_of st t1" by (rule top_cong) (use k in \<open>simp add: kept_def\<close>)
        ultimately show ?thesis using less.hyps [of st1 cs1 t1] by simp
      qed (rule finished_fix)
      with eq k show ?thesis by (auto simp: kept_def)
    qed
  qed
qed

section \<open>Taking the node out\<close>

lemma at_sentinel: "at st par t \<Longrightarrow> rb_sentinel st \<notin> set_tree t"
  by (induction t arbitrary: par) auto

lemma around_sentinel: "around st x par cs \<Longrightarrow> rb_sentinel st \<notin> crumbs_set cs"
  by (induction st x par cs rule: around.induct) (auto dest: at_sentinel)

text \<open>The root of a subtree gets another parent.\<close>

lemma at_reparent:
  assumes "at st p t" "distinct (inorder t)"
  shows "at (set_parent (root_of st t) q st) q t"
  using assms by (cases t) auto

lemma unlink:
  assumes T: "holds st (plug (c # cs) (Node l a r))" and s: "l = Leaf \<and> s = r \<or> r = Leaf \<and> s = l"
    and q: "up (c # cs) = Some q"
  shows "below (set_parent (root_of st s) (Some q)
    (if Some a = rb_left st q then set_left q (ptr_to st s) st else set_right q (ptr_to st s) st)) (c # cs) s"
proof -
  let ?a = "root_of st s"
  from T obtain par where A: "at st par (Node l a r)" "around st (Some a) par (c # cs)"
      and D: "distinct (inorder (Node l a r))" "crumbs_distinct (c # cs)" "set_tree (Node l a r) \<inter> crumbs_set (c # cs) = {}"
    by (auto simp: holds_plug simp del: plug.simps around.simps crumbs_distinct.simps crumbs_set.simps)
  have As: "\<exists>p. at st p s" "distinct (inorder s)" "set_tree s \<inter> crumbs_set (c # cs) = {}"
    using A(1) D s by auto
  have ps: "?a \<notin> crumbs_set (c # cs)"
    using As(3) around_sentinel [OF A(2)] by (cases s) auto
  have qs: "q \<notin> set_tree s" "q \<noteq> rb_sentinel st" using As(3) q A(2) by (cases c; auto)+
  obtain p where p: "at st p s" using As(1) by blast
  show ?thesis
  proof (cases c)
    case (LC b w)
    let ?st = "set_parent ?a (Some q) (set_left q (ptr_to st s) st)"
    have "at ?st (Some q) s" 
      using at_reparent [of "set_left q (ptr_to st s) st" p s "Some q"] p As(2) qs by simp
    moreover have "around ?st (ptr_to st s) (Some q) (c # cs)"
      using A(2) D(2) ps LC q by auto
    moreover have "rb_left st q = Some a" using A(2) LC q by simp
    ultimately show ?thesis using As D LC q by (auto simp: below_def holds_plug simp del: plug.simps)
  next
    case (RC w b)
    let ?st = "set_parent ?a (Some q) (set_right q (ptr_to st s) st)"
    have "at ?st (Some q) s" 
      using at_reparent [of "set_right q (ptr_to st s) st" p s "Some q"] p As(2) qs by simp
    moreover have "around ?st (ptr_to st s) (Some q) (c # cs)"
      using A(2) D(2) ps RC q by auto
    moreover have "rb_left st q \<noteq> Some a" using A D(3) RC q ptr_to_in [of st w a] by auto
    ultimately show ?thesis using As D RC q by (auto simp: below_def holds_plug simp del: plug.simps)
  qed
qed

lemma min_node:
  assumes "at st par t" "t = Node l a r"
  shows "\<exists>cs m s. ngx_rbtree_min st a = Some m \<and> t = plug cs (Node Leaf m s)
    \<and> inorder t = m # inorder (plug cs s)"
  using assms
proof (induction t arbitrary: par l a r)
  case (Node l' a' r')
  have eqs: "l' = l" "a' = a" "r' = r" using Node.prems(2) by simp_all
  note IH = Node.IH(1) [unfolded eqs]
  have at: "rb_left st a = ptr_to st l" "at st (Some a) l" using Node.prems by auto
  show ?case
  proof (cases l)
    case Leaf
    with at eqs ngx_rbtree_min.simps [of st a] show ?thesis
      by (intro exI [of _ "[]"] exI [of _ a] exI [of _ r]) simp
  next
    case (Node x y z)
    then have "y \<noteq> rb_sentinel st" using at(2) by simp
    then have "ngx_rbtree_min st a = ngx_rbtree_min st y"
      using ngx_rbtree_min.simps [of st a] at(1) Node by simp
    moreover from IH [OF at(2) Node] obtain cs m s where
      "ngx_rbtree_min st y = Some m" "l = plug cs (Node Leaf m s)" "inorder l = m # inorder (plug cs s)" by blast
    ultimately show ?thesis using eqs
      by (intro exI [of _ "cs @ [LC a r]"] exI [of _ m] exI [of _ s]) (simp add: plug_snoc)
  qed
qed simp

lemma adopt_tree:
  assumes "at st p t" "distinct (inorder t)"
  shows "\<exists>st'. adopt (ptr_to st t) m st = Some st' \<and> at st' (Some m) t \<and> rb_left st' = rb_left st
    \<and> rb_right st' = rb_right st \<and> rb_root st' = rb_root st \<and> rb_color st' = rb_color st \<and> rb_key st' = rb_key st
    \<and> rb_sentinel st' = rb_sentinel st \<and> (\<forall>b. b \<notin> set_tree t \<longrightarrow> rb_parent st' b = rb_parent st b)"
proof (cases t)
  case (Node l a r)
  then have "adopt (ptr_to st t) m st = Some (set_parent a (Some m) st)" using assms(1) by (simp add: adopt_def)
  with at_reparent [OF assms, of "Some m"] Node show ?thesis by simp
qed (simp add: adopt_def)

lemma replace_node:
  assumes "at st p1 l" "at st p2 r" "rb_left st a = ptr_to st l" "rb_right st a = ptr_to st r" "a \<noteq> rb_sentinel st"
    and cs: "around st (Some a) (rb_parent st a) cs" and D: "distinct (inorder (plug cs (Node l a r)))"
    and m: "m \<notin> set_tree (plug cs (Node l a r))" "m \<noteq> rb_sentinel st"
  shows "\<exists>st'. rb_replace a m st = Some st' \<and> holds st' (plug cs (Node l m r))
    \<and> rb_color st' = (rb_color st)(m := rb_color st a) \<and> kept st st'
    \<and> rb_parent st' (rb_sentinel st) = rb_parent st (rb_sentinel st)"
proof -
  let ?s = "rb_sentinel st"
  have sen: "?s \<notin> set_tree l" "?s \<notin> set_tree r" "?s \<notin> crumbs_set cs"
    using assms(1,2) cs at_sentinel around_sentinel by blast+
  from D have D1: "distinct (inorder l)" "distinct (inorder r)" "crumbs_distinct cs" "a \<notin> set_tree l \<union> set_tree r \<union> crumbs_set cs"
      "set_tree l \<inter> set_tree r = {}" "(set_tree l \<union> set_tree r) \<inter> crumbs_set cs = {}"
    by (auto simp: plug_distinct simp flip: set_inorder)
  from m(1) have m': "m \<notin> set_tree l" "m \<notin> set_tree r" "m \<notin> crumbs_set cs" "m \<noteq> a" by auto
  define s1 where "s1 = set_color m (rb_color st a) (set_parent m (rb_parent st a)
    (set_right m (ptr_to st r) (set_left m (ptr_to st l) st)))"
  have "around s1 (Some a) (rb_parent st a) cs" using cs m' by (simp add: s1_def)
  from relink_around [OF this, of "Some m"] obtain s2 where
    s2: "relink_left a (Some m) s1 = Some s2" "around s2 (Some m) (rb_parent st a) cs" "same_data s1 s2"
      "rb_parent s2 = rb_parent s1"
      "\<And>b. b \<notin> crumbs_set cs \<Longrightarrow> rb_left s2 b = rb_left s1 b \<and> rb_right s2 b = rb_right s1 b"
    using assms(5) D1 m' by (auto simp: s1_def)
  have f2: "rb_sentinel s2 = ?s" "rb_key s2 = rb_key st" "rb_color s2 = (rb_color st)(m := rb_color st a)"
      "rb_parent s2 = (rb_parent st)(m := rb_parent st a)" "rb_left s2 m = ptr_to st l" "rb_right s2 m = ptr_to st r"
    using s2(3,4,5) m' by (auto simp: same_data_def s1_def)
  have eq2: "at s2 p t = at st p t" if "m \<notin> set_tree t" "set_tree t \<inter> crumbs_set cs = {}" for p t
  proof (rule at_cong)
    fix b assume "b \<in> set_tree t"
    with that have "b \<noteq> m" "b \<notin> crumbs_set cs" by auto
    with s2(5) f2 show "rb_left s2 b = rb_left st b \<and> rb_right s2 b = rb_right st b \<and> rb_parent s2 b = rb_parent st b"
      by (simp add: s1_def)
  qed (fact f2(1))
  have pt: "ptr_to s' t = ptr_to st t" if "rb_sentinel s' = ?s" for s' t
    using that by (rule ptr_to_cong)
  have "at s2 p1 l" "at s2 p2 r" using assms(1,2) eq2 [of l] eq2 [of r] m' D1 by auto
  from adopt_tree [OF this(1) D1(1), of m] obtain s3 where
    s3: "adopt (rb_left s2 m) m s2 = Some s3" "at s3 (Some m) l" "rb_left s3 = rb_left s2" "rb_right s3 = rb_right s2"
      "rb_root s3 = rb_root s2" "rb_color s3 = rb_color s2" "rb_key s3 = rb_key s2" "rb_sentinel s3 = ?s"
      "\<And>b. b \<notin> set_tree l \<Longrightarrow> rb_parent s3 b = rb_parent s2 b"
    using pt [OF f2(1)] f2 by auto
  have "at s3 p2 r" using \<open>at s2 p2 r\<close> s3 D1(5) f2(1) at_cong [of s3 s2 r p2] by auto
  from adopt_tree [OF this D1(2), of m] obtain s4 where
    s4: "adopt (rb_right s3 m) m s3 = Some s4" "at s4 (Some m) r" "rb_left s4 = rb_left s2" "rb_right s4 = rb_right s2"
      "rb_root s4 = rb_root s2" "rb_color s4 = rb_color s2" "rb_key s4 = rb_key s2" "rb_sentinel s4 = ?s"
      "\<And>b. b \<notin> set_tree r \<Longrightarrow> rb_parent s4 b = rb_parent s3 b"
    using pt [OF s3(8)] s3 f2 by auto
  have "rb_replace a m st = Some s4"
    using s2(1) s3(1) s4(1) assms(3,4) m'(4) by (simp add: rb_replace_def Let_def s1_def)
  moreover have "at s4 (Some m) l" using s3 s4 D1(5) at_cong [of s4 s3 l "Some m"] by auto
  moreover have "around s4 (Some m) (rb_parent st a) cs"
  proof -
    have "rb_parent s4 b = rb_parent s2 b" if "b \<in> crumbs_set cs" for b
    proof -
      have "b \<notin> set_tree l" "b \<notin> set_tree r" using that D1(6) by auto
      with s3(9) s4(9) show ?thesis by simp
    qed
    then have "around s4 (Some m) (rb_parent st a) cs = around s2 (Some m) (rb_parent st a) cs"
      using s4(3,4,5,8) f2(1) by (intro around_cong) simp_all
    with s2(2) show ?thesis by simp
  qed
  ultimately show ?thesis
    using s4 s3(9) f2 m m' sen D1 pt [OF s4(8)] by (auto simp: holds_plug kept_def simp flip: set_inorder)
qed

section \<open>Deletion\<close>

lemma holds_clear [simp]: "a \<notin> set_tree t \<Longrightarrow> holds (rb_clear a st) t = holds st t"
proof -
  assume "a \<notin> set_tree t"
  then have "at (rb_clear a st) par t = at st par t" for par
    by (intro at_cong) (auto simp: rb_clear_def Let_def)
  moreover have "ptr_to (rb_clear a st) t = ptr_to st t" by (rule ptr_to_cong) (simp add: rb_clear_def Let_def)
  ultimately show ?thesis by (simp add: holds_def) (simp add: rb_clear_def Let_def)
qed

lemma clear_fields [simp]:
  "rb_color (rb_clear a st) = rb_color st" "rb_sentinel (rb_clear a st) = rb_sentinel st"
  "rb_key (rb_clear a st) = (rb_key st)(a := 0)" "b \<noteq> a \<Longrightarrow> rb_parent (rb_clear a st) b = rb_parent st b"
  by (simp_all add: rb_clear_def Let_def)

text \<open>\<^verbatim>\<open>subst\<close> is the node itself when one of its children is the sentinel.\<close>

lemma subst_self:
  assumes T: "holds st (plug cs (Node l a r))" and lr: "l = Leaf \<or> r = Leaf"
  shows "\<exists>s. rb_subst a st = Some (a, root_of st s) \<and> (l = Leaf \<and> s = r \<or> r = Leaf \<and> s = l)"
proof (cases "l = Leaf")
  case True
  with holds_node [OF T] show ?thesis
    by (intro exI [of _ r], cases r) (simp_all add: rb_subst_def)
next
  case False
  then obtain x y z where l: "l = Node x y z" by (cases l) auto
  have "y \<noteq> rb_sentinel st" using holds_node(1) [of st "LC a r # cs" x y z] T l by simp
  with lr False l holds_node [OF T] show ?thesis by (intro exI [of _ l]) (simp add: rb_subst_def)
qed

text \<open>The state after the unlinking: the rest of the tree, short of a black node below \<open>cs\<close> if the node
  taken out was black.\<close>

lemma after_unlink:
  assumes B: "below st cs s" and cs: "cs \<noteq> []" and xs: "inorder (plug cs s) = xs"
    and c: "\<not> c (rb_sentinel st)" "rb_color st = c"
    and rb: "if red then rbt c s n \<and> is_black c s \<and> ctx c cs n True else rbt c s n \<and> ctx c cs (Suc n) False"
  shows "if red then rbtree st xs else del_inv st xs cs s"
proof (cases red)
  case True
  then have "red_black c (plug cs s)" unfolding red_black_plug using rb ctx_weaken by auto
  with B c xs True show ?thesis by (auto simp: rbtree_def below_def)
next
  case False
  with B cs xs c rb rbt_weak show ?thesis by (auto simp: del_inv_def below_def)
qed

lemma delete_rest:
  assumes B: "below st cs s" and cs: "cs \<noteq> []" and xs: "inorder (plug cs s) = xs"
    and c: "\<not> rb_color st (rb_sentinel st)"
    and rb: "if red then rbt (rb_color st) s n \<and> is_black (rb_color st) s \<and> ctx (rb_color st) cs n True
      else rbt (rb_color st) s n \<and> ctx (rb_color st) cs (Suc n) False"
    and r: "a = root_of st s"
  shows "\<exists>st'. (if red then Some st else rb_delete_fix a st) = Some st' \<and> rbtree st' xs \<and> kept st st'"
  using after_unlink [OF B cs xs c refl rb] delete_fix [of st xs cs s] r by (auto simp: kept_def)

lemma plug_append [simp]: "plug (cs @ cs') t = plug cs' (plug cs t)"
  by (induction cs t rule: plug.induct) simp_all

lemma crumbs_append [simp]: "crumbs_set (cs @ cs') = crumbs_set cs \<union> crumbs_set cs'"
  by (induction cs rule: crumbs_set.induct) auto

lemma crumbs_distinct_append:
  "crumbs_distinct (cs @ cs') \<longleftrightarrow> crumbs_distinct cs \<and> crumbs_distinct cs' \<and> crumbs_set cs \<inter> crumbs_set cs' = {}"
  by (induction cs rule: crumbs_distinct.induct) auto

fun before :: "crumb list \<Rightarrow> nat list" where
  "before [] = []"
| "before (LC a r # cs) = before cs"
| "before (RC l a # cs) = before cs @ inorder l @ [a]"

fun after :: "crumb list \<Rightarrow> nat list" where
  "after [] = []"
| "after (LC a r # cs) = a # inorder r @ after cs"
| "after (RC l a # cs) = after cs"

lemma inorder_context: "inorder (plug cs t) = before cs @ inorder t @ after cs"
  by (induction cs t rule: plug.induct) simp_all

lemma inorder_remove:
  assumes "distinct (inorder (plug cs (Node l a r)))" "inorder u = inorder l @ inorder r"
  shows "inorder (plug cs u) = remove1 a (inorder (plug cs (Node l a r)))"
  using assms unfolding inorder_context by (simp add: remove1_append)

lemma find_plug: "a \<in> set_tree t \<Longrightarrow> \<exists>cs l r. t = plug cs (Node l a r)"
proof (induction t)
  case (Node l b r)
  then consider "a = b" | "a \<in> set_tree l" | "a \<in> set_tree r" by auto
  then show ?case
  proof cases
    case 1
    then show ?thesis by (auto intro: exI [of _ "[]"])
  next
    case 2
    with Node.IH(1) obtain cs x y where "l = plug cs (Node x a y)" by blast
    then show ?thesis using plug_snoc(1) [of cs b r "Node x a y"] by metis
  next
    case 3
    with Node.IH(2) obtain cs x y where "r = plug cs (Node x a y)" by blast
    then show ?thesis using plug_snoc(2) [of cs l b "Node x a y"] by metis
  qed
qed simp

lemma below_clear:
  assumes "below st cs s" "a \<notin> set_tree (plug cs s)" "a \<noteq> rb_sentinel st"
  shows "below (rb_clear a st) cs s"
  using assms by (auto simp: below_def)

lemma paint_rbt:
  assumes "rbt c s n" "distinct (inorder s)"
  shows "red_black (c(root_of st s := False)) s"
proof (cases s)
  case (Node l a r)
  with assms have "rbt (c(a := False)) s (if c a then Suc n else n)" by (auto simp flip: set_inorder)
  with Node show ?thesis by (auto simp: red_black_def simp del: rbt.simps)
qed (simp add: red_black_def)

text \<open>The node is the root and has at most one child.\<close>

lemma delete_root:
  assumes T: "holds st (Node l a r)" and rb: "red_black (rb_color st) (Node l a r)" "\<not> rb_color st (rb_sentinel st)"
    and s: "rb_subst a st = Some (a, root_of st s)" "l = Leaf \<and> s = r \<or> r = Leaf \<and> s = l"
  shows "\<exists>st'. ngx_rbtree_delete a st = Some st' \<and> rbtree st' (remove1 a (inorder (Node l a r)))
    \<and> rb_key st' = (rb_key st)(a := 0) \<and> rb_sentinel st' = rb_sentinel st"
proof -
  let ?b = "root_of st s"
  let ?st = "rb_clear a (ngx_rbt_black ?b (st\<lparr>rb_root := Some ?b\<rparr>))"
  have "ngx_rbtree_delete a st = Some ?st" using T s(1) by (simp add: ngx_rbtree_delete_def holds_def)
  moreover have "holds ?st s"
  proof -
    have "a \<notin> set_tree s" using T s(2) by (auto simp: holds_def simp flip: set_inorder)
    moreover have "holds (ngx_rbt_black ?b (st\<lparr>rb_root := Some ?b\<rparr>)) s"
      using T s(2) by (cases s) (auto simp: holds_def)
    ultimately show ?thesis by simp
  qed
  moreover have "red_black (rb_color ?st) s"
  proof -
    from rb(1) s(2) obtain n where "rbt (rb_color st) s n" by (auto simp: red_black_def)
    moreover have "distinct (inorder s)" using T s(2) by (auto simp: holds_def)
    ultimately show ?thesis using paint_rbt [of "rb_color st" s n st] by simp
  qed
  moreover have "inorder s = remove1 a (inorder (Node l a r))"
    using inorder_remove [of "[]" l a r s] T s(2) by (auto simp: holds_def)
  moreover have "\<not> rb_color ?st (rb_sentinel ?st)" using rb(2) by simp
  ultimately show ?thesis unfolding rbtree_def by auto
qed

text \<open>The node has at most one child and is not the root.\<close>

lemma delete_self:
  assumes T: "holds st (plug (c # cs) (Node l a r))"
    and rb: "red_black (rb_color st) (plug (c # cs) (Node l a r))" "\<not> rb_color st (rb_sentinel st)"
    and s: "rb_subst a st = Some (a, root_of st s)" "l = Leaf \<and> s = r \<or> r = Leaf \<and> s = l"
  shows "\<exists>st'. ngx_rbtree_delete a st = Some st' \<and> rbtree st' (remove1 a (inorder (plug (c # cs) (Node l a r))))
    \<and> rb_key st' = (rb_key st)(a := 0) \<and> rb_sentinel st' = rb_sentinel st"
proof -
  obtain q where q: "up (c # cs) = Some q" by (cases c) auto
  have pa: "rb_parent st a = Some q" using holds_parent [OF T] q by (cases c) auto
  let ?st = "set_parent (root_of st s) (Some q)
    (if Some a = rb_left st q then set_left q (ptr_to st s) st else set_right q (ptr_to st s) st)"
  note [simp del] = plug.simps ctx.simps
  have d: "distinct (inorder (plug (c # cs) (Node l a r)))" using holds_distinct [OF T] .
  have na: "a \<notin> set_tree (plug (c # cs) s)" using d s(2) unfolding plug_set plug_distinct by (auto simp flip: set_inorder)
  have B: "below (rb_clear a ?st) (c # cs) s"
    using below_clear [OF unlink [OF T s(2) q] na] holds_node(1) [OF T] by simp
  have "rb_splice a a (root_of st s) st = Some ?st"
    using pa ptr_to_top [of st s] by (auto simp: rb_splice_def Let_def simp flip: ptr_to_top)
  then have del: "ngx_rbtree_delete a st = (if rb_color st a then Some (rb_clear a ?st) else rb_delete_fix (root_of st s) (rb_clear a ?st))"
    using s(1) holds_node(4) [OF T] by (simp add: ngx_rbtree_delete_def Let_def)
  have in_eq: "inorder (plug (c # cs) s) = remove1 a (inorder (plug (c # cs) (Node l a r)))"
    using inorder_remove [OF d, of s] s(2) by auto
  from rb(1) obtain n where n: "rbt (rb_color st) (Node l a r) n" "ctx (rb_color st) (c # cs) n (rb_color st a)"
    by (auto simp: red_black_plug)
  have col: "rb_color (rb_clear a ?st) = rb_color st" "rb_sentinel (rb_clear a ?st) = rb_sentinel st"
    "rb_key (rb_clear a ?st) = (rb_key st)(a := 0)" by simp_all
  have tp: "root_of (rb_clear a ?st) s = root_of st s" by (rule top_cong) simp
  show ?thesis
    using delete_rest [OF B _ in_eq, of "rb_color st a" "if rb_color st a then n else n - 1" "root_of st s"]
      n s(2) rb(2) del unfolding col tp by (auto simp: kept_def split: if_splits)
qed

text \<open>The node has two children: \<^verbatim>\<open>subst\<close>, the first node of the right subtree, takes its place and its
  colour.\<close>

lemma ctx_rename:
  "m \<notin> crumbs_set (cs @ RC l a # cs') \<Longrightarrow>
     ctx (c(m := c a)) (cs @ RC l m # cs') n b = ctx c (cs @ RC l a # cs') n b"
  by (induction c cs n b rule: ctx.induct) auto

lemma up_in: "up cs = Some q \<Longrightarrow> q \<in> crumbs_set cs"
  by (cases cs rule: up.cases) auto

lemma up_append: "up (cs @ c # cs') = (if cs = [] then up [c] else up cs)"
  by (cases cs rule: up.cases; cases c) auto

text \<open>The state in which \<^verbatim>\<open>subst\<close> is unlinked.\<close>

lemma splice:
  assumes T: "holds st (plug (cs2 @ RC l a # cs) (Node Leaf m s))" and l: "l \<noteq> Leaf"
  shows "\<exists>st'. rb_splice a m (root_of st s) st = Some st' \<and> below st' (cs2 @ RC l m # cs) s
    \<and> rb_color st' = (rb_color st)(m := rb_color st a) \<and> kept st st'"
proof -
  let ?C = "cs2 @ RC l a # cs" and ?R = "plug cs2 s"
  note [simp del] = plug.simps plug_append
  obtain c0 cs0 where c0: "?C = c0 # cs0" by (cases cs2) auto
  note T0 = T [unfolded c0]
  obtain q where q: "up ?C = Some q" by (cases c0) (auto simp: c0)
  have pm: "rb_parent st m = Some q" using holds_parent [OF T0] q c0 by (cases c0) auto
  define st1 where "st1 = (if Some m = rb_left st q then set_left q (ptr_to st s) st else set_right q (ptr_to st s) st)"
  define st2 where "st2 = set_parent (root_of st s) (Some q) st1"
  have B: "below st2 ?C s"
    using unlink [OF T0, of s q] q unfolding c0 st2_def st1_def by simp
  have d: "distinct (inorder (plug ?C (Node Leaf m s)))" using holds_distinct [OF T] .
  then have D: "m \<noteq> a" "m \<notin> set_tree (plug ?C s)" "a \<notin> crumbs_set cs2" "a \<notin> set_tree s"
      "set_tree s \<inter> (set_tree l \<union> crumbs_set cs) = {}"
    by (auto simp: plug_distinct crumbs_distinct_append)
  have qa: "q = a \<longleftrightarrow> cs2 = []" using q D(3) up_in [of cs2 q] by (auto simp: up_append split: if_splits)
  define st3 where "st3 = (if cs2 = [] then set_parent (root_of st s) (Some m) st2 else st2)"
  have f1: "rb_sentinel st1 = rb_sentinel st" "rb_color st1 = rb_color st" "rb_key st1 = rb_key st" "rb_parent st1 = rb_parent st"
    by (simp_all add: st1_def)
  then have f3: "rb_sentinel st3 = rb_sentinel st" "rb_color st3 = rb_color st" "rb_key st3 = rb_key st"
    by (simp_all add: st3_def st2_def)
  have spl: "rb_splice a m (root_of st s) st = rb_replace a m st3"
    using pm qa f1 D(1) by (auto simp: rb_splice_def Let_def st3_def st2_def st1_def set_parent_def simp flip: ptr_to_top)
  have H: "holds st2 (plug cs (Node l a ?R))" using B by (simp add: below_def plug_append plug.simps)
  then obtain par where A: "at st2 par (Node l a ?R)" "around st2 (Some a) par cs"
    by (auto simp: holds_plug)
  have sen: "rb_sentinel st \<notin> set_tree l" "rb_sentinel st \<notin> crumbs_set cs" "a \<noteq> rb_sentinel st"
    using A at_sentinel [of st2 "Some a" l] around_sentinel [OF A(2)] f1 by (auto simp: st2_def)
  have rs: "root_of st s \<notin> set_tree l" "root_of st s \<notin> crumbs_set cs" "root_of st s \<noteq> a"
    using D(4,5) sen by (cases s; auto)+
  have "root_of st2 s = root_of st s" by (rule top_cong) (simp add: st2_def f1)
  then have "\<exists>p. at st3 p ?R"
    using A(1) at_reparent [of st2 "Some a" s "Some m"] d
    by (auto simp: st3_def plug.simps plug_distinct crumbs_distinct_append)
  then obtain p2 where p2: "at st3 p2 ?R" ..
  have "at st3 (Some a) l" "around st3 (Some a) (rb_parent st3 a) cs"
    "rb_left st3 a = ptr_to st3 l" "rb_right st3 a = ptr_to st3 ?R"
    using A rs by (auto simp: st3_def)
  moreover have "distinct (inorder (plug cs (Node l a ?R)))" using holds_distinct [OF H] .
  moreover have "m \<notin> set_tree (plug cs (Node l a ?R))" using D(2) by (simp add: plug.simps)
  moreover have "m \<noteq> rb_sentinel st3" using holds_node(1) [OF T] f3 by simp
  ultimately obtain st' where st': "rb_replace a m st3 = Some st'" "holds st' (plug cs (Node l m ?R))"
      "rb_color st' = (rb_color st3)(m := rb_color st3 a)" "kept st3 st'"
      "rb_parent st' (rb_sentinel st3) = rb_parent st3 (rb_sentinel st3)"
    using replace_node [of st3 "Some a" l p2 ?R a cs m] p2 sen(3) f3 by auto
  have "rb_parent st3 (rb_sentinel st) = up (cs2 @ RC l m # cs)" if "s = Leaf"
    using that q f1 unfolding st3_def st2_def up_append by (auto split: if_splits)
  then have "below st' (cs2 @ RC l m # cs) s"
    using st'(2,4,5) f3 by (auto simp: below_def plug_append plug.simps kept_def)
  with spl st' f3 show ?thesis by (auto simp: kept_def)
qed

lemma delete_inner:
  assumes T: "holds st (plug cs (Node l a r))" and lr: "l \<noteq> Leaf" "r \<noteq> Leaf"
    and rb: "red_black (rb_color st) (plug cs (Node l a r))" "\<not> rb_color st (rb_sentinel st)"
  shows "\<exists>st'. ngx_rbtree_delete a st = Some st' \<and> rbtree st' (remove1 a (inorder (plug cs (Node l a r))))
    \<and> rb_key st' = (rb_key st)(a := 0) \<and> rb_sentinel st' = rb_sentinel st"
proof -
  obtain b where b: "ptr_to st r = Some b" "b \<noteq> rb_sentinel st" "\<exists>x y. r = Node x b y"
    using lr(2) T by (cases r) (auto simp: holds_plug)
  obtain b' where b': "ptr_to st l = Some b'" "b' \<noteq> rb_sentinel st"
    using lr(1) T by (cases l) (auto simp: holds_plug)
  from T have "at st (Some a) r" by (auto simp: holds_plug)
  with b(3) min_node [of st "Some a" r] obtain cs2 m s where
    m: "ngx_rbtree_min st b = Some m" "r = plug cs2 (Node Leaf m s)" "inorder r = m # inorder (plug cs2 s)"
    by blast
  let ?C = "cs2 @ RC l a # cs" and ?C' = "cs2 @ RC l m # cs"
  have T': "holds st (plug ?C (Node Leaf m s))" using T m(2) by simp
  have "rb_right st m = Some (root_of st s)" using holds_node(3) [OF T'] ptr_to_top [of st s] by simp
  then have sub: "rb_subst a st = Some (m, root_of st s)"
    using holds_node(2,3) [OF T] b b' m(1) by (simp add: rb_subst_def)
  obtain c0 cs0 where c0: "?C = c0 # cs0" by (cases cs2) auto
  have nr: "rb_root st \<noteq> Some m" using not_root [of st c0 cs0 "Node Leaf m s"] T' unfolding c0 by simp
  from splice [OF T' lr(1)] obtain st1 where st1: "rb_splice a m (root_of st s) st = Some st1" "below st1 ?C' s"
      "rb_color st1 = (rb_color st)(m := rb_color st a)" "kept st st1"
    by blast
  have d: "distinct (inorder (plug cs (Node l a r)))" using holds_distinct [OF T] .
  have "distinct (inorder (plug ?C (Node Leaf m s)))" using holds_distinct [OF T'] .
  then have D: "m \<noteq> a" "m \<notin> crumbs_set ?C" "m \<notin> set_tree s" "a \<notin> set_tree (plug ?C' s)"
    unfolding plug_set plug_distinct crumbs_append crumbs_distinct_append by auto
  have as: "a \<noteq> rb_sentinel st" "m \<noteq> rb_sentinel st" using holds_node(1) [OF T] holds_node(1) [OF T'] by auto
  let ?st = "rb_clear a st1"
  have B: "below ?st ?C' s" using below_clear [OF st1(2) D(4)] as(1) st1(4) by (simp add: kept_def)
  have in_eq: "inorder (plug ?C' s) = remove1 a (inorder (plug cs (Node l a r)))"
    using inorder_remove [OF d, of "Node l m (plug cs2 s)"] m(3) by simp
  from rb(1) obtain n where n: "rbt (rb_color st) (Node Leaf m s) n" "ctx (rb_color st) ?C n (rb_color st m)"
    unfolding m(2) using red_black_plug [of "rb_color st" ?C "Node Leaf m s"] by auto
  have col: "rb_color ?st = (rb_color st)(m := rb_color st a)" "rb_sentinel ?st = rb_sentinel st"
    "rb_key ?st = (rb_key st)(a := 0)" using st1(3,4) by (simp_all add: kept_def)
  have tp: "root_of st s = root_of ?st s" by (rule top_cong) (use st1(4) in \<open>simp add: kept_def\<close>)
  have ct: "ctx (rb_color ?st) ?C' k x = ctx (rb_color st) ?C k x" for k x
    unfolding col by (rule ctx_rename [OF D(2)])
  have s: "rbt (rb_color ?st) s k = rbt (rb_color st) s k" "is_black (rb_color ?st) s = is_black (rb_color st) s" for k
    unfolding col using D(3) by simp_all
  have del: "ngx_rbtree_delete a st = (if rb_color st m then Some ?st else rb_delete_fix (root_of st s) ?st)"
    using sub nr st1(1) by (simp add: ngx_rbtree_delete_def Let_def)
  let ?n = "if rb_color st m then n else n - 1"
  have ns: "\<not> rb_color ?st (rb_sentinel ?st)" unfolding col using rb(2) as(2) by simp
  have cond: "if rb_color st m then rbt (rb_color ?st) s ?n \<and> is_black (rb_color ?st) s \<and> ctx (rb_color ?st) ?C' ?n True
      else rbt (rb_color ?st) s ?n \<and> ctx (rb_color ?st) ?C' (Suc ?n) False"
    unfolding ct s using n by auto
  have "\<exists>st'. (if rb_color st m then Some ?st else rb_delete_fix (root_of st s) ?st) = Some st'
      \<and> rbtree st' (remove1 a (inorder (plug cs (Node l a r)))) \<and> kept ?st st'"
    by (rule delete_rest [OF B _ in_eq ns cond tp]) simp
  with del show ?thesis using col by (auto simp: kept_def)
qed

lemma rbtree_delete_node:
  assumes "rbtree st xs" "node \<in> set xs"
  shows "\<exists>st'. ngx_rbtree_delete node st = Some st' \<and> rbtree st' (remove1 node xs)
    \<and> rb_key st' = (rb_key st)(node := 0) \<and> rb_sentinel st' = rb_sentinel st"
proof -
  from assms(1) obtain t where t: "holds st t" "inorder t = xs" "red_black (rb_color st) t" "\<not> rb_color st (rb_sentinel st)"
    by (auto simp: rbtree_def)
  with assms(2) find_plug [of node t] obtain cs l r where p: "t = plug cs (Node l node r)"
    by (auto simp flip: set_inorder)
  show ?thesis
  proof (cases "l = Leaf \<or> r = Leaf")
    case False
    then show ?thesis using delete_inner [of st cs l node r] t p by simp
  next
    case True
    with subst_self [of st cs l node r] t p obtain s where s: "rb_subst node st = Some (node, root_of st s)"
        "l = Leaf \<and> s = r \<or> r = Leaf \<and> s = l" by auto
    show ?thesis
    proof (cases cs)
      case Nil
      then show ?thesis using delete_root [of st l node r s] s t p by simp
    next
      case (Cons c cs')
      then show ?thesis using delete_self [of st c cs' l node r s] s t p by simp
    qed
  qed
qed

section \<open>Walking\<close>

lemma rbtree_root: "rbtree st xs \<Longrightarrow> rb_root st = Some (rb_sentinel st) \<longleftrightarrow> xs = []"
  unfolding rbtree_def holds_def by (elim conjE exE, case_tac t) auto

lemma rbtree_min:
  assumes "rbtree st (a # xs)"
  shows "\<exists>r. rb_root st = Some r \<and> r \<noteq> rb_sentinel st \<and> ngx_rbtree_min st r = Some a"
proof -
  from assms obtain t where t: "holds st t" "inorder t = a # xs" by (auto simp: rbtree_def)
  then obtain l r x where tn: "t = Node l r x" by (cases t) auto
  from t(1) obtain par where "at st par t" by (auto simp: holds_def)
  from min_node [OF this tn] t tn show ?thesis by (auto simp: holds_def)
qed

lemma ascend:
  "holds st (plug cs (Node l a r)) \<Longrightarrow> rb_ascend st a = Some (case after cs of [] \<Rightarrow> None | b # bs \<Rightarrow> Some b)"
proof (induction cs arbitrary: l a r)
  case Nil
  then show ?case using holds_node(4) [OF Nil.prems] rb_ascend.simps [of st a] by simp
next
  case (Cons c cs)
  have nr: "rb_root st \<noteq> Some a" using holds_node(4) [OF Cons.prems] by simp
  show ?case
  proof (cases c)
    case (LC b t)
    then have T: "holds st (plug cs (Node (Node l a r) b t))" using Cons.prems by simp
    then show ?thesis using holds_parent [OF Cons.prems] holds_node(2) [OF T] nr LC rb_ascend.simps [of st a] by simp
  next
    case (RC t b)
    then have T: "holds st (plug cs (Node t b (Node l a r)))" using Cons.prems by simp
    have "rb_left st b \<noteq> Some a"
      using holds_node(2) [OF T] ptr_to_in [of st t a] holds_node(1) [OF Cons.prems] holds_distinct [OF T]
      by (auto simp: plug_distinct)
    then show ?thesis using holds_parent [OF Cons.prems] nr RC rb_ascend.simps [of st a] Cons.IH [OF T] by simp
  qed
qed

lemma rbtree_next_node:
  assumes "rbtree st (ys @ a # zs)"
  shows "ngx_rbtree_next st a = Some (case zs of [] \<Rightarrow> None | b # bs \<Rightarrow> Some b)"
proof -
  from assms obtain t where t: "holds st t" "inorder t = ys @ a # zs" by (auto simp: rbtree_def)
  then have "a \<in> set_tree t" by (simp flip: set_inorder)
  from find_plug [OF this] obtain cs l r where p: "t = plug cs (Node l a r)" by blast
  note T = t(1) [unfolded p]
  have "distinct (ys @ a # zs)" using t by (simp add: holds_def)
  then have "a \<notin> set ys" "a \<notin> set zs" by auto
  moreover have "ys @ a # zs = (before cs @ inorder l) @ a # (inorder r @ after cs)"
    using t(2) p by (simp add: inorder_context)
  ultimately have zs: "zs = inorder r @ after cs"
    using append_Cons_eq_iff [of a ys zs "before cs @ inorder l" "inorder r @ after cs"] by simp
  show ?thesis
  proof (cases r)
    case Leaf
    then show ?thesis using ascend [OF T] holds_node(3) [OF T] zs by (simp add: ngx_rbtree_next_def)
  next
    case (Node x b y)
    have A: "at st (Some a) r" using T by (auto simp: holds_plug)
    from min_node [OF A Node] obtain m ms where "ngx_rbtree_min st b = Some m" "inorder r = m # ms" by blast
    moreover have "rb_right st a = Some b" "b \<noteq> rb_sentinel st" using holds_node(3) [OF T] A Node by auto
    ultimately show ?thesis using zs by (simp add: ngx_rbtree_next_def)
  qed
qed

section \<open>Properties\<close>

text \<open>
  C8: \<^verbatim>\<open>ngx_rbtree_delete\<close> on a node of a red-black tree returns and gives a red-black tree with a
  black root and exactly the other nodes, in the same order; all keys but that of the node, which is
  cleared, are unchanged.
\<close>

theorem rbtree_delete:
  assumes "rbtree st xs" "node \<in> set xs"
  shows "\<exists>st'. ngx_rbtree_delete node st = Some st' \<and> rbtree st' (remove1 node xs)
    \<and> rb_key st' = (rb_key st)(node := 0) \<and> rb_sentinel st' = rb_sentinel st"
  using rbtree_delete_node [OF assms] .

theorem rbtree_delete_witness:
  "\<exists>st'. ngx_rbtree_delete 2 rb_sample = Some st' \<and> rbtree st' [1, 3]"
  using rbtree_delete [OF rb_sample_tree, of 2] by auto

text \<open>
  The walk \<^verbatim>\<open>ngx_rbtree_min\<close>, \<^verbatim>\<open>ngx_rbtree_next\<close>, ... visits the nodes in order: from the root the
  first node is found, from each node the next, and from the last one the result is \<^verbatim>\<open>NULL\<close>.
\<close>

theorem rbtree_walk:
  assumes "rbtree st (x # xs)"
  shows "(\<exists>r. rb_root st = Some r \<and> ngx_rbtree_min st r = Some x)
    \<and> (\<forall>ys a b zs. x # xs = ys @ a # b # zs \<longrightarrow> ngx_rbtree_next st a = Some (Some b))
    \<and> ngx_rbtree_next st (last (x # xs)) = Some None"
proof (intro conjI allI impI)
  show "\<exists>r. rb_root st = Some r \<and> ngx_rbtree_min st r = Some x" using rbtree_min [OF assms] by blast
  show "ngx_rbtree_next st a = Some (Some b)" if "x # xs = ys @ a # b # zs" for ys a b zs
    using rbtree_next_node [of st ys a "b # zs"] assms that by simp
  show "ngx_rbtree_next st (last (x # xs)) = Some None"
    using rbtree_next_node [of st "butlast (x # xs)" "last (x # xs)" "[]"] assms
      append_butlast_last_id [of "x # xs"] by (simp del: butlast.simps last.simps)
qed

theorem rbtree_walk_witness:
  "ngx_rbtree_next rb_sample 1 = Some (Some 2) \<and> ngx_rbtree_next rb_sample 3 = Some None"
proof -
  note w = rbtree_walk [OF rb_sample_tree]
  have "[1, 2, 3] = [] @ 1 # 2 # [3 :: nat]" by simp
  with w have "ngx_rbtree_next rb_sample 1 = Some (Some 2)" by blast
  with w show ?thesis by simp
qed

end
