(* ===== verification/Ngx_Event_Timer.thy ===== *)
theory Ngx_Event_Timer
  imports Ngx_Rbtree_Delete
begin

text \<open>
  The event timers of \<^verbatim>\<open>src/reference/nginx-master/src/event/ngx_event_timer.c\<close> and
  \<^verbatim>\<open>ngx_event_timer.h\<close>, a client of the red-black tree.

  An event is named by the address of its \<^verbatim>\<open>timer\<close> node, as \<^verbatim>\<open>ngx_rbtree_data\<close> recovers the event from
  the node; of its fields the three bits the timers use are kept. \<^verbatim>\<open>ngx_current_msec\<close> is part of the
  state, and the handler \<^verbatim>\<open>ev->handler\<close> is a function on the state that may fail to return.
\<close>

section \<open>The operations\<close>

record event_timers =
  ngx_event_timer_rbtree :: rb
  ngx_current_msec :: "64 word"
  timer_set :: "nat \<Rightarrow> bool"
  timedout :: "nat \<Rightarrow> bool"
  cancelable :: "nat \<Rightarrow> bool"

abbreviation NGX_TIMER_INFINITE :: "64 word" where "NGX_TIMER_INFINITE \<equiv> - 1"
abbreviation NGX_TIMER_LAZY_DELAY :: int where "NGX_TIMER_LAZY_DELAY \<equiv> 300"

definition ngx_event_timer_init :: "nat \<Rightarrow> event_timers \<Rightarrow> event_timers" where
  "ngx_event_timer_init s st = st\<lparr>ngx_event_timer_rbtree := ngx_rbtree_init s (ngx_event_timer_rbtree st)\<rparr>"

definition ngx_event_find_timer :: "event_timers \<Rightarrow> 64 word option" where
  "ngx_event_find_timer st =
     (let tree = ngx_event_timer_rbtree st
      in if rb_root tree = Some (rb_sentinel tree) then Some NGX_TIMER_INFINITE
         else do {
           root \<leftarrow> rb_root tree;
           node \<leftarrow> ngx_rbtree_min tree root;
           let timer = sint (rb_key tree node - ngx_current_msec st);
           Some (word_of_int (if timer > 0 then timer else 0))
         })"

definition ngx_event_del_timer :: "nat \<Rightarrow> event_timers \<Rightarrow> event_timers option" where
  "ngx_event_del_timer ev st =
     do {
       tree \<leftarrow> ngx_rbtree_delete ev (ngx_event_timer_rbtree st);
       Some (st\<lparr>ngx_event_timer_rbtree := tree, timer_set := (timer_set st)(ev := False)\<rparr>)
     }"

text \<open>\<^verbatim>\<open>ngx_abs\<close> on a signed 64-bit difference\<close>

definition ngx_abs :: "64 word \<Rightarrow> int" where
  "ngx_abs d = (if sint d \<ge> 0 then sint d else sint (- d))"

definition ngx_event_add_timer :: "nat \<Rightarrow> 64 word \<Rightarrow> event_timers \<Rightarrow> event_timers option" where
  "ngx_event_add_timer ev timer st =
     (let key = ngx_current_msec st + timer
      in if timer_set st ev \<and> ngx_abs (key - rb_key (ngx_event_timer_rbtree st) ev) < NGX_TIMER_LAZY_DELAY then Some st
         else do {
           st \<leftarrow> (if timer_set st ev then ngx_event_del_timer ev st else Some st);
           let tree = ngx_event_timer_rbtree st;
           let tree = tree\<lparr>rb_key := (rb_key tree)(ev := key)\<rparr>;
           tree \<leftarrow> ngx_rbtree_insert ngx_rbtree_insert_timer_value ev tree;
           Some (st\<lparr>ngx_event_timer_rbtree := tree, timer_set := (timer_set st)(ev := True)\<rparr>)
         })"

text \<open>The loop ends when the handler calls leave no timer that is due.\<close>

partial_function (option) ngx_event_expire_timers ::
  "(nat \<Rightarrow> event_timers \<Rightarrow> event_timers option) \<Rightarrow> event_timers \<Rightarrow> event_timers option" where
  "ngx_event_expire_timers handler st =
     (let tree = ngx_event_timer_rbtree st
      in if rb_root tree = Some (rb_sentinel tree) then Some st
         else do {
           root \<leftarrow> rb_root tree;
           node \<leftarrow> ngx_rbtree_min tree root;
           if sint (rb_key tree node - ngx_current_msec st) > 0 then Some st
           else do {
             tree \<leftarrow> ngx_rbtree_delete node tree;
             let st = st\<lparr>ngx_event_timer_rbtree := tree\<rparr>;
             let st = st\<lparr>timer_set := (timer_set st)(node := False)\<rparr>;
             let st = st\<lparr>timedout := (timedout st)(node := True)\<rparr>;
             st \<leftarrow> handler node st;
             ngx_event_expire_timers handler st
           }
         })"

partial_function (option) only_cancelable :: "event_timers \<Rightarrow> nat option \<Rightarrow> int option" where
  "only_cancelable st node =
     (case node of None \<Rightarrow> Some NGX_OK
      | Some ev \<Rightarrow>
          if \<not> cancelable st ev then Some NGX_AGAIN
          else do { node \<leftarrow> ngx_rbtree_next (ngx_event_timer_rbtree st) ev; only_cancelable st node })"

definition ngx_event_no_timers_left :: "event_timers \<Rightarrow> int option" where
  "ngx_event_no_timers_left st =
     (let tree = ngx_event_timer_rbtree st
      in if rb_root tree = Some (rb_sentinel tree) then Some NGX_OK
         else do {
           root \<leftarrow> rb_root tree;
           node \<leftarrow> ngx_rbtree_min tree root;
           only_cancelable st (Some node)
         })"

section \<open>The invariant\<close>

abbreviation tkey :: "event_timers \<Rightarrow> nat \<Rightarrow> 64 word" where
  "tkey st x \<equiv> rb_key (ngx_event_timer_rbtree st) x"

text \<open>The tree holds the timers \<open>xs\<close> in the order of expiry, exactly those whose bit is set, and all keys
  lie in the half of the range above \<open>base\<close>.\<close>

definition timers_ok :: "64 word \<Rightarrow> event_timers \<Rightarrow> nat list \<Rightarrow> bool" where
  "timers_ok base st xs \<longleftrightarrow> rbtree (ngx_event_timer_rbtree st) xs
     \<and> sorted (map (\<lambda>x. tkey st x - base) xs) \<and> (\<forall>x\<in>set xs. tkey st x - base < 0x8000000000000000)
     \<and> (\<forall>x. timer_set st x \<longleftrightarrow> x \<in> set xs)"

definition due :: "event_timers \<Rightarrow> nat \<Rightarrow> bool" where
  "due st x \<longleftrightarrow> \<not> sint (tkey st x - ngx_current_msec st) > 0"

lemma rbtree_distinct: "rbtree st xs \<Longrightarrow> distinct xs"
  by (auto simp: rbtree_def holds_def)

lemma rbtree_not_sentinel: "rbtree st xs \<Longrightarrow> x \<in> set xs \<Longrightarrow> x \<noteq> rb_sentinel st"
  by (auto simp: rbtree_def holds_def dest: at_sentinel)

lemma due_window:
  assumes "tkey st x - base < 0x8000000000000000" "ngx_current_msec st - base < 0x8000000000000000"
  shows "due st x \<longleftrightarrow> tkey st x - base \<le> ngx_current_msec st - base"
  unfolding due_def sint_window [OF assms] word_le_def by linarith

lemma del_timer_ok:
  assumes ok: "timers_ok base st xs" and ev: "ev \<in> set xs"
  shows "\<exists>tree st'. ngx_rbtree_delete ev (ngx_event_timer_rbtree st) = Some tree
    \<and> ngx_event_del_timer ev st = Some st'
    \<and> st' = st\<lparr>ngx_event_timer_rbtree := tree, timer_set := (timer_set st)(ev := False)\<rparr>
    \<and> timers_ok base st' (remove1 ev xs) \<and> (\<forall>x. x \<noteq> ev \<longrightarrow> tkey st' x = tkey st x)
    \<and> rb_sentinel tree = rb_sentinel (ngx_event_timer_rbtree st)"
proof -
  have t: "rbtree (ngx_event_timer_rbtree st) xs" and d: "distinct xs"
    using ok rbtree_distinct by (auto simp: timers_ok_def)
  from rbtree_delete_node [OF t ev] obtain tree where
    tree: "ngx_rbtree_delete ev (ngx_event_timer_rbtree st) = Some tree" "rbtree tree (remove1 ev xs)"
      "rb_key tree = (rb_key (ngx_event_timer_rbtree st))(ev := 0)"
      "rb_sentinel tree = rb_sentinel (ngx_event_timer_rbtree st)" by blast
  have ne: "x \<noteq> ev" if "x \<in> set (remove1 ev xs)" for x using that d by auto
  have "map (\<lambda>x. rb_key tree x - base) (remove1 ev xs) = map (\<lambda>x. tkey st x - base) (remove1 ev xs)"
    using ne tree(3) by simp
  moreover have "sorted (map (\<lambda>x. tkey st x - base) (remove1 ev xs))"
    using ok by (intro sorted_map_remove1) (simp add: timers_ok_def)
  ultimately have "sorted (map (\<lambda>x. rb_key tree x - base) (remove1 ev xs))" by metis
  then show ?thesis using tree ok ne d
    by (auto simp: ngx_event_del_timer_def timers_ok_def)
qed

text \<open>A timer that is not in the tree is put there.\<close>

lemma insert_timer_ok:
  assumes ok: "timers_ok base st xs" and ev: "ev \<notin> set xs" "ev \<noteq> rb_sentinel (ngx_event_timer_rbtree st)"
    and key: "key - base < 0x8000000000000000"
  shows "\<exists>tree st' xs'. ngx_rbtree_insert ngx_rbtree_insert_timer_value ev
      ((ngx_event_timer_rbtree st)\<lparr>rb_key := (rb_key (ngx_event_timer_rbtree st))(ev := key)\<rparr>) = Some tree
    \<and> st' = st\<lparr>ngx_event_timer_rbtree := tree, timer_set := (timer_set st)(ev := True)\<rparr>
    \<and> timers_ok base st' xs' \<and> set xs' = insert ev (set xs) \<and> tkey st' = (tkey st)(ev := key)"
proof -
  let ?t = "(ngx_event_timer_rbtree st)\<lparr>rb_key := (rb_key (ngx_event_timer_rbtree st))(ev := key)\<rparr>"
  have t: "rbtree ?t xs" using ok by (simp add: timers_ok_def)
  have "map (\<lambda>x. rb_key ?t x - base) xs = map (\<lambda>x. tkey st x - base) xs" using ev by simp
  then have "sorted (map (\<lambda>x. rb_key ?t x - base) xs)" using ok unfolding timers_ok_def by metis
  then have "timers.ordered base (rb_key ?t) xs"
    unfolding timers_ordered using ok ev by (auto simp: timers_ok_def timer_window_def)
  moreover have "rb_key ?t ev \<in> timer_window base" using key by (simp add: timer_window_def)
  ultimately obtain tree where tree: "ngx_rbtree_insert (rb_insert_by timer_less) ev ?t = Some tree"
      "rbtree tree (place timer_less (rb_key ?t) ev xs)"
      "timers.ordered base (rb_key tree) (place timer_less (rb_key ?t) ev xs)" "kept ?t tree"
    using timers.insert_ordered [OF t, of base ev] ev by auto
  have "set (place timer_less (rb_key ?t) ev xs) = insert ev (set xs)" by (rule place_set)
  with tree ok show ?thesis unfolding timers_ordered kept_def ngx_rbtree_insert_timer_value_def
    by (intro exI [of _ tree] exI [of _ "place timer_less (rb_key ?t) ev xs"])
      (auto simp: timers_ok_def timer_window_def)
qed

lemma abs_window:
  assumes "a - base < 0x8000000000000000" "b - base < 0x8000000000000000"
  shows "ngx_abs (a - b) = \<bar>uint (a - base) - uint (b - base)\<bar>"
proof -
  have "- (a - b) = b - a" by simp
  then show ?thesis unfolding ngx_abs_def using sint_window [OF assms] sint_window [OF assms(2,1)] by simp
qed

lemma add_timer_ok:
  assumes ok: "timers_ok base st xs" and ev: "ev \<noteq> rb_sentinel (ngx_event_timer_rbtree st)"
    and key: "ngx_current_msec st + timer - base < 0x8000000000000000"
  shows "\<exists>st' xs'. ngx_event_add_timer ev timer st = Some st' \<and> timers_ok base st' xs'
    \<and> set xs' = insert ev (set xs) \<and> (\<forall>x. x \<noteq> ev \<longrightarrow> tkey st' x = tkey st x)
    \<and> (tkey st' ev = ngx_current_msec st + timer \<or> ev \<in> set xs \<and> tkey st' ev = tkey st ev
        \<and> \<bar>uint (ngx_current_msec st + timer - base) - uint (tkey st ev - base)\<bar> < 300)
    \<and> ngx_current_msec st' = ngx_current_msec st \<and> timedout st' = timedout st \<and> cancelable st' = cancelable st"
proof -
  let ?key = "ngx_current_msec st + timer"
  have set: "timer_set st ev \<longleftrightarrow> ev \<in> set xs" using ok by (simp add: timers_ok_def)
  consider (lazy) "ev \<in> set xs" "ngx_abs (?key - tkey st ev) < 300"
    | (again) "ev \<in> set xs" "\<not> ngx_abs (?key - tkey st ev) < 300" | (new) "ev \<notin> set xs" by blast
  then show ?thesis
  proof cases
    case lazy
    moreover have "tkey st ev - base < 0x8000000000000000" using ok lazy by (simp add: timers_ok_def)
    ultimately show ?thesis using ok set abs_window [OF key]
      by (intro exI [of _ st] exI [of _ xs]) (auto simp: ngx_event_add_timer_def)
  next
    case again
    from del_timer_ok [OF ok again(1)] obtain tree st1 where
      1: "ngx_event_del_timer ev st = Some st1" "timers_ok base st1 (remove1 ev xs)" "\<And>x. x \<noteq> ev \<Longrightarrow> tkey st1 x = tkey st x"
        "st1 = st\<lparr>ngx_event_timer_rbtree := tree, timer_set := (timer_set st)(ev := False)\<rparr>"
        "rb_sentinel tree = rb_sentinel (ngx_event_timer_rbtree st)"
      by blast
    have d: "distinct xs" using ok rbtree_distinct by (auto simp: timers_ok_def)
    then have "ev \<notin> set (remove1 ev xs)" by auto
    from insert_timer_ok [OF 1(2) this _ key] 1(4,5) ev obtain tree2 st2 xs2 where
      2: "ngx_rbtree_insert ngx_rbtree_insert_timer_value ev
          ((ngx_event_timer_rbtree st1)\<lparr>rb_key := (rb_key (ngx_event_timer_rbtree st1))(ev := ?key)\<rparr>) = Some tree2"
        "st2 = st1\<lparr>ngx_event_timer_rbtree := tree2, timer_set := (timer_set st1)(ev := True)\<rparr>"
        "timers_ok base st2 xs2" "set xs2 = insert ev (set (remove1 ev xs))" "tkey st2 = (tkey st1)(ev := ?key)"
      by auto
    have "ngx_event_add_timer ev timer st = Some st2"
      using again set 1(1) 2(1,2) by (simp add: ngx_event_add_timer_def Let_def)
    moreover have "set xs2 = insert ev (set xs)" using 2(4) d by auto
    moreover have "tkey st2 ev = ?key" "\<forall>x. x \<noteq> ev \<longrightarrow> tkey st2 x = tkey st x"
      unfolding 2(5) using 1(3) by simp_all
    moreover have "ngx_current_msec st2 = ngx_current_msec st" "timedout st2 = timedout st" "cancelable st2 = cancelable st"
      unfolding 2(2) 1(4) by simp_all
    ultimately show ?thesis using 2(3) by blast
  next
    case new
    from insert_timer_ok [OF ok new ev key] obtain tree2 st2 xs2 where
      2: "ngx_rbtree_insert ngx_rbtree_insert_timer_value ev
          ((ngx_event_timer_rbtree st)\<lparr>rb_key := (rb_key (ngx_event_timer_rbtree st))(ev := ?key)\<rparr>) = Some tree2"
        "st2 = st\<lparr>ngx_event_timer_rbtree := tree2, timer_set := (timer_set st)(ev := True)\<rparr>"
        "timers_ok base st2 xs2" "set xs2 = insert ev (set xs)" "tkey st2 = (tkey st)(ev := ?key)"
      by blast
    have "ngx_event_add_timer ev timer st = Some st2"
      using new set 2(1,2) by (simp add: ngx_event_add_timer_def Let_def)
    moreover have "tkey st2 ev = ?key" "\<forall>x. x \<noteq> ev \<longrightarrow> tkey st2 x = tkey st x"
      unfolding 2(5) by simp_all
    moreover have "ngx_current_msec st2 = ngx_current_msec st" "timedout st2 = timedout st" "cancelable st2 = cancelable st"
      unfolding 2(2) by simp_all
    ultimately show ?thesis using 2(3,4) by blast
  qed
qed

section \<open>Finding and expiring timers\<close>

text \<open>The time left of a timer, seen from \<open>base\<close>.\<close>

definition remaining :: "64 word \<Rightarrow> event_timers \<Rightarrow> nat \<Rightarrow> 64 word" where
  "remaining base st x = (if ngx_current_msec st - base < tkey st x - base then tkey st x - ngx_current_msec st else 0)"

lemma find_timer_head:
  assumes ok: "timers_ok base st (x # xs)" and now: "ngx_current_msec st - base < 0x8000000000000000"
  shows "ngx_event_find_timer st = Some (remaining base st x)"
proof -
  let ?t = "ngx_event_timer_rbtree st"
  from ok have t: "rbtree ?t (x # xs)" and k: "tkey st x - base < 0x8000000000000000" by (auto simp: timers_ok_def)
  from rbtree_min [OF t] obtain r where r: "rb_root ?t = Some r" "r \<noteq> rb_sentinel ?t" "ngx_rbtree_min ?t r = Some x" by blast
  have "word_of_int (uint (tkey st x - base) - uint (ngx_current_msec st - base)) = tkey st x - ngx_current_msec st"
    by simp
  then show ?thesis
    using r sint_window [OF k now] unfolding remaining_def word_less_def
    by (simp add: ngx_event_find_timer_def Let_def)
qed

text \<open>The minimum over all timers.\<close>

lemma find_timer_minimum:
  assumes ok: "timers_ok base st xs" and now: "ngx_current_msec st - base < 0x8000000000000000" and ne: "xs \<noteq> []"
  shows "ngx_event_find_timer st = Some (Min (remaining base st ` set xs))"
proof -
  from ne obtain x ys where xs: "xs = x # ys" by (cases xs) auto
  have "remaining base st x \<le> remaining base st y" if "y \<in> set xs" for y
  proof -
    have "tkey st x - base \<le> tkey st y - base" using that ok xs by (auto simp: timers_ok_def)
    moreover have "tkey st x - ngx_current_msec st \<le> tkey st y - ngx_current_msec st"
      if "ngx_current_msec st - base < tkey st x - base"
      using word_le_minus_mono_left [OF calculation, of "ngx_current_msec st - base"] that by simp
    ultimately show ?thesis unfolding remaining_def by (auto dest: order_less_le_trans)
  qed
  then have "Min (remaining base st ` set xs) = remaining base st x"
    by (intro Min_eqI) (auto simp: xs)
  with find_timer_head [of base st x ys] ok now xs show ?thesis by simp
qed

text \<open>What the loop that expires timers needs of the handlers: a call returns, keeps the invariant and the
  clock, and makes no further timer due. It may set, renew and delete timers.\<close>

locale timer_handler =
  fixes base now :: "64 word" and handler :: "nat \<Rightarrow> event_timers \<Rightarrow> event_timers option"
  assumes handler: "timers_ok base st xs \<Longrightarrow> ngx_current_msec st = now \<Longrightarrow> ev \<notin> set xs \<Longrightarrow>
      ev \<noteq> rb_sentinel (ngx_event_timer_rbtree st) \<Longrightarrow>
      \<exists>st' xs'. handler ev st = Some st' \<and> timers_ok base st' xs' \<and> ngx_current_msec st' = now
        \<and> {x \<in> set xs'. due st' x} \<subseteq> {x \<in> set xs. due st x}"
    and now: "now - base < 0x8000000000000000"
begin

lemma expire:
  assumes "timers_ok base st xs" "ngx_current_msec st = now"
  shows "\<exists>st' xs'. ngx_event_expire_timers handler st = Some st' \<and> timers_ok base st' xs'
    \<and> ngx_current_msec st' = now \<and> (\<forall>x\<in>set xs'. \<not> due st' x)"
  using assms
proof (induction "card {x \<in> set xs. due st x}" arbitrary: st xs rule: less_induct)
  case less
  let ?t = "ngx_event_timer_rbtree st"
  note ok = less.prems(1) and n = less.prems(2)
  have t: "rbtree ?t xs" using ok by (simp add: timers_ok_def)
  show ?case
  proof (cases xs)
    case Nil
    then have "ngx_event_expire_timers handler st = Some st"
      using rbtree_root [OF t] ngx_event_expire_timers.simps [of handler st] by (simp add: Let_def)
    with Nil less.prems show ?thesis by auto
  next
    case (Cons x ys)
    from rbtree_min t Cons obtain r where
      r: "rb_root ?t = Some r" "r \<noteq> rb_sentinel ?t" "ngx_rbtree_min ?t r = Some x" by blast
    show ?thesis
    proof (cases "due st x")
      case False
      then have "ngx_event_expire_timers handler st = Some st"
        using r ngx_event_expire_timers.simps [of handler st] by (simp add: Let_def due_def)
      moreover have "\<not> due st y" if "y \<in> set xs" for y
      proof -
        have "tkey st x - base \<le> tkey st y - base" "tkey st x - base < 0x8000000000000000" "tkey st y - base < 0x8000000000000000"
          using that ok Cons by (auto simp: timers_ok_def)
        with False now n due_window [of st _ base] show ?thesis by fastforce
      qed
      ultimately show ?thesis using less.prems by blast
    next
      case True
      have x: "x \<in> set xs" using Cons by simp
      from del_timer_ok [OF ok x] obtain tree st1 where
        1: "ngx_rbtree_delete x ?t = Some tree" "timers_ok base st1 (remove1 x xs)" "\<And>y. y \<noteq> x \<Longrightarrow> tkey st1 y = tkey st y"
          "st1 = st\<lparr>ngx_event_timer_rbtree := tree, timer_set := (timer_set st)(x := False)\<rparr>"
          "rb_sentinel tree = rb_sentinel ?t" by blast
      define st2 where "st2 = st1\<lparr>timedout := (timedout st1)(x := True)\<rparr>"
      have d: "distinct xs" using t rbtree_distinct by blast
      have ok2: "timers_ok base st2 (remove1 x xs)" using 1(2) by (simp add: st2_def timers_ok_def)
      moreover have "ngx_current_msec st2 = now" using n by (simp add: st2_def 1(4))
      moreover have "x \<notin> set (remove1 x xs)" using d by simp
      moreover have "x \<noteq> rb_sentinel (ngx_event_timer_rbtree st2)"
        using rbtree_not_sentinel [OF t x] 1(5) by (simp add: st2_def 1(4))
      ultimately obtain st3 xs3 where 3: "handler x st2 = Some st3" "timers_ok base st3 xs3" "ngx_current_msec st3 = now"
          "{y \<in> set xs3. due st3 y} \<subseteq> {y \<in> set (remove1 x xs). due st2 y}"
        using handler by blast
      have "due st2 y = due st y" if "y \<in> set (remove1 x xs)" for y
        using that d 1(3) [of y] by (auto simp: due_def st2_def 1(4))
      then have "{y \<in> set xs3. due st3 y} \<subseteq> {y \<in> set xs. due st y} - {x}" using 3(4) d by auto
      then have "card {y \<in> set xs3. due st3 y} < card {y \<in> set xs. due st y}"
        using True x by (intro psubset_card_mono) auto
      from less.hyps [OF this 3(2,3)] obtain st' xs' where
        4: "ngx_event_expire_timers handler st3 = Some st'" "timers_ok base st' xs'" "ngx_current_msec st' = now"
          "\<forall>x\<in>set xs'. \<not> due st' x" by blast
      have "ngx_event_expire_timers handler st = ngx_event_expire_timers handler st3"
        using r True 1(1,4) 3(1) ngx_event_expire_timers.simps [of handler st]
        by (simp add: Let_def due_def st2_def)
      with 4 show ?thesis by auto
    qed
  qed
qed

end

text \<open>A handler that starts its timer again, as those of keep-alive connections do.\<close>

interpretation keepalive: timer_handler "now - 0x4000000000000000" now "\<lambda>ev. ngx_event_add_timer ev 60000" for now
proof
  fix st xs ev
  let ?base = "now - 0x4000000000000000"
  assume ok: "timers_ok ?base st xs" and n: "ngx_current_msec st = now" and ev: "ev \<notin> set xs"
    "ev \<noteq> rb_sentinel (ngx_event_timer_rbtree st)"
  have "ngx_current_msec st + 60000 - ?base = 0x4000000000000000 + 60000" using n by simp
  also have "\<dots> < 0x8000000000000000" by simp
  finally have k: "ngx_current_msec st + 60000 - ?base < 0x8000000000000000" .
  from add_timer_ok [OF ok ev(2) k] ev(1) obtain st' xs' where
    1: "ngx_event_add_timer ev 60000 st = Some st'" "timers_ok ?base st' xs'" "set xs' = insert ev (set xs)"
      "\<And>x. x \<noteq> ev \<Longrightarrow> tkey st' x = tkey st x" "tkey st' ev = now + 60000" "ngx_current_msec st' = now"
    using n by auto
  have "\<not> due st' ev" unfolding due_def 1(5,6) by simp
  moreover have "due st' x \<longleftrightarrow> due st x" if "x \<noteq> ev" for x using that 1(4,6) n by (simp add: due_def)
  ultimately have "due st x \<and> x \<in> set xs" if "x \<in> set xs'" "due st' x" for x
    using that 1(3) by (metis insertE)
  then show "\<exists>st' xs'. ngx_event_add_timer ev 60000 st = Some st' \<and> timers_ok ?base st' xs' \<and> ngx_current_msec st' = now
      \<and> {x \<in> set xs'. due st' x} \<subseteq> {x \<in> set xs. due st x}"
    using 1(1,2,6) by blast
qed simp

text \<open>The walk over the timers when a worker shuts down.\<close>

lemma only_cancelable_from:
  assumes "rbtree (ngx_event_timer_rbtree st) (ys @ zs)"
  shows "only_cancelable st (case zs of [] \<Rightarrow> None | b # bs \<Rightarrow> Some b)
    = Some (if \<forall>x\<in>set zs. cancelable st x then NGX_OK else NGX_AGAIN)"
  using assms
proof (induction zs arbitrary: ys)
  case Nil
  then show ?case by (simp add: only_cancelable.simps [of st None])
next
  case (Cons z zs)
  from rbtree_next_node [OF Cons.prems] Cons.IH [of "ys @ [z]"] Cons.prems
  show ?case by (simp add: only_cancelable.simps [of st "Some z"])
qed

section \<open>Properties\<close>

text \<open>
  C12: As long as every timer lies within half of the 64-bit range above \<open>base\<close>, adding a timer returns and
  keeps the invariant of the timers: the tree is a red-black tree sorted by expiry whose nodes are exactly
  the events with \<^verbatim>\<open>timer_set\<close>. Afterwards the event is among them, and its key is the current time plus
  the timeout, or an earlier key less than \<^verbatim>\<open>NGX_TIMER_LAZY_DELAY\<close> milliseconds away; no other timer changes.
\<close>

theorem add_timer_keeps:
  assumes "timers_ok base st xs" "ev \<noteq> rb_sentinel (ngx_event_timer_rbtree st)"
    and "ngx_current_msec st + timer - base < 0x8000000000000000"
  shows "\<exists>st' xs'. ngx_event_add_timer ev timer st = Some st' \<and> timers_ok base st' xs'
    \<and> set xs' = insert ev (set xs) \<and> (\<forall>x. x \<noteq> ev \<longrightarrow> tkey st' x = tkey st x)
    \<and> (tkey st' ev = ngx_current_msec st + timer \<or> ev \<in> set xs \<and> tkey st' ev = tkey st ev
        \<and> \<bar>uint (ngx_current_msec st + timer - base) - uint (tkey st ev - base)\<bar> < 300)"
  using add_timer_ok [OF assms] by blast

definition timers_sample :: event_timers where
  "timers_sample = \<lparr>ngx_event_timer_rbtree = rb_sample, ngx_current_msec = 20, timer_set = (\<lambda>x. x \<in> {1, 2, 3}),
     timedout = (\<lambda>_. False), cancelable = (\<lambda>_. False)\<rparr>"

lemma timers_sample_ok: "timers_ok (20 - 0x4000000000000000) timers_sample [1, 2, 3]"
  unfolding timers_ok_def using rb_sample_tree by (simp add: timers_sample_def rb_sample_def)

theorem add_timer_keeps_witness:
  "\<exists>st' xs'. ngx_event_add_timer 4 1000 timers_sample = Some st' \<and> timers_ok (20 - 0x4000000000000000) st' xs'
    \<and> set xs' = {4, 1, 2, 3}"
proof -
  have "(4 :: nat) \<noteq> rb_sentinel (ngx_event_timer_rbtree timers_sample)" by (simp add: timers_sample_def rb_sample_def)
  moreover have "ngx_current_msec timers_sample + 1000 - (20 - 0x4000000000000000) < 0x8000000000000000"
    by (simp add: timers_sample_def)
  ultimately show ?thesis using add_timer_keeps [OF timers_sample_ok, of 4 1000] by auto
qed

text \<open>
  C13: \<^verbatim>\<open>ngx_event_find_timer\<close> returns the least time left over all timers, zero when one has expired, and
  \<^verbatim>\<open>NGX_TIMER_INFINITE\<close> when there is none.
\<close>

theorem find_timer_least:
  assumes "timers_ok base st xs" "ngx_current_msec st - base < 0x8000000000000000"
  shows "ngx_event_find_timer st = Some (if xs = [] then NGX_TIMER_INFINITE else Min (remaining base st ` set xs))"
proof (cases "xs = []")
  case True
  then show ?thesis using assms(1) rbtree_root [of "ngx_event_timer_rbtree st" xs]
    by (simp add: ngx_event_find_timer_def Let_def timers_ok_def)
qed (use find_timer_minimum [OF assms] in simp)

theorem find_timer_least_witness:
  "ngx_event_find_timer timers_sample = Some (Min (remaining (20 - 0x4000000000000000) timers_sample ` {1, 2, 3}))"
  using find_timer_least [OF timers_sample_ok] by (simp add: timers_sample_def)

text \<open>
  C11: \<^verbatim>\<open>ngx_event_expire_timers\<close> returns, and no timer that is left is due, whatever the handlers do with
  the timers, as long as each of their calls returns, keeps the invariant and makes no further timer due.
\<close>

theorem expire_timers_ends:
  assumes "timers_ok base st xs" "ngx_current_msec st - base < 0x8000000000000000"
    and "\<And>st' xs' ev. timers_ok base st' xs' \<Longrightarrow> ngx_current_msec st' = ngx_current_msec st \<Longrightarrow> ev \<notin> set xs' \<Longrightarrow>
      ev \<noteq> rb_sentinel (ngx_event_timer_rbtree st') \<Longrightarrow>
      \<exists>st'' xs''. handler ev st' = Some st'' \<and> timers_ok base st'' xs'' \<and> ngx_current_msec st'' = ngx_current_msec st
        \<and> {x \<in> set xs''. due st'' x} \<subseteq> {x \<in> set xs'. due st' x}"
  shows "\<exists>st' xs'. ngx_event_expire_timers handler st = Some st' \<and> timers_ok base st' xs'
    \<and> (\<forall>x\<in>set xs'. \<not> due st' x)"
proof -
  have "timer_handler base (ngx_current_msec st) handler"
    using assms(2,3) by (rule timer_handler.intro [rotated])
  from timer_handler.expire [OF this assms(1) refl] show ?thesis by blast
qed

theorem expire_timers_ends_witness:
  "\<exists>st' xs'. ngx_event_expire_timers (\<lambda>ev. ngx_event_add_timer ev 60000) timers_sample = Some st'
    \<and> timers_ok (20 - 0x4000000000000000) st' xs' \<and> (\<forall>x\<in>set xs'. \<not> due st' x)"
proof -
  have n: "ngx_current_msec timers_sample = 20" by (simp add: timers_sample_def)
  show ?thesis
    by (rule expire_timers_ends [OF timers_sample_ok], unfold n) (simp, rule keepalive.handler)
qed

text \<open>
  \<^verbatim>\<open>ngx_event_no_timers_left\<close> returns: \<^verbatim>\<open>NGX_OK\<close> if every timer in the tree is cancelable,
  \<^verbatim>\<open>NGX_AGAIN\<close> otherwise.
\<close>

theorem no_timers_left:
  assumes "timers_ok base st xs"
  shows "ngx_event_no_timers_left st = Some (if \<forall>x\<in>set xs. cancelable st x then NGX_OK else NGX_AGAIN)"
proof -
  have t: "rbtree (ngx_event_timer_rbtree st) xs" using assms by (simp add: timers_ok_def)
  show ?thesis
  proof (cases xs)
    case Nil
    then show ?thesis using rbtree_root [OF t] by (simp add: ngx_event_no_timers_left_def Let_def)
  next
    case (Cons x ys)
    then show ?thesis using rbtree_min [of "ngx_event_timer_rbtree st" x ys] t only_cancelable_from [of st "[]" xs]
      by (auto simp: ngx_event_no_timers_left_def Let_def)
  qed
qed

theorem no_timers_left_witness: "ngx_event_no_timers_left timers_sample = Some NGX_AGAIN"
proof -
  have "\<not> cancelable timers_sample 1" by (simp add: timers_sample_def)
  then show ?thesis using no_timers_left [OF timers_sample_ok] by auto
qed

end
