(* ===== verification/Ngx_Queue.thy ===== *)
theory Ngx_Queue
  imports Ngx_Prelude "HOL-Library.Monad_Syntax" "HOL-Library.Multiset"
begin

text \<open>
  The intrusive circular lists of \<^verbatim>\<open>src/reference/nginx-master/src/core/ngx_queue.h\<close> and
  \<^verbatim>\<open>ngx_queue.c\<close>, with the merge sort, at the level of the pointers.

  An element is an address, its two links are functions on addresses. The links of a queue are never
  \<^verbatim>\<open>NULL\<close>; \<^verbatim>\<open>ngx_queue_remove\<close> is that of a build without \<^verbatim>\<open>NGX_DEBUG\<close>, which leaves the links of the
  removed element alone.
\<close>

section \<open>The operations\<close>

record queues =
  q_prev :: "nat \<Rightarrow> nat"
  q_next :: "nat \<Rightarrow> nat"

definition set_prev :: "nat \<Rightarrow> nat \<Rightarrow> queues \<Rightarrow> queues" where
  "set_prev a p st = st\<lparr>q_prev := (q_prev st)(a := p)\<rparr>"

definition set_next :: "nat \<Rightarrow> nat \<Rightarrow> queues \<Rightarrow> queues" where
  "set_next a p st = st\<lparr>q_next := (q_next st)(a := p)\<rparr>"

lemma q_fields [simp]:
  "q_prev (set_prev a p st) = (q_prev st)(a := p)" "q_next (set_prev a p st) = q_next st"
  "q_next (set_next a p st) = (q_next st)(a := p)" "q_prev (set_next a p st) = q_prev st"
  by (simp_all add: set_prev_def set_next_def)

definition ngx_queue_init :: "nat \<Rightarrow> queues \<Rightarrow> queues" where
  "ngx_queue_init q st = set_next q q (set_prev q q st)"

definition ngx_queue_empty :: "nat \<Rightarrow> queues \<Rightarrow> bool" where
  "ngx_queue_empty h st \<longleftrightarrow> h = q_prev st h"

definition ngx_queue_insert_head :: "nat \<Rightarrow> nat \<Rightarrow> queues \<Rightarrow> queues" where
  "ngx_queue_insert_head h x st =
     (let st = set_next x (q_next st h) st;
          st = set_prev (q_next st x) x st;
          st = set_prev x h st
      in set_next h x st)"

definition ngx_queue_insert_tail :: "nat \<Rightarrow> nat \<Rightarrow> queues \<Rightarrow> queues" where
  "ngx_queue_insert_tail h x st =
     (let st = set_prev x (q_prev st h) st;
          st = set_next (q_prev st x) x st;
          st = set_next x h st
      in set_prev h x st)"

abbreviation ngx_queue_insert_before :: "nat \<Rightarrow> nat \<Rightarrow> queues \<Rightarrow> queues" where
  "ngx_queue_insert_before \<equiv> ngx_queue_insert_tail"

abbreviation ngx_queue_insert_after :: "nat \<Rightarrow> nat \<Rightarrow> queues \<Rightarrow> queues" where
  "ngx_queue_insert_after \<equiv> ngx_queue_insert_head"

abbreviation ngx_queue_head :: "nat \<Rightarrow> queues \<Rightarrow> nat" where "ngx_queue_head h st \<equiv> q_next st h"
abbreviation ngx_queue_last :: "nat \<Rightarrow> queues \<Rightarrow> nat" where "ngx_queue_last h st \<equiv> q_prev st h"
abbreviation ngx_queue_next :: "nat \<Rightarrow> queues \<Rightarrow> nat" where "ngx_queue_next q st \<equiv> q_next st q"

definition ngx_queue_remove :: "nat \<Rightarrow> queues \<Rightarrow> queues" where
  "ngx_queue_remove x st =
     (let st = set_prev (q_next st x) (q_prev st x) st
      in set_next (q_prev st x) (q_next st x) st)"

definition ngx_queue_split :: "nat \<Rightarrow> nat \<Rightarrow> nat \<Rightarrow> queues \<Rightarrow> queues" where
  "ngx_queue_split h q n st =
     (let st = set_prev n (q_prev st h) st;
          st = set_next (q_prev st n) n st;
          st = set_next n q st;
          st = set_prev h (q_prev st q) st;
          st = set_next (q_prev st h) h st
      in set_prev q n st)"

definition ngx_queue_add :: "nat \<Rightarrow> nat \<Rightarrow> queues \<Rightarrow> queues" where
  "ngx_queue_add h n st =
     (let st = set_next (q_prev st h) (q_next st n) st;
          st = set_prev (q_next st n) (q_prev st h) st;
          st = set_prev h (q_prev st n) st
      in set_next (q_prev st h) h st)"

text \<open>The loop of \<^verbatim>\<open>ngx_queue_middle\<close>\<close>

partial_function (option) queue_middle_loop :: "nat \<Rightarrow> nat \<Rightarrow> nat \<Rightarrow> queues \<Rightarrow> nat option" where
  "queue_middle_loop queue middle next st =
     (let middle = ngx_queue_next middle st;
          next = ngx_queue_next next st
      in if next = ngx_queue_last queue st then Some middle
         else
           (let next = ngx_queue_next next st
            in if next = ngx_queue_last queue st then Some middle
               else queue_middle_loop queue middle next st))"

definition ngx_queue_middle :: "nat \<Rightarrow> queues \<Rightarrow> nat option" where
  "ngx_queue_middle queue st =
     (let middle = ngx_queue_head queue st
      in if middle = ngx_queue_last queue st then Some middle
         else queue_middle_loop queue middle (ngx_queue_head queue st) st)"

partial_function (option) queue_merge_loop ::
  "(nat \<Rightarrow> nat \<Rightarrow> int) \<Rightarrow> nat \<Rightarrow> nat \<Rightarrow> nat \<Rightarrow> nat \<Rightarrow> queues \<Rightarrow> queues option" where
  "queue_merge_loop cmp queue tail q1 q2 st =
     (if q1 = queue then Some (ngx_queue_add queue tail st)
      else if q2 = tail then Some st
      else if cmp q1 q2 \<le> 0 then queue_merge_loop cmp queue tail (ngx_queue_next q1 st) q2 st
      else
        (let st = ngx_queue_remove q2 st;
             st = ngx_queue_insert_before q1 q2 st
         in queue_merge_loop cmp queue tail q1 (ngx_queue_head tail st) st))"

definition ngx_queue_merge :: "(nat \<Rightarrow> nat \<Rightarrow> int) \<Rightarrow> nat \<Rightarrow> nat \<Rightarrow> queues \<Rightarrow> queues option" where
  "ngx_queue_merge cmp queue tail st =
     queue_merge_loop cmp queue tail (ngx_queue_head queue st) (ngx_queue_head tail st) st"

text \<open>The local variable \<^verbatim>\<open>tail\<close> of each call lives at an address \<open>sp\<close> of its own; the calls it makes have
  theirs above.\<close>

partial_function (option) ngx_queue_sort :: "(nat \<Rightarrow> nat \<Rightarrow> int) \<Rightarrow> nat \<Rightarrow> nat \<Rightarrow> queues \<Rightarrow> queues option" where
  "ngx_queue_sort cmp sp queue st =
     (if ngx_queue_head queue st = ngx_queue_last queue st then Some st
      else do {
        q \<leftarrow> ngx_queue_middle queue st;
        let st = ngx_queue_split queue q sp st;
        st \<leftarrow> ngx_queue_sort cmp (Suc sp) queue st;
        st \<leftarrow> ngx_queue_sort cmp (Suc sp) sp st;
        ngx_queue_merge cmp queue sp st
      })"

section \<open>Queues in the store\<close>

text \<open>Neighbours in the list are linked in both directions.\<close>

fun linked :: "queues \<Rightarrow> nat list \<Rightarrow> bool" where
  "linked st (a # b # xs) \<longleftrightarrow> q_next st a = b \<and> q_prev st b = a \<and> linked st (b # xs)"
| "linked st xs \<longleftrightarrow> True"

text \<open>The queue with head \<open>h\<close> and elements \<open>xs\<close>.\<close>

definition queue :: "queues \<Rightarrow> nat \<Rightarrow> nat list \<Rightarrow> bool" where
  "queue st h xs \<longleftrightarrow> distinct (h # xs) \<and> linked st (h # xs @ [h])"

lemma linked_append:
  "linked st (xs @ a # ys) \<longleftrightarrow> linked st (xs @ [a]) \<and> linked st (a # ys)"
proof (induction xs)
  case (Cons x xs)
  then show ?case by (cases xs) auto
qed simp

lemma linked_cong:
  assumes "\<And>a. a \<in> set (butlast xs) \<Longrightarrow> q_next st' a = q_next st a"
    and "\<And>a. a \<in> set (tl xs) \<Longrightarrow> q_prev st' a = q_prev st a"
  shows "linked st' xs = linked st xs"
  using assms by (induction st xs rule: linked.induct) auto

lemma queue_cong:
  assumes "\<And>a. a \<in> set (h # xs) \<Longrightarrow> q_next st' a = q_next st a \<and> q_prev st' a = q_prev st a"
  shows "queue st' h xs = queue st h xs"
  unfolding queue_def using assms by (subst linked_cong [of _ st' st]) (auto simp: butlast_append)

lemma linked_set:
  "a \<notin> set (butlast xs) \<Longrightarrow> linked (set_next a v st) xs = linked st xs"
  "a \<notin> set (tl xs) \<Longrightarrow> linked (set_prev a v st) xs = linked st xs"
  by (rule linked_cong; auto)+

text \<open>Two chains joined by one edge.\<close>

lemma linked_join:
  "xs \<noteq> [] \<Longrightarrow> ys \<noteq> [] \<Longrightarrow> linked st (xs @ ys) \<longleftrightarrow>
     linked st xs \<and> q_next st (last xs) = hd ys \<and> q_prev st (hd ys) = last xs \<and> linked st ys"
proof (induction xs)
  case (Cons x xs)
  then show ?case by (cases xs; cases ys) auto
qed simp

lemma last_not_butlast: "distinct xs \<Longrightarrow> xs \<noteq> [] \<Longrightarrow> last xs \<notin> set (butlast xs)"
  by (induction xs) auto

lemma last_Cons_in: "last (h # ys) \<in> insert h (set ys)"
  by (induction ys arbitrary: h) auto

lemma butlast_Cons_sub: "a \<in> set (butlast (h # ys)) \<Longrightarrow> a \<in> insert h (set ys)"
  by (metis in_set_butlastD list.simps(15))

lemma hd_snoc_in: "hd (zs @ [h]) \<in> insert h (set zs)"
  by (cases zs) auto

text \<open>A queue cut at a place.\<close>

lemma queue_cut:
  "queue st h (ys @ zs) \<longleftrightarrow> distinct (h # ys @ zs) \<and> linked st (h # ys)
     \<and> q_next st (last (h # ys)) = hd (zs @ [h]) \<and> q_prev st (hd (zs @ [h])) = last (h # ys) \<and> linked st (zs @ [h])"
  unfolding queue_def using linked_join [of "h # ys" "zs @ [h]" st] by auto

lemma queue_head: "queue st h xs \<Longrightarrow> ngx_queue_head h st = hd (xs @ [h])"
  using queue_cut [of st h "[]" xs] by simp

lemma queue_last: "queue st h xs \<Longrightarrow> ngx_queue_last h st = last (h # xs)"
  using queue_cut [of st h xs "[]"] by simp

lemma queue_next: "queue st h (ys @ x # zs) \<Longrightarrow> ngx_queue_next x st = hd (zs @ [h])"
  using queue_cut [of st h "ys @ [x]" zs] by simp

lemma queue_prev: "queue st h (ys @ x # zs) \<Longrightarrow> q_prev st x = last (h # ys)"
  using queue_cut [of st h ys "x # zs"] by simp

lemma queue_distinct: "queue st h xs \<Longrightarrow> distinct (h # xs)"
  by (simp add: queue_def)

lemma init_queue: "queue (ngx_queue_init h st) h []"
  by (simp add: queue_def ngx_queue_init_def)

lemma empty_queue: "queue st h xs \<Longrightarrow> ngx_queue_empty h st \<longleftrightarrow> xs = []"
  using queue_last [of st h xs] queue_distinct [of st h xs] by (cases xs rule: rev_cases) (auto simp: ngx_queue_empty_def)

lemma linked_frame:
  assumes "linked st xs" "\<forall>a\<in>set (butlast xs). q_next st' a = q_next st a" "\<forall>a\<in>set (tl xs). q_prev st' a = q_prev st a"
  shows "linked st' xs"
  using linked_cong [of xs st' st] assms by simp

text \<open>The last element before a place, as a name with its facts.\<close>

lemma queue_at:
  assumes "queue st h (ys @ zs)"
  obtains p where "p = last (h # ys)" "p \<in> insert h (set ys)" "p \<notin> set zs" "p \<notin> set (butlast (h # ys))"
    "set (butlast (h # ys)) \<subseteq> insert h (set ys)" "q_next st p = hd (zs @ [h])" "q_prev st (hd (zs @ [h])) = p"
    "linked st (h # ys)" "linked st (zs @ [h])"
proof
  let ?p = "last (h # ys)"
  have d: "distinct (h # ys @ zs)" using queue_distinct [OF assms] .
  show 1: "?p \<in> insert h (set ys)" by (rule last_Cons_in)
  have "a \<notin> set zs" if "a \<in> insert h (set ys)" for a using d that by auto
  from this [OF 1] show "?p \<notin> set zs" .
  have "distinct (h # ys)" using d by simp
  then show "?p \<notin> set (butlast (h # ys))" by (rule last_not_butlast) simp
  show "set (butlast (h # ys)) \<subseteq> insert h (set ys)" by (rule subsetI) (rule butlast_Cons_sub)
  show "q_next st ?p = hd (zs @ [h])" "q_prev st (hd (zs @ [h])) = ?p" "linked st (h # ys)" "linked st (zs @ [h])"
    using assms unfolding queue_cut [of st h ys zs] by blast+
qed (rule refl)

lemma queue_joinI:
  assumes "p = last (h # ys)" "b = hd (zs @ [h])" "distinct (h # ys @ zs)" "linked st (h # ys)" "q_next st p = b"
    "q_prev st b = p" "linked st (zs @ [h])"
  shows "queue st h (ys @ zs)"
  unfolding queue_cut [of st h ys zs] assms(1,2) [symmetric] using assms(3-7) by blast

lemma queue_insert_before:
  assumes q: "queue st h (ys @ q # zs)" and x: "x \<notin> set (h # ys @ q # zs)"
  shows "queue (ngx_queue_insert_before q x st) h (ys @ x # q # zs)"
proof -
  from q obtain p where p: "p = last (h # ys)" "p \<in> insert h (set ys)" "p \<notin> set (q # zs)" "p \<notin> set (butlast (h # ys))"
      "set (butlast (h # ys)) \<subseteq> insert h (set ys)" "q_next st p = hd ((q # zs) @ [h])" "q_prev st (hd ((q # zs) @ [h])) = p"
      "linked st (h # ys)" "linked st ((q # zs) @ [h])"
    by (rule queue_at)
  have d: "distinct (h # ys @ q # zs)" using queue_distinct [OF q] .
  let ?s = "set_prev q x (set_next x q (set_next p x (set_prev x p st)))"
  have "ngx_queue_insert_before q x st = ?s" using p(7) x by (simp add: ngx_queue_insert_tail_def Let_def)
  moreover have "linked ?s (h # ys)"
    by (rule linked_frame [OF p(8)]) (use d x p(2-5) in \<open>auto simp del: butlast.simps\<close>)
  moreover have "linked ?s (q # zs @ [h])"
    by (rule linked_frame [of st]) (use d x p(2-5,9) in \<open>auto simp: butlast_append\<close>)
  moreover have "queue ?s h (ys @ x # q # zs)"
    by (rule queue_joinI [OF p(1) refl]) (use calculation d x p(2,3) in auto)
  ultimately show ?thesis by simp
qed

lemma queue_insert_tail:
  assumes q: "queue st h xs" and x: "x \<notin> set (h # xs)"
  shows "queue (ngx_queue_insert_tail h x st) h (xs @ [x])"
proof -
  have "queue st h (xs @ [])" using q by simp
  then obtain p where p: "p = last (h # xs)" "p \<in> insert h (set xs)" "p \<notin> set []" "p \<notin> set (butlast (h # xs))"
      "set (butlast (h # xs)) \<subseteq> insert h (set xs)" "q_next st p = hd ([] @ [h])" "q_prev st (hd ([] @ [h])) = p"
      "linked st (h # xs)" "linked st ([] @ [h])"
    by (rule queue_at)
  have d: "distinct (h # xs)" using queue_distinct [OF q] .
  let ?s = "set_prev h x (set_next x h (set_next p x (set_prev x p st)))"
  have "ngx_queue_insert_tail h x st = ?s" using p(7) x by (simp add: ngx_queue_insert_tail_def Let_def)
  moreover have "linked ?s (h # xs)"
    by (rule linked_frame [OF p(8)]) (use d x p(2-5) in \<open>auto simp del: butlast.simps\<close>)
  moreover have "queue ?s h (xs @ [x])"
    by (rule queue_joinI [OF p(1) refl]) (use calculation d x p(2) in auto)
  ultimately show ?thesis by simp
qed

lemma queue_insert_head:
  assumes q: "queue st h xs" and x: "x \<notin> set (h # xs)"
  shows "queue (ngx_queue_insert_head h x st) h (x # xs)"
proof -
  let ?b = "hd (xs @ [h])"
  have d: "distinct (h # xs)" using queue_distinct [OF q] .
  have b: "?b \<in> insert h (set xs)" "q_next st h = ?b" "linked st (xs @ [h])"
    using hd_snoc_in [of xs h] queue_head [OF q] queue_cut [of st h "[]" xs] q by simp_all
  let ?s = "set_next h x (set_prev x h (set_prev ?b x (set_next x ?b st)))"
  have "ngx_queue_insert_head h x st = ?s" using b(2) x by (simp add: ngx_queue_insert_head_def Let_def)
  moreover have "linked ?s (xs @ [h])"
    by (rule linked_frame [OF b(3)]) (use d x in \<open>cases xs; auto simp: butlast_append\<close>)+
  moreover have "queue ?s h ([x] @ xs)"
    by (rule queue_joinI [of x h "[x]" ?b]) (use calculation d x b(1) in auto)
  ultimately show ?thesis by simp
qed

text \<open>To insert after an element is to insert before the next one.\<close>

lemma insert_after_before:
  assumes "q_prev st (q_next st q) = q" "x \<noteq> q" "x \<noteq> q_next st q"
  shows "ngx_queue_insert_after q x st = ngx_queue_insert_before (q_next st q) x st"
  using assms
  by (simp add: ngx_queue_insert_head_def ngx_queue_insert_tail_def Let_def set_prev_def set_next_def fun_upd_twist)

lemma queue_insert_after:
  assumes q: "queue st h (ys @ q # zs)" and x: "x \<notin> set (h # ys @ q # zs)"
  shows "queue (ngx_queue_insert_after q x st) h (ys @ q # x # zs)"
proof -
  have "queue st h ((ys @ [q]) @ zs)" using q by simp
  then obtain p where p: "p = last (h # ys @ [q])" "q_next st p = hd (zs @ [h])" "q_prev st (hd (zs @ [h])) = p"
    by (rule queue_at)
  have "ngx_queue_insert_after q x st = ngx_queue_insert_before (hd (zs @ [h])) x st"
    using insert_after_before [of st q x] p x hd_snoc_in [of zs h] by auto
  with q x queue_insert_tail [of st h "ys @ [q]" x] queue_insert_before [of st h "ys @ [q]" "hd zs" "tl zs" x]
  show ?thesis by (cases zs) simp_all
qed

lemma queue_remove:
  assumes q: "queue st h (ys @ x # zs)"
  shows "queue (ngx_queue_remove x st) h (ys @ zs)"
proof -
  from q obtain p where p: "p = last (h # ys)" "p \<in> insert h (set ys)" "p \<notin> set (x # zs)" "p \<notin> set (butlast (h # ys))"
      "set (butlast (h # ys)) \<subseteq> insert h (set ys)" "q_next st p = hd ((x # zs) @ [h])" "q_prev st (hd ((x # zs) @ [h])) = p"
      "linked st (h # ys)" "linked st ((x # zs) @ [h])"
    by (rule queue_at)
  have d: "distinct (h # ys @ x # zs)" using queue_distinct [OF q] .
  let ?b = "hd (zs @ [h])"
  have b: "?b \<in> insert h (set zs)" "q_next st x = ?b" "linked st (zs @ [h])"
    using hd_snoc_in [of zs h] queue_next [OF q] p(9) by (simp, simp, cases zs) simp_all
  let ?s = "set_next p ?b (set_prev ?b p st)"
  have "x \<noteq> ?b" using b(1) d by auto
  then have "ngx_queue_remove x st = ?s" using p(7) b(2) by (simp add: ngx_queue_remove_def Let_def)
  moreover have "linked ?s (h # ys)"
    by (rule linked_frame [OF p(8)]) (use d b(1) p(2-5) in \<open>auto simp del: butlast.simps\<close>)
  moreover have "linked ?s (zs @ [h])"
    by (rule linked_frame [OF b(3)]) (use d p(3) in \<open>cases zs; auto simp: butlast_append\<close>)+
  moreover have "queue ?s h (ys @ zs)"
    by (rule queue_joinI [OF p(1) refl]) (use calculation d in auto)
  ultimately show ?thesis by simp
qed

section \<open>Splitting and joining\<close>

definition same_links :: "nat set \<Rightarrow> queues \<Rightarrow> queues \<Rightarrow> bool" where
  "same_links A st st' \<longleftrightarrow> (\<forall>a. a \<notin> A \<longrightarrow> q_next st' a = q_next st a \<and> q_prev st' a = q_prev st a)"

lemma same_links_queue: "same_links A st st' \<Longrightarrow> set (h # xs) \<inter> A = {} \<Longrightarrow> queue st' h xs = queue st h xs"
  by (rule queue_cong) (auto simp: same_links_def)

lemma same_links_mono: "same_links A st st' \<Longrightarrow> A \<subseteq> B \<Longrightarrow> same_links B st st'"
  unfolding same_links_def by blast

lemma same_links_trans: "same_links A st st' \<Longrightarrow> same_links B st' st'' \<Longrightarrow> A \<union> B \<subseteq> C \<Longrightarrow> same_links C st st''"
  unfolding same_links_def by (metis Un_iff subsetD)

lemma queue_split:
  assumes q: "queue st h (ys @ q # zs)" and n: "n \<notin> set (h # ys @ q # zs)"
  shows "queue (ngx_queue_split h q n st) h ys" "queue (ngx_queue_split h q n st) n (q # zs)"
    "same_links (set (n # h # ys @ q # zs)) st (ngx_queue_split h q n st)"
proof -
  from q obtain p where p: "p = last (h # ys)" "p \<in> insert h (set ys)" "p \<notin> set (q # zs)" "p \<notin> set (butlast (h # ys))"
      "set (butlast (h # ys)) \<subseteq> insert h (set ys)" "q_next st p = hd ((q # zs) @ [h])" "q_prev st (hd ((q # zs) @ [h])) = p"
      "linked st (h # ys)" "linked st ((q # zs) @ [h])"
    by (rule queue_at)
  have d: "distinct (h # ys @ q # zs)" using queue_distinct [OF q] .
  obtain l where l: "l = last (q # zs)" "l \<in> insert q (set zs)" "l \<notin> set (butlast (q # zs))"
      "set (butlast (q # zs)) \<subseteq> insert q (set zs)" "q_prev st h = l" "linked st (q # zs)"
  proof
    show "last (q # zs) \<in> insert q (set zs)" by (rule last_Cons_in)
    show "last (q # zs) \<notin> set (butlast (q # zs))" using d by (intro last_not_butlast) simp_all
    show "set (butlast (q # zs)) \<subseteq> insert q (set zs)" by (rule subsetI) (rule butlast_Cons_sub)
    show "q_prev st h = last (q # zs)" "linked st (q # zs)"
      using p(9) linked_join [of "q # zs" "[h]" st] by simp_all
  qed (rule refl)
  let ?s = "set_prev q n (set_next p h (set_prev h p (set_next n q (set_next l n (set_prev n l st)))))"
  have ne: "q \<noteq> h" "q \<noteq> n" "h \<noteq> n" "l \<noteq> n" "p \<noteq> n" "l \<noteq> h" "l \<noteq> p" using d n p(2) l(2) by auto
  have eq: "ngx_queue_split h q n st = ?s"
    using p(7) l(5) ne by (simp add: ngx_queue_split_def Let_def)
  have "linked ?s (h # ys)"
    by (rule linked_frame [OF p(8)]) (use d n l(2) p(2-5) in \<open>auto simp del: butlast.simps\<close>)
  then have "queue ?s h (ys @ [])"
    by (intro queue_joinI [OF p(1) refl]) (use d p(2,3) ne in auto)
  then show "queue (ngx_queue_split h q n st) h ys" unfolding eq by simp
  have "linked ?s (q # zs)"
    by (rule linked_frame [OF l(6)]) (use d n p(2,3) l(2-4) in \<open>auto simp del: butlast.simps\<close>)
  then have "linked ?s ((q # zs) @ [n])"
    using linked_join [of "q # zs" "[n]" ?s] ne by (simp add: l(1) [symmetric] del: last.simps)
  moreover have "n \<notin> set (q # zs)" "distinct (q # zs)" using d n by simp_all
  ultimately have "queue ?s n ([] @ (q # zs))"
    by (intro queue_joinI [of n n "[]" q]) (use ne p(2) d n in auto)
  then show "queue (ngx_queue_split h q n st) n (q # zs)" unfolding eq by simp
  show "same_links (set (n # h # ys @ q # zs)) st (ngx_queue_split h q n st)"
    unfolding eq same_links_def using p(2) l(2) by auto
qed

lemma queue_add:
  assumes h: "queue st h xs" and n: "queue st n ys" and dis: "set (h # xs) \<inter> set (n # ys) = {}"
  shows "queue (ngx_queue_add h n st) h (xs @ ys)" "same_links (set (h # xs @ n # ys)) st (ngx_queue_add h n st)"
proof -
  have "queue st h (xs @ [])" using h by simp
  then obtain p where p: "p = last (h # xs)" "p \<in> insert h (set xs)" "p \<notin> set []" "p \<notin> set (butlast (h # xs))"
      "set (butlast (h # xs)) \<subseteq> insert h (set xs)" "q_next st p = hd ([] @ [h])" "q_prev st (hd ([] @ [h])) = p"
      "linked st (h # xs)" "linked st ([] @ [h])"
    by (rule queue_at)
  have d: "distinct (h # xs)" "distinct (n # ys)" using queue_distinct h n by blast+
  have "queue (ngx_queue_add h n st) h (xs @ ys) \<and> same_links (set (h # xs @ n # ys)) st (ngx_queue_add h n st)"
  proof (cases ys)
    case Nil
    then have n': "q_next st n = n" "q_prev st n = n" using n by (auto simp: queue_def)
    have ne: "h \<noteq> n" "p \<noteq> n" using dis p(2) by auto
    let ?s = "set_next p h (set_prev h p (set_prev n p (set_next p n st)))"
    have eq: "ngx_queue_add h n st = ?s" using n' p(7) ne by (simp add: ngx_queue_add_def Let_def)
    have "linked ?s (h # xs)"
      by (rule linked_frame [OF p(8)]) (use d dis Nil p(2-5) in \<open>auto simp del: butlast.simps\<close>)
    then have "queue ?s h (xs @ [])"
      by (intro queue_joinI [OF p(1) refl]) (use d(1) p(2) ne in auto)
    then show ?thesis unfolding eq same_links_def using Nil p(2) by auto
  next
    case (Cons f zs)
    obtain l where l: "l = last (f # zs)" "l \<in> insert f (set zs)" "l \<notin> set (butlast (f # zs))"
        "set (butlast (f # zs)) \<subseteq> insert f (set zs)" "q_prev st n = l" "linked st (f # zs)" "q_next st n = f"
    proof
      show "last (f # zs) \<in> insert f (set zs)" by (rule last_Cons_in)
      show "last (f # zs) \<notin> set (butlast (f # zs))" using d Cons by (intro last_not_butlast) simp_all
      show "set (butlast (f # zs)) \<subseteq> insert f (set zs)" by (rule subsetI) (rule butlast_Cons_sub)
      have "linked st ((f # zs) @ [n])" "q_next st n = f" using n Cons by (simp_all add: queue_def)
      then show "q_prev st n = last (f # zs)" "linked st (f # zs)" "q_next st n = f"
        using linked_join [of "f # zs" "[n]" st] by simp_all
    qed (rule refl)
    let ?s = "set_next l h (set_prev h l (set_prev f p (set_next p f st)))"
    have ne: "h \<noteq> n" "p \<noteq> n" "f \<noteq> h" "f \<noteq> n" "p \<noteq> l" "h \<noteq> l" using dis d Cons p(2) l(2) by auto
    have eq: "ngx_queue_add h n st = ?s" using l(5,7) p(7) ne by (simp add: ngx_queue_add_def Let_def)
    have "linked ?s (h # xs)"
      by (rule linked_frame [OF p(8)]) (use d dis Cons l(2) p(2-5) in \<open>auto simp del: butlast.simps\<close>)
    moreover have "linked ?s (f # zs)"
      by (rule linked_frame [OF l(6)]) (use d dis Cons p(2) l(2-4) in \<open>auto simp del: butlast.simps\<close>)
    then have "linked ?s ((f # zs) @ [h])"
      using linked_join [of "f # zs" "[h]" ?s] ne by (simp add: l(1) [symmetric] del: last.simps)
    ultimately have "queue ?s h (xs @ f # zs)"
      by (intro queue_joinI [OF p(1), of f]) (use d dis Cons ne in auto)
    then show ?thesis unfolding eq same_links_def using Cons p(2) l(2) by auto
  qed
  then show "queue (ngx_queue_add h n st) h (xs @ ys)" "same_links (set (h # xs @ n # ys)) st (ngx_queue_add h n st)"
    by blast+
qed

section \<open>The middle\<close>

lemma queue_nth_next: "queue st h xs \<Longrightarrow> Suc i < length xs \<Longrightarrow> ngx_queue_next (xs ! i) st = xs ! Suc i"
  using queue_next [of st h "take i xs" "xs ! i" "drop (Suc i) xs"]
  by (simp add: id_take_nth_drop [symmetric] hd_append hd_drop_conv_nth)

lemma queue_nth_last: "queue st h xs \<Longrightarrow> i < length xs \<Longrightarrow> xs ! i = ngx_queue_last h st \<longleftrightarrow> Suc i = length xs"
  using queue_last [of st h xs] queue_distinct [of st h xs] nth_eq_iff_index_eq [of xs i "length xs - 1"]
  by (cases xs) (auto simp: last_conv_nth)

lemma middle_loop:
  assumes "queue st h xs" "Suc (2 * i) < length xs"
  shows "queue_middle_loop h (xs ! i) (xs ! (2 * i)) st = Some (xs ! (length xs div 2))"
  using assms
proof (induction "length xs - 2 * i" arbitrary: i rule: less_induct)
  case less
  note q = less.prems(1)
  have n: "ngx_queue_next (xs ! i) st = xs ! Suc i" "ngx_queue_next (xs ! (2 * i)) st = xs ! Suc (2 * i)"
    using queue_nth_next [OF q] less.prems(2) by simp_all
  have l: "xs ! Suc (2 * i) = ngx_queue_last h st \<longleftrightarrow> length xs = 2 * i + 2"
    using queue_nth_last [OF q, of "Suc (2 * i)"] less.prems(2) by auto
  show ?case
  proof (cases "length xs = 2 * i + 2")
    case True
    then show ?thesis using n l queue_middle_loop.simps [of h "xs ! i" "xs ! (2 * i)" st] by (simp add: Let_def)
  next
    case False
    then have n2: "ngx_queue_next (xs ! Suc (2 * i)) st = xs ! Suc (Suc (2 * i))"
      and l2: "xs ! Suc (Suc (2 * i)) = ngx_queue_last h st \<longleftrightarrow> length xs = 2 * i + 3"
      using queue_nth_next [OF q, of "Suc (2 * i)"] queue_nth_last [OF q, of "Suc (Suc (2 * i))"] less.prems(2) by auto
    show ?thesis
    proof (cases "length xs = 2 * i + 3")
      case True
      moreover have "length xs div 2 = Suc i" using True by simp
      ultimately show ?thesis
        using False n l n2 l2 queue_middle_loop.simps [of h "xs ! i" "xs ! (2 * i)" st] by (simp add: Let_def)
    next
      case more: False
      with False less.prems(2) have "Suc (2 * Suc i) < length xs" "length xs - 2 * Suc i < length xs - 2 * i" by simp_all
      with less.hyps [of "Suc i"] q have "queue_middle_loop h (xs ! Suc i) (xs ! (2 * Suc i)) st = Some (xs ! (length xs div 2))"
        by simp
      then show ?thesis
        using False more n l n2 l2 queue_middle_loop.simps [of h "xs ! i" "xs ! (2 * i)" st] by (simp add: Let_def)
    qed
  qed
qed

lemma middle:
  assumes q: "queue st h xs" and ne: "xs \<noteq> []"
  shows "ngx_queue_middle h st = Some (xs ! (length xs div 2))"
proof -
  have hd: "ngx_queue_head h st = xs ! 0" using queue_head [OF q] ne by (cases xs) simp_all
  have l: "xs ! 0 = ngx_queue_last h st \<longleftrightarrow> length xs = 1" using queue_nth_last [OF q, of 0] ne by (cases xs) auto
  show ?thesis
  proof (cases "length xs = 1")
    case True
    then show ?thesis using hd l by (simp add: ngx_queue_middle_def Let_def)
  next
    case False
    then have "Suc (2 * 0) < length xs" using ne by (cases xs) auto
    from middle_loop [OF q this] show ?thesis using hd l False by (simp add: ngx_queue_middle_def Let_def)
  qed
qed

section \<open>The merge sort\<close>

fun merge_by :: "(nat \<Rightarrow> nat \<Rightarrow> int) \<Rightarrow> nat list \<Rightarrow> nat list \<Rightarrow> nat list" where
  "merge_by cmp [] ys = ys"
| "merge_by cmp (x # xs) [] = x # xs"
| "merge_by cmp (x # xs) (y # ys) =
     (if cmp x y \<le> 0 then x # merge_by cmp xs (y # ys) else y # merge_by cmp (x # xs) ys)"

lemma insert_before_links: "same_links {q, x, q_prev st q} st (ngx_queue_insert_before q x st)"
  by (simp add: same_links_def ngx_queue_insert_tail_def Let_def)

lemma remove_links: "same_links {q_next st x, q_prev st x} st (ngx_queue_remove x st)"
  by (simp add: same_links_def ngx_queue_remove_def Let_def)

lemma merge_loop:
  assumes "queue st h (ds @ as)" "queue st t bs" "set (h # ds @ as) \<inter> set (t # bs) = {}"
  shows "\<exists>st'. queue_merge_loop cmp h t (hd (as @ [h])) (hd (bs @ [t])) st = Some st'
    \<and> queue st' h (ds @ merge_by cmp as bs) \<and> same_links (set (h # t # ds @ as @ bs)) st st'"
  using assms
proof (induction cmp as bs arbitrary: ds st rule: merge_by.induct)
  case (1 cmp bs)
  then show ?case
    using queue_add [of st h ds t bs] queue_merge_loop.simps [of cmp h t h "hd (bs @ [t])" st]
    by (auto simp: insert_commute)
next
  case (2 cmp x xs)
  then have "x \<noteq> h" using queue_distinct by fastforce
  then show ?case using 2 queue_merge_loop.simps [of cmp h t x t st] by (auto simp: same_links_def)
next
  case (3 cmp x xs y ys)
  note q = "3.prems"
  have ne: "x \<noteq> h" "y \<noteq> t" using queue_distinct [OF q(1)] queue_distinct [OF q(2)] by auto
  show ?case
  proof (cases "cmp x y \<le> 0")
    case True
    have "queue_merge_loop cmp h t x y st = queue_merge_loop cmp h t (hd (xs @ [h])) y st"
      using queue_merge_loop.simps [of cmp h t x y st] ne True queue_next [OF q(1)] by simp
    then show ?thesis using "3.IH"(1) [OF True, of st "ds @ [x]"] q True by (auto simp: insert_commute)
  next
    case False
    define s1 where "s1 = ngx_queue_remove y st"
    define s2 where "s2 = ngx_queue_insert_before x y s1"
    have "queue s1 t ([] @ ys)" unfolding s1_def using q(2) by (intro queue_remove) simp
    then have t1: "queue s1 t ys" by simp
    have nx: "q_next st y \<in> insert t (set ys)" "q_prev st y = t"
      using queue_next [of st t "[]" y ys] queue_prev [of st t "[]" y ys] q(2) hd_snoc_in [of ys t] by simp_all
    have l1: "same_links (set (t # y # ys)) st s1"
      unfolding s1_def by (rule same_links_mono [OF remove_links]) (use nx in auto)
    have h1: "queue s1 h (ds @ x # xs)" using same_links_queue [OF l1, of h "ds @ x # xs"] q by auto
    have y: "y \<notin> set (h # ds @ x # xs)" using q(3) by auto
    have h2: "queue s2 h (ds @ y # x # xs)" unfolding s2_def by (rule queue_insert_before [OF h1 y])
    have pv: "q_prev s1 x \<in> insert h (set ds)" using queue_prev [OF h1] last_Cons_in [of h ds] by simp
    have l2: "same_links (set (h # y # ds @ x # xs)) s1 s2"
      unfolding s2_def by (rule same_links_mono [OF insert_before_links]) (use pv in auto)
    have t2: "queue s2 t ys"
      using same_links_queue [OF l2, of t ys] t1 q(3) queue_distinct [OF q(2)] by auto
    have step: "queue_merge_loop cmp h t x y st = queue_merge_loop cmp h t x (hd (ys @ [t])) s2"
      using queue_merge_loop.simps [of cmp h t x y st] ne False queue_head [OF t2] by (simp add: Let_def s1_def s2_def)
    have dis: "set (h # (ds @ [y]) @ x # xs) \<inter> set (t # ys) = {}" using q(3) queue_distinct [OF q(2)] by auto
    from "3.IH"(2) [OF False, of s2 "ds @ [y]"] h2 t2 dis obtain st' where
      3: "queue_merge_loop cmp h t x (hd (ys @ [t])) s2 = Some st'" "queue st' h (ds @ y # merge_by cmp (x # xs) ys)"
        "same_links (set (h # t # (ds @ [y]) @ (x # xs) @ ys)) s2 st'"
      by auto
    have "same_links (set (h # t # ds @ (x # xs) @ y # ys)) st s2"
      by (rule same_links_trans [OF l1 l2]) auto
    then have "same_links (set (h # t # ds @ (x # xs) @ y # ys)) st st'"
      by (rule same_links_trans [OF _ 3(3)]) auto
    with 3(1,2) step False show ?thesis by auto
  qed
qed

lemma merge_queues:
  assumes "queue st h as" "queue st t bs" "set (h # as) \<inter> set (t # bs) = {}"
  shows "\<exists>st'. ngx_queue_merge cmp h t st = Some st' \<and> queue st' h (merge_by cmp as bs)
    \<and> same_links (set (h # t # as @ bs)) st st'"
  using merge_loop [of st h "[]" as t bs cmp] assms queue_head [OF assms(1)] queue_head [OF assms(2)]
  by (simp add: ngx_queue_merge_def)

text \<open>With a comparison that agrees with a key, merging sorted lists is stable sorting.\<close>

lemma merge_by_mset: "mset (merge_by cmp xs ys) = mset xs + mset ys"
  by (induction cmp xs ys rule: merge_by.induct) auto

lemma merge_by_set: "set (merge_by cmp xs ys) = set xs \<union> set ys"
  by (metis merge_by_mset set_mset_mset set_mset_union)

lemma merge_by_sorted:
  fixes key :: "nat \<Rightarrow> 'k :: linorder"
  assumes "\<And>a b. cmp a b \<le> 0 \<longleftrightarrow> key a \<le> key b" "sorted (map key xs)" "sorted (map key ys)"
  shows "sorted (map key (merge_by cmp xs ys))"
  using assms
proof (induction cmp xs ys rule: merge_by.induct)
  case (3 cmp x xs y ys)
  then show ?case by (cases "cmp x y \<le> 0") (force simp: merge_by_set not_le)+
qed simp_all

lemma merge_by_stable:
  fixes key :: "nat \<Rightarrow> 'k :: linorder"
  assumes "\<And>a b. cmp a b \<le> 0 \<longleftrightarrow> key a \<le> key b" "sorted (map key xs)" "sorted (map key ys)"
  shows "filter (\<lambda>x. k = key x) (merge_by cmp xs ys) = filter (\<lambda>x. k = key x) xs @ filter (\<lambda>x. k = key x) ys"
  using assms
proof (induction cmp xs ys rule: merge_by.induct)
  case (3 cmp x xs y ys)
  show ?case
  proof (cases "cmp x y \<le> 0")
    case True
    then show ?thesis using "3.IH"(1) [OF True "3.prems"(1)] "3.prems"(2,3) by auto
  next
    case False
    then have "filter (\<lambda>z. k = key z) (x # xs) = []" if "k = key y"
      using "3.prems" that by (force simp: not_le filter_empty_conv)
    then show ?thesis using "3.IH"(2) [OF False "3.prems"(1)] "3.prems"(2,3) False by auto
  qed
qed simp_all

lemma merge_by_sort_key:
  fixes key :: "nat \<Rightarrow> 'k :: linorder"
  assumes "\<And>a b. cmp a b \<le> 0 \<longleftrightarrow> key a \<le> key b"
  shows "merge_by cmp (sort_key key xs) (sort_key key ys) = sort_key key (xs @ ys)"
proof (rule properties_for_sort_key [symmetric])
  show "mset (merge_by cmp (sort_key key xs) (sort_key key ys)) = mset (xs @ ys)" by (simp add: merge_by_mset)
  show "sorted (map key (merge_by cmp (sort_key key xs) (sort_key key ys)))"
    using merge_by_sorted [OF assms] by simp
  show "filter (\<lambda>x. key k = key x) (merge_by cmp (sort_key key xs) (sort_key key ys)) = filter (\<lambda>x. key k = key x) (xs @ ys)"
    for k
    using merge_by_stable [where cmp = cmp and key = key and xs = "sort_key key xs" and ys = "sort_key key ys" and k = "key k"]
      assms sort_key_stable [of key "key k" xs] sort_key_stable [of key "key k" ys] by (simp add: eq_commute [of "key k"])
qed

lemma sort_queue:
  fixes key :: "nat \<Rightarrow> 'k :: linorder"
  assumes cmp: "\<And>a b. cmp a b \<le> 0 \<longleftrightarrow> key a \<le> key b"
    and "queue st h xs" "\<forall>a\<in>set (h # xs). a < sp"
  shows "\<exists>st'. ngx_queue_sort cmp sp h st = Some st' \<and> queue st' h (sort_key key xs)
    \<and> (\<forall>a < sp. a \<notin> set (h # xs) \<longrightarrow> q_next st' a = q_next st a \<and> q_prev st' a = q_prev st a)"
  using assms(2,3)
proof (induction "length xs" arbitrary: h xs st sp rule: less_induct)
  case less
  note q = less.prems(1)
  have d: "distinct (h # xs)" using queue_distinct [OF q] .
  show ?case
  proof (cases "length xs \<le> 1")
    case True
    then have "ngx_queue_head h st = ngx_queue_last h st"
      using queue_head [OF q] queue_last [OF q] by (cases xs) auto
    moreover have "sort_key key xs = xs" using True by (cases xs) auto
    ultimately show ?thesis using q ngx_queue_sort.simps [of cmp sp h st] by simp
  next
    case False
    define k where "k = length xs div 2"
    have k: "0 < k" "k < length xs" using False by (auto simp: k_def)
    define as bs where ab: "as = take k xs" "bs = drop (Suc k) xs"
    have xs: "xs = as @ xs ! k # bs" using k by (simp add: ab id_take_nth_drop)
    let ?q = "xs ! k" and ?s1 = "ngx_queue_split h (xs ! k) sp st"
    have hl: "ngx_queue_head h st \<noteq> ngx_queue_last h st"
      using queue_head [OF q] queue_nth_last [OF q, of 0] False by (cases xs) auto
    have m: "ngx_queue_middle h st = Some ?q" using middle [OF q] False unfolding k_def by (cases xs) simp_all
    have sp: "sp \<notin> set (h # as @ ?q # bs)" using less.prems(2) xs by (metis less_irrefl)
    have qs: "queue st h (as @ ?q # bs)" using q xs by simp
    note s1 = queue_split [OF qs sp]
    have len: "length as < length xs" "length (?q # bs) < length xs" using k by (auto simp: ab)
    have lt: "\<forall>a\<in>set (h # as). a < Suc sp" "\<forall>a\<in>set (sp # ?q # bs). a < Suc sp"
      using less.prems(2) xs by (metis Un_iff insert_iff less_SucI lessI list.simps(15) set_append)+
    from less.hyps [OF len(1) s1(1) lt(1)] obtain s2 where
      s2: "ngx_queue_sort cmp (Suc sp) h ?s1 = Some s2" "queue s2 h (sort_key key as)"
        "\<forall>a < Suc sp. a \<notin> set (h # as) \<longrightarrow> q_next s2 a = q_next ?s1 a \<and> q_prev s2 a = q_prev ?s1 a" by blast
    have dis: "set (h # as) \<inter> set (sp # ?q # bs) = {}" using d sp xs by (metis disjoint_insert(1) distinct.simps(2) distinct_append insert_iff list.simps(15) set_append Un_iff Int_insert_left Int_insert_right disjoint_iff)
    have t2: "queue s2 sp (?q # bs)"
      using queue_cong [of sp "?q # bs" s2 ?s1] s2(3) s1(2) lt(2) dis by (metis disjoint_iff)
    from less.hyps [OF len(2) t2 lt(2)] obtain s3 where
      s3: "ngx_queue_sort cmp (Suc sp) sp s2 = Some s3" "queue s3 sp (sort_key key (?q # bs))"
        "\<forall>a < Suc sp. a \<notin> set (sp # ?q # bs) \<longrightarrow> q_next s3 a = q_next s2 a \<and> q_prev s3 a = q_prev s2 a" by blast
    have "q_next s3 a = q_next s2 a \<and> q_prev s3 a = q_prev s2 a" if "a \<in> set (h # sort_key key as)" for a
    proof -
      have "a \<in> set (h # as)" using that by simp
      then have "a < Suc sp" "a \<notin> set (sp # ?q # bs)" using lt(1) dis by blast+
      then show ?thesis using s3(3) by blast
    qed
    then have h3: "queue s3 h (sort_key key as)" using queue_cong [of h "sort_key key as" s3 s2] s2(2) by blast
    have "set (h # sort_key key as) \<inter> set (sp # sort_key key (?q # bs)) = {}" using dis by (simp only: set_sort list.set)
    from merge_queues [OF h3 s3(2) this, of cmp] obtain s4 where
      s4: "ngx_queue_merge cmp h sp s3 = Some s4" "queue s4 h (merge_by cmp (sort_key key as) (sort_key key (?q # bs)))"
        "same_links (set (h # sp # sort_key key as @ sort_key key (?q # bs))) s3 s4" by blast
    have "ngx_queue_sort cmp sp h st = Some s4"
      using ngx_queue_sort.simps [of cmp sp h st] hl m s2(1) s3(1) s4(1) by (simp add: Let_def)
    moreover have "queue s4 h (sort_key key xs)"
      using s4(2) merge_by_sort_key [where cmp = cmp and key = key and xs = as and ys = "?q # bs"] cmp xs by simp
    moreover have "q_next s4 a = q_next st a \<and> q_prev s4 a = q_prev st a" if "a < sp" "a \<notin> set (h # xs)" for a
    proof -
      have a: "a \<notin> set (h # as)" "a \<notin> set (sp # ?q # bs)" using that xs by (metis Un_iff insert_iff less_irrefl list.simps(15) set_append)+
      then show ?thesis using that s2(3) s3(3) s4(3) s1(3) by (simp add: same_links_def set_insort_key)
    qed
    ultimately show ?thesis by blast
  qed
qed

section \<open>Properties\<close>

text \<open>
  C15: \<^verbatim>\<open>ngx_queue_sort\<close> returns and leaves the queue with the same elements in the order of a stable sort,
  for every comparison that agrees with a key of the elements, as long as the local variables of its
  calls (at \<open>sp\<close> and above) are apart from the queue; no other element below \<open>sp\<close> is touched.
\<close>

theorem queue_sort_stable:
  fixes key :: "nat \<Rightarrow> 'k :: linorder"
  assumes "queue st h xs" "\<forall>a\<in>set (h # xs). a < sp" "\<And>a b. cmp a b \<le> 0 \<longleftrightarrow> key a \<le> key b"
  shows "\<exists>st'. ngx_queue_sort cmp sp h st = Some st' \<and> queue st' h (sort_key key xs)
    \<and> (\<forall>a < sp. a \<notin> set (h # xs) \<longrightarrow> q_next st' a = q_next st a \<and> q_prev st' a = q_prev st a)"
  using sort_queue [OF assms(3,1,2)] .

definition queue_sample :: queues where
  "queue_sample = \<lparr>q_prev = (\<lambda>a. if a = 0 then 4 else a - 1), q_next = (\<lambda>a. if a = 4 then 0 else a + 1)\<rparr>"

theorem queue_sort_stable_witness:
  "\<exists>st'. ngx_queue_sort (\<lambda>a b. int (b mod 2) - int (a mod 2)) 5 0 queue_sample = Some st' \<and> queue st' 0 [1, 3, 2, 4]"
proof -
  have "queue queue_sample 0 [1, 2, 3, 4]" by (simp add: queue_def queue_sample_def)
  moreover have "\<forall>a\<in>set (0 # [1, 2, 3, 4]). a < (5 :: nat)" by simp
  moreover have "int (b mod 2) - int (a mod 2) \<le> 0 \<longleftrightarrow> - int (a mod 2) \<le> - int (b mod 2)" for a b :: nat by linarith
  moreover have "sort_key (\<lambda>a. - int (a mod 2)) [1, 2, 3, 4 :: nat] = [1, 3, 2, 4]" by code_simp
  ultimately show ?thesis
    using queue_sort_stable [of queue_sample 0 "[1, 2, 3, 4]" 5 "\<lambda>a b. int (b mod 2) - int (a mod 2)" "\<lambda>a. - int (a mod 2)"]
    by auto
qed

lemma middle_empty: "queue st h [] \<Longrightarrow> ngx_queue_middle h st = Some h"
  by (simp add: queue_def ngx_queue_middle_def Let_def)

text \<open>
  C16: The operations on queues refine those on lists, for every queue, the empty one included: initialisation makes
  the empty queue, the test for it, the first and the last element and the middle are those of the sequence; an element
  put at the head or at the tail, or before or after another, or taken out, changes the sequence of the elements
  accordingly, in both directions of the links; a queue is divided at an element, and any two queues with no common
  element are joined.
\<close>

theorem queue_operations:
  assumes "queue st h xs"
  shows "queue (ngx_queue_init n st) n []
    \<and> ngx_queue_empty h st = (xs = [])
    \<and> ngx_queue_head h st = hd (xs @ [h]) \<and> ngx_queue_last h st = last (h # xs)
    \<and> ngx_queue_middle h st = Some ((xs @ [h]) ! (length xs div 2))
    \<and> (\<forall>x. x \<notin> set (h # xs) \<longrightarrow>
      queue (ngx_queue_insert_head h x st) h (x # xs) \<and> queue (ngx_queue_insert_tail h x st) h (xs @ [x]))
    \<and> (\<forall>ys q zs. xs = ys @ q # zs \<longrightarrow>
      ngx_queue_next q st = hd (zs @ [h]) \<and> q_prev st q = last (h # ys)
      \<and> queue (ngx_queue_remove q st) h (ys @ zs)
      \<and> (\<forall>x. x \<notin> set (h # xs) \<longrightarrow>
        queue (ngx_queue_insert_before q x st) h (ys @ x # q # zs)
        \<and> queue (ngx_queue_insert_after q x st) h (ys @ q # x # zs)
        \<and> queue (ngx_queue_split h q x st) h ys \<and> queue (ngx_queue_split h q x st) x (q # zs)))
    \<and> (\<forall>n zs. queue st n zs \<and> set (h # xs) \<inter> set (n # zs) = {} \<longrightarrow> queue (ngx_queue_add h n st) h (xs @ zs))"
proof (intro conjI allI impI)
  show "ngx_queue_middle h st = Some ((xs @ [h]) ! (length xs div 2))"
  proof (cases "xs = []")
    case False
    then have "length xs div 2 < length xs" by simp
    with False middle [OF assms] show ?thesis by (simp add: nth_append)
  qed (use middle_empty assms in simp)
next
  fix ys q zs
  assume xs: "xs = ys @ q # zs"
  with assms have q: "queue st h (ys @ q # zs)" by simp
  show "ngx_queue_next q st = hd (zs @ [h])" "q_prev st q = last (h # ys)" "queue (ngx_queue_remove q st) h (ys @ zs)"
    using queue_next [OF q] queue_prev [OF q] queue_remove [OF q] .
  fix x
  assume "x \<notin> set (h # xs)"
  then have x: "x \<notin> set (h # ys @ q # zs)" using xs by simp
  show "queue (ngx_queue_insert_before q x st) h (ys @ x # q # zs)" "queue (ngx_queue_insert_after q x st) h (ys @ q # x # zs)"
    "queue (ngx_queue_split h q x st) h ys" "queue (ngx_queue_split h q x st) x (q # zs)"
    using queue_insert_before [OF q x] queue_insert_after [OF q x] queue_split(1,2) [OF q x] .
qed (use assms init_queue empty_queue queue_head queue_last queue_insert_head queue_insert_tail queue_add(1) in auto)

theorem queue_operations_witness:
  "queue (ngx_queue_remove 2 queue_sample) 0 [1, 3, 4]
    \<and> queue (ngx_queue_insert_tail 7 8 (ngx_queue_init 7 queue_sample)) 7 [8]"
proof -
  have q: "queue queue_sample 0 ([1] @ 2 # [3, 4])" by (simp add: queue_def queue_sample_def)
  from queue_operations [OF q] have "queue (ngx_queue_remove 2 queue_sample) 0 ([1] @ [3, 4])" by blast
  moreover have "queue (ngx_queue_insert_tail 7 8 (ngx_queue_init 7 queue_sample)) 7 ([] @ [8])"
    using queue_operations [OF init_queue [of 7 queue_sample]] by simp
  ultimately show ?thesis by simp
qed

end
