(* ===== verification/Ngx_Event_Posted.thy ===== *)
theory Ngx_Event_Posted
  imports Ngx_Queue
begin

text \<open>
  The posted events of \<^verbatim>\<open>src/reference/nginx-master/src/event/ngx_event_posted.c\<close> and
  \<^verbatim>\<open>ngx_event_posted.h\<close>, a client of the queues.

  An event is named by the address of its \<^verbatim>\<open>queue\<close> member; of its other fields those are kept that this
  code sets. The handler \<^verbatim>\<open>ev->handler\<close> is a function on the state that may fail to return.
\<close>

section \<open>The operations\<close>

record posted_events =
  pe_queues :: queues
  ev_posted :: "nat \<Rightarrow> bool"
  ev_ready :: "nat \<Rightarrow> bool"
  ev_available :: "nat \<Rightarrow> int"

text \<open>The addresses of the three global queues.\<close>

abbreviation (input) ngx_posted_accept_events :: nat where "ngx_posted_accept_events \<equiv> 0"
abbreviation (input) ngx_posted_next_events :: nat where "ngx_posted_next_events \<equiv> 1"
abbreviation (input) ngx_posted_events :: nat where "ngx_posted_events \<equiv> 2"

definition ngx_post_event :: "nat \<Rightarrow> nat \<Rightarrow> posted_events \<Rightarrow> posted_events" where
  "ngx_post_event ev q st =
     (if \<not> ev_posted st ev
      then st\<lparr>ev_posted := (ev_posted st)(ev := True), pe_queues := ngx_queue_insert_tail q ev (pe_queues st)\<rparr>
      else st)"

definition ngx_delete_posted_event :: "nat \<Rightarrow> posted_events \<Rightarrow> posted_events" where
  "ngx_delete_posted_event ev st =
     st\<lparr>ev_posted := (ev_posted st)(ev := False), pe_queues := ngx_queue_remove ev (pe_queues st)\<rparr>"

partial_function (option) ngx_event_process_posted ::
  "(nat \<Rightarrow> posted_events \<Rightarrow> posted_events option) \<Rightarrow> nat \<Rightarrow> posted_events \<Rightarrow> posted_events option" where
  "ngx_event_process_posted handler posted st =
     (if ngx_queue_empty posted (pe_queues st) then Some st
      else do {
        let ev = ngx_queue_head posted (pe_queues st);
        let st = ngx_delete_posted_event ev st;
        st \<leftarrow> handler ev st;
        ngx_event_process_posted handler posted st
      })"

partial_function (option) mark_ready :: "nat \<Rightarrow> posted_events \<Rightarrow> posted_events option" where
  "mark_ready q st =
     (if q = ngx_posted_next_events then Some st
      else
        (let st = st\<lparr>ev_ready := (ev_ready st)(q := True)\<rparr>;
             st = st\<lparr>ev_available := (ev_available st)(q := - 1)\<rparr>
         in mark_ready (ngx_queue_next q (pe_queues st)) st))"

definition ngx_event_move_posted_next :: "posted_events \<Rightarrow> posted_events option" where
  "ngx_event_move_posted_next st =
     do {
       st \<leftarrow> mark_ready (ngx_queue_head ngx_posted_next_events (pe_queues st)) st;
       let st = st\<lparr>pe_queues := ngx_queue_add ngx_posted_events ngx_posted_next_events (pe_queues st)\<rparr>;
       Some (st\<lparr>pe_queues := ngx_queue_init ngx_posted_next_events (pe_queues st)\<rparr>)
     }"

section \<open>The invariant\<close>

text \<open>The queues with the heads \<open>H\<close> hold the events \<open>F\<close>, no event is in two of them, and the events in them
  are those with \<^verbatim>\<open>posted\<close> set.\<close>

definition posted_ok :: "nat set \<Rightarrow> (nat \<Rightarrow> nat list) \<Rightarrow> posted_events \<Rightarrow> bool" where
  "posted_ok H F st \<longleftrightarrow> (\<forall>h\<in>H. queue (pe_queues st) h (F h))
     \<and> (\<forall>h\<in>H. \<forall>k\<in>H. h \<noteq> k \<longrightarrow> set (h # F h) \<inter> set (k # F k) = {})
     \<and> (\<forall>ev. ev_posted st ev \<longleftrightarrow> (\<exists>h\<in>H. ev \<in> set (F h)))"

lemma insert_tail_links: "same_links {h, x, q_prev st h} st (ngx_queue_insert_tail h x st)"
  by (rule insert_before_links)

lemma posted_frame:
  assumes ok: "posted_ok H F st" and h: "h \<in> H" and q: "queue qs h xs"
    and links: "same_links A (pe_queues st) qs" and A: "A \<subseteq> insert x (set (h # F h))"
    and xs: "set xs \<subseteq> insert x (set (F h))" and x: "x \<in> set (F h) \<or> (\<forall>k\<in>H. x \<notin> set (k # F k))"
    and p: "\<And>ev. P ev \<longleftrightarrow> ev \<in> set xs \<or> (\<exists>k\<in>H - {h}. ev \<in> set (F k))"
  shows "posted_ok H (F(h := xs)) (st\<lparr>ev_posted := P, pe_queues := qs\<rparr>)"
proof -
  have dis: "set (h # xs) \<inter> set (k # F k) = {}" "A \<inter> set (k # F k) = {}" if "k \<in> H" "k \<noteq> h" for k
  proof -
    have "set (h # F h) \<inter> set (k # F k) = {}" using ok h that unfolding posted_ok_def by metis
    then show "set (h # xs) \<inter> set (k # F k) = {}" "A \<inter> set (k # F k) = {}"
      using xs A x that(1) by auto
  qed
  have "queue qs k (F k)" if "k \<in> H" "k \<noteq> h" for k
    using same_links_queue [OF links, of k "F k"] dis(2) [OF that] ok that(1) unfolding posted_ok_def by blast
  moreover have "set (k # F k) \<inter> set (l # F l) = {}" if "k \<in> H" "l \<in> H" "k \<noteq> l" for k l
    using ok that unfolding posted_ok_def by metis
  ultimately show ?thesis
    unfolding posted_ok_def using q h dis(1) p by (auto simp: Int_commute) 
qed

lemma post_event_ok:
  assumes ok: "posted_ok H F st" and h: "h \<in> H" and ev: "ev \<notin> H"
  shows "posted_ok H (if ev_posted st ev then F else F(h := F h @ [ev])) (ngx_post_event ev h st)"
proof (cases "ev_posted st ev")
  case True
  then show ?thesis using ok by (simp add: ngx_post_event_def)
next
  case False
  then have new: "\<forall>k\<in>H. ev \<notin> set (k # F k)" using ok ev by (auto simp: posted_ok_def)
  have q: "queue (pe_queues st) h (F h)" using ok h by (simp add: posted_ok_def)
  let ?q = "ngx_queue_insert_tail h ev (pe_queues st)"
  have "queue ?q h (F h @ [ev])" using queue_insert_tail [OF q] new h by simp
  moreover have "same_links {h, ev, q_prev (pe_queues st) h} (pe_queues st) ?q" by (rule insert_tail_links)
  moreover have "{h, ev, q_prev (pe_queues st) h} \<subseteq> insert ev (set (h # F h))"
    using queue_last [OF q] last_Cons_in [of h "F h"] by auto
  ultimately have "posted_ok H (F(h := F h @ [ev])) (st\<lparr>ev_posted := (ev_posted st)(ev := True), pe_queues := ?q\<rparr>)"
    by (rule posted_frame [OF ok h]) (use new ok h in \<open>auto simp: posted_ok_def\<close>)
  with False show ?thesis by (simp add: ngx_post_event_def)
qed

lemma delete_posted_ok:
  assumes ok: "posted_ok H F st" and h: "h \<in> H" and ev: "ev \<in> set (F h)"
  shows "posted_ok H (F(h := remove1 ev (F h))) (ngx_delete_posted_event ev st)"
proof -
  have q: "queue (pe_queues st) h (F h)" using ok h by (simp add: posted_ok_def)
  from split_list [OF ev] obtain ys zs where F: "F h = ys @ ev # zs" by blast
  note q' = q [unfolded F]
  have d: "distinct (h # ys @ ev # zs)" using queue_distinct [OF q'] .
  then have r: "remove1 ev (F h) = ys @ zs" using F by (simp add: remove1_append)
  let ?q = "ngx_queue_remove ev (pe_queues st)"
  have "queue ?q h (remove1 ev (F h))" unfolding r by (rule queue_remove [OF q'])
  moreover have "same_links {q_next (pe_queues st) ev, q_prev (pe_queues st) ev} (pe_queues st) ?q" by (rule remove_links)
  moreover have "{q_next (pe_queues st) ev, q_prev (pe_queues st) ev} \<subseteq> insert ev (set (h # F h))"
    using queue_next [OF q'] queue_prev [OF q'] last_Cons_in [of h ys] hd_snoc_in [of zs h] F by auto
  ultimately have "posted_ok H (F(h := remove1 ev (F h))) (st\<lparr>ev_posted := (ev_posted st)(ev := False), pe_queues := ?q\<rparr>)"
  proof (rule posted_frame [OF ok h])
    have "set (h # F h) \<inter> set (k # F k) = {}" if "k \<in> H" "k \<noteq> h" for k using ok h that unfolding posted_ok_def by metis
    then have "ev \<notin> set (F k)" if "k \<in> H" "k \<noteq> h" for k using that ev by auto
    then show "((ev_posted st)(ev := False)) e \<longleftrightarrow> e \<in> set (remove1 ev (F h)) \<or> (\<exists>k\<in>H - {h}. e \<in> set (F k))" for e
      using ok h d F unfolding r by (auto simp: posted_ok_def intro: bexI [of _ h])
  qed (use r F ev in auto)
  then show ?thesis by (simp add: ngx_delete_posted_event_def)
qed

section \<open>Processing\<close>

text \<open>What the loop needs of the handlers: a call returns, keeps the invariant, and does not make the queue
  longer.\<close>

locale posted_handler =
  fixes H :: "nat set" and h :: nat and handler :: "nat \<Rightarrow> posted_events \<Rightarrow> posted_events option"
  assumes handler: "posted_ok H F st \<Longrightarrow> \<not> ev_posted st ev \<Longrightarrow> ev \<notin> H \<Longrightarrow>
      \<exists>st' F'. handler ev st = Some st' \<and> posted_ok H F' st' \<and> length (F' h) \<le> length (F h)"
    and h: "h \<in> H"
begin

lemma process_posted:
  assumes "posted_ok H F st"
  shows "\<exists>st' F'. ngx_event_process_posted handler h st = Some st' \<and> posted_ok H F' st' \<and> F' h = []"
  using assms
proof (induction "length (F h)" arbitrary: F st rule: less_induct)
  case less
  have q: "queue (pe_queues st) h (F h)" using less.prems h by (simp add: posted_ok_def)
  show ?case
  proof (cases "F h")
    case Nil
    then show ?thesis using less.prems empty_queue [OF q] ngx_event_process_posted.simps [of handler h st] by auto
  next
    case (Cons ev xs)
    let ?st = "ngx_delete_posted_event ev st" and ?F = "F(h := remove1 ev (F h))"
    have ok: "posted_ok H ?F ?st" using delete_posted_ok [OF less.prems h, of ev] Cons by simp
    have "\<not> ev_posted ?st ev" by (simp add: ngx_delete_posted_event_def)
    moreover have "ev \<notin> H"
    proof
      assume e: "ev \<in> H"
      show False
      proof (cases "ev = h")
        case True
        then show ?thesis using queue_distinct [OF q] Cons by simp
      next
        case False
        with less.prems h e have "set (ev # F ev) \<inter> set (h # F h) = {}" unfolding posted_ok_def by metis
        then show ?thesis using Cons by simp
      qed
    qed
    ultimately obtain st2 F2 where 2: "handler ev ?st = Some st2" "posted_ok H F2 st2" "length (F2 h) \<le> length (?F h)"
      using handler [OF ok] by blast
    have "length (F2 h) < length (F h)" using 2(3) Cons by simp
    from less.hyps [OF this 2(2)] obtain st' F' where
      3: "ngx_event_process_posted handler h st2 = Some st'" "posted_ok H F' st'" "F' h = []" by blast
    have "ngx_event_process_posted handler h st = ngx_event_process_posted handler h st2"
      using ngx_event_process_posted.simps [of handler h st] empty_queue [OF q] queue_head [OF q] Cons 2(1)
      by (simp add: Let_def)
    with 3 show ?thesis by auto
  qed
qed

end

text \<open>A handler that posts its event for the next iteration of the event loop.\<close>

interpretation repost: posted_handler "{0, 1, 2}" 2 "\<lambda>ev st. Some (ngx_post_event ev ngx_posted_next_events st)"
proof
  fix F st ev
  assume ok: "posted_ok {0, 1, 2} F st" and n: "\<not> ev_posted st ev" "ev \<notin> {0, 1, 2}"
  from post_event_ok [OF ok _ n(2), of 1] n(1)
  show "\<exists>st' F'. Some (ngx_post_event ev ngx_posted_next_events st) = Some st' \<and> posted_ok {0, 1, 2} F' st'
      \<and> length (F' 2) \<le> length (F 2)"
    by (intro exI [of _ "ngx_post_event ev 1 st"] exI [of _ "F(1 := F 1 @ [ev])"]) simp
qed simp

text \<open>Moving the events of the next iteration.\<close>

lemma mark_ready_queue:
  assumes "queue (pe_queues st) 1 (ys @ zs)"
  shows "\<exists>st'. mark_ready (hd (zs @ [1])) st = Some st' \<and> pe_queues st' = pe_queues st \<and> ev_posted st' = ev_posted st
    \<and> (\<forall>ev. ev_ready st' ev = (ev_ready st ev \<or> ev \<in> set zs))
    \<and> (\<forall>ev. ev_available st' ev = (if ev \<in> set zs then - 1 else ev_available st ev))"
  using assms
proof (induction zs arbitrary: ys st)
  case Nil
  then show ?case by (simp add: mark_ready.simps [of 1 st] del: One_nat_def)
next
  case (Cons z zs)
  let ?st = "st\<lparr>ev_ready := (ev_ready st)(z := True), ev_available := (ev_available st)(z := - 1)\<rparr>"
  have "z \<noteq> 1" using queue_distinct [OF Cons.prems] by auto
  then have "mark_ready z st = mark_ready (hd (zs @ [1])) ?st"
    using queue_next [OF Cons.prems] by (simp add: mark_ready.simps [of z st] Let_def)
  moreover have "queue (pe_queues ?st) 1 ((ys @ [z]) @ zs)" using Cons.prems by simp
  ultimately show ?case using Cons.IH [of ?st "ys @ [z]"] by auto
qed

lemma move_posted_ok:
  assumes ok: "posted_ok {0, 1, 2} F st"
  shows "\<exists>st'. ngx_event_move_posted_next st = Some st' \<and> posted_ok {0, 1, 2} (F(2 := F 2 @ F 1, 1 := [])) st'
    \<and> (\<forall>ev\<in>set (F 1). ev_ready st' ev \<and> ev_available st' ev = - 1)"
proof -
  have q: "queue (pe_queues st) 0 (F 0)" "queue (pe_queues st) 1 (F 1)" "queue (pe_queues st) 2 (F 2)"
    using ok by (simp_all add: posted_ok_def)
  have dis: "set (0 # F 0) \<inter> set (1 # F 1) = {}" "set (0 # F 0) \<inter> set (2 # F 2) = {}" "set (2 # F 2) \<inter> set (1 # F 1) = {}"
    using ok unfolding posted_ok_def by (metis insertCI zero_neq_one zero_neq_numeral num.distinct(1) numeral_eq_one_iff)+
  obtain st1 where st1: "mark_ready (q_next (pe_queues st) 1) st = Some st1" "pe_queues st1 = pe_queues st"
      "ev_posted st1 = ev_posted st" "\<forall>ev\<in>set (F 1). ev_ready st1 ev \<and> ev_available st1 ev = - 1"
    using mark_ready_queue [of st "[]" "F 1"] q(2) queue_head [OF q(2)] by auto
  let ?q1 = "ngx_queue_add 2 1 (pe_queues st)"
  let ?q2 = "ngx_queue_init 1 ?q1"
  note a = queue_add [OF q(3,2) dis(3)]
  have l: "same_links {1} ?q1 ?q2" by (simp add: same_links_def ngx_queue_init_def)
  have "queue ?q2 2 (F 2 @ F 1)" using same_links_queue [OF l, of 2 "F 2 @ F 1"] a(1) dis(3) queue_distinct [OF q(2)] by auto
  moreover have "queue ?q2 0 (F 0)"
    using same_links_queue [OF a(2), of 0 "F 0"] same_links_queue [OF l, of 0 "F 0"] q(1) dis by auto
  moreover have "queue ?q2 1 []" by (rule init_queue)
  ultimately have "posted_ok {0, 1, 2} (F(2 := F 2 @ F 1, 1 := [])) (st1\<lparr>pe_queues := ?q2\<rparr>)"
    using ok dis queue_distinct [OF q(2)] queue_distinct [OF q(3)] st1(3) unfolding posted_ok_def by auto
  moreover have "ngx_event_move_posted_next st = Some (st1\<lparr>pe_queues := ?q2\<rparr>)"
    using st1(1,2) by (simp add: ngx_event_move_posted_next_def Let_def)
  ultimately show ?thesis using st1(4) by auto
qed

section \<open>Properties\<close>

text \<open>
  C14: \<^verbatim>\<open>ngx_event_process_posted\<close> returns with an empty queue and the posted events in order (each in one
  queue, and in a queue exactly if marked as posted), whatever the handlers post and delete, as long as
  each call returns, keeps that order and does not make the queue longer.
\<close>

theorem process_posted_ends:
  assumes "posted_ok H F st" "h \<in> H"
    and "\<And>F st ev. posted_ok H F st \<Longrightarrow> \<not> ev_posted st ev \<Longrightarrow> ev \<notin> H \<Longrightarrow>
      \<exists>st' F'. handler ev st = Some st' \<and> posted_ok H F' st' \<and> length (F' h) \<le> length (F h)"
  shows "\<exists>st' F'. ngx_event_process_posted handler h st = Some st' \<and> posted_ok H F' st' \<and> F' h = []"
proof -
  have "posted_handler H h handler" using assms(2,3) by (rule posted_handler.intro [rotated])
  from posted_handler.process_posted [OF this assms(1)] show ?thesis .
qed

definition posted_sample :: posted_events where
  "posted_sample = \<lparr>pe_queues = \<lparr>q_prev = (\<lambda>a. if a = 2 then 4 else if a = 3 then 2 else if a = 4 then 3 else a),
     q_next = (\<lambda>a. if a = 2 then 3 else if a = 3 then 4 else if a = 4 then 2 else a)\<rparr>,
     ev_posted = (\<lambda>a. a \<in> {3, 4}), ev_ready = (\<lambda>_. False), ev_available = (\<lambda>_. 0)\<rparr>"

lemma posted_sample_ok: "posted_ok {0, 1, 2} ((\<lambda>_. [])(2 := [3, 4])) posted_sample"
  by (simp add: posted_ok_def posted_sample_def queue_def)

theorem process_posted_ends_witness:
  "\<exists>st' F'. ngx_event_process_posted (\<lambda>ev st. Some (ngx_post_event ev ngx_posted_next_events st)) 2 posted_sample = Some st'
    \<and> posted_ok {0, 1, 2} F' st' \<and> F' 2 = []"
  by (rule process_posted_ends [OF posted_sample_ok]) (simp, rule repost.handler)

text \<open>
  \<^verbatim>\<open>ngx_event_move_posted_next\<close> returns, puts the events of \<^verbatim>\<open>ngx_posted_next_events\<close> behind those of
  \<^verbatim>\<open>ngx_posted_events\<close> in their order, leaves the former empty, and marks each moved event as ready.
\<close>

theorem move_posted_next:
  assumes "posted_ok {0, 1, 2} F st"
  shows "\<exists>st'. ngx_event_move_posted_next st = Some st'
    \<and> posted_ok {0, 1, 2} (F(ngx_posted_events := F ngx_posted_events @ F ngx_posted_next_events, ngx_posted_next_events := [])) st'
    \<and> (\<forall>ev\<in>set (F ngx_posted_next_events). ev_ready st' ev \<and> ev_available st' ev = - 1)"
  using move_posted_ok [OF assms] .

theorem move_posted_next_witness:
  "\<exists>st'. ngx_event_move_posted_next posted_sample = Some st'
    \<and> posted_ok {0, 1, 2} ((\<lambda>_. [])(2 := [3, 4], 1 := [])) st'"
  using move_posted_next [OF posted_sample_ok] by auto

end
