(* ===== verification/Ngx_Compare.thy ===== *)
theory Ngx_Compare
  imports Ngx_Prelude "HOL-Library.List_Lexorder" "HOL-Library.Sublist"
begin

text \<open>
  The comparison and search routines of \<^verbatim>\<open>src/reference/nginx-master/src/core/ngx_string.c\<close>.

  A pointer is the list of the bytes from there to the end of the object it points into; to read at
  its end is the result \<open>None\<close>. The libc functions \<^verbatim>\<open>strncmp\<close>, \<^verbatim>\<open>strlen\<close> and \<^verbatim>\<open>memcmp\<close> are those of the C
  standard. \<^verbatim>\<open>ngx_filename_cmp\<close> is that of a build without \<^verbatim>\<open>NGX_HAVE_CASELESS_FILESYSTEM\<close>.
\<close>

section \<open>The routines\<close>

definition ngx_tolower :: "u_char \<Rightarrow> u_char" where
  "ngx_tolower c = (if ch_A \<le> c \<and> c \<le> ch_Z then c OR 0x20 else c)"

text \<open>\<^verbatim>\<open>c1 - c2\<close>\<close>

abbreviation byte_diff :: "u_char \<Rightarrow> u_char \<Rightarrow> int" where
  "byte_diff c1 c2 \<equiv> int (unat c1) - int (unat c2)"

fun ngx_strlow :: "u_char list \<Rightarrow> nat \<Rightarrow> u_char list option" where
  "ngx_strlow src 0 = Some []"
| "ngx_strlow [] (Suc n) = None"
| "ngx_strlow (c # src) (Suc n) = map_option ((#) (ngx_tolower c)) (ngx_strlow src n)"

fun ngx_strnlen :: "u_char list \<Rightarrow> nat \<Rightarrow> nat option" where
  "ngx_strnlen p 0 = Some 0"
| "ngx_strnlen [] (Suc n) = None"
| "ngx_strnlen (c # p) (Suc n) = (if c = 0 then Some 0 else map_option Suc (ngx_strnlen p n))"

text \<open>The bytes \<^verbatim>\<open>ngx_cpystrn\<close> writes; the result points to the last of them, the \<^verbatim>\<open>NUL\<close>.\<close>

fun cpystrn_loop :: "u_char list \<Rightarrow> nat \<Rightarrow> u_char list option" where
  "cpystrn_loop src 0 = Some [0]"
| "cpystrn_loop [] (Suc n) = None"
| "cpystrn_loop (c # src) (Suc n) = (if c = 0 then Some [0] else map_option ((#) c) (cpystrn_loop src n))"

definition ngx_cpystrn :: "u_char list \<Rightarrow> nat \<Rightarrow> u_char list option" where
  "ngx_cpystrn src n = (if n = 0 then Some [] else cpystrn_loop src (n - 1))"

fun ngx_strcasecmp :: "u_char list \<Rightarrow> u_char list \<Rightarrow> int option" where
  "ngx_strcasecmp (c1 # s1) (c2 # s2) =
     (let c1 = ngx_tolower c1; c2 = ngx_tolower c2
      in if c1 = c2 then (if c1 \<noteq> 0 then ngx_strcasecmp s1 s2 else Some 0)
         else Some (byte_diff c1 c2))"
| "ngx_strcasecmp _ _ = None"

fun ngx_strncasecmp :: "u_char list \<Rightarrow> u_char list \<Rightarrow> nat \<Rightarrow> int option" where
  "ngx_strncasecmp s1 s2 0 = Some 0"
| "ngx_strncasecmp (c1 # s1) (c2 # s2) (Suc n) =
     (let c1 = ngx_tolower c1; c2 = ngx_tolower c2
      in if c1 = c2 then (if c1 \<noteq> 0 then ngx_strncasecmp s1 s2 n else Some 0)
         else Some (byte_diff c1 c2))"
| "ngx_strncasecmp _ _ (Suc n) = None"

fun ngx_strncmp :: "u_char list \<Rightarrow> u_char list \<Rightarrow> nat \<Rightarrow> int option" where
  "ngx_strncmp s1 s2 0 = Some 0"
| "ngx_strncmp (c1 # s1) (c2 # s2) (Suc n) =
     (if c1 = c2 then (if c1 \<noteq> 0 then ngx_strncmp s1 s2 n else Some 0) else Some (byte_diff c1 c2))"
| "ngx_strncmp _ _ (Suc n) = None"

fun ngx_strlen :: "u_char list \<Rightarrow> nat option" where
  "ngx_strlen [] = None"
| "ngx_strlen (c # s) = (if c = 0 then Some 0 else map_option Suc (ngx_strlen s))"

text \<open>The searches return the offset of the place found, or \<open>None\<close> for \<^verbatim>\<open>NULL\<close>. \<open>s2\<close> is the text behind its
  first byte \<open>c2\<close>.\<close>

fun strnstr_loop :: "u_char \<Rightarrow> u_char list \<Rightarrow> nat \<Rightarrow> u_char list \<Rightarrow> nat \<Rightarrow> nat option option" where
  "strnstr_loop c2 s2 n s1 0 = Some None"
| "strnstr_loop c2 s2 n [] (Suc len) = None"
| "strnstr_loop c2 s2 n (c1 # s1) (Suc len) =
     (if c1 = 0 then Some None
      else if c1 \<noteq> c2 then map_option (map_option Suc) (strnstr_loop c2 s2 n s1 len)
      else if n > len then Some None
      else Option.bind (ngx_strncmp s1 s2 n)
        (\<lambda>r. if r \<noteq> 0 then map_option (map_option Suc) (strnstr_loop c2 s2 n s1 len) else Some (Some 0)))"

fun ngx_strnstr :: "u_char list \<Rightarrow> u_char list \<Rightarrow> nat \<Rightarrow> nat option option" where
  "ngx_strnstr s1 [] len = None"
| "ngx_strnstr s1 (c2 # s2) len = Option.bind (ngx_strlen s2) (\<lambda>n. strnstr_loop c2 s2 n s1 len)"

fun strstrn_loop :: "u_char \<Rightarrow> u_char list \<Rightarrow> nat \<Rightarrow> u_char list \<Rightarrow> nat option option" where
  "strstrn_loop c2 s2 n [] = None"
| "strstrn_loop c2 s2 n (c1 # s1) =
     (if c1 = 0 then Some None
      else if c1 \<noteq> c2 then map_option (map_option Suc) (strstrn_loop c2 s2 n s1)
      else Option.bind (ngx_strncmp s1 s2 n)
        (\<lambda>r. if r \<noteq> 0 then map_option (map_option Suc) (strstrn_loop c2 s2 n s1) else Some (Some 0)))"

fun ngx_strstrn :: "u_char list \<Rightarrow> u_char list \<Rightarrow> nat \<Rightarrow> nat option option" where
  "ngx_strstrn s1 [] n = None"
| "ngx_strstrn s1 (c2 # s2) n = strstrn_loop c2 s2 n s1"

text \<open>In \<^verbatim>\<open>ngx_strcasestrn\<close> the sought text has type \<^verbatim>\<open>char *\<close>: the conversion of its first byte to
  \<^verbatim>\<open>ngx_uint_t\<close> extends the sign, that of the bytes of \<^verbatim>\<open>s1\<close> does not.\<close>

definition uint_tolower :: "64 word \<Rightarrow> 64 word" where
  "uint_tolower c = (if 0x41 \<le> c \<and> c \<le> 0x5A then c OR 0x20 else c)"

fun strcasestrn_loop :: "64 word \<Rightarrow> u_char list \<Rightarrow> nat \<Rightarrow> u_char list \<Rightarrow> nat option option" where
  "strcasestrn_loop c2 s2 n [] = None"
| "strcasestrn_loop c2 s2 n (c1 # s1) =
     (if c1 = 0 then Some None
      else if uint_tolower (ucast c1) \<noteq> c2 then map_option (map_option Suc) (strcasestrn_loop c2 s2 n s1)
      else Option.bind (ngx_strncasecmp s1 s2 n)
        (\<lambda>r. if r \<noteq> 0 then map_option (map_option Suc) (strcasestrn_loop c2 s2 n s1) else Some (Some 0)))"

fun ngx_strcasestrn :: "u_char list \<Rightarrow> u_char list \<Rightarrow> nat \<Rightarrow> nat option option" where
  "ngx_strcasestrn s1 [] n = None"
| "ngx_strcasestrn s1 (c2 # s2) n = strcasestrn_loop (uint_tolower (scast c2)) s2 n s1"

text \<open>\<open>room\<close> is the distance of \<^verbatim>\<open>last\<close> from \<^verbatim>\<open>s1\<close> after \<^verbatim>\<open>last -= n\<close>, which may be negative.\<close>

fun strlcasestrn_loop :: "u_char \<Rightarrow> u_char list \<Rightarrow> nat \<Rightarrow> u_char list \<Rightarrow> int \<Rightarrow> nat option option" where
  "strlcasestrn_loop c2 s2 n s1 room =
     (if room \<le> 0 then Some None
      else case s1 of [] \<Rightarrow> None
      | c1 # s1 \<Rightarrow>
          if ngx_tolower c1 \<noteq> c2 then map_option (map_option Suc) (strlcasestrn_loop c2 s2 n s1 (room - 1))
          else Option.bind (ngx_strncasecmp s1 s2 n)
            (\<lambda>r. if r \<noteq> 0 then map_option (map_option Suc) (strlcasestrn_loop c2 s2 n s1 (room - 1))
                 else Some (Some 0)))"

fun ngx_strlcasestrn :: "u_char list \<Rightarrow> int \<Rightarrow> u_char list \<Rightarrow> nat \<Rightarrow> nat option option" where
  "ngx_strlcasestrn s1 lst [] n = None"
| "ngx_strlcasestrn s1 lst (c2 # s2) n = strlcasestrn_loop (ngx_tolower c2) s2 n s1 (lst - int n)"

text \<open>The comparisons from the end.\<close>

fun rstrncmp_loop :: "(u_char \<Rightarrow> u_char) \<Rightarrow> u_char list \<Rightarrow> u_char list \<Rightarrow> nat \<Rightarrow> int option" where
  "rstrncmp_loop f s1 s2 n =
     (if n < length s1 \<and> n < length s2 then
        if f (s1 ! n) \<noteq> f (s2 ! n) then Some (byte_diff (f (s1 ! n)) (f (s2 ! n)))
        else if n = 0 then Some 0
        else rstrncmp_loop f s1 s2 (n - 1)
      else None)"

declare strlcasestrn_loop.simps [simp del] rstrncmp_loop.simps [simp del]

definition ngx_rstrncmp :: "u_char list \<Rightarrow> u_char list \<Rightarrow> nat \<Rightarrow> int option" where
  "ngx_rstrncmp s1 s2 n = (if n = 0 then Some 0 else rstrncmp_loop id s1 s2 (n - 1))"

definition rstr_upper :: "u_char \<Rightarrow> u_char" where
  "rstr_upper c = (if ch_a \<le> c \<and> c \<le> ch_z then c - (ch_a - ch_A) else c)"

definition ngx_rstrncasecmp :: "u_char list \<Rightarrow> u_char list \<Rightarrow> nat \<Rightarrow> int option" where
  "ngx_rstrncasecmp s1 s2 n = (if n = 0 then Some 0 else rstrncmp_loop rstr_upper s1 s2 (n - 1))"

fun ngx_memcmp :: "u_char list \<Rightarrow> u_char list \<Rightarrow> nat \<Rightarrow> int option" where
  "ngx_memcmp s1 s2 0 = Some 0"
| "ngx_memcmp (c1 # s1) (c2 # s2) (Suc n) = (if c1 = c2 then ngx_memcmp s1 s2 n else Some (byte_diff c1 c2))"
| "ngx_memcmp _ _ (Suc n) = None"

definition ngx_memn2cmp :: "u_char list \<Rightarrow> u_char list \<Rightarrow> nat \<Rightarrow> nat \<Rightarrow> int option" where
  "ngx_memn2cmp s1 s2 n1 n2 =
     (let (n, z) = (if n1 \<le> n2 then (n1, - 1) else (n2, 1))
      in Option.bind (ngx_memcmp s1 s2 n) (\<lambda>m. Some (if m \<noteq> 0 \<or> n1 = n2 then m else z)))"

fun ngx_dns_strcmp :: "u_char list \<Rightarrow> u_char list \<Rightarrow> int option" where
  "ngx_dns_strcmp (c1 # s1) (c2 # s2) =
     (let c1 = ngx_tolower c1; c2 = ngx_tolower c2
      in if c1 = c2 then (if c1 \<noteq> 0 then ngx_dns_strcmp s1 s2 else Some 0)
         else
           (let c1 = (if c1 = ch_dot then ch_sp else c1);
                c2 = (if c2 = ch_dot then ch_sp else c2)
            in Some (byte_diff c1 c2)))"
| "ngx_dns_strcmp _ _ = None"

fun ngx_filename_cmp :: "u_char list \<Rightarrow> u_char list \<Rightarrow> nat \<Rightarrow> int option" where
  "ngx_filename_cmp s1 s2 0 = Some 0"
| "ngx_filename_cmp (c1 # s1) (c2 # s2) (Suc n) =
     (if c1 = c2 then (if c1 \<noteq> 0 then ngx_filename_cmp s1 s2 n else Some 0)
      else if c1 = 0 \<or> c2 = 0 then Some (byte_diff c1 c2)
      else
        (let c1 = (if c1 = ch_slash then 0 else c1);
             c2 = (if c2 = ch_slash then 0 else c2)
         in Some (byte_diff c1 c2)))"
| "ngx_filename_cmp _ _ (Suc n) = None"

section \<open>Orders on strings\<close>

text \<open>Bytes are compared by a key that is least for \<^verbatim>\<open>NUL\<close>, for the bytes in \<open>K\<close>.\<close>

locale byte_key =
  fixes key :: "u_char \<Rightarrow> nat" and K :: "u_char set"
  assumes zero: "0 \<in> K" "a \<in> K \<Longrightarrow> key a = 0 \<longleftrightarrow> a = 0"

text \<open>A comparison of two \<^verbatim>\<open>NUL\<close>-terminated strings, and one of which at most \<open>n\<close> bytes count.\<close>

locale string_order = byte_key +
  fixes cmp :: "u_char list \<Rightarrow> u_char list \<Rightarrow> int option"
  assumes ends: "cmp (0 # s) (0 # t) = Some 0"
    and equal: "a \<in> K \<Longrightarrow> b \<in> K \<Longrightarrow> a \<noteq> 0 \<Longrightarrow> key a = key b \<Longrightarrow> cmp (a # s) (b # t) = cmp s t"
    and differs: "a \<in> K \<Longrightarrow> b \<in> K \<Longrightarrow> key a \<noteq> key b \<Longrightarrow>
      \<exists>r. cmp (a # s) (b # t) = Some r \<and> (r < 0 \<longleftrightarrow> key a < key b) \<and> r \<noteq> 0"
begin

lemma compares:
  assumes "set x \<subseteq> K - {0}" "set y \<subseteq> K - {0}"
  shows "\<exists>r. cmp (x @ 0 # s) (y @ 0 # t) = Some r \<and> (r < 0 \<longleftrightarrow> map key x < map key y) \<and> (r = 0 \<longleftrightarrow> map key x = map key y)"
  using assms
proof (induction x arbitrary: y)
  case Nil
  show ?case
  proof (cases y)
    case (Cons b y')
    with Nil.prems zero(2) [of b] zero have "b \<in> K" "key b \<noteq> 0" "key 0 = 0" by auto
    with differs [of 0 b s "y' @ 0 # t"] zero(1) Cons show ?thesis by auto
  qed (simp add: ends)
next
  case (Cons a x')
  then have a: "a \<in> K" "key a \<noteq> 0" "a \<noteq> 0" using zero(2) [of a] by auto
  have z: "key 0 = 0" using zero by auto
  show ?case
  proof (cases y)
    case Nil
    with differs [of a 0 "x' @ 0 # s" t] zero(1) z a show ?thesis by auto
  next
    case (Cons b y')
    with Cons.prems have b: "b \<in> K" "b \<noteq> 0" by auto
    show ?thesis
    proof (cases "key a = key b")
      case True
      with Cons.prems Cons Cons.IH [of y'] equal [of a b "x' @ 0 # s" "y' @ 0 # t"] a b show ?thesis by auto
    next
      case False
      with Cons differs [of a b "x' @ 0 # s" "y' @ 0 # t"] a b show ?thesis by auto
    qed
  qed
qed

end

locale string_order_n = byte_key +
  fixes cmp :: "u_char list \<Rightarrow> u_char list \<Rightarrow> nat \<Rightarrow> int option"
  assumes none: "cmp s t 0 = Some 0"
    and ends: "cmp (0 # s) (0 # t) (Suc n) = Some 0"
    and equal: "a \<in> K \<Longrightarrow> b \<in> K \<Longrightarrow> a \<noteq> 0 \<Longrightarrow> key a = key b \<Longrightarrow> cmp (a # s) (b # t) (Suc n) = cmp s t n"
    and differs: "a \<in> K \<Longrightarrow> b \<in> K \<Longrightarrow> key a \<noteq> key b \<Longrightarrow>
      \<exists>r. cmp (a # s) (b # t) (Suc n) = Some r \<and> (r < 0 \<longleftrightarrow> key a < key b) \<and> r \<noteq> 0"
begin

lemma compares:
  assumes "set x \<subseteq> K - {0}" "set y \<subseteq> K - {0}"
  shows "\<exists>r. cmp (x @ 0 # s) (y @ 0 # t) n = Some r \<and> (r < 0 \<longleftrightarrow> map key (take n x) < map key (take n y))
    \<and> (r = 0 \<longleftrightarrow> map key (take n x) = map key (take n y))"
  using assms
proof (induction n arbitrary: x y)
  case 0
  then show ?case by (simp add: none)
next
  case (Suc n)
  have z: "key 0 = 0" using zero by auto
  show ?case
  proof (cases x)
    case Nil
    show ?thesis
    proof (cases y)
      case (Cons b y')
      with Suc.prems zero(2) [of b] have "b \<in> K" "key b \<noteq> 0" by auto
      with differs [of 0 b s "y' @ 0 # t" n] zero(1) z Cons Nil show ?thesis by auto
    qed (simp add: Nil ends)
  next
    case x: (Cons a x')
    then have a: "a \<in> K" "key a \<noteq> 0" "a \<noteq> 0" using zero(2) [of a] Suc.prems by auto
    show ?thesis
    proof (cases y)
      case Nil
      with differs [of a 0 "x' @ 0 # s" t n] zero(1) z a x show ?thesis by auto
    next
      case y: (Cons b y')
      with Suc.prems have b: "b \<in> K" by auto
      show ?thesis
      proof (cases "key a = key b")
        case True
        with Suc.prems x y Suc.IH [of x' y'] equal [of a b "x' @ 0 # s" "y' @ 0 # t" n] a b show ?thesis by auto
      next
        case False
        with x y differs [of a b "x' @ 0 # s" "y' @ 0 # t" n] a b show ?thesis by auto
      qed
    qed
  qed
qed

end

text \<open>The comparisons of the code: without regard to case, with the dot lowest (among the bytes above the
  blank), and with the slash lowest.\<close>

definition dns_low :: "u_char \<Rightarrow> u_char" where
  "dns_low c = (if ngx_tolower c = ch_dot then ch_sp else ngx_tolower c)"

definition file_key :: "u_char \<Rightarrow> nat" where
  "file_key c = (if c = 0 then 0 else if c = ch_slash then 1 else Suc (unat c))"

lemma byte_compare:
  fixes a b :: u_char
  shows "uint a < uint b \<longleftrightarrow> unat a < unat b" "uint a = uint b \<longleftrightarrow> a = b" "unat a = unat b \<longleftrightarrow> a = b" "unat a = 0 \<longleftrightarrow> a = 0"
  by (simp_all flip: word_less_nat_alt word_less_def add: word_uint_eq_iff unat_eq_zero) (simp add: word_unat_eq_iff flip: word_uint_eq_iff)

lemma tolower_zero: "ngx_tolower c = 0 \<longleftrightarrow> c = 0" "ngx_tolower 0 = 0"
  by (rule byte_all [where x = c]) code_simp+

lemma dns_low_zero: "dns_low c = 0 \<longleftrightarrow> c = 0"
  by (rule byte_all [where x = c]) code_simp

lemma tolower_blank: "ngx_tolower c = ch_sp \<longleftrightarrow> c = ch_sp"
  by (rule byte_all [where x = c]) code_simp

lemma dns_low_eq: "a \<noteq> ch_sp \<Longrightarrow> b \<noteq> ch_sp \<Longrightarrow> dns_low a = dns_low b \<longleftrightarrow> ngx_tolower a = ngx_tolower b"
  using tolower_blank [of a] tolower_blank [of b] by (auto simp: dns_low_def)

lemma dns_step:
  "ngx_dns_strcmp (c1 # s1) (c2 # s2) =
     (if ngx_tolower c1 = ngx_tolower c2 then (if c1 \<noteq> 0 then ngx_dns_strcmp s1 s2 else Some 0)
      else Some (byte_diff (dns_low c1) (dns_low c2)))"
  using tolower_zero(1) [of c1] tolower_zero(2) by (auto simp: dns_low_def Let_def)

lemma file_key_laws: "file_key a = 0 \<longleftrightarrow> a = 0" "file_key a = file_key b \<longleftrightarrow> a = b"
  using byte_compare(4) [of a] byte_compare(4) [of b] by (auto simp: file_key_def byte_compare(3))

lemma file_differs:
  assumes "a \<noteq> b"
  shows "\<exists>r. ngx_filename_cmp (a # s) (b # t) (Suc n) = Some r \<and> (r < 0 \<longleftrightarrow> file_key a < file_key b) \<and> r \<noteq> 0"
proof -
  have pos: "0 < unat c" if "c \<noteq> 0" for c :: u_char using that byte_compare(4) [of c] by linarith
  show ?thesis
  proof (cases "a = 0 \<or> b = 0")
    case True
    then show ?thesis using assms pos by (auto simp: file_key_def byte_compare simp del: of_nat_unat)
  next
    case False
    then show ?thesis using assms pos [of a] pos [of b] byte_compare(3) [of a b]
      by (auto simp: file_key_def Let_def byte_compare simp del: of_nat_unat)
  qed
qed

interpretation casecmp: string_order "\<lambda>c. unat (ngx_tolower c)" UNIV ngx_strcasecmp
  by unfold_locales (auto simp: Let_def tolower_zero byte_compare)

interpretation ncasecmp: string_order_n "\<lambda>c. unat (ngx_tolower c)" UNIV ngx_strncasecmp
  by unfold_locales (auto simp: Let_def tolower_zero byte_compare)

interpretation dns: string_order "\<lambda>c. unat (dns_low c)" "UNIV - {ch_sp}" ngx_dns_strcmp
  by unfold_locales (auto simp: dns_step dns_low_eq dns_low_zero byte_compare simp del: ngx_dns_strcmp.simps)

interpretation filecmp: string_order_n file_key UNIV ngx_filename_cmp
proof unfold_locales
  fix a b :: u_char and s t n
  assume "file_key a \<noteq> file_key b"
  then show "\<exists>r. ngx_filename_cmp (a # s) (b # t) (Suc n) = Some r \<and> (r < 0 \<longleftrightarrow> file_key a < file_key b) \<and> r \<noteq> 0"
    by (intro file_differs) auto
qed (auto simp: file_key_laws)

text \<open>The comparisons of blocks, forwards and from the end.\<close>

lemma memcmp_order:
  assumes "n \<le> length s" "n \<le> length t"
  shows "\<exists>r. ngx_memcmp s t n = Some r \<and> (r < 0 \<longleftrightarrow> map unat (take n s) < map unat (take n t)) \<and> (r = 0 \<longleftrightarrow> take n s = take n t)"
  using assms
proof (induction s t n rule: ngx_memcmp.induct)
  case (2 c1 s1 c2 s2 n)
  then show ?case by (cases "c1 = c2") (auto simp: byte_compare)
qed auto

lemma less_append_prefix: "length xs < length ys \<Longrightarrow> xs = take (length xs) ys \<Longrightarrow> xs < (ys :: nat list)"
proof (induction xs arbitrary: ys)
  case Nil
  then show ?case by (cases ys) auto
next
  case (Cons x xs)
  then show ?case by (cases ys) auto
qed

lemma take_less:
  assumes "length xs \<le> length ys" "xs \<noteq> take (length xs) ys"
  shows "xs < ys \<longleftrightarrow> xs < take (length xs) (ys :: nat list)"
  using assms
proof (induction xs arbitrary: ys)
  case (Cons x xs)
  then show ?case by (cases ys) auto
qed simp

lemma less_take:
  assumes "length ys \<le> length xs" "take (length ys) xs \<noteq> ys"
  shows "xs < ys \<longleftrightarrow> take (length ys) xs < (ys :: nat list)"
  using assms
proof (induction ys arbitrary: xs)
  case (Cons y ys)
  then show ?case by (cases xs) auto
qed simp

lemma memn2cmp_order:
  "\<exists>r. ngx_memn2cmp s t (length s) (length t) = Some r \<and> (r < 0 \<longleftrightarrow> map unat s < map unat t) \<and> (r = 0 \<longleftrightarrow> s = t)"
proof (cases "length s \<le> length t")
  case True
  from memcmp_order [of "length s" s t] True obtain r where
    r: "ngx_memcmp s t (length s) = Some r" "r < 0 \<longleftrightarrow> map unat s < map unat (take (length s) t)" "r = 0 \<longleftrightarrow> s = take (length s) t"
    by auto
  have m: "map unat s = map unat (take (length s) t) \<longleftrightarrow> s = take (length s) t"
    by (metis (mono_tags) inj_map_eq_map inj_def word_unat_eq_iff)
  show ?thesis
  proof (cases "r = 0")
    case False
    then have "map unat s \<noteq> take (length (map unat s)) (map unat t)" using r(3) m by (simp add: take_map)
    with take_less [of "map unat s" "map unat t"] True r False show ?thesis
      by (auto simp: ngx_memn2cmp_def Let_def take_map)
  next
    case eq: True
    then show ?thesis using r True less_append_prefix [of "map unat s" "map unat t"] m
      by (cases "length s = length t") (auto simp: ngx_memn2cmp_def Let_def take_map)
  qed
next
  case False
  from memcmp_order [of "length t" s t] False obtain r where
    r: "ngx_memcmp s t (length t) = Some r" "r < 0 \<longleftrightarrow> map unat (take (length t) s) < map unat t" "r = 0 \<longleftrightarrow> take (length t) s = t"
    by auto
  have m: "map unat (take (length t) s) = map unat t \<longleftrightarrow> take (length t) s = t"
    by (metis (mono_tags) inj_map_eq_map inj_def word_unat_eq_iff)
  show ?thesis
  proof (cases "r = 0")
    case ne: False
    then have "take (length (map unat t)) (map unat s) \<noteq> map unat t" using r(3) m by (simp add: take_map)
    with less_take [of "map unat t" "map unat s"] False r ne show ?thesis
      by (auto simp: ngx_memn2cmp_def Let_def take_map)
  next
    case eq: True
    then have "map unat t < map unat s" using r(3) False m less_append_prefix [of "map unat t" "map unat s"] by (simp add: take_map)
    then show ?thesis using r eq False by (auto simp: ngx_memn2cmp_def Let_def)
  qed
qed

lemma rstrncmp_order:
  assumes "n < length s" "n < length t"
  shows "\<exists>r. rstrncmp_loop f s t n = Some r
    \<and> (r < 0 \<longleftrightarrow> map (\<lambda>a. unat (f a)) (rev (take (Suc n) s)) < map (\<lambda>a. unat (f a)) (rev (take (Suc n) t)))
    \<and> (r = 0 \<longleftrightarrow> map f (take (Suc n) s) = map f (take (Suc n) t))"
  using assms
proof (induction n)
  case 0
  then show ?case by (auto simp: rstrncmp_loop.simps [of f s t 0] take_Suc_conv_app_nth byte_compare)
next
  case (Suc n)
  from Suc.IH Suc.prems obtain r where r: "rstrncmp_loop f s t n = Some r"
      "r < 0 \<longleftrightarrow> map (\<lambda>a. unat (f a)) (rev (take (Suc n) s)) < map (\<lambda>a. unat (f a)) (rev (take (Suc n) t))"
      "r = 0 \<longleftrightarrow> map f (take (Suc n) s) = map f (take (Suc n) t)" by (metis Suc_lessD)
  have "take (Suc (Suc n)) s = take (Suc n) s @ [s ! Suc n]" "take (Suc (Suc n)) t = take (Suc n) t @ [t ! Suc n]"
    using Suc.prems by (simp_all add: take_Suc_conv_app_nth)
  then show ?case using r Suc.prems
    by (cases "f (s ! Suc n) = f (t ! Suc n)") (auto simp: rstrncmp_loop.simps [of f s t "Suc n"] byte_compare)
qed

section \<open>Searching\<close>

text \<open>The first place at which a text stands.\<close>

fun find_first :: "'a list \<Rightarrow> 'a list \<Rightarrow> nat option" where
  "find_first pat [] = (if pat = [] then Some 0 else None)"
| "find_first pat (c # cs) = (if prefix pat (c # cs) then Some 0 else map_option Suc (find_first pat cs))"

lemma find_first_short: "length xs < length pat \<Longrightarrow> find_first pat xs = None"
proof (induction xs)
  case (Cons x xs)
  then have "\<not> prefix pat (x # xs)" using prefix_length_le by fastforce
  with Cons show ?case by simp
qed auto

lemma prefix_iff_take: "prefix p xs \<longleftrightarrow> take (length p) xs = p"
  by (metis append_eq_conv_conj append_take_drop_id prefix_def)

abbreviation until_nul :: "u_char list \<Rightarrow> u_char list" where
  "until_nul s \<equiv> takeWhile (\<lambda>c. c \<noteq> 0) s"

lemma prefix_until_nul:
  "0 \<notin> set p \<Longrightarrow> prefix p (until_nul (take n s)) \<longleftrightarrow> length p \<le> n \<and> prefix p s"
proof (induction p arbitrary: s n)
  case (Cons a p)
  then show ?case by (cases s; cases n) auto
qed simp

lemma strncmp_prefix:
  assumes "0 \<notin> set p" "length p \<le> length s \<or> 0 \<in> set s"
  shows "\<exists>r. ngx_strncmp s (p @ q) (length p) = Some r \<and> (r = 0 \<longleftrightarrow> prefix p s)"
  using assms
proof (induction p arbitrary: s)
  case (Cons a p)
  then show ?case by (cases s) (auto simp: byte_compare)
qed simp

lemma strncasecmp_prefix:
  assumes "0 \<notin> set p" "length p \<le> length s \<or> 0 \<in> set s"
  shows "\<exists>r. ngx_strncasecmp s (p @ q) (length p) = Some r \<and> (r = 0 \<longleftrightarrow> prefix (map ngx_tolower p) (map ngx_tolower s))"
  using assms
proof (induction p arbitrary: s)
  case (Cons a p)
  then show ?case by (cases s) (auto simp: byte_compare Let_def tolower_zero)
qed simp

lemma strnstr_loop_first:
  assumes "0 \<notin> set p" "c \<noteq> 0" "len \<le> length s \<or> 0 \<in> set s"
  shows "strnstr_loop c (p @ q) (length p) s len = Some (find_first (c # p) (until_nul (take len s)))"
  using assms(3)
proof (induction s arbitrary: len)
  case Nil
  then show ?case by simp
next
  case (Cons c1 s1)
  show ?case
  proof (cases len)
    case len: (Suc len')
    show ?thesis
    proof (cases "c1 = 0 \<or> c1 \<noteq> c")
      case True
      with Cons len show ?thesis by auto
    next
      case False
      show ?thesis
      proof (cases "length p > len'")
        case True
        have "length (until_nul (take len' s1)) \<le> len'"
          by (metis length_takeWhile_le length_take le_trans min.cobounded2)
        then have "find_first (c # p) (c # until_nul (take len' s1)) = None" using True by (intro find_first_short) simp
        with False True assms(2) len show ?thesis by simp
      next
        case le: False
        have "length p \<le> length s1 \<or> 0 \<in> set s1" using Cons.prems len False le by auto
        from strncmp_prefix [OF assms(1) this]
        obtain r where r: "ngx_strncmp s1 (p @ q) (length p) = Some r" "r = 0 \<longleftrightarrow> prefix p s1" by blast
        have "prefix p (until_nul (take len' s1)) \<longleftrightarrow> prefix p s1" using prefix_until_nul [OF assms(1)] le by auto
        then show ?thesis using r False le Cons len assms(2) by auto
      qed
    qed
  qed simp
qed

lemma prefix_until: "0 \<notin> set p \<Longrightarrow> prefix p (until_nul s) \<longleftrightarrow> prefix p s"
  using prefix_until_nul [of p "length p + length s" s] by simp

lemma strstrn_loop_first:
  assumes "0 \<notin> set p" "c \<noteq> 0" "0 \<in> set s"
  shows "strstrn_loop c (p @ q) (length p) s = Some (find_first (c # p) (until_nul s))"
  using assms(3)
proof (induction s)
  case (Cons c1 s1)
  show ?case
  proof (cases "c1 = 0 \<or> c1 \<noteq> c")
    case True
    with Cons show ?thesis by auto
  next
    case False
    then have "0 \<in> set s1" using Cons.prems assms(2) by auto
    with strncmp_prefix [OF assms(1)]
    obtain r where r: "ngx_strncmp s1 (p @ q) (length p) = Some r" "r = 0 \<longleftrightarrow> prefix p s1" by blast
    then show ?thesis using False Cons assms(2) \<open>0 \<in> set s1\<close> prefix_until [OF assms(1), of s1] by auto
  qed
qed simp

lemma strnstr_first:
  assumes "0 \<notin> set pat" "pat \<noteq> []" "len \<le> length s \<or> 0 \<in> set s"
  shows "ngx_strnstr s (pat @ [0]) len = Some (find_first pat (until_nul (take len s)))"
proof (cases pat)
  case (Cons c p)
  have "ngx_strlen (p @ [0]) = Some (length p)" if "0 \<notin> set p" for p using that by (induction p) auto
  with strnstr_loop_first [of p c len s "[0]"] assms Cons show ?thesis by simp
qed (use assms in simp)

lemma strstrn_first:
  assumes "0 \<notin> set pat" "pat \<noteq> []" "0 \<in> set s"
  shows "ngx_strstrn s pat (length pat - 1) = Some (find_first pat (until_nul s))"
  using strstrn_loop_first [of "tl pat" "hd pat" s "[]"] assms by (cases pat) auto

text \<open>Without regard to case.\<close>

abbreviation lower :: "u_char list \<Rightarrow> u_char list" where
  "lower \<equiv> map ngx_tolower"

lemma lower_until: "until_nul (lower s) = lower (until_nul s)"
  by (induction s) (auto simp: tolower_zero)

lemma lower_zero: "0 \<in> set (lower s) \<longleftrightarrow> 0 \<in> set s"
  using tolower_zero by (force simp: image_iff)

lemma sint_byte: "sint (c :: u_char) = (if c < 0x80 then uint c else uint c - 256)"
  by (rule byte_all [where x = c]) code_simp

lemma scast_byte:
  "c < 0x80 \<Longrightarrow> (scast (c :: u_char) :: 64 word) = ucast c"
  "\<not> c < 0x80 \<Longrightarrow> \<not> (scast (c :: u_char) :: 64 word) < 0x100"
proof -
  have w: "(scast c :: 64 word) = word_of_int (sint c)" by simp
  then show "c < 0x80 \<Longrightarrow> (scast c :: 64 word) = ucast c" by (simp add: sint_byte)
  assume high: "\<not> c < 0x80"
  have c: "0 \<le> uint c" "uint c < 256" using uint_bounded [of c] by simp_all
  have "uint (scast c :: 64 word) = (uint c - 256) mod 2 ^ 64" unfolding w uint_word_of_int using high by (simp add: sint_byte)
  also have "\<dots> = (uint c - 256 + 2 ^ 64) mod 2 ^ 64" by (rule mod_add_self2 [symmetric])
  also have "\<dots> = uint c - 256 + 2 ^ 64" using c by (intro mod_pos_pos_trivial) auto
  moreover have "(0x100 :: int) \<le> 2 ^ 64 - 256" by simp
  ultimately have "0x100 \<le> uint (scast c :: 64 word)" using c(1) by linarith
  then show "\<not> (scast c :: 64 word) < 0x100" by (simp add: word_less_def)
qed

lemma tolower_ucast: "uint_tolower (ucast c) = ucast (ngx_tolower c)"
  by (simp add: uint_tolower_def ngx_tolower_def word_le_nat_alt unsigned_or_eq)

lemma tolower_words:
  "c < 0x80 \<Longrightarrow> uint_tolower (scast c) = ucast (ngx_tolower c)"
  "\<not> c < 0x80 \<Longrightarrow> \<not> uint_tolower (scast c) < 0x100"
  using scast_byte [of c] tolower_ucast [of c] by (auto simp: uint_tolower_def word_le_def word_less_def)

lemma ucast_byte_inj: "(ucast (a :: u_char) :: 64 word) = ucast b \<longleftrightarrow> a = b"
  by (simp add: word_uint_eq_iff uint_up_ucast is_up)

lemma strcasestrn_loop_first:
  assumes "0 \<notin> set p" "c \<noteq> 0" "0 \<in> set s"
  shows "strcasestrn_loop (ucast (ngx_tolower c)) (p @ q) (length p) s = Some (find_first (lower (c # p)) (lower (until_nul s)))"
  using assms(3)
proof (induction s)
  case (Cons c1 s1)
  show ?case
  proof (cases "c1 = 0 \<or> ngx_tolower c1 \<noteq> ngx_tolower c")
    case True
    with Cons show ?thesis by (auto simp: tolower_ucast ucast_byte_inj)
  next
    case False
    then have "0 \<in> set s1" using Cons.prems by auto
    with strncasecmp_prefix [OF assms(1)] obtain r where
      r: "ngx_strncasecmp s1 (p @ q) (length p) = Some r" "r = 0 \<longleftrightarrow> prefix (lower p) (lower s1)" by blast
    have "prefix (lower p) (lower (until_nul s1)) \<longleftrightarrow> prefix (lower p) (lower s1)"
      using prefix_until [of "lower p" "lower s1"] assms(1) lower_zero [of p] lower_until [of s1] by simp
    then show ?thesis using r False Cons assms(2) \<open>0 \<in> set s1\<close> by (auto simp: tolower_ucast ucast_byte_inj)
  qed
qed simp

lemma strcasestrn_first:
  assumes "0 \<notin> set pat" "pat \<noteq> []" "hd pat < 0x80" "0 \<in> set s"
  shows "ngx_strcasestrn s pat (length pat - 1) = Some (find_first (lower pat) (lower (until_nul s)))"
  using strcasestrn_loop_first [of "tl pat" "hd pat" s "[]"] assms by (cases pat) (auto simp: tolower_words)

text \<open>A text that starts with a byte above 127 is never found.\<close>

lemma strcasestrn_loop_none: "\<not> c < 0x100 \<Longrightarrow> 0 \<in> set s \<Longrightarrow> strcasestrn_loop c s2 n s = Some None"
proof (induction s)
  case (Cons c1 s1)
  have "(ucast (ngx_tolower c1) :: 64 word) < 0x100"
    using uint_bounded [of "ngx_tolower c1"] by (simp add: word_less_def uint_up_ucast is_up)
  with Cons show ?case by (auto simp: tolower_ucast)
qed simp

lemma strcasestrn_high:
  assumes "\<not> c < 0x80" "0 \<in> set s"
  shows "ngx_strcasestrn s (c # s2) n = Some None"
  using strcasestrn_loop_none tolower_words(2) assms by simp

text \<open>\<^verbatim>\<open>ngx_strlcasestrn\<close> looks at the bytes before \<^verbatim>\<open>last\<close> only; none of them needs to be a \<^verbatim>\<open>NUL\<close>.\<close>

lemma strlcasestrn_loop_first:
  assumes "0 \<notin> set p" "n \<le> length s"
  shows "strlcasestrn_loop (ngx_tolower c) (p @ q) (length p) s (int n - int (length p)) =
    Some (find_first (lower (c # p)) (lower (take n s)))"
  using assms(2)
proof (induction s arbitrary: n)
  case Nil
  then show ?case by (simp add: strlcasestrn_loop.simps)
next
  case (Cons c1 s1)
  show ?case
  proof (cases "n \<le> length p")
    case True
    then have "find_first (lower (c # p)) (lower (take n (c1 # s1))) = None" by (intro find_first_short) simp
    with True show ?thesis by (simp add: strlcasestrn_loop.simps)
  next
    case False
    then obtain n' where n: "n = Suc n'" by (cases n) auto
    have room: "int n - int (length p) - 1 = int n' - int (length p)" using n by simp
    have IH: "strlcasestrn_loop (ngx_tolower c) (p @ q) (length p) s1 (int n' - int (length p)) =
      Some (find_first (lower (c # p)) (lower (take n' s1)))" using Cons n by simp
    from Cons.prems n False have "length p \<le> length s1" by simp
    with strncasecmp_prefix [OF assms(1)] obtain r where
      r: "ngx_strncasecmp s1 (p @ q) (length p) = Some r" "r = 0 \<longleftrightarrow> prefix (lower p) (lower s1)" by blast
    have "prefix (lower p) (lower (take n' s1)) \<longleftrightarrow> prefix (lower p) (lower s1)"
      using False n by (simp add: prefix_iff_take take_map [symmetric])
    then show ?thesis using r False n IH unfolding strlcasestrn_loop.simps [of _ _ _ "c1 # s1"] room by auto
  qed
qed

lemma strlcasestrn_first:
  assumes "0 \<notin> set (tl pat)" "pat \<noteq> []" "n \<le> length s"
  shows "ngx_strlcasestrn s (int n) pat (length pat - 1) = Some (find_first (lower pat) (lower (take n s)))"
  using strlcasestrn_loop_first [of "tl pat" n s "hd pat" "[]"] assms by (cases pat) auto

section \<open>The routines as a whole\<close>

text \<open>A result that is negative, zero or positive as the first list is below, equal to or above the second.\<close>

definition decides :: "int option \<Rightarrow> nat list \<Rightarrow> nat list \<Rightarrow> bool" where
  "decides res xs ys \<longleftrightarrow>
     (case res of None \<Rightarrow> False | Some r \<Rightarrow> (r < 0 \<longleftrightarrow> xs < ys) \<and> (r = 0 \<longleftrightarrow> xs = ys) \<and> (r > 0 \<longleftrightarrow> ys < xs))"

lemma decidesI: "\<exists>r. res = Some r \<and> (r < 0 \<longleftrightarrow> xs < ys) \<and> (r = 0 \<longleftrightarrow> xs = ys) \<Longrightarrow> decides res xs ys"
  by (auto simp: decides_def)

abbreviation bytes_key :: "u_char list \<Rightarrow> nat list" where
  "bytes_key \<equiv> map unat"

lemma bytes_key_inj: "bytes_key xs = bytes_key ys \<longleftrightarrow> xs = ys"
  by (intro inj_map_eq_map injI) (simp add: word_unat_eq_iff)

lemma rstrncmp_decides:
  assumes "n \<le> length s" "n \<le> length t"
  shows "decides (if n = 0 then Some 0 else rstrncmp_loop f s t (n - 1)) (bytes_key (rev (map f (take n s)))) (bytes_key (rev (map f (take n t))))"
proof (cases n)
  case 0
  then show ?thesis by (simp add: decides_def)
next
  case (Suc m)
  have "map f (take n s) = map f (take n t) \<longleftrightarrow> bytes_key (rev (map f (take n s))) = bytes_key (rev (map f (take n t)))"
    unfolding bytes_key_inj by simp
  with rstrncmp_order [of m s t f] Suc assms show ?thesis by (intro decidesI) (simp add: rev_map comp_def)
qed

text \<open>The case mappings in numbers.\<close>

lemma tolower_unat: "unat (ngx_tolower c) = (if 65 \<le> unat c \<and> unat c \<le> 90 then unat c + 32 else unat c)"
  by (rule byte_all [where x = c]) code_simp

lemma upper_unat: "unat (rstr_upper c) = (if 97 \<le> unat c \<and> unat c \<le> 122 then unat c - 32 else unat c)"
  by (rule byte_all [where x = c]) code_simp

text \<open>\<^verbatim>\<open>ngx_dns_strcmp\<close> on any names: the first different bytes decide, the dot as a blank.\<close>

definition dot_as_blank :: "u_char \<Rightarrow> u_char" where
  "dot_as_blank c = (if c = ch_dot then ch_sp else c)"

lemma dns_strcmp_equal: "0 \<notin> set x \<Longrightarrow> lower x = lower y \<Longrightarrow> ngx_dns_strcmp (x @ 0 # s) (y @ 0 # t) = Some 0"
proof (induction x arbitrary: y)
  case (Cons a x)
  then show ?case by (cases y) (auto simp: tolower_zero)
qed (simp add: tolower_zero)

lemma dns_strcmp_differs:
  assumes "0 \<notin> set p" "lower p = lower q" "ngx_tolower a \<noteq> ngx_tolower b"
  shows "ngx_dns_strcmp (p @ a # s) (q @ b # t) =
    Some (byte_diff (dot_as_blank (ngx_tolower a)) (dot_as_blank (ngx_tolower b)))"
  using assms
proof (induction p arbitrary: q)
  case (Cons c p)
  then show ?case by (cases q) (auto simp: tolower_zero)
qed (auto simp: dot_as_blank_def Let_def)

text \<open>
  C22: the comparisons of \<^verbatim>\<open>ngx_string.c\<close> decide lexicographic orders and never read beyond the strings.
  \<^verbatim>\<open>ngx_strcasecmp\<close> and \<^verbatim>\<open>ngx_strncasecmp\<close> compare the lower case of \<^verbatim>\<open>NUL\<close>-terminated strings (of their first \<open>n\<close>
  bytes), and \<^verbatim>\<open>ngx_filename_cmp\<close> puts the slash below every other byte, so that a directory sorts before
  the files it is a prefix of. \<^verbatim>\<open>ngx_dns_strcmp\<close> returns 0 for names that are equal without regard to case and
  otherwise the difference of the first different bytes, the dot taken as a blank; on names without blanks this is the
  order in which a domain sorts before its subdomains, while two names that first differ in a blank and a dot compare as
  equal. \<^verbatim>\<open>ngx_memn2cmp\<close> compares two blocks of any bytes, \<^verbatim>\<open>NUL\<close> included, and of any lengths, the shorter first,
  and \<^verbatim>\<open>ngx_rstrncmp\<close> and \<^verbatim>\<open>ngx_rstrncasecmp\<close> compare blocks of any bytes from the last one. The case mappings are
  those of the ASCII letters.
\<close>

theorem string_comparisons:
  assumes "0 \<notin> set x" "0 \<notin> set y"
  shows "decides (ngx_strcasecmp (x @ 0 # s) (y @ 0 # t)) (bytes_key (lower x)) (bytes_key (lower y))
    \<and> decides (ngx_strncasecmp (x @ 0 # s) (y @ 0 # t) n) (bytes_key (lower (take n x))) (bytes_key (lower (take n y)))
    \<and> decides (ngx_filename_cmp (x @ 0 # s) (y @ 0 # t) n) (map file_key (take n x)) (map file_key (take n y))
    \<and> decides (ngx_memn2cmp u v (length u) (length v)) (bytes_key u) (bytes_key v)
    \<and> (lower x = lower y \<longrightarrow> ngx_dns_strcmp (x @ 0 # s) (y @ 0 # t) = Some 0)
    \<and> (\<forall>p a x' q b y'. x @ [0] = p @ a # x' \<and> y @ [0] = q @ b # y' \<and> lower p = lower q \<and> ngx_tolower a \<noteq> ngx_tolower b \<longrightarrow>
        ngx_dns_strcmp (x @ 0 # s) (y @ 0 # t) =
          Some (byte_diff (dot_as_blank (ngx_tolower a)) (dot_as_blank (ngx_tolower b))))
    \<and> (ch_sp \<notin> set x \<and> ch_sp \<notin> set y \<longrightarrow>
        decides (ngx_dns_strcmp (x @ 0 # s) (y @ 0 # t)) (bytes_key (map dns_low x)) (bytes_key (map dns_low y)))
    \<and> (n \<le> length u \<and> n \<le> length v \<longrightarrow>
        decides (ngx_rstrncmp u v n) (bytes_key (rev (take n u))) (bytes_key (rev (take n v)))
        \<and> decides (ngx_rstrncasecmp u v n)
            (bytes_key (rev (map rstr_upper (take n u)))) (bytes_key (rev (map rstr_upper (take n v)))))
    \<and> unat (ngx_tolower c) = (if 65 \<le> unat c \<and> unat c \<le> 90 then unat c + 32 else unat c)
    \<and> unat (rstr_upper c) = (if 97 \<le> unat c \<and> unat c \<le> 122 then unat c - 32 else unat c)"
proof -
  have xy: "set x \<subseteq> UNIV - {0}" "set y \<subseteq> UNIV - {0}" using assms by auto
  have "decides (ngx_strcasecmp (x @ 0 # s) (y @ 0 # t)) (bytes_key (lower x)) (bytes_key (lower y))"
    using casecmp.compares [OF xy] by (intro decidesI) (simp add: comp_def)
  moreover have "decides (ngx_strncasecmp (x @ 0 # s) (y @ 0 # t) n) (bytes_key (lower (take n x))) (bytes_key (lower (take n y)))"
    using ncasecmp.compares [OF xy] by (intro decidesI) (simp add: comp_def)
  moreover have "decides (ngx_filename_cmp (x @ 0 # s) (y @ 0 # t) n) (map file_key (take n x)) (map file_key (take n y))"
    using filecmp.compares [OF xy] by (rule decidesI)
  moreover have "decides (ngx_memn2cmp u v (length u) (length v)) (bytes_key u) (bytes_key v)"
    using memn2cmp_order by (intro decidesI) (simp only: bytes_key_inj)
  moreover have "lower x = lower y \<longrightarrow> ngx_dns_strcmp (x @ 0 # s) (y @ 0 # t) = Some 0"
    using dns_strcmp_equal [OF assms(1)] by blast
  moreover have "ngx_dns_strcmp (x @ 0 # s) (y @ 0 # t) =
      Some (byte_diff (dot_as_blank (ngx_tolower a)) (dot_as_blank (ngx_tolower b)))"
    if d: "x @ [0] = p @ a # x'" "y @ [0] = q @ b # y'" "lower p = lower q" "ngx_tolower a \<noteq> ngx_tolower b" for p a x' q b y'
  proof -
    have "prefix p x" using d(1) by (cases x' rule: rev_cases) (auto simp flip: append_assoc append_Cons)
    then have "0 \<notin> set p" using assms(1) set_mono_prefix by blast
    moreover have "x @ 0 # s = p @ a # (x' @ s)" "y @ 0 # t = q @ b # (y' @ t)"
      using arg_cong [OF d(1), of "\<lambda>z. z @ s"] arg_cong [OF d(2), of "\<lambda>z. z @ t"] by simp_all
    ultimately show ?thesis using dns_strcmp_differs [OF _ d(3,4)] by metis
  qed
  moreover have "decides (ngx_dns_strcmp (x @ 0 # s) (y @ 0 # t)) (bytes_key (map dns_low x)) (bytes_key (map dns_low y))"
    if "ch_sp \<notin> set x" "ch_sp \<notin> set y"
  proof -
    have "set x \<subseteq> UNIV - {ch_sp} - {0}" "set y \<subseteq> UNIV - {ch_sp} - {0}" using that assms by auto
    from dns.compares [OF this] show ?thesis by (intro decidesI) (simp add: comp_def)
  qed
  moreover have "decides (ngx_rstrncmp u v n) (bytes_key (rev (take n u))) (bytes_key (rev (take n v)))"
      "decides (ngx_rstrncasecmp u v n) (bytes_key (rev (map rstr_upper (take n u)))) (bytes_key (rev (map rstr_upper (take n v))))"
    if "n \<le> length u" "n \<le> length v"
    using rstrncmp_decides [OF that, of id] rstrncmp_decides [OF that, of rstr_upper]
    by (simp_all add: ngx_rstrncmp_def ngx_rstrncasecmp_def)
  ultimately show ?thesis unfolding tolower_unat upper_unat by blast
qed

theorem string_comparisons_witness:
  "decides (ngx_dns_strcmp [0x41, 0x2E, 0x62, 0] [0x61, 0x2D, 0x62, 0])
     (bytes_key (map dns_low [0x41, 0x2E, 0x62])) (bytes_key (map dns_low [0x61, 0x2D, 0x62]))
   \<and> ngx_dns_strcmp [0x41, 0x2E, 0x62, 0] [0x61, 0x2D, 0x62, 0] = Some (- 13)
   \<and> decides (ngx_rstrncmp [0x41, 0, 0x62] [0x61, 0, 0x62] 2) [0, 0x41] [0, 0x61]
   \<and> ngx_dns_strcmp [0x61, 0x20, 0x62, 0] [0x61, 0x2E, 0x63, 0] = Some 0"
proof -
  have "ngx_dns_strcmp [0x41, 0x2E, 0x62, 0] [0x61, 0x2D, 0x62, 0] = Some (- 13)"
    "ngx_dns_strcmp [0x61, 0x20, 0x62, 0] [0x61, 0x2E, 0x63, 0] = Some 0" by code_simp+
  then show ?thesis
    using string_comparisons [of "[0x41, 0x2E, 0x62]" "[0x61, 0x2D, 0x62]" "[]" "[]" 2 "[0x41, 0, 0x62]" "[0x61, 0, 0x62]"] by simp
qed

text \<open>
  C23: the searches of \<^verbatim>\<open>ngx_string.c\<close> return the first place of the sought text, or \<^verbatim>\<open>NULL\<close> if it stands
  nowhere, and never read beyond the string: \<^verbatim>\<open>ngx_strnstr\<close> among the first \<open>len\<close> bytes up to a \<^verbatim>\<open>NUL\<close>,
  \<^verbatim>\<open>ngx_strstrn\<close> up to the \<^verbatim>\<open>NUL\<close>, \<^verbatim>\<open>ngx_strcasestrn\<close> likewise without regard to case, and
  \<^verbatim>\<open>ngx_strlcasestrn\<close> without regard to case before \<^verbatim>\<open>last\<close>. The exception is \<^verbatim>\<open>ngx_strcasestrn\<close> for a text
  that starts with a byte above 127: it returns \<^verbatim>\<open>NULL\<close> on every string, also where the text stands in it.
\<close>

theorem string_searches:
  assumes "0 \<notin> set pat" "pat \<noteq> []"
  shows "(len \<le> length s \<or> 0 \<in> set s \<longrightarrow> ngx_strnstr s (pat @ [0]) len = Some (find_first pat (until_nul (take len s))))
    \<and> (0 \<in> set s \<longrightarrow> ngx_strstrn s pat (length pat - 1) = Some (find_first pat (until_nul s)))
    \<and> (0 \<in> set s \<and> hd pat < 0x80 \<longrightarrow>
        ngx_strcasestrn s pat (length pat - 1) = Some (find_first (lower pat) (lower (until_nul s))))
    \<and> (0 \<in> set s \<and> \<not> hd pat < 0x80 \<longrightarrow> ngx_strcasestrn s pat (length pat - 1) = Some None)
    \<and> (len \<le> length s \<longrightarrow>
        ngx_strlcasestrn s (int len) pat (length pat - 1) = Some (find_first (lower pat) (lower (take len s))))"
proof -
  have "0 \<in> set s \<and> \<not> hd pat < 0x80 \<longrightarrow> ngx_strcasestrn s pat (length pat - 1) = Some None"
    using strcasestrn_high [of "hd pat" s "tl pat"] assms(2) by (cases pat) simp_all
  then show ?thesis
    using assms strnstr_first strstrn_first strcasestrn_first strlcasestrn_first [of pat len s]
    by (auto dest: list.set_sel(2))
qed

theorem string_searches_witness:
  "ngx_strnstr [0x61, 0x62, 0x62, 0x63] [0x62, 0x63, 0] 4 = Some (Some 2)
   \<and> ngx_strlcasestrn [0x61, 0x62, 0x62, 0x63] 4 [0x62, 0x63] 1 = Some (Some 2)"
proof -
  have "find_first [0x62, 0x63] (until_nul [0x61, 0x62, 0x62, 0x63]) = Some 2"
    "find_first (lower [0x62, 0x63]) (lower [0x61, 0x62, 0x62, 0x63]) = Some 2" by code_simp+
  then show ?thesis
    using string_searches [of "[0x62, 0x63]" 4 "[0x61, 0x62, 0x62, 0x63]"] by simp
qed

text \<open>The copies: of the lower case of a block, and of a string into a buffer of \<open>n\<close> bytes, always terminated.\<close>

lemma strlow_lower: "n \<le> length s \<Longrightarrow> ngx_strlow s n = Some (lower (take n s))"
  by (induction s n rule: ngx_strlow.induct) auto

lemma strnlen_until: "n \<le> length s \<or> 0 \<in> set s \<Longrightarrow> ngx_strnlen s n = Some (length (until_nul (take n s)))"
  by (induction s n rule: ngx_strnlen.induct) auto

lemma cpystrn_until:
  assumes "n < length s \<or> 0 \<in> set s"
  shows "ngx_cpystrn s (Suc n) = Some (until_nul (take n s) @ [0])"
proof -
  have "cpystrn_loop s n = Some (until_nul (take n s) @ [0])"
    using assms by (induction s n rule: cpystrn_loop.induct) auto
  then show ?thesis by (simp add: ngx_cpystrn_def)
qed

end
