(* ===== verification/Ngx_Http_Arg.thy ===== *)
theory Ngx_Http_Arg
  imports Ngx_Compare
begin

text \<open>
  The readers of parameters in \<^verbatim>\<open>src/reference/nginx-master/src/http/ngx_http_parse.c\<close>: an argument of the
  query string, a cookie or a directive in header lines, a cookie set by an upstream, and the split of a URI
  from its arguments; and the variables \<^verbatim>\<open>$arg_...\<close> and \<^verbatim>\<open>$cookie_...\<close> that use them.

  A position \<^verbatim>\<open>start\<close> in a value is the list of the bytes from there to the end of the value; the bytes
  behind the value in memory are \<open>post\<close>. The result \<open>None\<close> stands for a read outside; \<open>Some None\<close> for \<^verbatim>\<open>NULL\<close>
  or \<^verbatim>\<open>NGX_DECLINED\<close>.
\<close>

section \<open>The code\<close>

fun ngx_strlchr :: "u_char list \<Rightarrow> u_char \<Rightarrow> nat option" where
  "ngx_strlchr [] c = None"
| "ngx_strlchr (a # p) c = (if a = c then Some 0 else map_option Suc (ngx_strlchr p c))"

fun skip_blanks :: "u_char list \<Rightarrow> u_char list" where
  "skip_blanks [] = []"
| "skip_blanks (c # s) = (if c = ch_sp then skip_blanks s else c # s)"

fun skip_item :: "u_char list \<Rightarrow> u_char list" where
  "skip_item [] = []"
| "skip_item (c # s) = (if c = ch_semi \<or> c = ch_comma then s else skip_item s)"

definition next_item :: "u_char list \<Rightarrow> u_char list" where
  "next_item s = skip_blanks (skip_item s)"

definition item_value :: "u_char list \<Rightarrow> u_char list" where
  "item_value s = takeWhile (\<lambda>c. c \<noteq> ch_semi) (skip_blanks s)"

lemma skip_length: "length (skip_blanks s) \<le> length s" "length (skip_item s) \<le> length s"
  "s \<noteq> [] \<Longrightarrow> length (skip_item s) < length s"
proof -
  show "length (skip_blanks s) \<le> length s" by (induction s) auto
  show le: "length (skip_item s) \<le> length s" for s by (induction s) (auto simp: le_SucI)
  show "s \<noteq> [] \<Longrightarrow> length (skip_item s) < length s" using le [of "tl s"] by (cases s) auto
qed

lemma next_item_length: "s \<noteq> [] \<Longrightarrow> length (next_item s) < length s"
  unfolding next_item_def using skip_length by (metis le_less_trans)

lemma next_item_le: "length (next_item s) \<le> length s"
  unfolding next_item_def using skip_length by (metis le_trans)

text \<open>The loop over one value; \<open>want\<close> tells that \<^verbatim>\<open>value\<close> is not \<^verbatim>\<open>NULL\<close>.\<close>

function multi_loop :: "u_char list \<Rightarrow> u_char list \<Rightarrow> bool \<Rightarrow> u_char list \<Rightarrow> u_char list option option" where
  "multi_loop name post want start =
     (if start = [] then Some None
      else case ngx_strncasecmp (start @ post) name (length name) of None \<Rightarrow> None
      | Some r \<Rightarrow>
          if r \<noteq> 0 then multi_loop name post want (next_item start)
          else if length name > length start then None
          else
            case skip_blanks (drop (length name) start) of
              [] \<Rightarrow> if want then Some None else Some (Some [])
            | c # s \<Rightarrow>
                if \<not> want then
                  if c = ch_comma then Some (Some []) else multi_loop name post want (next_item (c # s))
                else if c \<noteq> ch_eq then multi_loop name post want (next_item s)
                else Some (Some (item_value s)))"
  by auto
termination
proof (relation "measure (\<lambda>(name, post, want, start). length start)", goal_cases)
  case (2 name post want start r)
  then show ?case by (simp add: next_item_length)
next
  case (3 name post want start r c s)
  have "length (next_item (c # s)) < length (c # s)" by (rule next_item_length) simp
  also have "\<dots> \<le> length start" using 3(5) skip_length(1) [of "drop (length name) start"] by simp
  finally show ?case by simp
next
  case (4 name post want start r c s)
  have "length (next_item s) < length (c # s)" using next_item_le [of s] by simp
  also have "\<dots> \<le> length start" using 4(5) skip_length(1) [of "drop (length name) start"] by simp
  finally show ?case by simp
qed simp

declare multi_loop.simps [simp del]

text \<open>A header line: its value and the bytes behind it in memory.\<close>

record ngx_table_elt_t =
  elt_value :: "u_char list"
  elt_post :: "u_char list"

fun ngx_http_parse_multi_header_lines ::
  "ngx_table_elt_t list \<Rightarrow> u_char list \<Rightarrow> bool \<Rightarrow> (ngx_table_elt_t \<times> u_char list) option option" where
  "ngx_http_parse_multi_header_lines [] name want = Some None"
| "ngx_http_parse_multi_header_lines (h # headers) name want =
     (if length name > length (elt_value h) then ngx_http_parse_multi_header_lines headers name want
      else case multi_loop name (elt_post h) want (elt_value h) of None \<Rightarrow> None
      | Some None \<Rightarrow> ngx_http_parse_multi_header_lines headers name want
      | Some (Some v) \<Rightarrow> Some (Some (h, v)))"

fun ngx_http_parse_set_cookie_lines ::
  "ngx_table_elt_t list \<Rightarrow> u_char list \<Rightarrow> (ngx_table_elt_t \<times> u_char list) option option" where
  "ngx_http_parse_set_cookie_lines [] name = Some None"
| "ngx_http_parse_set_cookie_lines (h # headers) name =
     (if length name \<ge> length (elt_value h) then ngx_http_parse_set_cookie_lines headers name
      else case ngx_strncasecmp (elt_value h @ elt_post h) name (length name) of None \<Rightarrow> None
      | Some r \<Rightarrow>
          if r \<noteq> 0 then ngx_http_parse_set_cookie_lines headers name
          else case skip_blanks (drop (length name) (elt_value h)) of
            [] \<Rightarrow> ngx_http_parse_set_cookie_lines headers name
          | c # s \<Rightarrow>
              if c \<noteq> ch_eq then ngx_http_parse_set_cookie_lines headers name
              else Some (Some (h, item_value s)))"

text \<open>\<^verbatim>\<open>p\<close> is an offset into the arguments.\<close>

function arg_loop :: "u_char list \<Rightarrow> u_char list \<Rightarrow> nat \<Rightarrow> u_char list option option" where
  "arg_loop data name p =
     (if p < length data then
        case ngx_strlcasestrn (drop p data) (int (length data) - 1 - int p) name (length name - 1) of None \<Rightarrow> None
        | Some None \<Rightarrow> Some None
        | Some (Some d) \<Rightarrow>
            if p + d + length name \<ge> length data then None
            else if (p + d = 0 \<or> data ! (p + d - 1) = ch_amp) \<and> data ! (p + d + length name) = ch_eq then
              (let v = p + d + length name + 1;
                   q = (case ngx_strlchr (drop (p + d) data) ch_amp of None \<Rightarrow> length data | Some e \<Rightarrow> p + d + e)
               in if q < v then None else Some (Some (take (q - v) (drop v data))))
            else arg_loop data name (p + d + 1)
      else Some None)"
  by auto
termination by (relation "measure (\<lambda>(data, name, p). length data - p)") auto

declare arg_loop.simps [simp del]

definition ngx_http_arg :: "u_char list \<Rightarrow> u_char list \<Rightarrow> u_char list option option" where
  "ngx_http_arg data name = (if data = [] then Some None else arg_loop data name 0)"

definition ngx_http_split_args :: "u_char list \<Rightarrow> u_char list \<times> u_char list" where
  "ngx_http_split_args path =
     (case ngx_strlchr path ch_qmark of
        Some p \<Rightarrow> (take p path, drop (p + 1) path)
      | None \<Rightarrow> (path, []))"

text \<open>The variables: \<open>None\<close> inside is \<^verbatim>\<open>v->not_found\<close>. The names are what follows \<^verbatim>\<open>arg_\<close> and \<^verbatim>\<open>cookie_\<close>.\<close>

definition ngx_http_variable_argument :: "u_char list \<Rightarrow> u_char list \<Rightarrow> u_char list option option" where
  "ngx_http_variable_argument data name =
     (let arg = drop 4 name in if length name - 4 = 0 then Some None else ngx_http_arg data arg)"

abbreviation cookie_prefix :: "u_char list" where
  "cookie_prefix \<equiv> [0x63, 0x6f, 0x6f, 0x6b, 0x69, 0x65, 0x5f]"

definition ngx_http_variable_cookie :: "ngx_table_elt_t list \<Rightarrow> u_char list \<Rightarrow> u_char list option option" where
  "ngx_http_variable_cookie headers name =
     map_option (map_option snd) (ngx_http_parse_multi_header_lines headers (drop 7 name) True)"

section \<open>Arguments\<close>

text \<open>The parameter that starts at a place, or behind the next ampersand.\<close>

fun scan_arg :: "u_char list \<Rightarrow> bool \<Rightarrow> u_char list \<Rightarrow> u_char list option" where
  "scan_arg name start [] = None"
| "scan_arg name start (c # s) =
     (if start \<and> prefix (lower name @ [ch_eq]) (lower (c # s))
      then Some (takeWhile (\<lambda>c. c \<noteq> ch_amp) (drop (length name + 1) (c # s)))
      else scan_arg name (c = ch_amp) s)"

lemma prefix_butlast:
  assumes "prefix (ps @ [a]) xs"
  shows "prefix ps (butlast xs)"
proof -
  from assms obtain zs where "xs = ps @ a # zs" by (auto simp: prefix_def)
  then show ?thesis by (simp add: butlast_append)
qed

lemma scan_arg_none:
  "name \<noteq> [] \<Longrightarrow> find_first (lower name) (lower (butlast xs)) = None \<Longrightarrow> scan_arg name b xs = None"
proof (induction xs arbitrary: b)
  case (Cons x xs)
  have "\<not> prefix (lower name @ [ch_eq]) (lower (x # xs))"
    using Cons.prems prefix_butlast [of "lower name" ch_eq "lower (x # xs)"]
    by (cases "butlast (x # xs)") (auto simp: map_butlast split: if_splits)
  moreover have "find_first (lower name) (lower (butlast xs)) = None"
    using Cons.prems by (cases xs) (auto split: if_splits)
  ultimately show ?case using Cons by (auto simp: prefix_iff_take)
qed simp

lemma scan_arg_some:
  assumes "name \<noteq> []" "find_first (lower name) (lower (butlast xs)) = Some d"
  shows "d < length xs \<and> prefix (lower name) (lower (butlast (drop d xs))) \<and>
    scan_arg name b xs = scan_arg name (if d = 0 then b else xs ! (d - 1) = ch_amp) (drop d xs)"
  using assms(2)
proof (induction xs arbitrary: b d)
  case (Cons x xs)
  show ?case
  proof (cases "prefix (lower name) (lower (butlast (x # xs)))")
    case True
    then have "d = 0" using Cons.prems assms(1) by (cases "butlast (x # xs)") (auto split: if_splits)
    with True show ?thesis by simp
  next
    case False
    then have no: "\<not> prefix (lower name @ [ch_eq]) (lower (x # xs))"
      using prefix_butlast [of "lower name" ch_eq "lower (x # xs)"] by (simp only: map_butlast) blast
    from False Cons.prems assms(1) obtain e where e: "find_first (lower name) (lower (butlast xs)) = Some e" "d = Suc e"
      by (cases xs) (auto split: if_splits)
    have "scan_arg name b (x # xs) = scan_arg name (x = ch_amp) xs"
      unfolding scan_arg.simps(2) using no by (simp only: simp_thms if_False)
    with Cons.IH [OF e(1), of "x = ch_amp"] show ?thesis unfolding e(2) by (cases e) simp_all
  qed
qed (use assms(1) in simp)

lemma strlchr_takeWhile:
  "(case ngx_strlchr xs c of None \<Rightarrow> length xs | Some e \<Rightarrow> e) = length (takeWhile (\<lambda>a. a \<noteq> c) xs)"
  by (induction xs) (auto split: option.splits)

lemma lower_eq_sign: "ngx_tolower c = ch_eq \<longleftrightarrow> c = ch_eq" "ngx_tolower c = ch_amp \<longleftrightarrow> c = ch_amp"
  "ngx_tolower ch_eq = ch_eq"
  by (rule byte_all [where x = c], code_simp)+

lemma arg_value:
  assumes "ch_amp \<notin> set name" "prefix (lower name @ [ch_eq]) (lower xs)"
  shows "length (takeWhile (\<lambda>a. a \<noteq> ch_amp) xs) = length name + 1 + length (takeWhile (\<lambda>a. a \<noteq> ch_amp) (drop (length name + 1) xs))"
proof -
  from assms(2) obtain zs where "lower xs = lower name @ ch_eq # zs" by (auto simp: prefix_def)
  then obtain n c r where xs: "xs = n @ c # r" "lower n = lower name" "c = ch_eq"
    by (auto simp: map_eq_append_conv map_eq_Cons_conv lower_eq_sign)
  have "ch_amp \<notin> set (lower n)" unfolding xs(2) using assms(1) lower_eq_sign(2) by auto
  then have "ch_amp \<notin> set n" using lower_eq_sign(2) by force
  moreover have "length n = length name" using xs(2) by (metis length_map)
  ultimately show ?thesis using xs by (simp add: takeWhile_append)
qed

lemma arg_loop_scan:
  assumes "name \<noteq> []" "0 \<notin> set name" "ch_amp \<notin> set name"
  shows "arg_loop data name p = Some (scan_arg name (p = 0 \<or> data ! (p - 1) = ch_amp) (drop p data))"
proof (induction "length data - p" arbitrary: p rule: less_induct)
  case less
  let ?xs = "drop p data" and ?b = "p = 0 \<or> data ! (p - 1) = ch_amp"
  show ?case
  proof (cases "p < length data")
    case p: True
    have "int (length data) - 1 - int p = int (length ?xs - 1)" using p by simp
    moreover have "0 \<notin> set (tl name)" using assms(1,2) by (metis list.set_sel(2))
    ultimately have find: "ngx_strlcasestrn ?xs (int (length data) - 1 - int p) name (length name - 1) =
        Some (find_first (lower name) (lower (butlast ?xs)))"
      using strlcasestrn_first [of name "length ?xs - 1" ?xs] assms(1) by (simp add: butlast_conv_take)
    show ?thesis
    proof (cases "find_first (lower name) (lower (butlast ?xs))")
      case None
      with find p scan_arg_none [OF assms(1)] show ?thesis by (simp add: arg_loop.simps [of data name p])
    next
      case (Some d)
      let ?ys = "drop (p + d) data"
      from scan_arg_some [OF assms(1) Some, of ?b] have d: "d < length ?xs"
        and pre: "prefix (lower name) (lower (butlast ?ys))"
        and scan: "scan_arg name ?b ?xs = scan_arg name (if d = 0 then ?b else ?xs ! (d - 1) = ch_amp) ?ys"
        by (auto simp: add.commute)
      have b: "(if d = 0 then ?b else ?xs ! (d - 1) = ch_amp) = (p + d = 0 \<or> data ! (p + d - 1) = ch_amp)"
        using p by auto
      have in_range: "p + d + length name < length data"
        using prefix_length_le [OF pre] d by simp
      have eq: "data ! (p + d + length name) = ch_eq \<longleftrightarrow> prefix (lower name @ [ch_eq]) (lower ?ys)"
      proof -
        have "take (length name) (lower ?ys) = lower name" 
          using pre in_range by (auto simp: prefix_iff_take butlast_conv_take take_map)
        then show ?thesis using in_range
          by (auto simp: prefix_iff_take take_Suc_conv_app_nth lower_eq_sign take_map)
      qed
      obtain y ys where ys: "?ys = y # ys" using in_range by (cases ?ys) auto
      show ?thesis
      proof (cases "(p + d = 0 \<or> data ! (p + d - 1) = ch_amp) \<and> data ! (p + d + length name) = ch_eq")
        case True
        let ?w = "takeWhile (\<lambda>c. c \<noteq> ch_amp) (drop (length name + 1) ?ys)"
        have q: "(case ngx_strlchr ?ys ch_amp of None \<Rightarrow> length data | Some e \<Rightarrow> p + d + e)
            = p + d + length name + 1 + length ?w"
          using arg_value [OF assms(3)] strlchr_takeWhile [of ?ys ch_amp] True in_range
          unfolding eq by (auto split: option.splits)
        have "take (length ?w) (drop (p + d + length name + 1) data) = ?w"
          using takeWhile_eq_take [of "\<lambda>c. c \<noteq> ch_amp" "drop (length name + 1) ?ys"] by (simp add: ac_simps)
        moreover have "scan_arg name True ?ys = Some ?w" using True ys unfolding eq by simp
        ultimately show ?thesis using True scan find Some p in_range
          unfolding b by (simp add: arg_loop.simps [of data name p] q [simplified])
      next
        case False
        have "arg_loop data name p = arg_loop data name (p + d + 1)"
          using False find Some p in_range by (auto simp: arg_loop.simps [of data name p])
        also have "\<dots> = Some (scan_arg name (data ! (p + d) = ch_amp) (drop (p + d + 1) data))"
          using less [of "p + d + 1"] p by simp
        also have "scan_arg name (data ! (p + d) = ch_amp) (drop (p + d + 1) data) = scan_arg name ?b ?xs"
        proof -
          have "data ! (p + d) = y" "drop (p + d + 1) data = ys"
            using ys in_range by (metis Suc_eq_plus1 add.commute drop_Suc list.sel(3) nth_via_drop tl_drop)+
          then show ?thesis using False unfolding scan b eq ys by auto
        qed
        finally show ?thesis .
      qed
    qed
  qed (simp add: arg_loop.simps [of data name p])
qed

text \<open>A query string is the list of its parameters, joined by ampersands.\<close>

fun join_args :: "u_char list list \<Rightarrow> u_char list" where
  "join_args [] = []"
| "join_args [p] = p"
| "join_args (p # ps) = p @ ch_amp # join_args ps"

lemma scan_arg_inside: "ch_amp \<notin> set p \<Longrightarrow> scan_arg name False (p @ ch_amp # r) = scan_arg name True r"
  by (induction p) auto

lemma scan_arg_last: "ch_amp \<notin> set p \<Longrightarrow> scan_arg name False p = None"
  by (induction p) auto

lemma prefix_before: "c \<notin> set ns \<Longrightarrow> prefix ns (ps @ c # rs) \<longleftrightarrow> prefix ns ps"
proof (induction ns arbitrary: ps)
  case (Cons n ns)
  then show ?case by (cases ps) auto
qed simp

lemma prefix_until_amp:
  assumes "ch_amp \<notin> set name"
  shows "prefix (lower name @ [ch_eq]) (lower (p @ ch_amp # r)) \<longleftrightarrow> prefix (lower name @ [ch_eq]) (lower p)"
proof -
  have "ch_amp \<notin> set (lower name @ [ch_eq])" using assms lower_eq_sign(2) by auto
  from prefix_before [OF this, of "lower p" "lower r"] show ?thesis using lower_eq_sign(2) [of ch_amp] by simp
qed

lemma scan_arg_head:
  assumes "\<not> prefix (lower name @ [ch_eq]) (lower p)" "ch_amp \<notin> set name" "ch_amp \<notin> set p"
  shows "scan_arg name True p = None" "scan_arg name True (p @ ch_amp # r) = scan_arg name True r"
proof -
  show "scan_arg name True p = None" using assms scan_arg_last [of "tl p" name] by (cases p) auto
  have "\<not> prefix (lower name @ [ch_eq]) (lower (p @ ch_amp # r))" using assms(1) prefix_until_amp [OF assms(2)] by blast
  then show "scan_arg name True (p @ ch_amp # r) = scan_arg name True r"
    using assms(3) scan_arg_inside [of "tl p" name r] by (cases p) auto
qed

lemma takeWhile_stop: "c \<notin> set xs \<Longrightarrow> takeWhile (\<lambda>a. a \<noteq> c) (xs @ c # r) = xs"
  by (induction xs) auto

lemma scan_arg_found:
  assumes "prefix (lower name @ [ch_eq]) (lower p)" "ch_amp \<notin> set name" "ch_amp \<notin> set p"
  shows "scan_arg name True p = Some (drop (length name + 1) p)"
    "scan_arg name True (p @ ch_amp # r) = Some (drop (length name + 1) p)"
proof -
  have len: "length name + 1 \<le> length p" using prefix_length_le [OF assms(1)] by simp
  have w: "takeWhile (\<lambda>c. c \<noteq> ch_amp) (drop (length name + 1) p @ ch_amp # r) = drop (length name + 1) p"
    "takeWhile (\<lambda>c. c \<noteq> ch_amp) (drop (length name + 1) p) = drop (length name + 1) p"
    using assms(3) takeWhile_stop [of ch_amp "drop (length name + 1) p" r]
    by (auto simp: takeWhile_eq_all_conv dest: in_set_dropD)
  obtain c s where p: "p = c # s" using len by (cases p) auto
  show "scan_arg name True p = Some (drop (length name + 1) p)" using assms(1) w unfolding p by simp
  have "prefix (lower name @ [ch_eq]) (lower (p @ ch_amp # r))" using assms(1) prefix_until_amp [OF assms(2)] by blast
  then show "scan_arg name True (p @ ch_amp # r) = Some (drop (length name + 1) p)" using w len unfolding p by simp
qed

lemma scan_arg_join:
  assumes "ch_amp \<notin> set name" "\<forall>p \<in> set ps. ch_amp \<notin> set p"
  shows "scan_arg name True (join_args ps) =
    map_option (drop (length name + 1)) (List.find (\<lambda>p. prefix (lower name @ [ch_eq]) (lower p)) ps)"
  using assms(2)
proof (induction ps rule: join_args.induct)
  case (2 p)
  then show ?case using scan_arg_head(1) [of name p] scan_arg_found(1) [of name p] assms(1) by simp
next
  case (3 p q ps)
  then show ?case using scan_arg_head(2) [of name p] scan_arg_found(2) [of name p] assms(1) by simp
qed simp

text \<open>
  C20: \<^verbatim>\<open>ngx_http_arg\<close>, given the parameters of a query string in the order in which they stand there, returns the
  text behind the equals sign of the first one with the name sought, compared without regard to case, and
  \<^verbatim>\<open>NGX_DECLINED\<close> if there is none; it reads nothing outside the query string. The name is neither found inside
  another name nor in a value.
\<close>

theorem http_arg_first:
  assumes "name \<noteq> []" "0 \<notin> set name" "ch_amp \<notin> set name" "\<forall>p \<in> set ps. ch_amp \<notin> set p"
  shows "ngx_http_arg (join_args ps) name =
    Some (map_option (drop (length name + 1)) (List.find (\<lambda>p. prefix (lower name @ [ch_eq]) (lower p)) ps))"
  using arg_loop_scan [OF assms(1-3), of "join_args ps" 0] scan_arg_join [OF assms(3,4)]
  by (auto simp: ngx_http_arg_def)

theorem http_arg_first_witness:
  "ngx_http_arg [0x62, 0x61, 0x3d, 0x31, 0x26, 0x41, 0x3d, 0x32, 0x33] [0x61] = Some (Some [0x32, 0x33])"
proof -
  let ?ps = "[[0x62, 0x61, 0x3d, 0x31], [0x41, 0x3d, 0x32, 0x33]] :: u_char list list"
  have "List.find (\<lambda>p. prefix (lower [0x61] @ [ch_eq]) (lower p)) ?ps = Some [0x41, 0x3d, 0x32, 0x33]" by code_simp
  with http_arg_first [of "[0x61]" ?ps] show ?thesis by simp
qed

lemma split_args_first:
  "ngx_http_split_args path = (takeWhile (\<lambda>c. c \<noteq> ch_qmark) path, tl (dropWhile (\<lambda>c. c \<noteq> ch_qmark) path))"
proof -
  have "case ngx_strlchr path c of Some p \<Rightarrow> take p path = takeWhile (\<lambda>a. a \<noteq> c) path \<and> drop (Suc p) path = tl (dropWhile (\<lambda>a. a \<noteq> c) path)
    | None \<Rightarrow> takeWhile (\<lambda>a. a \<noteq> c) path = path \<and> dropWhile (\<lambda>a. a \<noteq> c) path = []" for c
    by (induction path) (auto split: option.splits)
  from this [of ch_qmark] show ?thesis
    by (auto simp: ngx_http_split_args_def simp del: takeWhile_eq_all_conv dropWhile_eq_Nil_conv split: option.splits)
qed

section \<open>Cookies\<close>

lemma multi_step:
  assumes "0 \<notin> set name" "start \<noteq> []"
  shows "multi_loop name (0 # post) want start =
     (if \<not> prefix (lower name) (lower start) then multi_loop name (0 # post) want (next_item start)
      else case skip_blanks (drop (length name) start) of
        [] \<Rightarrow> if want then Some None else Some (Some [])
      | c # s \<Rightarrow>
          if \<not> want then
            if c = ch_comma then Some (Some []) else multi_loop name (0 # post) want (next_item (c # s))
          else if c \<noteq> ch_eq then multi_loop name (0 # post) want (next_item s)
          else Some (Some (item_value s)))"
proof -
  obtain r where r: "ngx_strncasecmp (start @ 0 # post) name (length name) = Some r"
    "r = 0 \<longleftrightarrow> prefix (lower name) (lower (start @ 0 # post))"
    using strncasecmp_prefix [of name "start @ 0 # post" "[]"] assms(1) by auto
  have z: "0 \<notin> set (lower name)" using assms(1) lower_zero by blast
  have "prefix (lower name) (lower (start @ 0 # post)) \<longleftrightarrow> prefix (lower name) (lower start)"
    using prefix_before [OF z, of "lower start" "lower post"] by (simp add: tolower_zero)
  moreover have "length name \<le> length start" if "prefix (lower name) (lower start)"
    using prefix_length_le [OF that] by simp
  ultimately show ?thesis using r assms(2) by (auto simp: multi_loop.simps [of name "0 # post" want start])
qed

text \<open>A \<^verbatim>\<open>Cookie\<close> line: pairs of a name and a value.\<close>

fun cookie_line :: "(u_char list \<times> u_char list) list \<Rightarrow> u_char list" where
  "cookie_line [] = []"
| "cookie_line [(n, v)] = n @ ch_eq # v"
| "cookie_line ((n, v) # ps) = n @ ch_eq # v @ ch_semi # ch_sp # cookie_line ps"

definition cookie_name :: "u_char list \<Rightarrow> bool" where
  "cookie_name n \<longleftrightarrow> n \<noteq> [] \<and> set n \<inter> {0, ch_eq, ch_sp, ch_semi, ch_comma} = {}"

definition cookie_value :: "u_char list \<Rightarrow> bool" where
  "cookie_value v \<longleftrightarrow> set v \<inter> {ch_semi, ch_comma} = {} \<and> (v = [] \<or> hd v \<noteq> ch_sp)"

text \<open>What follows an item: nothing, or a separator, blanks and the next item.\<close>

definition item_tail :: "u_char set \<Rightarrow> u_char list \<Rightarrow> u_char list \<Rightarrow> bool" where
  "item_tail S t rest \<longleftrightarrow> t = [] \<and> rest = [] \<or> (\<exists>c \<in> S. t = c # ch_sp # rest \<and> rest \<noteq> [] \<and> hd rest \<noteq> ch_sp)"

lemma next_item_tail:
  assumes "item_tail {ch_semi, ch_comma} t rest" "set x \<inter> {ch_semi, ch_comma} = {}"
  shows "next_item (x @ t) = rest"
  using assms(2)
proof (induction x)
  case Nil
  then show ?case using assms(1) by (cases rest) (auto simp: item_tail_def next_item_def)
qed (auto simp: next_item_def)

lemma lower_plain: "c \<in> {0, ch_eq, ch_sp, ch_semi, ch_comma} \<Longrightarrow> ngx_tolower a = c \<longleftrightarrow> a = c"
proof -
  have "ngx_tolower a = ch_semi \<longleftrightarrow> a = ch_semi" "ngx_tolower a = ch_comma \<longleftrightarrow> a = ch_comma"
    by (rule byte_all [where x = a], code_simp)+
  then show "c \<in> {0, ch_eq, ch_sp, ch_semi, ch_comma} \<Longrightarrow> ngx_tolower a = c \<longleftrightarrow> a = c"
    using lower_eq_sign(1) [of a] tolower_zero(1) [of a] tolower_blank [of a] by auto
qed

lemma lower_name: "cookie_name n \<Longrightarrow> set (lower n) \<inter> {0, ch_eq, ch_sp, ch_semi, ch_comma} = {}"
  using lower_plain by (fastforce simp: cookie_name_def)

lemma cookie_step:
  assumes "cookie_name n" "cookie_name name" "cookie_value v" "item_tail {ch_semi} t rest"
  shows "multi_loop name (0 # post) True (n @ ch_eq # v @ t) =
    (if lower n = lower name then Some (Some v) else multi_loop name (0 # post) True rest)"
proof -
  have nx: "next_item (x @ t) = rest" if "set x \<inter> {ch_semi, ch_comma} = {}" for x
    using next_item_tail [of t rest x] assms(4) that by (auto simp: item_tail_def)
  have clean: "set (n @ ch_eq # v) \<inter> {ch_semi, ch_comma} = {}" using assms(1,3) by (auto simp: cookie_name_def cookie_value_def)
  have z: "0 \<notin> set name" "ch_eq \<notin> set (lower name)" using assms(2) lower_name [of name] by (auto simp: cookie_name_def)
  have pre: "prefix (lower name) (lower (n @ ch_eq # v @ t)) \<longleftrightarrow> prefix (lower name) (lower n)"
    using prefix_before [OF z(2)] lower_eq_sign(3) by simp
  note step = multi_step [OF z(1), of "n @ ch_eq # v @ t" post True, unfolded pre]
  show ?thesis
  proof (cases "prefix (lower name) (lower n)")
    case False
    then show ?thesis using step nx [OF clean] by auto
  next
    case True
    then have len: "length name \<le> length n" using prefix_length_le by fastforce
    show ?thesis
    proof (cases "length name = length n")
      case eq: True
      then have "lower n = lower name" using True by (auto simp: prefix_iff_take)
      moreover have "item_value (v @ t) = v"
        using assms(3,4) by (cases v) (auto simp: item_value_def cookie_value_def item_tail_def takeWhile_stop takeWhile_eq_all_conv)
      ultimately show ?thesis using step True eq by simp
    next
      case False
      then obtain c m where m: "drop (length name) n = c # m" using len by (cases "drop (length name) n") auto
      then have "set (c # m) \<subseteq> set n" by (metis set_drop_subset)
      then have c: "c \<noteq> ch_sp" "c \<noteq> ch_eq" "set (m @ ch_eq # v) \<inter> {ch_semi, ch_comma} = {}"
        using assms(1) clean by (auto simp: cookie_name_def)
      have "lower n \<noteq> lower name" using False by (metis length_map)
      with step True m c nx [OF c(3)] len show ?thesis by simp
    qed
  qed
qed

lemma cookie_line_start: "ps \<noteq> [] \<Longrightarrow> \<forall>(n, v) \<in> set ps. cookie_name n \<Longrightarrow> cookie_line ps \<noteq> [] \<and> hd (cookie_line ps) \<noteq> ch_sp"
  by (cases ps rule: cookie_line.cases) (auto simp: cookie_name_def hd_append dest!: hd_in_set)

lemma cookie_loop:
  assumes "cookie_name name" "\<forall>(n, v) \<in> set ps. cookie_name n \<and> cookie_value v"
  shows "multi_loop name (0 # post) True (cookie_line ps) =
    Some (map_option snd (List.find (\<lambda>(n, v). lower n = lower name) ps))"
  using assms(2)
proof (induction ps rule: cookie_line.induct)
  case 1
  then show ?case by (simp add: multi_loop.simps)
next
  case (2 n v)
  then show ?case using cookie_step [of n name v "[]" "[]" post] assms(1)
    by (simp add: item_tail_def multi_loop.simps [of name _ _ "[]"])
next
  case (3 n v q ps)
  have "item_tail {ch_semi} (ch_semi # ch_sp # cookie_line (q # ps)) (cookie_line (q # ps))"
    using cookie_line_start [of "q # ps"] 3(2) by (auto simp: item_tail_def)
  with cookie_step [of n name v _ _ post] 3 assms(1) show ?case by auto
qed

text \<open>A header line in memory is followed by a \<^verbatim>\<open>NUL\<close>.\<close>

definition line_elt :: "u_char list \<Rightarrow> u_char list \<Rightarrow> ngx_table_elt_t" where
  "line_elt post v = \<lparr>elt_value = v, elt_post = 0 # post\<rparr>"

lemma multi_loop_short:
  assumes "0 \<notin> set name" "name \<noteq> []" "length start < length name"
  shows "multi_loop name (0 # post) want start = Some None"
  using assms(3)
proof (induction "length start" arbitrary: start rule: less_induct)
  case less
  show ?case
  proof (cases "start = []")
    case True
    then show ?thesis by (simp add: multi_loop.simps)
  next
    case False
    have "\<not> prefix (lower name) (lower start)" using less.prems prefix_length_le by fastforce
    with multi_step [OF assms(1) False, of post want] less.hyps [of "next_item start"] next_item_length [OF False] less.prems
    show ?thesis by simp
  qed
qed

lemma multi_lines:
  assumes "cookie_name name" "\<forall>l \<in> set ls. \<exists>res. multi_loop name (0 # post) want (line l) = Some res \<and> res = f l"
  shows "map_option (map_option snd) (ngx_http_parse_multi_header_lines (map (\<lambda>l. line_elt post (line l)) ls) name want) =
    Some (case List.find (\<lambda>l. f l \<noteq> None) ls of None \<Rightarrow> None | Some l \<Rightarrow> f l)"
  using assms(2)
proof (induction ls)
  case (Cons l ls)
  have "f l = None" if "length (line l) < length name"
    using Cons.prems multi_loop_short [of name "line l" post want] assms(1) that by (auto simp: cookie_name_def)
  with Cons show ?case by (auto simp: line_elt_def split: option.splits)
qed simp

text \<open>A line of directives, such as the ones of \<^verbatim>\<open>Cache-Control\<close>.\<close>

fun directive_line :: "u_char list list \<Rightarrow> u_char list" where
  "directive_line [] = []"
| "directive_line [t] = t"
| "directive_line (t # ts) = t @ ch_comma # ch_sp # directive_line ts"

definition directive :: "u_char list \<Rightarrow> bool" where
  "directive t \<longleftrightarrow> t \<noteq> [] \<and> set t \<inter> {ch_semi, ch_comma} = {} \<and> hd t \<noteq> ch_sp \<and> last t \<noteq> ch_sp"

lemma skip_blanks_inside:
  assumes "m \<noteq> []" "last m \<noteq> ch_sp"
  shows "\<exists>c m'. skip_blanks (m @ t) = c # m' @ t \<and> c \<noteq> ch_sp \<and> set (c # m') \<subseteq> set m"
  using assms
proof (induction m)
  case (Cons a m)
  then show ?case by (cases "a = ch_sp"; cases "m = []") auto
qed simp

lemma directive_step:
  assumes "directive d" "cookie_name name" "item_tail {ch_comma} t rest"
  shows "multi_loop name (0 # post) False (d @ t) =
    (if lower d = lower name then Some (Some []) else multi_loop name (0 # post) False rest)"
proof -
  have nx: "next_item (x @ t) = rest" if "set x \<inter> {ch_semi, ch_comma} = {}" for x
    using next_item_tail [of t rest x] assms(3) that by (auto simp: item_tail_def)
  have z: "0 \<notin> set name" "ch_comma \<notin> set (lower name)" using assms(2) lower_name [of name] by (auto simp: cookie_name_def)
  have d: "d \<noteq> []" "set d \<inter> {ch_semi, ch_comma} = {}" "last d \<noteq> ch_sp" using assms(1) by (auto simp: directive_def)
  have pre: "prefix (lower name) (lower (d @ t)) \<longleftrightarrow> prefix (lower name) (lower d)"
    using assms(3) prefix_before [OF z(2)] lower_plain [of ch_comma ch_comma] by (auto simp: item_tail_def)
  have step: "multi_loop name (0 # post) False (d @ t) =
     (if \<not> prefix (lower name) (lower d) then multi_loop name (0 # post) False rest
      else case skip_blanks (drop (length name) (d @ t)) of [] \<Rightarrow> Some (Some [])
      | c # s \<Rightarrow> if c = ch_comma then Some (Some []) else multi_loop name (0 # post) False (next_item (c # s)))"
    using multi_step [OF z(1), of "d @ t" post False, unfolded pre] d nx [OF d(2)] by (simp split: list.split)
  show ?thesis
  proof (cases "prefix (lower name) (lower d)")
    case True
    then have len: "length name \<le> length d" using prefix_length_le by fastforce
    show ?thesis
    proof (cases "length name = length d")
      case eq: True
      then have "lower d = lower name" using True by (auto simp: prefix_iff_take)
      then show ?thesis using step True eq assms(3) by (auto simp: item_tail_def)
    next
      case False
      let ?m = "drop (length name) d"
      have m: "?m \<noteq> []" "last ?m \<noteq> ch_sp" using False len d by (auto simp: last_drop)
      from skip_blanks_inside [OF m, of t] obtain c m' where c: "skip_blanks (?m @ t) = c # m' @ t" "set (c # m') \<subseteq> set ?m"
        by blast
      have cm: "set (c # m') \<inter> {ch_semi, ch_comma} = {}" using c(2) d(2) set_drop_subset [of "length name" d] by blast
      have "lower d \<noteq> lower name" using False by (metis length_map)
      moreover have "next_item (c # m' @ t) = rest" using nx [OF cm] by simp
      moreover have "c \<noteq> ch_comma" using cm by auto
      ultimately show ?thesis using step True c(1) len by simp
    qed
  next
    case False
    then have "lower d \<noteq> lower name" by auto
    with False step show ?thesis by simp
  qed
qed

lemma directive_line_start:
  "ts \<noteq> [] \<Longrightarrow> \<forall>t \<in> set ts. directive t \<Longrightarrow> directive_line ts \<noteq> [] \<and> hd (directive_line ts) \<noteq> ch_sp"
  by (cases ts rule: directive_line.cases) (auto simp: directive_def hd_append)

lemma directive_loop:
  assumes "cookie_name name" "\<forall>t \<in> set ts. directive t"
  shows "multi_loop name (0 # post) False (directive_line ts) = Some (if lower name \<in> lower ` set ts then Some [] else None)"
  using assms(2)
proof (induction ts rule: directive_line.induct)
  case 1
  then show ?case by (simp add: multi_loop.simps)
next
  case (2 t)
  then show ?case using directive_step [of t name "[]" "[]" post] assms(1)
    by (auto simp: item_tail_def multi_loop.simps [of name _ _ "[]"])
next
  case (3 t q ts)
  have "item_tail {ch_comma} (ch_comma # ch_sp # directive_line (q # ts)) (directive_line (q # ts))"
    using directive_line_start [of "q # ts"] 3(2) by (auto simp: item_tail_def)
  with directive_step [of t name _ _ post] 3 assms(1) show ?case by auto
qed

section \<open>Cookies of an upstream\<close>

text \<open>A \<^verbatim>\<open>Set-Cookie\<close> line: a name, a value and the attributes behind it.\<close>

definition set_cookie_line :: "u_char list \<times> u_char list \<times> u_char list \<Rightarrow> u_char list" where
  "set_cookie_line l = (case l of (n, v, attrs) \<Rightarrow> n @ ch_eq # v @ attrs)"

definition set_cookie :: "u_char list \<times> u_char list \<times> u_char list \<Rightarrow> bool" where
  "set_cookie l \<longleftrightarrow> (case l of (n, v, attrs) \<Rightarrow>
     cookie_name n \<and> ch_semi \<notin> set v \<and> (v = [] \<or> hd v \<noteq> ch_sp) \<and> (attrs = [] \<or> hd attrs = ch_semi))"

lemma strncasecmp_line:
  assumes "cookie_name name" "cookie_name n"
  shows "\<exists>r. ngx_strncasecmp ((n @ ch_eq # x) @ 0 # post) name (length name) = Some r \<and> (r = 0 \<longleftrightarrow> prefix (lower name) (lower n))"
proof -
  have z: "0 \<notin> set name" "ch_eq \<notin> set (lower name)" using assms(1) lower_name [of name] by (auto simp: cookie_name_def)
  from strncasecmp_prefix [OF z(1), of "(n @ ch_eq # x) @ 0 # post" "[]"] prefix_before [OF z(2)] show ?thesis
    by (auto simp: lower_eq_sign)
qed

lemma skip_name:
  assumes "cookie_name name" "cookie_name n" "prefix (lower name) (lower n)"
  obtains "lower n = lower name" "skip_blanks (drop (length name) (n @ ch_eq # x)) = ch_eq # x"
  | c s where "lower n \<noteq> lower name" "c \<noteq> ch_eq" "skip_blanks (drop (length name) (n @ ch_eq # x)) = c # s"
proof (cases "length name = length n")
  case True
  then have "lower n = lower name" using assms(3) by (auto simp: prefix_iff_take)
  with True that(1) show ?thesis by simp
next
  case False
  have "length name \<le> length n" using prefix_length_le [OF assms(3)] by simp
  then obtain c m where m: "drop (length name) n = c # m" using False by (cases "drop (length name) n") auto
  then have "c \<in> set n" by (metis list.set_intros(1) in_set_dropD)
  then have "c \<noteq> ch_sp" "c \<noteq> ch_eq" using assms(2) by (auto simp: cookie_name_def)
  moreover have "lower n \<noteq> lower name" using False by (metis length_map)
  ultimately show ?thesis using that(2) m \<open>length name \<le> length n\<close> by simp
qed

lemma set_cookie_lines_find:
  assumes "cookie_name name" "\<forall>l \<in> set ls. set_cookie l"
  shows "map_option (map_option snd) (ngx_http_parse_set_cookie_lines (map (\<lambda>l. line_elt post (set_cookie_line l)) ls) name) =
    Some (map_option (\<lambda>l. fst (snd l)) (List.find (\<lambda>l. lower (fst l) = lower name) ls))"
  using assms(2)
proof (induction ls)
  case (Cons l ls)
  obtain n v attrs where l: "l = (n, v, attrs)" by (cases l)
  have n: "cookie_name n" using Cons.prems l by (auto simp: set_cookie_def)
  let ?x = "v @ attrs"
  have long: "length name < length (n @ ch_eq # ?x)" if "prefix (lower name) (lower n)"
    using prefix_length_le [OF that] by simp
  have val: "item_value ?x = v"
    using Cons.prems l by (cases v; cases attrs) (auto simp: item_value_def set_cookie_def takeWhile_stop takeWhile_eq_all_conv)
  obtain r where r: "ngx_strncasecmp ((n @ ch_eq # ?x) @ 0 # post) name (length name) = Some r"
    "r = 0 \<longleftrightarrow> prefix (lower name) (lower n)"
    using strncasecmp_line [OF assms(1) n] by blast
  have IH: "map_option (map_option snd) (ngx_http_parse_set_cookie_lines (map (\<lambda>l. line_elt post (set_cookie_line l)) ls) name) =
    Some (map_option (\<lambda>l. fst (snd l)) (List.find (\<lambda>l. lower (fst l) = lower name) ls))"
    by (rule Cons.IH) (use Cons.prems in simp)
  show ?case
  proof (cases "prefix (lower name) (lower n)")
    case True
    from assms(1) n True show ?thesis
    proof (cases rule: skip_name [of name n ?x])
      case 1
      then show ?thesis using r True long val by (auto simp: l line_elt_def set_cookie_line_def)
    next
      case (2 c s)
      then show ?thesis using r True long IH by (auto simp: l line_elt_def set_cookie_line_def)
    qed
  next
    case False
    then have "lower n \<noteq> lower name" by auto
    then show ?thesis using r False IH by (auto simp: l line_elt_def set_cookie_line_def)
  qed
qed simp

section \<open>Looking up parameters of header lines\<close>

lemma find_concat:
  "List.find P (concat xss) = (case List.find (\<lambda>xs. List.find P xs \<noteq> None) xss of None \<Rightarrow> None | Some xs \<Rightarrow> List.find P xs)"
proof (induction xss)
  case (Cons xs xss)
  have "List.find P (xs @ ys) = (case List.find P xs of None \<Rightarrow> List.find P ys | Some x \<Rightarrow> Some x)" for ys
    by (induction xs) auto
  with Cons show ?case by (auto split: option.splits)
qed simp

text \<open>Whatever the bytes of a value, no lookup reads behind the \<^verbatim>\<open>NUL\<close> that follows it.\<close>

lemma multi_loop_in_bounds:
  assumes "0 \<notin> set name"
  shows "multi_loop name (0 # post) want start \<noteq> None"
proof (induction "length start" arbitrary: start rule: less_induct)
  case less
  show ?case
  proof (cases "start = []")
    case False
    have "multi_loop name (0 # post) want (next_item start) \<noteq> None"
      by (rule less) (rule next_item_length [OF False])
    moreover have "multi_loop name (0 # post) want (next_item (c # s)) \<noteq> None" "multi_loop name (0 # post) want (next_item s) \<noteq> None"
      if "skip_blanks (drop (length name) start) = c # s" for c s
    proof -
      have "length (c # s) \<le> length start" using skip_length(1) [of "drop (length name) start"] that by simp
      then show "multi_loop name (0 # post) want (next_item (c # s)) \<noteq> None" "multi_loop name (0 # post) want (next_item s) \<noteq> None"
        using next_item_length [of "c # s"] next_item_le [of s] by (intro less; simp)+
    qed
    ultimately show ?thesis using multi_step [OF assms False] by (auto split: list.splits)
  qed (simp add: multi_loop.simps)
qed

lemma multi_lines_in_bounds:
  assumes "0 \<notin> set name"
  shows "ngx_http_parse_multi_header_lines (map (line_elt post) vs) name want \<noteq> None"
proof (induction vs)
  case (Cons v vs)
  obtain res where "multi_loop name (0 # post) want v = Some res" using multi_loop_in_bounds [OF assms] by blast
  with Cons show ?case by (auto simp: line_elt_def split: option.splits)
qed simp

lemma set_cookie_in_bounds:
  assumes "0 \<notin> set name"
  shows "ngx_http_parse_set_cookie_lines (map (line_elt post) vs) name \<noteq> None"
proof (induction vs)
  case (Cons v vs)
  have "ngx_strncasecmp (v @ 0 # post) name (length name) \<noteq> None"
    using strncasecmp_prefix [OF assms, of "v @ 0 # post" "[]"] by auto
  with Cons show ?case by (auto simp: line_elt_def split: option.splits list.splits)
qed simp

text \<open>
  C21: the lookups in header lines, each value followed in memory by a \<^verbatim>\<open>NUL\<close> (the one that
  \<^verbatim>\<open>ngx_http_process_request_headers\<close> and the upstream modules write there), which the comparison of names may read.
  Given \<^verbatim>\<open>Cookie\<close> lines of pairs \<^verbatim>\<open>n=v; n=v\<close>, with non-empty names that have no \<^verbatim>\<open>NUL\<close>, blank,
  equals sign, semicolon or comma and values that have no semicolon or comma and do not start with a blank, the
  variable \<^verbatim>\<open>$cookie_name\<close> has the value of the first pair of that name over all lines. Given lines of directives
  separated by comma and blank, \<^verbatim>\<open>ngx_http_parse_multi_header_lines\<close> without a value finds a line exactly if one of
  the directives is the one sought. Given \<^verbatim>\<open>Set-Cookie\<close> lines of a pair and attributes,
  \<^verbatim>\<open>ngx_http_parse_set_cookie_lines\<close> returns the value of the first line that sets the cookie. Names are compared
  without regard to case. For values of any bytes whatsoever, no lookup reads behind the \<^verbatim>\<open>NUL\<close>. Outside these
  forms a pair may be missed or found inside a value: the two facts behind the theorem show it.
\<close>

theorem header_lookups:
  assumes "cookie_name name" "\<forall>ps \<in> set pss. \<forall>(n, v) \<in> set ps. cookie_name n \<and> cookie_value v"
    and "\<forall>ts \<in> set tss. \<forall>t \<in> set ts. directive t" "\<forall>l \<in> set ls. set_cookie l"
  shows "ngx_http_variable_cookie (map (\<lambda>ps. line_elt post (cookie_line ps)) pss) (cookie_prefix @ name) =
      Some (map_option snd (List.find (\<lambda>(n, v). lower n = lower name) (concat pss)))
    \<and> map_option (map_option snd)
        (ngx_http_parse_multi_header_lines (map (\<lambda>ts. line_elt post (directive_line ts)) tss) name False) =
      Some (if lower name \<in> lower ` set (concat tss) then Some [] else None)
    \<and> map_option (map_option snd)
        (ngx_http_parse_set_cookie_lines (map (\<lambda>l. line_elt post (set_cookie_line l)) ls) name) =
      Some (map_option (\<lambda>l. fst (snd l)) (List.find (\<lambda>l. lower (fst l) = lower name) ls))
    \<and> ngx_http_parse_multi_header_lines (map (line_elt post) vs) name want \<noteq> None
    \<and> ngx_http_parse_set_cookie_lines (map (line_elt post) vs) name \<noteq> None"
proof -
  let ?f = "\<lambda>ps. map_option snd (List.find (\<lambda>(n, v). lower n = lower name) ps)"
  have cookies: "\<forall>ps \<in> set pss. \<exists>res. multi_loop name (0 # post) True (cookie_line ps) = Some res \<and> res = ?f ps"
    using cookie_loop [OF assms(1)] assms(2) by blast
  have "(case List.find (\<lambda>ps. ?f ps \<noteq> None) pss of None \<Rightarrow> None | Some ps \<Rightarrow> ?f ps) = ?f (concat pss)"
    unfolding find_concat by (auto split: option.splits)
  with multi_lines [OF assms(1) cookies]
  have 1: "ngx_http_variable_cookie (map (\<lambda>ps. line_elt post (cookie_line ps)) pss) (cookie_prefix @ name) = Some (?f (concat pss))"
    by (simp add: ngx_http_variable_cookie_def)
  let ?g = "\<lambda>ts. if lower name \<in> lower ` set ts then Some [] else None"
  have directives: "\<forall>ts \<in> set tss. \<exists>res. multi_loop name (0 # post) False (directive_line ts) = Some res \<and> res = ?g ts"
    using directive_loop [OF assms(1)] assms(3) by blast
  have eq: "(case List.find (\<lambda>ts. ?g ts \<noteq> None) tss of None \<Rightarrow> None | Some ts \<Rightarrow> ?g ts) = ?g (concat tss)"
    by (induction tss) auto
  have "map_option (map_option snd)
      (ngx_http_parse_multi_header_lines (map (\<lambda>ts. line_elt post (directive_line ts)) tss) name False) = Some (?g (concat tss))"
    using multi_lines [OF assms(1) directives] unfolding eq .
  moreover have "0 \<notin> set name" using assms(1) by (auto simp: cookie_name_def)
  ultimately show ?thesis
    using 1 set_cookie_lines_find [OF assms(1,4)] multi_lines_in_bounds set_cookie_in_bounds by blast
qed

theorem header_lookups_witness:
  "ngx_http_variable_cookie [line_elt [] [0x61, 0x62, 0x3d, 0x31, 0x3b, 0x20, 0x41, 0x3d, 0x32]] (cookie_prefix @ [0x61]) = Some (Some [0x32])
   \<and> map_option (map_option snd) (ngx_http_parse_multi_header_lines [line_elt [] [0x62, 0x2c, 0x20, 0x61]] [0x61] False) = Some (Some [])
   \<and> map_option (map_option snd) (ngx_http_parse_set_cookie_lines [line_elt [] [0x61, 0x3d, 0x33, 0x3b]] [0x61]) = Some (Some [0x33])"
proof -
  let ?ps = "[([0x61, 0x62], [0x31]), ([0x41], [0x32])] :: (u_char list \<times> u_char list) list"
  have "cookie_name [0x61]" "\<forall>ps \<in> set [?ps]. \<forall>(n, v) \<in> set ps. cookie_name n \<and> cookie_value v"
    "\<forall>ts \<in> set [[[0x62], [0x61]]]. \<forall>t \<in> set ts. directive t" "\<forall>l \<in> set [([0x61], [0x33], [0x3b])]. set_cookie l"
    by (simp_all add: cookie_name_def cookie_value_def directive_def set_cookie_def)
  from header_lookups [OF this, of "[]" "[]"] show ?thesis
    by (simp add: set_cookie_line_def ngx_tolower_def)
qed

text \<open>
  The test for the equals sign steps over the byte it refuses. If that byte is the semicolon behind a cookie
  without a value, the next pair is skipped with it: of \<^verbatim>\<open>a; a=1\<close> the cookie \<^verbatim>\<open>a\<close> is not found.
\<close>

lemma cookie_after_bare_name: "multi_loop [0x61] [0] True [0x61, 0x3b, 0x20, 0x61, 0x3d, 0x31] = Some None"
  by code_simp

text \<open>A comma ends a pair too: in \<^verbatim>\<open>x=1, a=2; a=3\<close> the cookie \<^verbatim>\<open>a\<close> is found inside the value of \<^verbatim>\<open>x\<close>.\<close>

lemma cookie_inside_value:
  "multi_loop (str ''a'') [0] True (str ''x=1, a=2; a=3'') = Some (Some (str ''2''))"
  by code_simp

end
