(* ===== verification/Ngx_Times.thy ===== *)
theory Ngx_Times
  imports Ngx_Sprintf Ngx_Parse_Time
begin

text \<open>
  From seconds to dates, \<^verbatim>\<open>src/reference/nginx-master/src/core/ngx_times.c\<close>: \<^verbatim>\<open>ngx_gmtime\<close>, \<^verbatim>\<open>ngx_http_time\<close>
  and \<^verbatim>\<open>ngx_http_cookie_time\<close>, and that \<^verbatim>\<open>ngx_parse_http_time\<close> reads back what they write.

  The variables of \<^verbatim>\<open>ngx_gmtime\<close> are unsigned, except \<^verbatim>\<open>yday\<close>, which is the only one to take a negative
  value; none of the products comes near the bound of a word, so all are integers here.
\<close>

section \<open>The functions\<close>

definition week :: "u_char list list" where
  "week = map str [''Sun'', ''Mon'', ''Tue'', ''Wed'', ''Thu'', ''Fri'', ''Sat'']"

definition months :: "u_char list list" where
  "months = map str [''Jan'', ''Feb'', ''Mar'', ''Apr'', ''May'', ''Jun'', ''Jul'', ''Aug'', ''Sep'', ''Oct'', ''Nov'', ''Dec'']"

record ngx_tm_t =
  ngx_tm_sec :: int
  ngx_tm_min :: int
  ngx_tm_hour :: int
  ngx_tm_mday :: int
  ngx_tm_mon :: int
  ngx_tm_year :: int
  ngx_tm_wday :: int

text \<open>The part of \<^verbatim>\<open>ngx_gmtime\<close> from the days since March 1 of the year 0 to year, month and day.\<close>

definition gm_days :: "int \<Rightarrow> int" where
  "gm_days year = 365 * year + year div 4 - year div 100 + year div 400"

definition gm_year :: "int \<Rightarrow> int \<times> int" where
  "gm_year days =
     (let year = (days + 2) * 400 div (365 * 400 + 100 - 4 + 1);
          yday = days - gm_days year
      in if yday < 0 then
           (let leap = (if year mod 4 = 0 \<and> (year mod 100 \<noteq> 0 \<or> year mod 400 = 0) then 1 else 0)
            in (year - 1, 365 + leap + yday))
         else (year, yday))"

definition gm_month :: "int \<Rightarrow> int \<Rightarrow> int \<times> int \<times> int" where
  "gm_month year yday =
     (let mon = (yday + 31) * 10 div 306;
          mday = yday - (367 * mon div 12 - 30) + 1
      in if yday \<ge> 306 then (year + 1, mon - 10, mday) else (year, mon + 2, mday))"

definition ngx_gmtime :: "int \<Rightarrow> ngx_tm_t" where
  "ngx_gmtime t =
     (let t = (if t < 0 then 0 else t);
          (days, sec) = (if t div 86400 > 2932896 then (2932896, 86399) else (t div 86400, t mod 86400));
          wday = (4 + days) mod 7;
          hour = sec div 3600;
          sec = sec mod 3600;
          minute = sec div 60;
          sec = sec mod 60;
          days = days - (31 + 28) + 719527;
          (year, yday) = gm_year days;
          (year, mon, mday) = gm_month year yday
      in \<lparr>ngx_tm_sec = sec, ngx_tm_min = minute, ngx_tm_hour = hour, ngx_tm_mday = mday, ngx_tm_mon = mon,
           ngx_tm_year = year, ngx_tm_wday = wday\<rparr>)"

text \<open>A string constant and an \<^verbatim>\<open>int\<close> as arguments of \<^verbatim>\<open>ngx_sprintf\<close>; \<open>cap\<close> is the room in \<^verbatim>\<open>buf\<close>.\<close>

abbreviation va_string :: "u_char list \<Rightarrow> 'd va_arg" where
  "va_string s \<equiv> Va_chars (s @ [0])"

abbreviation va_int :: "int \<Rightarrow> 'd va_arg" where
  "va_int n \<equiv> Va_32 (word_of_int n)"

definition ngx_http_time :: "'d fpu \<Rightarrow> nat \<Rightarrow> int \<Rightarrow> u_char list vsl" where
  "ngx_http_time fp cap t =
     (let tm = ngx_gmtime t
      in ngx_vslprintf fp cap (str ''%s, %02d %s %4d %02d:%02d:%02d GMT'' @ [0])
        [va_string (week ! nat (ngx_tm_wday tm)), va_int (ngx_tm_mday tm), va_string (months ! nat (ngx_tm_mon tm - 1)),
         va_int (ngx_tm_year tm), va_int (ngx_tm_hour tm), va_int (ngx_tm_min tm), va_int (ngx_tm_sec tm)])"

definition ngx_http_cookie_time :: "'d fpu \<Rightarrow> nat \<Rightarrow> int \<Rightarrow> u_char list vsl" where
  "ngx_http_cookie_time fp cap t =
     (let tm = ngx_gmtime t
      in ngx_vslprintf fp cap
        ((if ngx_tm_year tm > 2037 then str ''%s, %02d-%s-%d %02d:%02d:%02d GMT''
          else str ''%s, %02d-%s-%02d %02d:%02d:%02d GMT'') @ [0])
        [va_string (week ! nat (ngx_tm_wday tm)), va_int (ngx_tm_mday tm), va_string (months ! nat (ngx_tm_mon tm - 1)),
         va_int (if ngx_tm_year tm > 2037 then ngx_tm_year tm else ngx_tm_year tm mod 100),
         va_int (ngx_tm_hour tm), va_int (ngx_tm_min tm), va_int (ngx_tm_sec tm)])"

section \<open>The calendar\<close>

lemma div_pred: "0 < m \<Longrightarrow> y div m - (y - 1) div m = (if y mod m = 0 then 1 else 0 :: int)"
proof -
  assume m: "0 < m"
  have r: "0 \<le> y mod m" "y mod m < m" using m by auto
  have y: "y = m * (y div m) + y mod m" by simp
  show ?thesis
  proof (cases "y mod m = 0")
    case True
    then have "y - 1 = m * (y div m - 1) + (m - 1)" using y by (simp add: algebra_simps)
    from int_div_pos_eq [OF this] m have "(y - 1) div m = y div m - 1" by simp
    with True show ?thesis by simp
  next
    case False
    have "y - 1 = m * (y div m) + (y mod m - 1)" using y by simp
    from int_div_pos_eq [OF this] r False have "(y - 1) div m = y div m" by simp
    with False show ?thesis by simp
  qed
qed

lemma gm_days_leap:
  "gm_days year - gm_days (year - 1) = 365 + (if year mod 4 = 0 \<and> (year mod 100 \<noteq> 0 \<or> year mod 400 = 0) then 1 else 0)"
proof -
  have "year mod 4 = 0" if "year mod 100 = 0" using that mod_mod_cancel [of 4 100 year] by simp
  moreover have "year mod 100 = 0" if "year mod 400 = 0" using that mod_mod_cancel [of 100 400 year] by simp
  moreover have "gm_days year - gm_days (year - 1) = 365 + (year div 4 - (year - 1) div 4) -
      (year div 100 - (year - 1) div 100) + (year div 400 - (year - 1) div 400)"
    by (simp add: gm_days_def algebra_simps)
  moreover have "365 + (if P then 1 else 0) - (if Q then 1 else 0) + (if R then 1 else 0) =
      365 + (if P \<and> (\<not> Q \<or> R) then 1 else 0 :: int)" if "R \<Longrightarrow> Q" "Q \<Longrightarrow> P" for P Q R
    using that by auto
  ultimately show ?thesis by (simp only: div_pred zero_less_numeral)
qed

lemma gm_days_mono: "a \<le> b \<Longrightarrow> gm_days a \<le> gm_days b"
proof (induction "nat (b - a)" arbitrary: b)
  case (Suc n)
  then have "gm_days a \<le> gm_days (b - 1)" by simp
  with gm_days_leap [of b] show ?case by (auto split: if_splits)
qed simp

text \<open>400 years have 146097 days; the estimate of the year is right or one too high.\<close>

lemma gm_days_scaled: "400 * gm_days y = 146097 * y - 100 * (y mod 4) + 4 * (y mod 100) - y mod 400"
proof -
  have "a * 4 + r = y \<Longrightarrow> b * 100 + s = y \<Longrightarrow> c * 400 + t = y \<Longrightarrow>
    400 * (365 * y + a - b + c) = 146097 * y - 100 * r + 4 * s - t" for a b c r s t :: int
    by (simp add: algebra_simps)
  from this [OF div_mult_mod_eq div_mult_mod_eq div_mult_mod_eq] show ?thesis by (simp add: gm_days_def)
qed

lemma gm_year_bracket:
  fixes days :: int
  defines "year \<equiv> (days + 2) * 400 div 146097"
  shows "gm_days (year - 1) \<le> days" "days < gm_days (year + 1)"
proof -
  have mods: "0 \<le> y mod 4" "y mod 4 \<le> 3" "0 \<le> y mod 100" "y mod 100 \<le> 99" "0 \<le> y mod 400" "y mod 400 \<le> 399" for y :: int
    using pos_mod_bound [of 4 y] pos_mod_bound [of 100 y] pos_mod_bound [of 400 y] by simp_all
  have le: "400 * gm_days y \<le> 146097 * y + 396" and ge: "146097 * y - 699 \<le> 400 * gm_days y" for y
    using gm_days_scaled [of y] mods [of y] by simp_all
  obtain r where "(days + 2) * 400 = 146097 * year + r" "0 \<le> r" "r < 146097"
    using that [of "(days + 2) * 400 mod 146097"] unfolding year_def by simp
  then have "146097 * year \<le> (days + 2) * 400" "(days + 2) * 400 < 146097 * (year + 1)"
    by (simp_all add: distrib_left)
  with le [of "year - 1"] ge [of "year + 1"] show "gm_days (year - 1) \<le> days" "days < gm_days (year + 1)"
    by (simp_all add: algebra_simps)
qed

lemma gm_year_correct:
  obtains year yday where "gm_year days = (year, yday)" "days = gm_days year + yday" "0 \<le> yday"
    "yday < gm_days (year + 1) - gm_days year"
proof -
  let ?y = "(days + 2) * 400 div 146097"
  note b = gm_year_bracket [of days]
  show thesis
  proof (cases "days < gm_days ?y")
    case True
    then have "gm_year days = (?y - 1, days - gm_days (?y - 1))"
      using gm_days_leap [of ?y] by (auto simp: gm_year_def Let_def)
    with that [of "?y - 1" "days - gm_days (?y - 1)"] b True show thesis by simp
  next
    case False
    then have "gm_year days = (?y, days - gm_days ?y)" by (simp add: gm_year_def Let_def)
    with that [of ?y "days - gm_days ?y"] b False show thesis by simp
  qed
qed

text \<open>The months, counted from March.\<close>

definition month_ok :: "int \<Rightarrow> bool" where
  "month_ok yday =
     (let mon = (yday + 31) * 10 div 306; d = yday - (367 * mon div 12 - 30) + 1
      in 1 \<le> d \<and>
        (if yday < 306 then 1 \<le> mon \<and> mon \<le> 10 \<and> d \<le> int (mday ! nat (mon + 1))
         else 11 \<le> mon \<and> mon \<le> 12 \<and> d \<le> (if yday = 365 then 29 else int (mday ! nat (mon - 11))) \<and> (yday = 365 \<longrightarrow> mon = 12)))"

lemma month_ok:
  assumes "0 \<le> yday" "yday < 366"
  shows "month_ok yday"
proof -
  obtain mon r where mon: "mon = (yday + 31) * 10 div 306" "(yday + 31) * 10 = 306 * mon + r" "0 \<le> r" "r < 306"
    using that [of "(yday + 31) * 10 div 306" "(yday + 31) * 10 mod 306"] by simp
  then have b: "306 * mon \<le> 10 * yday + 310" "10 * yday + 310 < 306 * mon + 306" by auto
  then have "1 \<le> mon" "mon \<le> 12" using assms by linarith+
  then have "mon = 1 \<or> mon = 2 \<or> mon = 3 \<or> mon = 4 \<or> mon = 5 \<or> mon = 6 \<or> mon = 7 \<or> mon = 8 \<or> mon = 9 \<or> mon = 10 \<or> mon = 11 \<or> mon = 12"
    by presburger
  moreover have "mon = 1 \<Longrightarrow> 0 \<le> yday \<and> yday \<le> 30" "mon = 2 \<Longrightarrow> 31 \<le> yday \<and> yday \<le> 60" "mon = 3 \<Longrightarrow> 61 \<le> yday \<and> yday \<le> 91"
     "mon = 4 \<Longrightarrow> 92 \<le> yday \<and> yday \<le> 121" "mon = 5 \<Longrightarrow> 122 \<le> yday \<and> yday \<le> 152" "mon = 6 \<Longrightarrow> 153 \<le> yday \<and> yday \<le> 183"
     "mon = 7 \<Longrightarrow> 184 \<le> yday \<and> yday \<le> 213" "mon = 8 \<Longrightarrow> 214 \<le> yday \<and> yday \<le> 244" "mon = 9 \<Longrightarrow> 245 \<le> yday \<and> yday \<le> 274"
     "mon = 10 \<Longrightarrow> 275 \<le> yday \<and> yday \<le> 305" "mon = 11 \<Longrightarrow> 306 \<le> yday \<and> yday \<le> 336" "mon = 12 \<Longrightarrow> 337 \<le> yday \<and> yday \<le> 366"
    using b by presburger+
  ultimately show ?thesis using assms unfolding month_ok_def mon(1) [symmetric] Let_def
    by (elim disjE) (simp_all add: mday_def)
qed

lemma gm_leap: "int y mod 4 = 0 \<and> (int y mod 100 \<noteq> 0 \<or> int y mod 400 = 0) \<longleftrightarrow> leap y"
proof -
  have "int y mod numeral m = 0 \<longleftrightarrow> numeral m dvd y" for m
    unfolding dvd_eq_mod_eq_0 [symmetric] by (metis int_dvd_int_iff of_nat_numeral)
  then show ?thesis by (simp only: leap_def)
qed

lemma gm_month_correct:
  assumes "0 \<le> year" "0 \<le> yday" "yday < gm_days (year + 1) - gm_days year"
  obtains y k d where "gm_month year yday = (int y, int k + 1, int d)" "k < 12" "1 \<le> d" "d \<le> month_days y k"
    "day_number y k d = gm_days year + yday + 60" "int y = (if yday < 306 then year else year + 1)"
proof -
  define mon where "mon = (yday + 31) * 10 div 306"
  define d where "d = yday - (367 * mon div 12 - 30) + 1"
  have leap: "yday < 365 + (if leap (nat (year + 1)) then 1 else 0)"
    using assms gm_days_leap [of "year + 1"] gm_leap [of "nat (year + 1)"] by simp
  then have "month_ok yday" using assms(2) by (intro month_ok) (auto split: if_splits)
  note ok = this [unfolded month_ok_def Let_def, folded mon_def, folded d_def]
  have month: "gm_month year yday = (if yday \<ge> 306 then (year + 1, mon - 10, d) else (year, mon + 2, d))"
    by (simp add: gm_month_def Let_def mon_def d_def)
  have days: "gm_days (int n) = 365 * int n + int (n div 4) - int (n div 100) + int (n div 400)" for n
    by (simp add: gm_days_def zdiv_int)
  show thesis
  proof (cases "yday < 306")
    case True
    then have m: "1 \<le> mon" "mon \<le> 10" "1 \<le> d" "d \<le> int (mday ! nat (mon + 1))" using ok by auto
    let ?k = "nat (mon + 1)"
    have k: "2 \<le> ?k" "?k < 12" "int ?k - 1 = mon" using m by linarith+
    have "day_number (nat year) ?k (nat d) = gm_days year + yday + 60"
      using gauss_march [OF k(1,2), of "nat year" "nat d"] days [of "nat year"] assms(1) m(3) unfolding k(3) d_def by simp
    with that [of "nat year" ?k "nat d"] k m True assms(1) month show thesis
      by (auto simp: month_days_def)
  next
    case False
    then have m: "11 \<le> mon" "mon \<le> 12" "1 \<le> d" using ok by auto
    let ?k = "nat (mon - 11)"
    have k: "?k < 2" "int ?k + 11 = mon" using m by linarith+
    have y: "nat (year + 1) = Suc (nat year)" using assms(1) by simp
    have "day_number (nat (year + 1)) ?k (nat d) = gm_days year + yday + 60"
      using gauss_january [OF k(1), of "nat year" "nat d"] days [of "nat year"] assms(1) m(3) unfolding k(2) y d_def by simp
    moreover have "nat d \<le> month_days (nat (year + 1)) ?k"
      using ok False leap m by (auto simp: month_days_def mday_def split: if_splits)
    ultimately show thesis using that [of "nat (year + 1)" ?k "nat d"] k m False assms(1) month by auto
  qed
qed

text \<open>The seconds a date can show.\<close>

definition last_second :: int where
  "last_second = 253402300799"

definition shown :: "int \<Rightarrow> int" where
  "shown t = max 0 (min t last_second)"

lemma shown_split:
  "(let t = (if t < 0 then 0 else t) in if t div 86400 > 2932896 then (2932896, 86399) else (t div 86400, t mod 86400)) =
    (shown t div 86400, shown t mod 86400)"
proof (cases "t \<le> last_second")
  case True
  then have "\<not> (if t < 0 then 0 else t) div 86400 > 2932896"
    using zdiv_mono1 [of t last_second 86400] by (simp add: last_second_def)
  with True show ?thesis by (auto simp: shown_def Let_def last_second_def)
next
  case False
  then have "last_second + 1 \<le> t" by simp
  then have "2932897 \<le> t div 86400" using zdiv_mono1 [of "last_second + 1" t 86400] by (simp add: last_second_def)
  with False show ?thesis by (simp add: shown_def Let_def last_second_def)
qed

lemma shown_days: "0 \<le> shown t div 86400" "shown t div 86400 \<le> 2932896"
proof -
  have "0 \<le> shown t" "shown t \<le> last_second" by (auto simp: shown_def last_second_def)
  then show "0 \<le> shown t div 86400" "shown t div 86400 \<le> 2932896"
    using zdiv_mono1 [of "shown t" last_second 86400] by (simp_all add: last_second_def pos_imp_zdiv_nonneg_iff)
qed

lemma gm_days_end: "gm_days 1969 = 719162" "gm_days 1970 = 719527" "gm_days 9999 = 3652059" "gm_days 10000 = 3652425"
  by (simp_all add: gm_days_def)

lemma gmtime_correct:
  obtains y k d h mi s where "valid_date y k d h mi s" "epoch_seconds y k d h mi s = shown t" "1970 \<le> y"
    "ngx_gmtime t = \<lparr>ngx_tm_sec = int s, ngx_tm_min = int mi, ngx_tm_hour = int h, ngx_tm_mday = int d,
      ngx_tm_mon = int k + 1, ngx_tm_year = int y, ngx_tm_wday = (4 + shown t div 86400) mod 7\<rparr>"
proof -
  define days sec where "days = shown t div 86400" and "sec = shown t mod 86400"
  have sec: "0 \<le> sec" "sec < 86400" "shown t = days * 86400 + sec" by (simp_all add: days_def sec_def)
  have days: "0 \<le> days" "days \<le> 2932896" using shown_days by (simp_all add: days_def)
  obtain year yday where y: "gm_year (days - 59 + 719527) = (year, yday)" "days - 59 + 719527 = gm_days year + yday"
    "0 \<le> yday" "yday < gm_days (year + 1) - gm_days year" by (rule gm_year_correct)
  have low: "1969 \<le> year" using gm_days_mono [of "year + 1" 1969] gm_days_end y days by (cases "1969 \<le> year") auto
  have high: "year \<le> 9999" using gm_days_mono [of 10000 year] gm_days_end y days by (cases "year \<le> 9999") auto
  obtain Y k d where m: "gm_month year yday = (int Y, int k + 1, int d)" "k < 12" "1 \<le> d" "d \<le> month_days Y k"
    "day_number Y k d = gm_days year + yday + 60" "int Y = (if yday < 306 then year else year + 1)"
    using gm_month_correct [of year yday] y low by auto
  have Y: "1970 \<le> Y" "Y < 10000"
    using m(6) low high y days gm_days_end by (cases "year = 1969"; cases "year = 9999"; auto split: if_splits)+
  define h mi s where "h = nat (sec div 3600)" and "mi = nat (sec mod 3600 div 60)" and "s = nat (sec mod 3600 mod 60)"
  have t: "sec div 3600 = int h" "sec mod 3600 div 60 = int mi" "sec mod 3600 mod 60 = int s"
    using sec by (simp_all add: h_def mi_def s_def pos_imp_zdiv_nonneg_iff)
  have "sec = int h * 3600 + int mi * 60 + int s"
    unfolding t [symmetric] by (metis add.assoc div_mult_mod_eq mult.commute)
  then have "epoch_seconds Y k d h mi s = shown t" using m(5) y(2) sec(3) by (simp add: epoch_seconds_eq)
  moreover have "h < 24" "mi < 60" "s < 60"
  proof -
    have "sec div 3600 \<le> 86399 div 3600" using sec by (intro zdiv_mono1) auto
    then show "h < 24" by (simp add: t)
    have "sec mod 3600 div 60 \<le> 3599 div 60" using pos_mod_bound [of 3600 sec] by (intro zdiv_mono1) auto
    then show "mi < 60" by (simp add: t)
    show "s < 60" using pos_mod_bound [of 60 "sec mod 3600"] by (simp add: t)
  qed
  moreover have "ngx_gmtime t = \<lparr>ngx_tm_sec = int s, ngx_tm_min = int mi, ngx_tm_hour = int h, ngx_tm_mday = int d,
      ngx_tm_mon = int k + 1, ngx_tm_year = int Y, ngx_tm_wday = (4 + shown t div 86400) mod 7\<rparr>"
    using shown_split [of t] y(1) m(1) t unfolding ngx_gmtime_def Let_def
    by (simp add: days_def sec_def)
  ultimately show thesis using that [of Y k d h mi s] m Y by (simp add: valid_date_def)
qed

section \<open>The text\<close>

lemma dec_digits_step:
  assumes "n < 2 ^ 32"
  shows "dec_digits (Suc p) (of_nat n :: 32 word) temp =
    (if n < 10 then Inr ((ch_0 + of_nat n) # temp) else dec_digits p (of_nat (n div 10) :: 32 word) ((ch_0 + of_nat (n mod 10)) # temp))"
proof -
  have u: "unat (of_nat m :: 32 word) = m" if "m \<le> n" for m
    using assms that by (simp add: unsigned_of_nat take_bit_nat_eq_self)
  have m: "(of_nat n :: 32 word) mod 10 = of_nat (n mod 10)"
    by (simp add: word_unat_eq_iff unat_mod u)
  have d: "(of_nat n :: 32 word) div 10 = of_nat (n div 10)"
    by (simp add: word_unat_eq_iff unat_div u)
  have c: "(ucast (of_nat (n mod 10) + 48 :: 32 word) :: u_char) = ch_0 + of_nat (n mod 10)"
  proof -
    have "list_all (\<lambda>k. (ucast (of_nat k + 48 :: 32 word) :: u_char) = ch_0 + of_nat k) [0..<10]" by code_simp
    then show ?thesis unfolding list_all_iff by simp
  qed
  have "(of_nat (n div 10) :: 32 word) = 0 \<longleftrightarrow> n < 10"
    using u [of "n div 10"] by (metis div_eq_0_iff div_le_dividend numeral_eq_Suc unat_0 unat_eq_zero zero_neq_numeral)
  then show ?thesis using c by (auto simp: m d Let_def)
qed

declare dec_digits.simps [simp del]

lemma ucast_of_nat: "n < 2 ^ 32 \<Longrightarrow> (ucast (of_nat n :: 64 word) :: 32 word) = of_nat n"
  by (simp add: word_unat_eq_iff unsigned_ucast_eq unsigned_of_nat take_bit_nat_eq_self)

lemma sprintf_temp_dec: "n < 2 ^ 32 \<Longrightarrow> sprintf_temp (of_nat n) 0 = dec_digits 20 (of_nat n :: 32 word) []"
  unfolding sprintf_temp_def by (simp add: ucast_of_nat word_le_nat_alt unsigned_of_nat take_bit_nat_eq_self)

lemma sprintf_two:
  assumes "n < 100"
  shows "sprintf_temp (of_nat n) 0 = Inr (if n < 10 then [ch_0 + of_nat n] else two n)"
proof -
  have "dec_digits (Suc (Suc p)) (of_nat n :: 32 word) [] = Inr (if n < 10 then [ch_0 + of_nat n] else two n)" for p
    using assms div_less_iff_less_mult [of 10 n 10] by (simp add: dec_digits_step two_def)
  from this [of 18] sprintf_temp_dec [of n] assms show ?thesis by simp
qed

lemma sprintf_four:
  assumes "1000 \<le> n" "n < 10000"
  shows "sprintf_temp (of_nat n) 0 = Inr (four n)"
proof -
  have d: "n div 10 div 10 div 10 = n div 100 div 10" "n div 10 div 10 mod 10 = n div 100 mod 10"
    "n div 10 mod 10 = n mod 100 div 10" "n mod 10 = n mod 100 mod 10"
    using mod_mod_cancel [of 10 100 n] mod_mult2_eq [of n 10 10] by (simp_all add: div_mult2_eq [symmetric])
  have "10 \<le> n" "10 \<le> n div 10" "10 \<le> n div 10 div 10" "n div 10 div 10 div 10 < 10"
    using assms by (auto simp: div_mult2_eq [symmetric] less_eq_div_iff_mult_less_eq div_less_iff_less_mult)
  moreover have "n div 10 < 2 ^ 32" "n div 10 div 10 < 2 ^ 32" "n div 10 div 10 div 10 < 2 ^ 32" "n < 2 ^ 32"
    using assms div_le_dividend [of n 10] div_le_dividend [of n 100] div_le_dividend [of n 1000]
    by (simp_all add: div_mult2_eq [symmetric])
  ultimately have "dec_digits (Suc (Suc (Suc (Suc p)))) (of_nat n :: 32 word) [] = Inr (four n)" for p
    by (simp add: dec_digits_step four_def two_def d del: div_mult2_eq)
  from this [of 16] sprintf_temp_dec [of n] assms show ?thesis by simp
qed

lemma num_two:
  assumes "n < 100" "length out + 2 \<le> cap"
  shows "ngx_sprintf_num cap out (of_nat n) ch_0 0 2 = Inr (out @ two n)"
  using assms by (auto simp: ngx_sprintf_num_def sprintf_two pad_loop.simps two_def)

lemma num_four:
  assumes "1000 \<le> n" "n < 10000" "length out + 4 \<le> cap"
  shows "ngx_sprintf_num cap out (of_nat n) ch_sp 0 4 = Inr (out @ four n)"
  using assms by (simp add: ngx_sprintf_num_def sprintf_four pad_loop.simps)

text \<open>The formats, one item at a time.\<close>

lemma loop_end: "vslprintf_loop fp cap (0 # fmt) args out = Inr out"
  by simp

lemma loop_literal:
  assumes "c \<noteq> 0" "c \<noteq> ch_percent" "length out < cap"
  shows "vslprintf_loop fp cap (c # fmt) args out = vslprintf_loop fp cap fmt args (out @ [c])"
  using assms by (simp add: fmt_item_def put_def)

lemma str_until_nul_copy:
  "0 \<notin> set w \<Longrightarrow> length out + length w \<le> cap \<Longrightarrow> str_until_nul cap (w @ [0]) out = Inr (out @ w)"
  by (induction w arbitrary: out) auto

lemma loop_string:
  assumes "0 \<notin> set w" "w \<noteq> []" "length out + length w \<le> cap"
  shows "vslprintf_loop fp cap (ch_percent # ch_s # fmt) (Va_chars (w @ [0]) # args) out = vslprintf_loop fp cap fmt args (out @ w)"
proof -
  have "length out < cap" using assms(2,3) by (cases w) auto
  with str_until_nul_copy [OF assms(1,3)] show ?thesis
    by (simp add: fmt_item_def fmt_start_def fmt_convert_def ngx_sprintf_str_def Let_def)
qed

lemma int_argument:
  assumes "n < 10000"
  shows "(signed (of_nat n :: 32 word) :: 64 word) = of_nat n" "\<not> sint (of_nat n :: 64 word) < 0"
proof -
  have s: "sint (of_nat n :: 32 word) = int n" "sint (of_nat n :: 64 word) = int n"
    using assms by (simp_all add: signed_of_nat signed_take_bit_int_eq_self)
  then show "\<not> sint (of_nat n :: 64 word) < 0" by simp
  show "(signed (of_nat n :: 32 word) :: 64 word) = of_nat n"
    using of_int_sint [of "of_nat n :: 32 word", where ?'a = "64 word"] s(1) by simp
qed

lemma loop_02d:
  assumes "n < 100" "length out + 2 \<le> cap"
  shows "vslprintf_loop fp cap (ch_percent # ch_0 # ch_2 # ch_d # fmt) (Va_32 (of_nat n) # args) out = vslprintf_loop fp cap fmt args (out @ two n)"
  using assms num_two [OF assms] int_argument [of n]
  by (simp add: fmt_item_def fmt_start_def fmt_convert_def fmt_int_def fmt_signed_def widen_def Let_def)

lemma loop_4d:
  assumes "1000 \<le> n" "n < 10000" "length out + 4 \<le> cap"
  shows "vslprintf_loop fp cap (ch_percent # ch_4 # ch_d # fmt) (Va_32 (of_nat n) # args) out = vslprintf_loop fp cap fmt args (out @ four n)"
  using assms num_four [OF assms] int_argument [of n]
  by (simp add: fmt_item_def fmt_start_def fmt_convert_def fmt_int_def fmt_signed_def widen_def Let_def)


lemma week_name: "n < 7 \<Longrightarrow> length (week ! n) = 3 \<and> 0 \<notin> set (week ! n) \<and> list_all (\<lambda>c. c \<noteq> ch_comma \<and> c \<noteq> ch_sp) (week ! n)"
proof -
  assume "n < 7"
  moreover have "list_all (\<lambda>n. length (week ! n) = 3 \<and> 0 \<notin> set (week ! n) \<and> list_all (\<lambda>c. c \<noteq> ch_comma \<and> c \<noteq> ch_sp) (week ! n)) [0..<7]"
    by code_simp
  ultimately show ?thesis unfolding list_all_iff by simp
qed

lemma months_name: "k < 12 \<Longrightarrow> months ! k = month_name k \<and> 0 \<notin> set (month_name k)"
proof -
  assume "k < 12"
  moreover have "list_all (\<lambda>k. months ! k = month_name k \<and> 0 \<notin> set (month_name k)) [0..<12]" by code_simp
  ultimately show ?thesis unfolding list_all_iff by simp
qed

lemma run_http_time:
  assumes "valid_date y k d h mi s" "1970 \<le> y" "wd < 7" "29 \<le> cap"
  shows "ngx_vslprintf fp cap (str ''%s, %02d %s %4d %02d:%02d:%02d GMT'' @ [0])
      [va_string (week ! wd), Va_32 (of_nat d), va_string (months ! k), Va_32 (of_nat y), Va_32 (of_nat h), Va_32 (of_nat mi), Va_32 (of_nat s)] =
    Inr (week ! wd @ rfc822_date y k d h mi s @ str '' GMT'')"
proof -
  note b = valid_bounds [OF assms(1)]
  have w: "length (week ! wd) = 3" "0 \<notin> set (week ! wd)" "week ! wd \<noteq> []" using week_name [OF assms(3)] by auto
  have m: "months ! k = month_name k" "0 \<notin> set (month_name k)" "length (month_name k) = 3" "month_name k \<noteq> []"
    using months_name [OF b(2)] length_month_name [OF b(2)] by auto
  show ?thesis unfolding ngx_vslprintf_def m(1)
    using assms b w m by (simp add: loop_string loop_02d loop_4d loop_literal loop_end rfc822_date_def clock_def
        del: vslprintf_loop.simps)
qed

lemma run_cookie_time:
  assumes "valid_date y k d h mi s" "wd < 7" "29 \<le> cap"
  shows "ngx_vslprintf fp cap (str ''%s, %02d-%s-%02d %02d:%02d:%02d GMT'' @ [0])
      [va_string (week ! wd), Va_32 (of_nat d), va_string (months ! k), Va_32 (of_nat (y mod 100)), Va_32 (of_nat h), Va_32 (of_nat mi), Va_32 (of_nat s)] =
    Inr (week ! wd @ rfc850_date y k d h mi s @ str '' GMT'')"
proof -
  note b = valid_bounds [OF assms(1)]
  have w: "length (week ! wd) = 3" "0 \<notin> set (week ! wd)" "week ! wd \<noteq> []" using week_name [OF assms(2)] by auto
  have m: "months ! k = month_name k" "0 \<notin> set (month_name k)" "length (month_name k) = 3" "month_name k \<noteq> []"
    using months_name [OF b(2)] length_month_name [OF b(2)] by auto
  show ?thesis unfolding ngx_vslprintf_def m(1)
    using assms b w m by (simp add: loop_string loop_02d loop_literal loop_end rfc850_date_def clock_def del: vslprintf_loop.simps)
qed

lemma year_2038:
  assumes "valid_date y k d h mi s" "2038 \<le> y"
  shows "2145916800 \<le> epoch_seconds y k d h mi s"
proof -
  have "days_before_year (Suc 2037) = 744365" using days_before_year_Suc [of 2037] by simp
  moreover have "days_before_year m \<le> days_before_year n" if "m \<le> n" for m n
    using that by (induction n rule: dec_induct) auto
  ultimately have "744365 \<le> days_before_year y" using assms(2) by (metis Suc_numeral semiring_norm(5,8))
  then show ?thesis using assms(1) by (simp add: epoch_seconds_eq day_number_def valid_date_def)
qed

text \<open>
  C24: writing and reading a time agree. Into 29 bytes of room \<^verbatim>\<open>ngx_http_time\<close> writes a date of exactly 29 bytes for
  every time, and \<^verbatim>\<open>ngx_parse_http_time\<close> reads from it the same second, where a time before 1970 counts as the
  first second of 1970 and a time after the year 9999 as the last second of that year. The same holds of
  \<^verbatim>\<open>ngx_http_cookie_time\<close> up to the end of 2037.
\<close>

theorem http_time_roundtrip:
  assumes "29 \<le> cap"
  shows "(\<exists>text. ngx_http_time fp cap t = Inr text \<and> length text = 29 \<and> ngx_parse_http_time text = Val (max 0 (min t 253402300799)))
    \<and> (t < 2145916800 \<longrightarrow>
        (\<exists>text. ngx_http_cookie_time fp cap t = Inr text \<and> ngx_parse_http_time text = Val (max 0 t)))"
proof -
  obtain y k d h mi s where v: "valid_date y k d h mi s" and e: "epoch_seconds y k d h mi s = shown t" and y: "1970 \<le> y"
    and tm: "ngx_gmtime t = \<lparr>ngx_tm_sec = int s, ngx_tm_min = int mi, ngx_tm_hour = int h, ngx_tm_mday = int d,
      ngx_tm_mon = int k + 1, ngx_tm_year = int y, ngx_tm_wday = (4 + shown t div 86400) mod 7\<rparr>"
    by (rule gmtime_correct)
  define wd where "wd = nat ((4 + shown t div 86400) mod 7)"
  have wd: "wd < 7" by (simp add: wd_def nat_less_iff)
  have w: "\<forall>c \<in> set (week ! wd). c \<noteq> ch_comma \<and> c \<noteq> ch_sp" "length (week ! wd) = 3"
    using week_name [OF wd] by (auto simp: list_all_iff)
  have "ngx_http_time fp cap t = Inr (week ! wd @ rfc822_date y k d h mi s @ str '' GMT'')"
    using run_http_time [OF v y wd assms, of fp] by (simp add: ngx_http_time_def tm wd_def)
  moreover have "length (week ! wd @ rfc822_date y k d h mi s @ str '' GMT'') = 29"
    using w(2) valid_bounds(2) [OF v] by (simp add: rfc822_date_def)
  moreover have "shown t = max 0 (min t 253402300799)" by (simp add: shown_def last_second_def)
  moreover have "\<exists>text. ngx_http_cookie_time fp cap t = Inr text \<and> ngx_parse_http_time text = Val (max 0 t)" if t: "t < 2145916800"
  proof -
    have sh: "shown t = max 0 t" using t by (simp add: shown_def last_second_def)
    have "y \<le> 2037"
    proof (rule ccontr)
      assume "\<not> y \<le> 2037"
      with year_2038 [OF v] e sh t show False by simp
    qed
    have "int y mod 100 = int (y mod 100)" by (simp add: zmod_int)
    then have va: "(word_of_int (int y mod 100) :: 32 word) = of_nat (y mod 100)" by (simp only: of_int_of_nat_eq)
    have "ngx_http_cookie_time fp cap t = Inr (week ! wd @ rfc850_date y k d h mi s @ str '' GMT'')"
      using run_cookie_time [OF v wd assms, of fp] \<open>y \<le> 2037\<close> by (simp add: ngx_http_cookie_time_def tm wd_def va)
    with rfc850_reads [OF v w(1) y, of "str '' GMT''"] \<open>y \<le> 2037\<close> e sh show ?thesis by simp
  qed
  ultimately show ?thesis using rfc822_reads [OF v w(1), of "str '' GMT''"] e by auto
qed

theorem http_time_roundtrip_witness:
  "\<exists>text. ngx_http_time no_fpu 29 784111777 = Inr text \<and> length text = 29 \<and> ngx_parse_http_time text = Val 784111777"
  using http_time_roundtrip [of 29 no_fpu 784111777] by simp

end
