(* ===== verification/Ngx_Crc32.thy ===== *)
theory Ngx_Crc32
  imports Ngx_Prelude
begin

text \<open>
  The checksums of \<^verbatim>\<open>src/reference/nginx-master/src/core/ngx_crc32.c\<close> and \<^verbatim>\<open>core/ngx_crc32.h\<close>, by a table of 16
  entries and by a table of 256 entries, against the division of polynomials that CRC-32 is.
\<close>

unbundle bit_operations_syntax

section \<open>The code\<close>

definition ngx_crc32_table16 :: "32 word list" where
  "ngx_crc32_table16 =
    [0x00000000, 0x1db71064, 0x3b6e20c8, 0x26d930ac, 0x76dc4190, 0x6b6b51f4, 0x4db26158, 0x5005713c,
     0xedb88320, 0xf00f9344, 0xd6d6a3e8, 0xcb61b38c, 0x9b64c2b0, 0x86d3d2d4, 0xa00ae278, 0xbdbdf21c]"

definition ngx_crc32_table256 :: "32 word list" where
  "ngx_crc32_table256 =
    [0x00000000, 0x77073096, 0xee0e612c, 0x990951ba, 0x076dc419, 0x706af48f, 0xe963a535, 0x9e6495a3,
     0x0edb8832, 0x79dcb8a4, 0xe0d5e91e, 0x97d2d988, 0x09b64c2b, 0x7eb17cbd, 0xe7b82d07, 0x90bf1d91,
     0x1db71064, 0x6ab020f2, 0xf3b97148, 0x84be41de, 0x1adad47d, 0x6ddde4eb, 0xf4d4b551, 0x83d385c7,
     0x136c9856, 0x646ba8c0, 0xfd62f97a, 0x8a65c9ec, 0x14015c4f, 0x63066cd9, 0xfa0f3d63, 0x8d080df5,
     0x3b6e20c8, 0x4c69105e, 0xd56041e4, 0xa2677172, 0x3c03e4d1, 0x4b04d447, 0xd20d85fd, 0xa50ab56b,
     0x35b5a8fa, 0x42b2986c, 0xdbbbc9d6, 0xacbcf940, 0x32d86ce3, 0x45df5c75, 0xdcd60dcf, 0xabd13d59,
     0x26d930ac, 0x51de003a, 0xc8d75180, 0xbfd06116, 0x21b4f4b5, 0x56b3c423, 0xcfba9599, 0xb8bda50f,
     0x2802b89e, 0x5f058808, 0xc60cd9b2, 0xb10be924, 0x2f6f7c87, 0x58684c11, 0xc1611dab, 0xb6662d3d,
     0x76dc4190, 0x01db7106, 0x98d220bc, 0xefd5102a, 0x71b18589, 0x06b6b51f, 0x9fbfe4a5, 0xe8b8d433,
     0x7807c9a2, 0x0f00f934, 0x9609a88e, 0xe10e9818, 0x7f6a0dbb, 0x086d3d2d, 0x91646c97, 0xe6635c01,
     0x6b6b51f4, 0x1c6c6162, 0x856530d8, 0xf262004e, 0x6c0695ed, 0x1b01a57b, 0x8208f4c1, 0xf50fc457,
     0x65b0d9c6, 0x12b7e950, 0x8bbeb8ea, 0xfcb9887c, 0x62dd1ddf, 0x15da2d49, 0x8cd37cf3, 0xfbd44c65,
     0x4db26158, 0x3ab551ce, 0xa3bc0074, 0xd4bb30e2, 0x4adfa541, 0x3dd895d7, 0xa4d1c46d, 0xd3d6f4fb,
     0x4369e96a, 0x346ed9fc, 0xad678846, 0xda60b8d0, 0x44042d73, 0x33031de5, 0xaa0a4c5f, 0xdd0d7cc9,
     0x5005713c, 0x270241aa, 0xbe0b1010, 0xc90c2086, 0x5768b525, 0x206f85b3, 0xb966d409, 0xce61e49f,
     0x5edef90e, 0x29d9c998, 0xb0d09822, 0xc7d7a8b4, 0x59b33d17, 0x2eb40d81, 0xb7bd5c3b, 0xc0ba6cad,
     0xedb88320, 0x9abfb3b6, 0x03b6e20c, 0x74b1d29a, 0xead54739, 0x9dd277af, 0x04db2615, 0x73dc1683,
     0xe3630b12, 0x94643b84, 0x0d6d6a3e, 0x7a6a5aa8, 0xe40ecf0b, 0x9309ff9d, 0x0a00ae27, 0x7d079eb1,
     0xf00f9344, 0x8708a3d2, 0x1e01f268, 0x6906c2fe, 0xf762575d, 0x806567cb, 0x196c3671, 0x6e6b06e7,
     0xfed41b76, 0x89d32be0, 0x10da7a5a, 0x67dd4acc, 0xf9b9df6f, 0x8ebeeff9, 0x17b7be43, 0x60b08ed5,
     0xd6d6a3e8, 0xa1d1937e, 0x38d8c2c4, 0x4fdff252, 0xd1bb67f1, 0xa6bc5767, 0x3fb506dd, 0x48b2364b,
     0xd80d2bda, 0xaf0a1b4c, 0x36034af6, 0x41047a60, 0xdf60efc3, 0xa867df55, 0x316e8eef, 0x4669be79,
     0xcb61b38c, 0xbc66831a, 0x256fd2a0, 0x5268e236, 0xcc0c7795, 0xbb0b4703, 0x220216b9, 0x5505262f,
     0xc5ba3bbe, 0xb2bd0b28, 0x2bb45a92, 0x5cb36a04, 0xc2d7ffa7, 0xb5d0cf31, 0x2cd99e8b, 0x5bdeae1d,
     0x9b64c2b0, 0xec63f226, 0x756aa39c, 0x026d930a, 0x9c0906a9, 0xeb0e363f, 0x72076785, 0x05005713,
     0x95bf4a82, 0xe2b87a14, 0x7bb12bae, 0x0cb61b38, 0x92d28e9b, 0xe5d5be0d, 0x7cdcefb7, 0x0bdbdf21,
     0x86d3d2d4, 0xf1d4e242, 0x68ddb3f8, 0x1fda836e, 0x81be16cd, 0xf6b9265b, 0x6fb077e1, 0x18b74777,
     0x88085ae6, 0xff0f6a70, 0x66063bca, 0x11010b5c, 0x8f659eff, 0xf862ae69, 0x616bffd3, 0x166ccf45,
     0xa00ae278, 0xd70dd2ee, 0x4e048354, 0x3903b3c2, 0xa7672661, 0xd06016f7, 0x4969474d, 0x3e6e77db,
     0xaed16a4a, 0xd9d65adc, 0x40df0b66, 0x37d83bf0, 0xa9bcae53, 0xdebb9ec5, 0x47b2cf7f, 0x30b5ffe9,
     0xbdbdf21c, 0xcabac28a, 0x53b39330, 0x24b4a3a6, 0xbad03605, 0xcdd70693, 0x54de5729, 0x23d967bf,
     0xb3667a2e, 0xc4614ab8, 0x5d681b02, 0x2a6f2b94, 0xb40bbe37, 0xc30c8ea1, 0x5a05df1b, 0x2d02ef8d]"

fun crc32_short_loop :: "32 word \<Rightarrow> u_char list \<Rightarrow> 32 word" where
  "crc32_short_loop crc [] = crc"
| "crc32_short_loop crc (c # p) =
     (let crc = ngx_crc32_table16 ! unat ((crc XOR (ucast c AND 0xf)) AND 0xf) XOR drop_bit 4 crc;
          crc = ngx_crc32_table16 ! unat ((crc XOR drop_bit 4 (ucast c)) AND 0xf) XOR drop_bit 4 crc
      in crc32_short_loop crc p)"

definition ngx_crc32_short :: "u_char list \<Rightarrow> 32 word" where
  "ngx_crc32_short p = crc32_short_loop 0xffffffff p XOR 0xffffffff"

fun ngx_crc32_update :: "32 word \<Rightarrow> u_char list \<Rightarrow> 32 word" where
  "ngx_crc32_update c [] = c"
| "ngx_crc32_update c (b # p) = ngx_crc32_update (ngx_crc32_table256 ! unat ((c XOR ucast b) AND 0xff) XOR drop_bit 8 c) p"

definition ngx_crc32_init :: "32 word" where
  "ngx_crc32_init = 0xffffffff"

definition ngx_crc32_final :: "32 word \<Rightarrow> 32 word" where
  "ngx_crc32_final crc = crc XOR 0xffffffff"

fun crc32_long_loop :: "32 word \<Rightarrow> u_char list \<Rightarrow> 32 word" where
  "crc32_long_loop crc [] = crc"
| "crc32_long_loop crc (b # p) = crc32_long_loop (ngx_crc32_table256 ! unat ((crc XOR ucast b) AND 0xff) XOR drop_bit 8 crc) p"

definition ngx_crc32_long :: "u_char list \<Rightarrow> 32 word" where
  "ngx_crc32_long p = crc32_long_loop 0xffffffff p XOR 0xffffffff"

section \<open>Division by the polynomial\<close>

text \<open>One step divides by the generator polynomial, bits reversed; a byte enters at the low end and is followed by
  eight steps.\<close>

definition crc_step :: "32 word \<Rightarrow> 32 word" where
  "crc_step x = drop_bit 1 x XOR (if bit x 0 then 0xedb88320 else 0)"

definition crc_byte :: "32 word \<Rightarrow> u_char \<Rightarrow> 32 word" where
  "crc_byte crc c = (crc_step ^^ 8) (crc XOR ucast c)"

definition crc32 :: "u_char list \<Rightarrow> 32 word" where
  "crc32 p = foldl crc_byte 0xffffffff p XOR 0xffffffff"

lemma crc_step_xor: "crc_step (a XOR b) = crc_step a XOR crc_step b"
  by (cases "bit a 0"; cases "bit b 0") (simp_all add: crc_step_def bit_xor_iff drop_bit_xor ac_simps flip: xor.assoc)

lemma crc_steps_xor: "(crc_step ^^ n) (a XOR b) = (crc_step ^^ n) a XOR (crc_step ^^ n) b"
  by (induction n) (simp_all add: crc_step_xor)

lemma crc_steps_high: "take_bit n x = 0 \<Longrightarrow> (crc_step ^^ n) x = drop_bit n x"
proof (induction n arbitrary: x)
  case (Suc n)
  have low: "\<not> bit x i" if "i < Suc n" for i using Suc.prems that by (metis bit_0_eq bit_take_bit_iff bot_apply bot_bool_def)
  have "take_bit n (drop_bit 1 x) = 0"
    by (rule bit_eqI) (auto simp: bit_take_bit_iff bit_drop_bit_eq low)
  moreover have "crc_step x = drop_bit 1 x" using low [of 0] by (simp add: crc_step_def)
  ultimately show ?case using Suc.IH [of "drop_bit 1 x"] by (simp add: funpow_Suc_right del: funpow.simps)
qed simp

lemma table16: "i < 16 \<Longrightarrow> ngx_crc32_table16 ! i = (crc_step ^^ 4) (of_nat i)"
proof -
  assume "i < 16"
  moreover have "list_all (\<lambda>i. ngx_crc32_table16 ! i = (crc_step ^^ 4) (of_nat i)) [0..<16]" by code_simp
  ultimately show ?thesis unfolding list_all_iff by simp
qed

text \<open>So a table replaces the steps on the low bits.\<close>

lemma crc_steps_split: "(crc_step ^^ n) x = (crc_step ^^ n) (take_bit n x) XOR drop_bit n x"
proof -
  let ?h = "push_bit n (drop_bit n x)"
  have x: "x = take_bit n x XOR ?h"
    by (rule bit_eqI) (auto simp: bit_simps)
  have "take_bit n ?h = 0" by (rule bit_eqI) (auto simp: bit_simps)
  then have "(crc_step ^^ n) ?h = drop_bit n ?h" by (rule crc_steps_high)
  moreover have "drop_bit n ?h = drop_bit n x" by (rule bit_eqI) (auto simp: bit_simps dest: bit_imp_le_length)
  ultimately show ?thesis using crc_steps_xor [of n "take_bit n x" ?h] x by simp
qed

lemma unat_low: "unat (x AND 0xf :: 32 word) < 16" "unat (x AND 0xff :: 32 word) < 256"
  "x AND 0xf = take_bit 4 x" "x AND 0xff = take_bit 8 x"
proof -
  have m: "(mask 4 :: 32 word) = 0xf" "(mask 8 :: 32 word) = 0xff" by (simp_all add: mask_eq_exp_minus_1)
  show "x AND 0xf = take_bit 4 x" "x AND 0xff = take_bit 8 x" by (simp_all add: take_bit_eq_mask m)
  then show "unat (x AND 0xf) < 16" "unat (x AND 0xff) < 256"
    by (simp_all add: unsigned_take_bit_eq) (use take_bit_nat_less_exp [of 4 "unat x"] take_bit_nat_less_exp [of 8 "unat x"] in simp_all)
qed

lemma table16_steps: "ngx_crc32_table16 ! unat (x AND 0xf) XOR drop_bit 4 x = (crc_step ^^ 4) x"
  unfolding crc_steps_split [of 4 x] table16 [OF unat_low(1)] by (simp add: unat_low)

text \<open>The large table holds two steps through the small one.\<close>

lemma table256: "i < 256 \<Longrightarrow> ngx_crc32_table256 ! i = (crc_step ^^ 8) (of_nat i)"
proof -
  assume i: "i < 256"
  have "ngx_crc32_table256 = map (\<lambda>i.
      let x = of_nat i; y = ngx_crc32_table16 ! unat (x AND 0xf) XOR drop_bit 4 x
      in ngx_crc32_table16 ! unat (y AND 0xf) XOR drop_bit 4 y) [0..<256]"
    by code_simp
  then have "ngx_crc32_table256 = map (\<lambda>i. (crc_step ^^ 4) ((crc_step ^^ 4) (of_nat i))) [0..<256]"
    by (simp only: Let_def table16_steps)
  then have "ngx_crc32_table256 ! i = map (\<lambda>i. (crc_step ^^ 4) ((crc_step ^^ 4) (of_nat i))) [0..<256] ! i" by (rule arg_cong)
  also have "\<dots> = (crc_step ^^ 4) ((crc_step ^^ 4) (of_nat i))" using i by (simp del: upt_rec_numeral)
  finally show ?thesis using funpow_add [of 4 4 crc_step] by simp
qed

lemma table256_steps: "ngx_crc32_table256 ! unat (x AND 0xff) XOR drop_bit 8 x = (crc_step ^^ 8) x"
  unfolding crc_steps_split [of 8 x] table256 [OF unat_low(2)] by (simp add: unat_low)

lemma byte_long: "ngx_crc32_table256 ! unat ((crc XOR ucast c) AND 0xff) XOR drop_bit 8 crc = crc_byte crc c"
proof -
  have "drop_bit 8 (ucast c :: 32 word) = 0" by (rule bit_eqI) (auto simp: bit_simps dest: bit_imp_le_length)
  then show ?thesis using table256_steps [of "crc XOR ucast c"] by (simp add: crc_byte_def drop_bit_xor)
qed

lemma byte_short:
  "(let crc = ngx_crc32_table16 ! unat ((crc XOR (ucast c AND 0xf)) AND 0xf) XOR drop_bit 4 crc
    in ngx_crc32_table16 ! unat ((crc XOR drop_bit 4 (ucast c)) AND 0xf) XOR drop_bit 4 crc) = crc_byte crc c"
proof -
  let ?c = "ucast c :: 32 word"
  let ?d = "ngx_crc32_table16 ! unat ((crc XOR (?c AND 0xf)) AND 0xf) XOR drop_bit 4 crc"
  have "(crc XOR (?c AND 0xf)) AND 0xf = (crc XOR ?c) AND 0xf" by (simp add: bit_eq_iff bit_simps) auto
  with table16_steps [of "crc XOR ?c"] have "?d XOR drop_bit 4 ?c = (crc_step ^^ 4) (crc XOR ?c)"
    by (simp add: drop_bit_xor ac_simps)
  moreover have "drop_bit 4 (drop_bit 4 ?c) = 0" by (rule bit_eqI) (auto simp: bit_simps dest: bit_imp_le_length)
  then have "ngx_crc32_table16 ! unat ((?d XOR drop_bit 4 ?c) AND 0xf) XOR drop_bit 4 ?d = (crc_step ^^ 4) (?d XOR drop_bit 4 ?c)"
    using table16_steps [of "?d XOR drop_bit 4 ?c"] by (simp only: drop_bit_xor xor.right_neutral)
  ultimately show ?thesis unfolding Let_def crc_byte_def
    by (metis (no_types) comp_apply funpow_add numeral_Bit0)
qed

text \<open>
  C25: the checksums are CRC-32. For all bytes \<^verbatim>\<open>ngx_crc32_short\<close>, with the table of 16 entries, and \<^verbatim>\<open>ngx_crc32_long\<close>,
  with the table of 256 entries, give the remainder of the division bit by bit, and so does \<^verbatim>\<open>ngx_crc32_update\<close>
  over the bytes in any pieces.
\<close>

theorem crc32_agree:
  "ngx_crc32_short p = crc32 p \<and> ngx_crc32_long p = crc32 p
   \<and> ngx_crc32_final (foldl ngx_crc32_update ngx_crc32_init ps) = crc32 (concat ps)"
proof -
  have "crc32_short_loop crc (c # p) = crc32_short_loop (crc_byte crc c) p" for crc c p
    unfolding crc32_short_loop.simps(2) byte_short [symmetric] Let_def ..
  then have "crc32_short_loop crc p = foldl crc_byte crc p" for crc
    by (induction p arbitrary: crc) (simp_all del: crc32_short_loop.simps(2))
  moreover have "crc32_long_loop crc p = foldl crc_byte crc p" for crc
    by (induction p arbitrary: crc) (simp_all add: byte_long)
  moreover have up: "ngx_crc32_update crc q = foldl crc_byte crc q" for crc q
    by (induction q arbitrary: crc) (simp_all add: byte_long)
  have "foldl ngx_crc32_update crc ps = foldl crc_byte crc (concat ps)" for crc
    by (induction ps arbitrary: crc) (simp_all add: up)
  ultimately show ?thesis
    by (simp add: ngx_crc32_short_def ngx_crc32_long_def ngx_crc32_final_def ngx_crc32_init_def crc32_def)
qed

end
