(* ===== verification/Ngx_Utf8.thy ===== *)
theory Ngx_Utf8
  imports Ngx_Prelude
begin

text \<open>
  UTF-8 text in \<^verbatim>\<open>src/reference/nginx-master/src/core/ngx_string.c\<close>: decoding of a character, counting and copying.

  A pointer is the list of the bytes from there to the end of the object it points into; to read at its end is
  the result \<open>None\<close>.
\<close>

unbundle bit_operations_syntax

section \<open>The code\<close>

text \<open>The loop over the bytes behind the first; the result holds \<^verbatim>\<open>*p\<close> as it is left.\<close>

fun utf8_loop :: "nat \<Rightarrow> 32 word \<Rightarrow> 32 word \<Rightarrow> u_char list \<Rightarrow> (32 word \<times> u_char list) option" where
  "utf8_loop 0 u valid p = Some (if u > valid then u else 0xffffffff, p)"
| "utf8_loop (Suc len) u valid [] = None"
| "utf8_loop (Suc len) u valid (i # p) =
     (if i < 0x80 then Some (0xffffffff, p)
      else utf8_loop len (push_bit 6 u OR (ucast i AND 0x3f)) valid p)"

fun ngx_utf8_decode :: "u_char list \<Rightarrow> 64 word \<Rightarrow> (32 word \<times> u_char list) option" where
  "ngx_utf8_decode [] n = None"
| "ngx_utf8_decode (c # p) n =
     (let u = ucast c :: 32 word;
          go = (\<lambda>m valid len. if n - 1 < of_nat len then Some (0xfffffffe, c # p) else utf8_loop len (u AND m) valid p)
      in if u \<ge> 0xf8 then Some (0xffffffff, p)
         else if u \<ge> 0xf0 then go 0x07 0xffff 3
         else if u \<ge> 0xe0 then go 0x0f 0x7ff 2
         else if u \<ge> 0xc2 then go 0x1f 0x7f 1
         else Some (0xffffffff, p))"

lemma utf8_loop_shorter: "utf8_loop len u valid p = Some (r, q) \<Longrightarrow> length q \<le> length p"
  by (induction len u valid p rule: utf8_loop.induct) (auto split: if_splits)

lemma utf8_decode_shorter: "ngx_utf8_decode p n = Some (r, q) \<Longrightarrow> r \<noteq> 0xfffffffe \<Longrightarrow> length q < length p"
  by (cases p) (auto simp: Let_def le_imp_less_Suc split: if_splits dest!: utf8_loop_shorter)

text \<open>\<^verbatim>\<open>left\<close> is \<^verbatim>\<open>last - p\<close>.\<close>

function utf8_length_loop :: "nat \<Rightarrow> u_char list \<Rightarrow> nat \<Rightarrow> nat \<Rightarrow> nat option" where
  "utf8_length_loop n p rest len =
     (if rest = 0 then Some len
      else case p of [] \<Rightarrow> None
      | c # q \<Rightarrow>
          if c < 0x80 then utf8_length_loop n q (rest - 1) (len + 1)
          else case ngx_utf8_decode p (of_nat rest) of None \<Rightarrow> None
          | Some (u, q) \<Rightarrow>
              if u > 0x10ffff then Some n
              else utf8_length_loop n q (rest - (length p - length q)) (len + 1))"
  by auto
termination
  by (relation "measure (\<lambda>(n, p, rest, len). length p)") (auto dest!: utf8_decode_shorter simp del: ngx_utf8_decode.simps)

declare utf8_length_loop.simps [simp del]

definition ngx_utf8_length :: "u_char list \<Rightarrow> nat \<Rightarrow> nat option" where
  "ngx_utf8_length p n = utf8_length_loop n p n 0"

text \<open>The bytes \<^verbatim>\<open>ngx_utf8_cpystrn\<close> writes to \<^verbatim>\<open>dst\<close>; \<open>n\<close> counts the characters left.\<close>

fun utf8_cpystrn_loop :: "nat \<Rightarrow> u_char list \<Rightarrow> 64 word \<Rightarrow> u_char list option" where
  "utf8_cpystrn_loop 0 src len = Some [0]"
| "utf8_cpystrn_loop (Suc n) src len =
     (case src of [] \<Rightarrow> None
      | c # src' \<Rightarrow>
          if c < 0x80 then
            if c \<noteq> 0 then map_option ((#) c) (utf8_cpystrn_loop n src' (len - 1)) else Some [0]
          else case ngx_utf8_decode src len of None \<Rightarrow> None
          | Some (u, nxt) \<Rightarrow>
              if u > 0x10ffff then Some [0]
              else (let k = length src - length nxt
                    in map_option ((@) (take k src)) (utf8_cpystrn_loop n nxt (len - of_nat k))))"

definition ngx_utf8_cpystrn :: "u_char list \<Rightarrow> nat \<Rightarrow> 64 word \<Rightarrow> u_char list option" where
  "ngx_utf8_cpystrn src n len = (if n = 0 then Some [] else utf8_cpystrn_loop (n - 1) src len)"

section \<open>Encoding\<close>

text \<open>The reference: the bytes of a code point.\<close>

definition utf8_tail :: "nat \<Rightarrow> u_char" where
  "utf8_tail k = of_nat (0x80 + k mod 64)"

definition utf8 :: "nat \<Rightarrow> u_char list" where
  "utf8 c =
     (if c < 0x80 then [of_nat c]
      else if c < 0x800 then [of_nat (0xc0 + c div 64), utf8_tail c]
      else if c < 0x10000 then [of_nat (0xe0 + c div 4096), utf8_tail (c div 64), utf8_tail c]
      else [of_nat (0xf0 + c div 262144), utf8_tail (c div 4096), utf8_tail (c div 64), utf8_tail c])"

lemma tail_bits: "\<not> utf8_tail k < 0x80" "(ucast (utf8_tail k) :: 32 word) AND 0x3f = of_nat (k mod 64)"
proof -
  have "list_all (\<lambda>k. \<not> (of_nat (0x80 + k) :: u_char) < 0x80 \<and> (ucast (of_nat (0x80 + k) :: u_char) :: 32 word) AND 0x3f = of_nat k) [0..<64]"
    by code_simp
  then show "\<not> utf8_tail k < 0x80" "(ucast (utf8_tail k) :: 32 word) AND 0x3f = of_nat (k mod 64)"
    unfolding list_all_iff utf8_tail_def by simp_all
qed

lemma shift_in:
  assumes "k < 64"
  shows "push_bit 6 (of_nat a :: 32 word) OR of_nat k = of_nat (64 * a + k)"
proof -
  have "\<not> bit (push_bit 6 (of_nat a) :: 32 word) n \<or> \<not> bit (of_nat k :: 32 word) n" for n
  proof (cases "n < 6")
    case False
    then have "(64 :: nat) \<le> 2 ^ n" using power_increasing [of 6 n "2 :: nat"] by simp
    then have "k div 2 ^ n = 0" using assms by simp
    then have "\<not> bit k n" by (simp add: bit_iff_odd)
    then show ?thesis by (simp add: bit_of_nat_iff)
  qed (simp add: bit_push_bit_iff)
  then have "push_bit 6 (of_nat a) OR of_nat k = push_bit 6 (of_nat a) + (of_nat k :: 32 word)"
    by (simp add: disjunctive_add)
  then show ?thesis by (simp add: push_bit_eq_mult)
qed

lemma utf8_loop_tail: "utf8_loop (Suc len) (of_nat a) valid (utf8_tail k # p) = utf8_loop len (of_nat (64 * a + k mod 64)) valid p"
  by (simp add: tail_bits shift_in)

lemma lead_bits:
  "k < 32 \<Longrightarrow> (ucast (of_nat (0xc0 + k) :: u_char) :: 32 word) AND 0x1f = of_nat k"
  "k < 16 \<Longrightarrow> (ucast (of_nat (0xe0 + k) :: u_char) :: 32 word) AND 0x0f = of_nat k"
  "k < 8 \<Longrightarrow> (ucast (of_nat (0xf0 + k) :: u_char) :: 32 word) AND 0x07 = of_nat k"
proof -
  have "list_all (\<lambda>k. (ucast (of_nat (0xc0 + k) :: u_char) :: 32 word) AND 0x1f = of_nat k) [0..<32]"
    "list_all (\<lambda>k. (ucast (of_nat (0xe0 + k) :: u_char) :: 32 word) AND 0x0f = of_nat k) [0..<16]"
    "list_all (\<lambda>k. (ucast (of_nat (0xf0 + k) :: u_char) :: 32 word) AND 0x07 = of_nat k) [0..<8]"
    by code_simp+
  then show "k < 32 \<Longrightarrow> (ucast (of_nat (0xc0 + k) :: u_char) :: 32 word) AND 0x1f = of_nat k"
    "k < 16 \<Longrightarrow> (ucast (of_nat (0xe0 + k) :: u_char) :: 32 word) AND 0x0f = of_nat k"
    "k < 8 \<Longrightarrow> (ucast (of_nat (0xf0 + k) :: u_char) :: 32 word) AND 0x07 = of_nat k"
    unfolding list_all_iff by simp_all
qed

lemma decode_lead:
  "0xc2 \<le> unat b \<Longrightarrow> unat b < 0xe0 \<Longrightarrow> \<not> n - 1 < 1 \<Longrightarrow>
    ngx_utf8_decode (b # p) n = utf8_loop 1 (ucast b AND 0x1f) 0x7f p"
  "0xe0 \<le> unat b \<Longrightarrow> unat b < 0xf0 \<Longrightarrow> \<not> n - 1 < 2 \<Longrightarrow>
    ngx_utf8_decode (b # p) n = utf8_loop 2 (ucast b AND 0x0f) 0x7ff p"
  "0xf0 \<le> unat b \<Longrightarrow> unat b < 0xf8 \<Longrightarrow> \<not> n - 1 < 3 \<Longrightarrow>
    ngx_utf8_decode (b # p) n = utf8_loop 3 (ucast b AND 0x07) 0xffff p"
  by (simp_all add: Let_def word_le_nat_alt unsigned_ucast_eq take_bit_nat_eq_self)

lemma lead_unat: "a < 256 \<Longrightarrow> unat (of_nat a :: u_char) = a"
  by (simp add: unsigned_of_nat take_bit_nat_eq_self)

lemma code_word: "c < 2 ^ 32 \<Longrightarrow> unat (of_nat c :: 32 word) = c"
  by (simp add: unsigned_of_nat take_bit_nat_eq_self)

text \<open>Decoding inverts encoding, for every code point above the ASCII ones.\<close>

lemma decode_utf8:
  assumes "0x80 \<le> c" "c < 0x110000" "length (utf8 c) \<le> unat n"
  shows "ngx_utf8_decode (utf8 c @ p) n = Some (of_nat c, p)"
proof -
  have valid: "(of_nat c :: 32 word) > of_nat v \<longleftrightarrow> c > v" if "v < 0x10000" for v
    using assms(2) that by (simp add: word_less_nat_alt code_word)
  have n: "\<not> n - 1 < of_nat k" if "Suc k \<le> unat n" "k < 4" for k
    using that by (auto simp: word_le_nat_alt word_less_nat_alt unat_sub_if' unsigned_of_nat take_bit_nat_eq_self)
  consider "c < 0x800" | "0x800 \<le> c" "c < 0x10000" | "0x10000 \<le> c" by linarith
  then show ?thesis
  proof cases
    case 1
    have k: "c div 64 < 32" "2 \<le> c div 64" "64 * (c div 64) + c mod 64 = c"
      using assms(1) 1 by (auto simp: div_less_iff_less_mult less_eq_div_iff_mult_less_eq)
    have "utf8_loop (Suc 0) (of_nat (c div 64)) 0x7f (utf8_tail c # p) = Some (of_nat c, p)"
      unfolding utf8_loop_tail k(3) utf8_loop.simps(1) using valid [of "0x7f"] assms(1) by simp
    moreover have "\<not> n - 1 < 1" using n [of 1] assms(3) assms(1) 1 by (simp add: utf8_def)
    ultimately have "ngx_utf8_decode (of_nat (0xc0 + c div 64) # utf8_tail c # p) n = Some (of_nat c, p)"
      using k lead_unat [of "0xc0 + c div 64"] decode_lead(1) [of "of_nat (0xc0 + c div 64)" n] lead_bits(1) [of "c div 64"]
      by (simp add: numeral_2_eq_2 numeral_3_eq_3 del: of_nat_add ngx_utf8_decode.simps utf8_loop.simps)
    then show ?thesis using 1 assms(1) by (simp add: utf8_def del: of_nat_add ngx_utf8_decode.simps)
  next
    case 2
    have k: "c div 4096 < 16" "64 * (64 * (c div 4096) + c div 64 mod 64) + c mod 64 = c"
      using 2 div_mult_mod_eq [of "c div 64" 64]
      by (auto simp: div_less_iff_less_mult div_mult2_eq [of c 64 64, simplified])
    have "utf8_loop (Suc (Suc 0)) (of_nat (c div 4096)) 0x7ff (utf8_tail (c div 64) # utf8_tail c # p) = Some (of_nat c, p)"
      unfolding utf8_loop_tail k(2) utf8_loop.simps(1) using valid [of "0x7ff"] 2 by simp
    moreover have "\<not> n - 1 < 2" using n [of 2] assms(3) 2 by (simp add: utf8_def)
    ultimately have "ngx_utf8_decode (of_nat (0xe0 + c div 4096) # utf8_tail (c div 64) # utf8_tail c # p) n = Some (of_nat c, p)"
      using k lead_unat [of "0xe0 + c div 4096"] decode_lead(2) [of "of_nat (0xe0 + c div 4096)" n] lead_bits(2) [of "c div 4096"]
      by (simp add: numeral_2_eq_2 numeral_3_eq_3 del: of_nat_add ngx_utf8_decode.simps utf8_loop.simps)
    then show ?thesis using 2 by (simp add: utf8_def del: of_nat_add ngx_utf8_decode.simps)
  next
    case 3
    have k: "c div 262144 < 5" "64 * (64 * (64 * (c div 262144) + c div 4096 mod 64) + c div 64 mod 64) + c mod 64 = c"
      using assms(2) div_mult_mod_eq [of "c div 64" 64] div_mult_mod_eq [of "c div 4096" 64]
      by (auto simp: div_less_iff_less_mult div_mult2_eq [of c 64 64, simplified] div_mult2_eq [of c 4096 64, simplified])
    have "utf8_loop (Suc (Suc (Suc 0))) (of_nat (c div 262144)) 0xffff (utf8_tail (c div 4096) # utf8_tail (c div 64) # utf8_tail c # p) = Some (of_nat c, p)"
      unfolding utf8_loop_tail k(2) utf8_loop.simps(1) using valid [of "0xffff"] 3 by simp
    moreover have "\<not> n - 1 < 3" using n [of 3] assms(3) 3 by (simp add: utf8_def)
    ultimately have "ngx_utf8_decode (of_nat (0xf0 + c div 262144) # utf8_tail (c div 4096) # utf8_tail (c div 64) # utf8_tail c # p) n = Some (of_nat c, p)"
      using k lead_unat [of "0xf0 + c div 262144"] decode_lead(3) [of "of_nat (0xf0 + c div 262144)" n] lead_bits(3) [of "c div 262144"]
      by (simp add: numeral_2_eq_2 numeral_3_eq_3 del: of_nat_add ngx_utf8_decode.simps utf8_loop.simps)
    then show ?thesis using 3 by (simp add: utf8_def del: of_nat_add ngx_utf8_decode.simps)
  qed
qed

text \<open>And every accepted sequence is the encoding of its code point, if the bytes behind the first are in the range
  of such bytes (which the code does not check above).\<close>

lemma tail_byte:
  assumes "0x80 \<le> i" "i < 0xc0"
  obtains j where "i = utf8_tail j" "j < 64"
proof
  show "i = utf8_tail (unat i - 0x80)"
    using assms by (simp add: utf8_tail_def word_le_nat_alt word_less_nat_alt)
  show "unat i - 0x80 < 64" using assms by (simp add: word_less_nat_alt)
qed

lemma lead_byte:
  assumes "m \<le> unat b" "unat b < m + k"
  obtains j where "b = of_nat (m + j)" "j < k"
  using assms that [of "unat b - m"] by simp

lemma utf8_two: "k < 32 \<Longrightarrow> j < 64 \<Longrightarrow> 64 * k + j > 0x7f \<Longrightarrow> utf8 (64 * k + j) = [of_nat (0xc0 + k), utf8_tail j]"
  by (simp add: utf8_def utf8_tail_def)

lemma div_mod_64: "i < 64 \<Longrightarrow> (64 * x + i) div 64 = x" "i < 64 \<Longrightarrow> (64 * x + i) mod 64 = (i :: nat)"
  by simp_all

lemma utf8_three:
  assumes "k < 16" "j < 64" "i < 64" "64 * (64 * k + j) + i > 0x7ff"
  shows "utf8 (64 * (64 * k + j) + i) = [of_nat (0xe0 + k), utf8_tail j, utf8_tail i]"
proof -
  let ?c = "64 * (64 * k + j) + i"
  have "?c div 64 = 64 * k + j" "?c mod 64 = i" using assms(3) by (rule div_mod_64)+
  moreover from this have "?c div 4096 = k" using div_mult2_eq [of ?c 64 64] assms(2) by simp
  ultimately show ?thesis using assms by (simp add: utf8_def utf8_tail_def)
qed

lemma utf8_four:
  assumes "k < 8" "j < 64" "i < 64" "h < 64" "64 * (64 * (64 * k + j) + i) + h > 0xffff"
  shows "utf8 (64 * (64 * (64 * k + j) + i) + h) = [of_nat (0xf0 + k), utf8_tail j, utf8_tail i, utf8_tail h]"
proof -
  let ?c = "64 * (64 * (64 * k + j) + i) + h"
  have "?c div 64 = 64 * (64 * k + j) + i" "?c mod 64 = h" using assms(4) by (rule div_mod_64)+
  moreover from this have "?c div 4096 = 64 * k + j" using div_mult2_eq [of ?c 64 64] assms(3) by simp
  moreover from this have "?c div 262144 = k" using div_mult2_eq [of ?c 4096 64] assms(2) by simp
  moreover have "(64 * (64 * k + j) + i) mod 64 = i" using assms(3) by (rule div_mod_64)
  ultimately show ?thesis using assms by (simp add: utf8_def utf8_tail_def)
qed

lemma tail_step:
  assumes "utf8_loop (Suc len) (of_nat a) v r = Some (u, q)" "u \<noteq> 0xffffffff" "\<forall>i \<in> set (take (length r - length q) r). i < 0xc0"
  obtains j r' where "r = utf8_tail j # r'" "j < 64" "utf8_loop len (of_nat (64 * a + j)) v r' = Some (u, q)"
    "\<forall>i \<in> set (take (length r' - length q) r'). i < 0xc0"
proof -
  obtain i r' where r: "r = i # r'" "\<not> i < 0x80"
    and l: "utf8_loop len (push_bit 6 (of_nat a) OR (ucast i AND 0x3f)) v r' = Some (u, q)"
    using assms(1,2) by (cases r) (auto split: if_splits)
  have "length q \<le> length r'" using utf8_loop_shorter [OF l] .
  then have t: "take (length r - length q) r = i # take (length r' - length q) r'" by (simp add: r Suc_diff_le)
  with assms(3) r(2) obtain j where j: "i = utf8_tail j" "j < 64" using tail_byte [of i] by (auto simp: not_less)
  then have "utf8_loop len (of_nat (64 * a + j)) v r' = Some (u, q)"
    using l by (simp add: tail_bits shift_in del: of_nat_add of_nat_mult)
  with that [of j r'] r j t assms(3) show thesis by simp
qed

lemma decode_by_lead:
  "ngx_utf8_decode (b # r) n =
     (if unat b \<ge> 0xf8 then Some (0xffffffff, r)
      else if unat b \<ge> 0xf0 then if n - 1 < 3 then Some (0xfffffffe, b # r) else utf8_loop (Suc (Suc (Suc 0))) (ucast b AND 0x07) 0xffff r
      else if unat b \<ge> 0xe0 then if n - 1 < 2 then Some (0xfffffffe, b # r) else utf8_loop (Suc (Suc 0)) (ucast b AND 0x0f) 0x7ff r
      else if unat b \<ge> 0xc2 then if n - 1 < 1 then Some (0xfffffffe, b # r) else utf8_loop (Suc 0) (ucast b AND 0x1f) 0x7f r
      else Some (0xffffffff, r))"
proof -
  have "unat (ucast b :: 32 word) = unat b" by (simp add: unsigned_ucast_eq take_bit_nat_eq_self)
  then have u: "(ucast b :: 32 word) \<ge> 0xf8 \<longleftrightarrow> unat b \<ge> 0xf8" "(ucast b :: 32 word) \<ge> 0xf0 \<longleftrightarrow> unat b \<ge> 0xf0"
    "(ucast b :: 32 word) \<ge> 0xe0 \<longleftrightarrow> unat b \<ge> 0xe0" "(ucast b :: 32 word) \<ge> 0xc2 \<longleftrightarrow> unat b \<ge> 0xc2"
    by (simp_all add: word_le_nat_alt)
  have n: "of_nat (Suc (Suc (Suc 0))) = (3 :: 64 word)" "of_nat (Suc (Suc 0)) = (2 :: 64 word)" "of_nat (Suc 0) = (1 :: 64 word)"
    by simp_all
  show ?thesis unfolding ngx_utf8_decode.simps Let_def u numeral_2_eq_2 numeral_3_eq_3 One_nat_def n ..
qed

lemma decode_exact:
  assumes "ngx_utf8_decode p n = Some (u, q)" "u \<le> 0x10ffff" "\<forall>i \<in> set (take (length p - length q - 1) (tl p)). i < 0xc0"
  shows "p = utf8 (unat u) @ q \<and> 0x80 \<le> unat u"
proof -
  obtain b r where p: "p = b # r" using assms(1) by (cases p) auto
  have ok: "u \<noteq> 0xffffffff" "u \<noteq> 0xfffffffe" using assms(2) by auto
  have low: "\<forall>i \<in> set (take (length r - length q) r). i < 0xc0" using assms(3) by (simp add: p)
  have val: "unat u = c \<and> v < c \<and> q = r" if "utf8_loop 0 (of_nat c) (of_nat v) r = Some (u, q)" "c < 0x1000000" "v < 0x1000000" for c v r
    using that ok by (auto simp: word_less_nat_alt unsigned_of_nat take_bit_nat_eq_self split: if_splits)
  note d = assms(1) [unfolded p decode_by_lead]
  consider "0xf0 \<le> unat b" "unat b < 0xf8" | "0xe0 \<le> unat b" "unat b < 0xf0" | "0xc2 \<le> unat b" "unat b < 0xe0"
    using d ok by (auto simp: not_le split: if_splits)
  then show ?thesis
  proof cases
    case 1
    obtain k where k: "b = of_nat (0xf0 + k)" "k < 8" using lead_byte [of "0xf0" b 8] 1 by auto
    have l: "utf8_loop (Suc (Suc (Suc 0))) (of_nat k) (of_nat 0xffff) r = Some (u, q)"
      using d ok 1 lead_bits(3) [OF k(2)] k(1) by (simp del: of_nat_add utf8_loop.simps split: if_splits)
    obtain j r1 where j: "r = utf8_tail j # r1" "j < 64" and l1: "utf8_loop (Suc (Suc 0)) (of_nat (64 * k + j)) (of_nat 0xffff) r1 = Some (u, q)"
      and low1: "\<forall>i \<in> set (take (length r1 - length q) r1). i < 0xc0" by (rule tail_step [OF l ok(1) low])
    obtain i r2 where i: "r1 = utf8_tail i # r2" "i < 64" and l2: "utf8_loop (Suc 0) (of_nat (64 * (64 * k + j) + i)) (of_nat 0xffff) r2 = Some (u, q)"
      and low2: "\<forall>i \<in> set (take (length r2 - length q) r2). i < 0xc0" by (rule tail_step [OF l1 ok(1) low1])
    obtain h r3 where h: "r2 = utf8_tail h # r3" "h < 64" and l3: "utf8_loop 0 (of_nat (64 * (64 * (64 * k + j) + i) + h)) (of_nat 0xffff) r3 = Some (u, q)"
      by (rule tail_step [OF l2 ok(1) low2])
    have "unat u = 64 * (64 * (64 * k + j) + i) + h \<and> 0xffff < 64 * (64 * (64 * k + j) + i) + h \<and> q = r3"
      using val [OF l3] k(2) i(2) j(2) h(2) by simp
    with utf8_four [OF k(2) j(2) i(2) h(2)] show ?thesis by (simp add: p i(1) j(1) h(1) k(1))
  next
    case 2
    obtain k where k: "b = of_nat (0xe0 + k)" "k < 16" using lead_byte [of "0xe0" b 16] 2 by auto
    have l: "utf8_loop (Suc (Suc 0)) (of_nat k) (of_nat 0x7ff) r = Some (u, q)"
      using d ok 2 lead_bits(2) [OF k(2)] k(1) by (simp del: of_nat_add utf8_loop.simps split: if_splits)
    obtain j r1 where j: "r = utf8_tail j # r1" "j < 64" and l1: "utf8_loop (Suc 0) (of_nat (64 * k + j)) (of_nat 0x7ff) r1 = Some (u, q)"
      and low1: "\<forall>i \<in> set (take (length r1 - length q) r1). i < 0xc0" by (rule tail_step [OF l ok(1) low])
    obtain i r2 where i: "r1 = utf8_tail i # r2" "i < 64" and l2: "utf8_loop 0 (of_nat (64 * (64 * k + j) + i)) (of_nat 0x7ff) r2 = Some (u, q)"
      by (rule tail_step [OF l1 ok(1) low1])
    have "unat u = 64 * (64 * k + j) + i \<and> 0x7ff < 64 * (64 * k + j) + i \<and> q = r2" using val [OF l2] k(2) i(2) j(2) by simp
    with utf8_three [OF k(2) j(2) i(2)] show ?thesis by (simp add: p i(1) j(1) k(1))
  next
    case 3
    obtain k where k: "b = of_nat (0xc0 + k)" "k < 32" using lead_byte [of "0xc0" b 32] 3 by auto
    have l: "utf8_loop (Suc 0) (of_nat k) (of_nat 0x7f) r = Some (u, q)"
      using d ok 3 lead_bits(1) [OF k(2)] k(1) by (simp del: of_nat_add utf8_loop.simps split: if_splits)
    obtain j r1 where j: "r = utf8_tail j # r1" "j < 64" and l1: "utf8_loop 0 (of_nat (64 * k + j)) (of_nat 0x7f) r1 = Some (u, q)"
      by (rule tail_step [OF l ok(1) low])
    have "unat u = 64 * k + j \<and> 0x7f < 64 * k + j \<and> q = r1" using val [OF l1] k(2) j(2) by simp
    with utf8_two [OF k(2) j(2)] show ?thesis by (simp add: p j(1) k(1))
  qed
qed

section \<open>Text\<close>

abbreviation utf8_text :: "nat list \<Rightarrow> u_char list" where
  "utf8_text cs \<equiv> concat (map utf8 cs)"

lemma utf8_first:
  assumes "c < 0x110000"
  shows "utf8 c \<noteq> []" "hd (utf8 c) < 0x80 \<longleftrightarrow> c < 0x80" "c < 0x80 \<Longrightarrow> utf8 c = [of_nat c]"
proof -
  show "utf8 c \<noteq> []" "c < 0x80 \<Longrightarrow> utf8 c = [of_nat c]" by (simp_all add: utf8_def)
  have "c div 64 < 32" if "c < 0x800" using that by (simp add: div_less_iff_less_mult)
  moreover have "c div 4096 < 16" if "c < 0x10000" using that by (simp add: div_less_iff_less_mult)
  moreover have "c div 262144 < 5" using assms by (simp add: div_less_iff_less_mult)
  ultimately show "hd (utf8 c) < 0x80 \<longleftrightarrow> c < 0x80"
    using lead_unat [of c] lead_unat [of "0xc0 + c div 64"] lead_unat [of "0xe0 + c div 4096"] lead_unat [of "0xf0 + c div 262144"]
    by (simp add: utf8_def word_less_nat_alt del: of_nat_add)
qed

lemma unat_length: "length xs < 2 ^ 64 \<Longrightarrow> unat (of_nat (length xs) :: 64 word) = length xs"
  by (simp add: unsigned_of_nat take_bit_nat_eq_self)

lemma text_length:
  assumes "\<forall>c \<in> set cs. c < 0x110000" "length (utf8_text cs) < 2 ^ 64"
  shows "utf8_length_loop n (utf8_text cs @ p) (length (utf8_text cs)) len = Some (len + length cs)"
  using assms
proof (induction cs arbitrary: len)
  case Nil
  then show ?case by (simp add: utf8_length_loop.simps)
next
  case (Cons c cs)
  then have c: "c < 0x110000" and IH: "\<And>len. utf8_length_loop n (utf8_text cs @ p) (length (utf8_text cs)) len = Some (len + length cs)"
    by auto
  note f = utf8_first [OF c]
  obtain b r where u: "utf8 c = b # r" using f(1) by (cases "utf8 c") auto
  show ?case
  proof (cases "c < 0x80")
    case True
    then have "b < 0x80" "r = []" using f(2,3) u by auto
    then show ?thesis using IH [of "len + 1"] by (simp add: utf8_length_loop.simps [of n "b # _"] u)
  next
    case False
    then have b: "\<not> b < 0x80" using f(2) u by simp
    have "unat (of_nat (length (utf8_text (c # cs))) :: 64 word) = length (utf8_text (c # cs))"
      using Cons.prems(2) by (rule unat_length)
    then have "ngx_utf8_decode (utf8 c @ utf8_text cs @ p) (of_nat (length (utf8_text (c # cs)))) = Some (of_nat c, utf8_text cs @ p)"
      using False c by (intro decode_utf8) auto
    moreover have "\<not> (of_nat c :: 32 word) > 0x10ffff" using c by (simp add: word_less_nat_alt unsigned_of_nat take_bit_nat_eq_self)
    ultimately show ?thesis using b IH [of "len + 1"]
      by (simp add: utf8_length_loop.simps [of n "b # _"] u del: ngx_utf8_decode.simps)
  qed
qed

lemma text_copy:
  assumes "\<forall>c \<in> set cs. 0 < c \<and> c < 0x110000" "length (utf8_text cs) < 2 ^ 64"
  shows "utf8_cpystrn_loop n (utf8_text cs @ 0 # p) (of_nat (length (utf8_text cs))) = Some (utf8_text (take n cs) @ [0])"
  using assms
proof (induction cs arbitrary: n)
  case Nil
  then show ?case by (cases n) auto
next
  case (Cons c cs)
  then have c: "0 < c" "c < 0x110000"
    and IH: "\<And>n. utf8_cpystrn_loop n (utf8_text cs @ 0 # p) (of_nat (length (utf8_text cs))) = Some (utf8_text (take n cs) @ [0])"
    by auto
  note f = utf8_first [OF c(2)]
  obtain b r where u: "utf8 c = b # r" using f(1) by (cases "utf8 c") auto
  show ?case
  proof (cases n)
    case (Suc m)
    show ?thesis
    proof (cases "c < 0x80")
      case True
      then have "b < 0x80" "r = []" "b = of_nat c" using f(2,3) u by auto
      moreover from this have "b \<noteq> 0" using lead_unat [of c] c(1) True by auto
      ultimately show ?thesis using IH [of m] by (simp add: Suc u)
    next
      case False
      then have b: "\<not> b < 0x80" using f(2) u by simp
      have "unat (of_nat (length (utf8_text (c # cs))) :: 64 word) = length (utf8_text (c # cs))"
        using Cons.prems(2) by (rule unat_length)
      then have "ngx_utf8_decode (utf8 c @ utf8_text cs @ 0 # p) (of_nat (length (utf8_text (c # cs)))) = Some (of_nat c, utf8_text cs @ 0 # p)"
        using False c by (intro decode_utf8) auto
      moreover have "\<not> (of_nat c :: 32 word) > 0x10ffff" using c by (simp add: word_less_nat_alt unsigned_of_nat take_bit_nat_eq_self)
      ultimately show ?thesis using b IH [of m]
        by (simp add: Suc u Let_def del: ngx_utf8_decode.simps)
    qed
  qed simp
qed

text \<open>
  C26: the UTF-8 routines count and copy characters. Of a text of code points, \<^verbatim>\<open>ngx_utf8_decode\<close> gives back the first
  one above the ASCII range and the place behind it; \<^verbatim>\<open>ngx_utf8_length\<close> is the number of the code points, not of
  the bytes; and \<^verbatim>\<open>ngx_utf8_cpystrn\<close> copies at most \<open>n\<close> whole characters of a terminated text and ends the copy with a
  \<^verbatim>\<open>NUL\<close>. Conversely, what \<^verbatim>\<open>ngx_utf8_decode\<close> accepts is the shortest encoding of the result, as long as the bytes
  behind the first are below \<open>0xc0\<close>.
\<close>

theorem utf8_routines:
  assumes "\<forall>c \<in> set cs. 0 < c \<and> c < 0x110000" "length (utf8_text cs) < 2 ^ 64"
  shows "(cs \<noteq> [] \<and> 0x80 \<le> hd cs \<longrightarrow>
      ngx_utf8_decode (utf8_text cs @ p) (of_nat (length (utf8_text cs))) = Some (of_nat (hd cs), utf8_text (tl cs) @ p))
    \<and> ngx_utf8_length (utf8_text cs @ p) (length (utf8_text cs)) = Some (length cs)
    \<and> ngx_utf8_cpystrn (utf8_text cs @ 0 # p) (n + 1) (of_nat (length (utf8_text cs))) = Some (utf8_text (take n cs) @ [0])
    \<and> (\<forall>u q. ngx_utf8_decode p n' = Some (u, q) \<and> u \<le> 0x10ffff \<and> list_all (\<lambda>i. i < 0xc0) (take (length p - length q - 1) (tl p)) \<longrightarrow>
        p = utf8 (unat u) @ q)"
proof -
  have "ngx_utf8_decode (utf8_text cs @ p) (of_nat (length (utf8_text cs))) = Some (of_nat (hd cs), utf8_text (tl cs) @ p)"
    if h: "cs \<noteq> []" "0x80 \<le> hd cs"
  proof -
    obtain c cs' where cs: "cs = c # cs'" using h(1) by (cases cs) auto
    have "unat (of_nat (length (utf8_text cs)) :: 64 word) = length (utf8_text cs)"
      using assms(2) by (rule unat_length)
    then show ?thesis using decode_utf8 [of c "of_nat (length (utf8_text cs))" "utf8_text cs' @ p"] assms(1) h
      by (simp add: cs del: ngx_utf8_decode.simps)
  qed
  with text_length [OF _ assms(2), of "length (utf8_text cs)" p 0] text_copy [OF assms] assms(1) decode_exact [of p n']
  show ?thesis by (auto simp: ngx_utf8_length_def ngx_utf8_cpystrn_def list_all_iff simp del: ngx_utf8_decode.simps)
qed

theorem utf8_routines_witness:
  "ngx_utf8_length [0x61, 0xc3, 0xa9, 0xe2, 0x82, 0xac] 6 = Some 3
   \<and> ngx_utf8_cpystrn [0x61, 0xc3, 0xa9, 0xe2, 0x82, 0xac, 0] 3 6 = Some [0x61, 0xc3, 0xa9, 0]"
proof -
  let ?cs = "[0x61, 0xe9, 0x20ac] :: nat list"
  have t: "utf8_text ?cs = [0x61, 0xc3, 0xa9, 0xe2, 0x82, 0xac]" "utf8_text (take 2 ?cs) = [0x61, 0xc3, 0xa9]"
    by (simp_all add: utf8_def utf8_tail_def)
  have l: "length [0x61, 0xc3, 0xa9, 0xe2, 0x82, 0xac :: u_char] = 6" "length ?cs = 3" by simp_all
  have p: "\<forall>c \<in> set ?cs. 0 < c \<and> c < 0x110000" "length (utf8_text ?cs) < 2 ^ 64" unfolding t l by simp_all
  from utf8_routines [OF p, of "[]" 2, unfolded t l] show ?thesis by simp
qed

text \<open>The bytes behind the first are only compared with \<open>0x80\<close>: the two first bytes of two characters pass as one.\<close>

lemma utf8_decode_lax: "ngx_utf8_decode [0xc3, 0xe9] 2 = Some (0xe9, [])"
  by code_simp

end
