(* ===== verification/Ngx_Radix_Tree.thy ===== *)
theory Ngx_Radix_Tree
  imports Ngx_Prelude "HOL-Library.Monad_Syntax" "HOL-Library.Sublist"
begin

text \<open>
  The radix trees of \<^verbatim>\<open>src/reference/nginx-master/src/core/ngx_radix_tree.c\<close>, which map networks to values: each node
  stands for the bits on the way to it, and a lookup takes the value of the longest prefix of the address.

  The nodes are addresses and each field is a function on addresses. The pages that \<^verbatim>\<open>ngx_pmemalign\<close> returns are a
  parameter \<open>pm\<close>, by the number of the call; \<open>ps\<close> is \<^verbatim>\<open>ngx_pagesize\<close>. To follow \<^verbatim>\<open>NULL\<close>, to read outside a key and
  not to return are the result \<open>None\<close>.
\<close>

unbundle bit_operations_syntax

section \<open>The code\<close>

abbreviation NGX_RADIX_NO_VALUE :: "64 word" where
  "NGX_RADIX_NO_VALUE \<equiv> - 1"

abbreviation (input) sizeof_node :: nat where
  "sizeof_node \<equiv> 32"

datatype radix_rc = Radix_ok | Radix_busy | Radix_error

record ngx_radix_tree_t =
  rn_right :: "nat \<Rightarrow> nat option"
  rn_left :: "nat \<Rightarrow> nat option"
  rn_parent :: "nat \<Rightarrow> nat option"
  rn_value :: "nat \<Rightarrow> 64 word"
  rt_root :: nat
  rt_free :: "nat option"
  rt_start :: "nat option"
  rt_size :: nat
  rt_pages :: nat

definition rn_set_right :: "nat \<Rightarrow> nat option \<Rightarrow> ngx_radix_tree_t \<Rightarrow> ngx_radix_tree_t" where
  "rn_set_right a x t = t\<lparr>rn_right := (rn_right t)(a := x)\<rparr>"

definition rn_set_left :: "nat \<Rightarrow> nat option \<Rightarrow> ngx_radix_tree_t \<Rightarrow> ngx_radix_tree_t" where
  "rn_set_left a x t = t\<lparr>rn_left := (rn_left t)(a := x)\<rparr>"

definition rn_set_parent :: "nat \<Rightarrow> nat option \<Rightarrow> ngx_radix_tree_t \<Rightarrow> ngx_radix_tree_t" where
  "rn_set_parent a x t = t\<lparr>rn_parent := (rn_parent t)(a := x)\<rparr>"

definition rn_set_value :: "nat \<Rightarrow> 64 word \<Rightarrow> ngx_radix_tree_t \<Rightarrow> ngx_radix_tree_t" where
  "rn_set_value a x t = t\<lparr>rn_value := (rn_value t)(a := x)\<rparr>"

definition ngx_radix_alloc :: "nat \<Rightarrow> (nat \<Rightarrow> nat option) \<Rightarrow> ngx_radix_tree_t \<Rightarrow> nat option \<times> ngx_radix_tree_t" where
  "ngx_radix_alloc ps pm t =
     (case rt_free t of
        Some p \<Rightarrow> (Some p, t\<lparr>rt_free := rn_right t p\<rparr>)
      | None \<Rightarrow>
          let t = (if rt_size t < sizeof_node then
                     (case pm (rt_pages t) of
                        None \<Rightarrow> t\<lparr>rt_start := None, rt_pages := rt_pages t + 1\<rparr>
                      | Some a \<Rightarrow> t\<lparr>rt_start := Some a, rt_size := ps, rt_pages := rt_pages t + 1\<rparr>)
                   else t)
          in case rt_start t of
               None \<Rightarrow> (None, t)
             | Some p \<Rightarrow> (Some p, t\<lparr>rt_start := Some (p + sizeof_node), rt_size := rt_size t - sizeof_node\<rparr>))"

text \<open>\<^verbatim>\<open>key & bit ? node->right : node->left\<close>\<close>

definition branch :: "bool \<Rightarrow> nat \<Rightarrow> ngx_radix_tree_t \<Rightarrow> nat option" where
  "branch b node t = (if b then rn_right t node else rn_left t node)"

definition set_branch :: "bool \<Rightarrow> nat \<Rightarrow> nat option \<Rightarrow> ngx_radix_tree_t \<Rightarrow> ngx_radix_tree_t" where
  "set_branch b node x t = (if b then rn_set_right node x t else rn_set_left node x t)"

text \<open>The fields of a new node.\<close>

definition new_node :: "nat \<Rightarrow> nat \<Rightarrow> ngx_radix_tree_t \<Rightarrow> ngx_radix_tree_t" where
  "new_node a node t = rn_set_value a NGX_RADIX_NO_VALUE (rn_set_parent a (Some node) (rn_set_left a None (rn_set_right a None t)))"

lemma drop_bit_less:
  assumes "(bt :: 'a::len word) AND m \<noteq> 0"
  shows "unat (drop_bit (Suc 0) bt) < unat bt"
proof -
  have "0 < unat bt" using assms by (auto simp: unat_gt_0)
  moreover have "unat (drop_bit (Suc 0) bt) = unat bt div 2" by (simp add: unat_drop_bit_eq drop_bit_eq_div [of _ "unat bt"])
  ultimately show ?thesis by simp
qed

subsection \<open>Keys of 32 bits\<close>

text \<open>The first loop of the insertion; the second result tells that \<^verbatim>\<open>next\<close> is not \<^verbatim>\<open>NULL\<close>.\<close>

function r32_walk :: "ngx_radix_tree_t \<Rightarrow> 32 word \<Rightarrow> 32 word \<Rightarrow> 32 word \<Rightarrow> nat \<Rightarrow> nat \<times> bool \<times> 32 word" where
  "r32_walk t key msk bt node =
     (if bt AND msk \<noteq> 0 then
        case branch (key AND bt \<noteq> 0) node t of
          None \<Rightarrow> (node, False, bt)
        | Some nxt \<Rightarrow> r32_walk t key msk (drop_bit 1 bt) nxt
      else (node, True, bt))"
  by auto
termination
  by (relation "measure (\<lambda>(t, key, msk, bt, node). unat bt)") (auto dest: drop_bit_less)

text \<open>The second loop; no node stands for \<^verbatim>\<open>NGX_ERROR\<close>.\<close>

function r32_extend :: "nat \<Rightarrow> (nat \<Rightarrow> nat option) \<Rightarrow> 32 word \<Rightarrow> 32 word \<Rightarrow> 32 word \<Rightarrow> nat \<Rightarrow> ngx_radix_tree_t \<Rightarrow>
    nat option \<times> ngx_radix_tree_t" where
  "r32_extend ps pm key msk bt node t =
     (if bt AND msk \<noteq> 0 then
        case ngx_radix_alloc ps pm t of
          (None, t) \<Rightarrow> (None, t)
        | (Some nxt, t) \<Rightarrow>
            r32_extend ps pm key msk (drop_bit 1 bt) nxt
              (set_branch (key AND bt \<noteq> 0) node (Some nxt) (new_node nxt node t))
      else (Some node, t))"
  by auto
termination
  by (relation "measure (\<lambda>(ps, pm, key, msk, bt, node, t). unat bt)") (auto dest: drop_bit_less)

declare r32_walk.simps [simp del] r32_extend.simps [simp del]

definition ngx_radix32tree_insert :: "nat \<Rightarrow> (nat \<Rightarrow> nat option) \<Rightarrow> ngx_radix_tree_t \<Rightarrow> 32 word \<Rightarrow> 32 word \<Rightarrow> 64 word \<Rightarrow>
    radix_rc \<times> ngx_radix_tree_t" where
  "ngx_radix32tree_insert ps pm t key msk v =
     (case r32_walk t key msk 0x80000000 (rt_root t) of
        (node, found, bt) \<Rightarrow>
          if found then
            if rn_value t node \<noteq> NGX_RADIX_NO_VALUE then (Radix_busy, t) else (Radix_ok, rn_set_value node v t)
          else case r32_extend ps pm key msk bt node t of
            (None, t) \<Rightarrow> (Radix_error, t)
          | (Some node, t) \<Rightarrow> (Radix_ok, rn_set_value node v t))"

function r32_seek :: "ngx_radix_tree_t \<Rightarrow> 32 word \<Rightarrow> 32 word \<Rightarrow> 32 word \<Rightarrow> nat option \<Rightarrow> nat option" where
  "r32_seek t key msk bt node =
     (case node of None \<Rightarrow> None
      | Some a \<Rightarrow>
          if bt AND msk \<noteq> 0 then r32_seek t key msk (drop_bit 1 bt) (branch (key AND bt \<noteq> 0) a t)
          else Some a)"
  by auto
termination
  by (relation "measure (\<lambda>(t, key, msk, bt, node). unat bt)") (auto dest: drop_bit_less)

declare r32_seek.simps [simp del]

text \<open>The loop that frees a leaf and the nodes above it that have become empty, the same for both sizes of keys.\<close>

partial_function (option) radix_prune :: "nat \<Rightarrow> ngx_radix_tree_t \<Rightarrow> ngx_radix_tree_t option" where
  "radix_prune node t =
     (case rn_parent t node of None \<Rightarrow> None
      | Some p \<Rightarrow>
          let t = (if rn_right t p = Some node then rn_set_right p None t else rn_set_left p None t);
              t = rn_set_right node (rt_free t) t;
              t = t\<lparr>rt_free := Some node\<rparr>
          in case rn_parent t node of None \<Rightarrow> None
             | Some node \<Rightarrow>
                 if rn_right t node \<noteq> None \<or> rn_left t node \<noteq> None then Some t
                 else if rn_value t node \<noteq> NGX_RADIX_NO_VALUE then Some t
                 else if rn_parent t node = None then Some t
                 else radix_prune node t)"

definition radix_remove :: "nat option \<Rightarrow> ngx_radix_tree_t \<Rightarrow> (radix_rc \<times> ngx_radix_tree_t) option" where
  "radix_remove node t =
     (case node of None \<Rightarrow> Some (Radix_error, t)
      | Some a \<Rightarrow>
          if rn_right t a \<noteq> None \<or> rn_left t a \<noteq> None then
            if rn_value t a \<noteq> NGX_RADIX_NO_VALUE then Some (Radix_ok, rn_set_value a NGX_RADIX_NO_VALUE t)
            else Some (Radix_error, t)
          else map_option (Pair Radix_ok) (radix_prune a t))"

definition ngx_radix32tree_delete :: "ngx_radix_tree_t \<Rightarrow> 32 word \<Rightarrow> 32 word \<Rightarrow> (radix_rc \<times> ngx_radix_tree_t) option" where
  "ngx_radix32tree_delete t key msk = radix_remove (r32_seek t key msk 0x80000000 (Some (rt_root t))) t"

partial_function (option) r32_find_loop :: "ngx_radix_tree_t \<Rightarrow> 32 word \<Rightarrow> 32 word \<Rightarrow> 64 word \<Rightarrow> nat option \<Rightarrow> 64 word option" where
  "r32_find_loop t key bt v node =
     (case node of None \<Rightarrow> Some v
      | Some a \<Rightarrow>
          r32_find_loop t key (drop_bit 1 bt) (if rn_value t a \<noteq> NGX_RADIX_NO_VALUE then rn_value t a else v)
            (branch (key AND bt \<noteq> 0) a t))"

definition ngx_radix32tree_find :: "ngx_radix_tree_t \<Rightarrow> 32 word \<Rightarrow> 64 word option" where
  "ngx_radix32tree_find t key = r32_find_loop t key 0x80000000 NGX_RADIX_NO_VALUE (Some (rt_root t))"

text \<open>
  The creation of a tree in the memory \<open>mem\<close>, whose contents the code does not look at; \<open>room\<close> tells that
  \<^verbatim>\<open>ngx_palloc\<close> has found room for the tree. The two loops preallocate the nodes of the first bits.
\<close>

partial_function (option) radix_fill :: "nat \<Rightarrow> (nat \<Rightarrow> nat option) \<Rightarrow> 32 word \<Rightarrow> 32 word \<Rightarrow> 32 word \<Rightarrow> ngx_radix_tree_t \<Rightarrow>
    ngx_radix_tree_t option option" where
  "radix_fill ps pm key msk inc t =
     (case ngx_radix32tree_insert ps pm t key msk NGX_RADIX_NO_VALUE of
        (rc, t) \<Rightarrow>
          if rc \<noteq> Radix_ok then Some None
          else if key + inc = 0 then Some (Some t)
          else radix_fill ps pm (key + inc) msk inc t)"

partial_function (option) radix_preallocate :: "nat \<Rightarrow> (nat \<Rightarrow> nat option) \<Rightarrow> int \<Rightarrow> 32 word \<Rightarrow> 32 word \<Rightarrow> ngx_radix_tree_t \<Rightarrow>
    ngx_radix_tree_t option option" where
  "radix_preallocate ps pm preallocate msk inc t =
     (if preallocate = 0 then Some (Some t)
      else
        let msk = drop_bit 1 msk OR 0x80000000
        in case radix_fill ps pm 0 msk inc t of
             None \<Rightarrow> None
           | Some None \<Rightarrow> Some None
           | Some (Some t) \<Rightarrow> radix_preallocate ps pm (preallocate - 1) msk (drop_bit 1 inc) t)"

definition ngx_radix_tree_create :: "nat \<Rightarrow> (nat \<Rightarrow> nat option) \<Rightarrow> bool \<Rightarrow> int \<Rightarrow> ngx_radix_tree_t \<Rightarrow> ngx_radix_tree_t option option" where
  "ngx_radix_tree_create ps pm room preallocate mem =
     (if \<not> room then Some None
      else case ngx_radix_alloc ps pm (mem\<lparr>rt_free := None, rt_start := None, rt_size := 0\<rparr>) of
        (None, t) \<Rightarrow> Some None
      | (Some root, t) \<Rightarrow>
          let t = rn_set_value root NGX_RADIX_NO_VALUE (rn_set_parent root None (rn_set_left root None (rn_set_right root None (t\<lparr>rt_root := root\<rparr>))))
          in if preallocate = 0 then Some (Some t)
             else
               let preallocate = (if preallocate = -1 then
                                    if ps div sizeof_node = 128 then 6 else if ps div sizeof_node = 256 then 7 else 8
                                  else preallocate)
               in radix_preallocate ps pm preallocate 0 0x80000000 t)"

subsection \<open>Keys of 128 bits\<close>

function r128_walk :: "ngx_radix_tree_t \<Rightarrow> u_char list \<Rightarrow> u_char list \<Rightarrow> nat \<Rightarrow> u_char \<Rightarrow> nat \<Rightarrow> (nat \<times> bool \<times> nat \<times> u_char) option" where
  "r128_walk t key msk i bt node =
     (if i \<ge> 16 then None
      else if bt AND msk ! i \<noteq> 0 then
        case branch (key ! i AND bt \<noteq> 0) node t of
          None \<Rightarrow> Some (node, False, i, bt)
        | Some nxt \<Rightarrow>
            if drop_bit 1 bt = 0 then
              if i + 1 = 16 then Some (nxt, True, i + 1, 0) else r128_walk t key msk (i + 1) 0x80 nxt
            else r128_walk t key msk i (drop_bit 1 bt) nxt
      else Some (node, True, i, bt))"
  by auto
termination
  by (relation "measures [\<lambda>(t, key, msk, i, bt, node). 16 - i, \<lambda>(t, key, msk, i, bt, node). unat bt]")
    (auto dest: drop_bit_less)

function r128_extend :: "nat \<Rightarrow> (nat \<Rightarrow> nat option) \<Rightarrow> u_char list \<Rightarrow> u_char list \<Rightarrow> nat \<Rightarrow> u_char \<Rightarrow> nat \<Rightarrow> ngx_radix_tree_t \<Rightarrow>
    (nat option \<times> ngx_radix_tree_t) option" where
  "r128_extend ps pm key msk i bt node t =
     (if i \<ge> 16 then None
      else if bt AND msk ! i \<noteq> 0 then
        case ngx_radix_alloc ps pm t of
          (None, t) \<Rightarrow> Some (None, t)
        | (Some nxt, t) \<Rightarrow>
            let t = set_branch (key ! i AND bt \<noteq> 0) node (Some nxt) (new_node nxt node t)
            in if drop_bit 1 bt = 0 then
                 if i + 1 = 16 then Some (Some nxt, t) else r128_extend ps pm key msk (i + 1) 0x80 nxt t
               else r128_extend ps pm key msk i (drop_bit 1 bt) nxt t
      else Some (Some node, t))"
  by auto
termination
  by (relation "measures [\<lambda>(ps, pm, key, msk, i, bt, node, t). 16 - i, \<lambda>(ps, pm, key, msk, i, bt, node, t). unat bt]")
    (auto dest: drop_bit_less)

function r128_seek :: "ngx_radix_tree_t \<Rightarrow> u_char list \<Rightarrow> u_char list \<Rightarrow> nat \<Rightarrow> u_char \<Rightarrow> nat option \<Rightarrow> nat option option" where
  "r128_seek t key msk i bt node =
     (case node of None \<Rightarrow> Some None
      | Some a \<Rightarrow>
          if i \<ge> 16 then None
          else if bt AND msk ! i \<noteq> 0 then
            let nxt = branch (key ! i AND bt \<noteq> 0) a t
            in if drop_bit 1 bt = 0 then
                 if i + 1 = 16 then Some nxt else r128_seek t key msk (i + 1) 0x80 nxt
               else r128_seek t key msk i (drop_bit 1 bt) nxt
          else Some (Some a))"
  by auto
termination
  by (relation "measures [\<lambda>(t, key, msk, i, bt, node). 16 - i, \<lambda>(t, key, msk, i, bt, node). unat bt]")
    (auto dest: drop_bit_less)

declare r128_walk.simps [simp del] r128_extend.simps [simp del] r128_seek.simps [simp del]

definition ngx_radix128tree_insert :: "nat \<Rightarrow> (nat \<Rightarrow> nat option) \<Rightarrow> ngx_radix_tree_t \<Rightarrow> u_char list \<Rightarrow> u_char list \<Rightarrow> 64 word \<Rightarrow>
    (radix_rc \<times> ngx_radix_tree_t) option" where
  "ngx_radix128tree_insert ps pm t key msk v =
     do {
       (node, found, i, bt) \<leftarrow> r128_walk t key msk 0 0x80 (rt_root t);
       if found then
         Some (if rn_value t node \<noteq> NGX_RADIX_NO_VALUE then (Radix_busy, t) else (Radix_ok, rn_set_value node v t))
       else do {
         (res, t) \<leftarrow> r128_extend ps pm key msk i bt node t;
         Some (case res of None \<Rightarrow> (Radix_error, t) | Some node \<Rightarrow> (Radix_ok, rn_set_value node v t))
       }
     }"

definition ngx_radix128tree_delete :: "ngx_radix_tree_t \<Rightarrow> u_char list \<Rightarrow> u_char list \<Rightarrow> (radix_rc \<times> ngx_radix_tree_t) option" where
  "ngx_radix128tree_delete t key msk =
     do { node \<leftarrow> r128_seek t key msk 0 0x80 (Some (rt_root t)); radix_remove node t }"

partial_function (option) r128_find_loop :: "ngx_radix_tree_t \<Rightarrow> u_char list \<Rightarrow> nat \<Rightarrow> u_char \<Rightarrow> 64 word \<Rightarrow> nat option \<Rightarrow> 64 word option" where
  "r128_find_loop t key i bt v node =
     (case node of None \<Rightarrow> Some v
      | Some a \<Rightarrow>
          if i \<ge> 16 then None
          else
            let v = (if rn_value t a \<noteq> NGX_RADIX_NO_VALUE then rn_value t a else v);
                nxt = branch (key ! i AND bt \<noteq> 0) a t
            in if drop_bit 1 bt = 0 then r128_find_loop t key (i + 1) 0x80 v nxt
               else r128_find_loop t key i (drop_bit 1 bt) v nxt)"

definition ngx_radix128tree_find :: "ngx_radix_tree_t \<Rightarrow> u_char list \<Rightarrow> 64 word option" where
  "ngx_radix128tree_find t key = r128_find_loop t key 0 0x80 NGX_RADIX_NO_VALUE (Some (rt_root t))"

end
