(* ===== verification/Ngx_Radix_Props.thy ===== *)
theory Ngx_Radix_Props
  imports Ngx_Radix_Tree "HOL-Library.Multiset"
begin

text \<open>
  The radix tree as a map from bit strings to values: the representation of a tree by its nodes, the list of free nodes and
  the pages of memory, and the loops of insertion, deletion and lookup as loops over lists of bits, which update the map
  or find the match of the longest prefix in it. \<open>Ngx_Radix_Keys\<close> brings the loops of the code to this form.
\<close>

section \<open>Tries in memory\<close>

datatype trie = Tip | Br trie nat trie

fun ptr :: "trie \<Rightarrow> nat option" where
  "ptr Tip = None"
| "ptr (Br l a r) = Some a"

fun nodes :: "trie \<Rightarrow> nat list" where
  "nodes Tip = []"
| "nodes (Br l a r) = a # nodes l @ nodes r"

fun trie_at :: "ngx_radix_tree_t \<Rightarrow> nat option \<Rightarrow> trie \<Rightarrow> bool" where
  "trie_at st p Tip \<longleftrightarrow> True"
| "trie_at st p (Br l a r) \<longleftrightarrow>
     rn_parent st a = p \<and> rn_left st a = ptr l \<and> rn_right st a = ptr r \<and> trie_at st (Some a) l \<and> trie_at st (Some a) r"

text \<open>The node at the end of a way, and the replacement of what is there.\<close>

fun sub :: "bool list \<Rightarrow> trie \<Rightarrow> trie" where
  "sub [] t = t"
| "sub (b # bs) Tip = Tip"
| "sub (b # bs) (Br l a r) = sub bs (if b then r else l)"

fun graft :: "bool list \<Rightarrow> trie \<Rightarrow> trie \<Rightarrow> trie" where
  "graft [] s t = s"
| "graft (b # bs) s Tip = Tip"
| "graft (b # bs) s (Br l a r) = (if b then Br l a (graft bs s r) else Br (graft bs s l) a r)"

text \<open>The map: the nodes with a value.\<close>

definition vmap :: "ngx_radix_tree_t \<Rightarrow> trie \<Rightarrow> bool list \<Rightarrow> 64 word option" where
  "vmap st t bs = (case ptr (sub bs t) of None \<Rightarrow> None
     | Some a \<Rightarrow> if rn_value st a = NGX_RADIX_NO_VALUE then None else Some (rn_value st a))"

lemma sub_Tip [simp]: "sub bs Tip = Tip"
  by (cases bs) auto

lemma sub_append: "sub (cs @ bs) t = sub bs (sub cs t)"
  by (induction cs t rule: sub.induct) auto

lemma sub_nodes: "set (nodes (sub bs t)) \<subseteq> set (nodes t)"
  by (induction bs t rule: sub.induct) auto

lemma holds_cong:
  assumes "trie_at st p t" "\<And>a. a \<in> set (nodes t) \<Longrightarrow> rn_parent st' a = rn_parent st a \<and> rn_left st' a = rn_left st a \<and> rn_right st' a = rn_right st a"
  shows "trie_at st' p t"
  using assms by (induction t arbitrary: p) auto

lemma branch_sub: "trie_at st p t \<Longrightarrow> sub cs t = Br l a r \<Longrightarrow> branch b a st = ptr (sub (cs @ [b]) t)"
  by (induction cs t arbitrary: p rule: sub.induct) (auto simp: branch_def split: if_splits)

lemma parent_sub: "trie_at st p t \<Longrightarrow> sub cs t = Br l a r \<Longrightarrow> rn_parent st a = (if cs = [] then p else ptr (sub (butlast cs) t))"
proof (induction cs t arbitrary: p rule: sub.induct)
  case (3 b bs l' a' r')
  then show ?case by (cases bs) (auto split: if_splits)
qed auto

text \<open>Two ways to the same node are the same way.\<close>

lemma sub_inject:
  assumes "distinct (nodes t)" "ptr (sub bs t) = Some a" "ptr (sub cs t) = Some a"
  shows "bs = cs"
  using assms
proof (induction t arbitrary: bs cs)
  case (Br l x r)
  have inl: "a \<in> set (nodes u)" if "ptr (sub ds u) = Some a" for ds u
    using that sub_nodes [of ds u] by (cases "sub ds u") auto
  show ?case
  proof (cases bs)
    case Nil
    then show ?thesis using Br.prems inl by (cases cs) (auto split: if_splits)
  next
    case (Cons b bs')
    show ?thesis
    proof (cases cs)
      case Nil
      then show ?thesis using Br.prems inl Cons by (auto split: if_splits)
    next
      case c: (Cons c cs')
      have "b = c" using Br.prems inl [of bs' l] inl [of bs' r] inl [of cs' l] inl [of cs' r] Cons c by (auto split: if_splits)
      then show ?thesis using Br Cons c by (auto split: if_splits)
    qed
  qed
next
  case Tip
  then show ?case by (cases bs) auto
qed

lemma sub_put: "sub cs t = Br l a r \<Longrightarrow> sub (cs @ [b]) (graft (cs @ [b]) s t) = s"
  by (induction cs t rule: sub.induct) auto

text \<open>A child that is missing or a leaf may be replaced by such a one without any effect on the other ways.\<close>

definition small :: "trie \<Rightarrow> bool" where
  "small u \<longleftrightarrow> u = Tip \<or> (\<exists>x. u = Br Tip x Tip)"

lemma small_sub: "small u \<Longrightarrow> bs \<noteq> [] \<Longrightarrow> sub bs u = Tip"
  by (cases bs) (auto simp: small_def)

lemma ptr_sub_put:
  assumes "sub cs t = Br l a r" "small (sub (cs @ [b]) t)" "small s" "bs \<noteq> cs @ [b]"
  shows "ptr (sub bs (graft (cs @ [b]) s t)) = ptr (sub bs t)"
  using assms
proof (induction cs t arbitrary: bs rule: sub.induct)
  case (1 t)
  then show ?case by (cases bs) (auto simp: small_sub)
next
  case (3 c cs l' a' r')
  then show ?case by (cases bs) auto
qed auto

lemma nodes_put:
  assumes "sub cs t = Br l a r"
  shows "mset (nodes (graft (cs @ [b]) s t)) + mset (nodes (sub (cs @ [b]) t)) = mset (nodes t) + mset (nodes s)"
  using assms by (induction cs t rule: sub.induct) (auto simp: ac_simps)

lemma ptr_put: "sub cs t = Br l a r \<Longrightarrow> ptr (graft (cs @ [b]) s t) = ptr t"
  by (cases cs; cases t) auto

text \<open>The links after the pointer to a child has been set.\<close>

lemma holds_put:
  assumes "trie_at st p t" "distinct (nodes t)" "sub cs t = Br l a r" "small (sub (cs @ [b]) t)"
    and "branch b a st' = ptr s" "branch (\<not> b) a st' = branch (\<not> b) a st" "rn_parent st' a = rn_parent st a" "trie_at st' (Some a) s"
    and "\<And>x. x \<in> set (nodes t) \<Longrightarrow> x \<noteq> a \<Longrightarrow> ptr (sub (cs @ [b]) t) \<noteq> Some x \<Longrightarrow>
      rn_parent st' x = rn_parent st x \<and> rn_left st' x = rn_left st x \<and> rn_right st' x = rn_right st x"
  shows "trie_at st' p (graft (cs @ [b]) s t)"
  using assms(1-4,9)
proof (induction cs t arbitrary: p rule: sub.induct)
  case (1 t)
  then have t: "t = Br l a r" by simp
  let ?o = "if b then l else r"
  have "trie_at st' (Some a) ?o"
  proof (rule holds_cong [of st])
    show "trie_at st (Some a) ?o" using 1(1) t by simp
    fix x
    assume "x \<in> set (nodes ?o)"
    moreover from this have "x \<noteq> a" "ptr (if b then r else l) \<noteq> Some x"
      using 1(2) t by (cases "if b then r else l"; auto split: if_splits)+
    ultimately show "rn_parent st' x = rn_parent st x \<and> rn_left st' x = rn_left st x \<and> rn_right st' x = rn_right st x"
      using 1(5) [of x] t by (auto split: if_splits)
  qed
  then show ?case using 1(1) t assms(5-8) by (cases b) (auto simp: branch_def)
next
  case (3 c cs l' a' r')
  let ?u = "if c then r' else l'" and ?o = "if c then l' else r'"
  have a: "a \<in> set (nodes ?u)" using 3(4) sub_nodes [of cs ?u] by auto
  have px: "x \<in> set (nodes ?u)" if "ptr (sub ((c # cs) @ [b]) (Br l' a' r')) = Some x" for x
    using that sub_nodes [of "cs @ [b]" ?u] by (cases "sub (cs @ [b]) ?u") auto
  have "trie_at st' (Some a') ?o"
  proof (rule holds_cong [of st])
    show "trie_at st (Some a') ?o" using 3(2) by simp
    fix x
    assume x: "x \<in> set (nodes ?o)"
    then have "x \<notin> set (nodes ?u)" using 3(3) by (auto split: if_splits)
    then show "rn_parent st' x = rn_parent st x \<and> rn_left st' x = rn_left st x \<and> rn_right st' x = rn_right st x"
      using 3(6) [of x] x a px [of x] by (auto split: if_splits)
  qed
  moreover have "trie_at st' (Some a') (graft (cs @ [b]) s ?u)"
    using 3(1) [of "Some a'"] 3(2-6) by (auto split: if_splits)
  moreover have "rn_parent st' a' = rn_parent st a' \<and> rn_left st' a' = rn_left st a' \<and> rn_right st' a' = rn_right st a'"
  proof (rule 3(6))
    show "a' \<noteq> a" "ptr (sub ((c # cs) @ [b]) (Br l' a' r')) \<noteq> Some a'" using a px [of a'] 3(3) by (auto split: if_splits)
  qed simp
  moreover have "ptr (graft (cs @ [b]) s ?u) = ptr ?u" using 3(4) by (intro ptr_put) simp
  ultimately show ?case using 3(2) by (auto split: if_splits)
qed auto

section \<open>Memory\<close>

text \<open>The free nodes are linked by \<^verbatim>\<open>right\<close>.\<close>

fun flist :: "ngx_radix_tree_t \<Rightarrow> nat option \<Rightarrow> nat list \<Rightarrow> bool" where
  "flist st p [] \<longleftrightarrow> p = None"
| "flist st p (x # xs) \<longleftrightarrow> p = Some x \<and> flist st (rn_right st x) xs"

lemma flist_cong: "flist st p xs \<Longrightarrow> (\<And>x. x \<in> set xs \<Longrightarrow> rn_right st' x = rn_right st x) \<Longrightarrow> flist st' p xs"
  by (induction xs arbitrary: p) auto

text \<open>What the code relies on: the pages of \<^verbatim>\<open>ngx_pmemalign\<close> have room for a node and do not overlap.\<close>

definition pages_ok :: "nat \<Rightarrow> (nat \<Rightarrow> nat option) \<Rightarrow> bool" where
  "pages_ok ps pm \<longleftrightarrow> 32 \<le> ps \<and> (\<forall>i j a b. i \<noteq> j \<and> pm i = Some a \<and> pm j = Some b \<longrightarrow> a + ps \<le> b \<or> b + ps \<le> a)"

text \<open>A node that has been taken from a page, in front of the rest of the current page.\<close>

definition taken :: "nat \<Rightarrow> (nat \<Rightarrow> nat option) \<Rightarrow> ngx_radix_tree_t \<Rightarrow> nat \<Rightarrow> bool" where
  "taken ps pm st a \<longleftrightarrow>
     (\<exists>k b. k < rt_pages st \<and> pm k = Some b \<and> b \<le> a \<and> a + 32 \<le> b + ps \<and>
        (k + 1 = rt_pages st \<and> 32 \<le> rt_size st \<longrightarrow> (\<exists>s. rt_start st = Some s \<and> a + 32 \<le> s)))"

definition page_rest :: "nat \<Rightarrow> (nat \<Rightarrow> nat option) \<Rightarrow> ngx_radix_tree_t \<Rightarrow> bool" where
  "page_rest ps pm st \<longleftrightarrow>
     (32 \<le> rt_size st \<longrightarrow>
        (\<exists>b s. 0 < rt_pages st \<and> pm (rt_pages st - 1) = Some b \<and> rt_start st = Some s \<and> b \<le> s \<and> s + rt_size st = b + ps))"

definition radix :: "nat \<Rightarrow> (nat \<Rightarrow> nat option) \<Rightarrow> ngx_radix_tree_t \<Rightarrow> trie \<Rightarrow> nat list \<Rightarrow> bool" where
  "radix ps pm st t fl \<longleftrightarrow>
     trie_at st None t \<and> ptr t = Some (rt_root st) \<and> flist st (rt_free st) fl \<and> distinct (nodes t @ fl) \<and>
     (\<forall>x \<in> set (nodes t @ fl). taken ps pm st x) \<and> page_rest ps pm st"

definition same_memory :: "ngx_radix_tree_t \<Rightarrow> ngx_radix_tree_t \<Rightarrow> bool" where
  "same_memory st' st \<longleftrightarrow> rt_start st' = rt_start st \<and> rt_size st' = rt_size st \<and> rt_pages st' = rt_pages st"

lemma same_memory: "same_memory st' st \<Longrightarrow> taken ps pm st' = taken ps pm st" "same_memory st' st \<Longrightarrow> page_rest ps pm st' = page_rest ps pm st"
  by (auto simp: same_memory_def taken_def page_rest_def fun_eq_iff)

definition same_nodes :: "ngx_radix_tree_t \<Rightarrow> ngx_radix_tree_t \<Rightarrow> bool" where
  "same_nodes st' st \<longleftrightarrow> rn_right st' = rn_right st \<and> rn_left st' = rn_left st \<and> rn_parent st' = rn_parent st
     \<and> rn_value st' = rn_value st \<and> rt_root st' = rt_root st"

lemma page_fresh:
  assumes ok: "pages_ok ps pm" and rest: "page_rest ps pm st" and size: "32 \<le> rt_size st" and s: "rt_start st = Some s"
  shows "\<not> taken ps pm st s"
    and "\<And>a. taken ps pm st a \<Longrightarrow> taken ps pm (st\<lparr>rt_start := Some (s + 32), rt_size := rt_size st - 32\<rparr>) a"
    and "taken ps pm (st\<lparr>rt_start := Some (s + 32), rt_size := rt_size st - 32\<rparr>) s"
    and "page_rest ps pm (st\<lparr>rt_start := Some (s + 32), rt_size := rt_size st - 32\<rparr>)"
proof -
  from rest size s obtain b where b: "0 < rt_pages st" "pm (rt_pages st - 1) = Some b" "b \<le> s" "s + rt_size st = b + ps"
    by (auto simp: page_rest_def)
  show "\<not> taken ps pm st s"
  proof
    assume "taken ps pm st s"
    then obtain k c where k: "k < rt_pages st" "pm k = Some c" "c \<le> s" "s + 32 \<le> c + ps" "k + 1 = rt_pages st \<Longrightarrow> s + 32 \<le> s"
      using size s by (auto simp: taken_def)
    then have "k \<noteq> rt_pages st - 1" by auto
    with ok k(2) b(2) have "c + ps \<le> b \<or> b + ps \<le> c" by (auto simp: pages_ok_def)
    then show False using k b size by auto
  qed
  show "taken ps pm (st\<lparr>rt_start := Some (s + 32), rt_size := rt_size st - 32\<rparr>) a" if "taken ps pm st a" for a
    using that size s by (fastforce simp: taken_def)
  show "taken ps pm (st\<lparr>rt_start := Some (s + 32), rt_size := rt_size st - 32\<rparr>) s"
    unfolding taken_def using b size by (intro exI [of _ "rt_pages st - 1"] exI [of _ b]) auto
  show "page_rest ps pm (st\<lparr>rt_start := Some (s + 32), rt_size := rt_size st - 32\<rparr>)"
    using b size by (auto simp: page_rest_def)
qed

text \<open>A new node is none of the tree and none of the free ones.\<close>

lemma taken_next_page:
  assumes "taken ps pm st a" "rt_size st < 32" "rt_pages st' = rt_pages st + 1"
  shows "taken ps pm st' a"
proof -
  from assms(1) obtain k b where "k < rt_pages st" "pm k = Some b" "b \<le> a" "a + 32 \<le> b + ps" by (auto simp: taken_def)
  then show ?thesis unfolding taken_def using assms(3) by (intro exI [of _ k] exI [of _ b]) auto
qed

lemma radix_memory:
  assumes "radix ps pm st t fl" "same_nodes st' st" "rt_free st' = rt_free st"
    and "\<And>x. taken ps pm st x \<Longrightarrow> taken ps pm st' x" "page_rest ps pm st'"
  shows "radix ps pm st' t fl"
proof -
  note r = assms(1) [unfolded radix_def] and n = assms(2) [unfolded same_nodes_def]
  have "trie_at st' None t" by (rule holds_cong [of st]) (use r n in simp_all)
  moreover have "flist st' (rt_free st) fl" by (rule flist_cong [of st]) (use r n in simp_all)
  moreover have "\<forall>x \<in> set (nodes t @ fl). taken ps pm st' x" using r assms(4) by blast
  ultimately show ?thesis using r n assms(3,5) by (simp add: radix_def)
qed

lemma radix_from_page:
  assumes "pages_ok ps pm" "radix ps pm st t fl" "32 \<le> rt_size st" "rt_start st = Some s"
  shows "radix ps pm (st\<lparr>rt_start := Some (s + 32), rt_size := rt_size st - 32\<rparr>) t fl \<and> s \<notin> set (nodes t @ fl)
    \<and> taken ps pm (st\<lparr>rt_start := Some (s + 32), rt_size := rt_size st - 32\<rparr>) s"
proof -
  have "page_rest ps pm st" using assms(2) by (simp add: radix_def)
  note f = page_fresh [OF assms(1) this assms(3,4)]
  have "s \<notin> set (nodes t @ fl)" using f(1) assms(2) by (auto simp: radix_def)
  with f radix_memory [OF assms(2)] show ?thesis by (simp add: same_nodes_def)
qed

lemma radix_alloc:
  assumes "pages_ok ps pm" "radix ps pm st t fl" "ngx_radix_alloc ps pm st = (res, st')"
  shows "same_nodes st' st \<and> (\<exists>fl'. radix ps pm st' t fl' \<and> (\<forall>x. res = Some x \<longrightarrow> x \<notin> set (nodes t @ fl') \<and> taken ps pm st' x))"
proof (cases "rt_free st")
  case (Some p)
  with assms(2) obtain fl' where fl: "fl = p # fl'" "flist st (rn_right st p) fl'" by (cases fl) (auto simp: radix_def)
  let ?s = "st\<lparr>rt_free := rn_right st p\<rparr>"
  have st': "res = Some p" "st' = ?s" using assms(3) Some by (auto simp: ngx_radix_alloc_def)
  have m: "same_memory ?s st" by (simp add: same_memory_def)
  have h: "trie_at ?s None t" by (rule holds_cong [of st]) (use assms(2) in \<open>simp_all add: radix_def\<close>)
  have "flist ?s (rn_right st p) fl'" using fl(2) by (rule flist_cong) simp
  then have "radix ps pm ?s t fl'" using assms(2) fl h same_memory [OF m] by (auto simp: radix_def)
  moreover have "p \<notin> set (nodes t @ fl')" "taken ps pm ?s p" using assms(2) fl same_memory [OF m] by (auto simp: radix_def)
  ultimately show ?thesis using st' by (auto simp: same_nodes_def)
next
  case None
  show ?thesis
  proof (cases "rt_size st < 32")
    case small: True
    show ?thesis
    proof (cases "pm (rt_pages st)")
      case no: None
      let ?s = "st\<lparr>rt_start := None, rt_pages := rt_pages st + 1\<rparr>"
      have "res = None" "st' = ?s" using assms(3) None small no by (auto simp: ngx_radix_alloc_def)
      moreover have "radix ps pm ?s t fl"
        using assms(2) by (rule radix_memory) (use small in \<open>auto simp: same_nodes_def page_rest_def intro: taken_next_page [of _ _ st]\<close>)
      ultimately show ?thesis by (auto simp: same_nodes_def)
    next
      case (Some a)
      let ?s = "st\<lparr>rt_start := Some a, rt_size := ps, rt_pages := rt_pages st + 1\<rparr>"
      have st': "res = Some a" "st' = ?s\<lparr>rt_start := Some (a + 32), rt_size := rt_size ?s - 32\<rparr>"
        using assms(3) None small Some by (auto simp: ngx_radix_alloc_def)
      have "radix ps pm ?s t fl"
        using assms(2) by (rule radix_memory) (use small Some in \<open>auto simp: same_nodes_def page_rest_def intro: taken_next_page [of _ _ st]\<close>)
      from radix_from_page [OF assms(1) this, of a] assms(1) st' show ?thesis by (auto simp: same_nodes_def pages_ok_def)
    qed
  next
    case False
    then obtain s where s: "rt_start st = Some s" using assms(2) by (auto simp: radix_def page_rest_def)
    then have st': "res = Some s" "st' = st\<lparr>rt_start := Some (s + 32), rt_size := rt_size st - 32\<rparr>"
      using assms(3) None False by (auto simp: ngx_radix_alloc_def)
    from radix_from_page [OF assms(1,2) _ s] False st' show ?thesis by (auto simp: same_nodes_def)
  qed
qed

section \<open>One node more, one node less\<close>

lemmas field_defs = rn_set_right_def rn_set_left_def rn_set_parent_def rn_set_value_def set_branch_def new_node_def branch_def

lemma radix_holds: "radix ps pm st t fl \<Longrightarrow> trie_at st None t" "radix ps pm st t fl \<Longrightarrow> distinct (nodes t)"
  by (simp_all add: radix_def)

lemma sub_in_nodes: "ptr (sub bs t) = Some a \<Longrightarrow> a \<in> set (nodes t)"
  using sub_nodes [of bs t] by (cases "sub bs t") auto

lemma vmap_cong:
  assumes "\<And>bs. bs \<noteq> d \<Longrightarrow> ptr (sub bs t') = ptr (sub bs t)" "\<And>a. a \<in> set (nodes t) \<Longrightarrow> ptr (sub d t) \<noteq> Some a \<Longrightarrow> rn_value st' a = rn_value st a"
    and "distinct (nodes t)" "bs \<noteq> d"
  shows "vmap st' t' bs = vmap st t bs"
proof (cases "ptr (sub bs t)")
  case None
  then show ?thesis using assms(1) [OF assms(4)] by (simp add: vmap_def)
next
  case (Some a)
  have "ptr (sub d t) \<noteq> Some a" using sub_inject [OF assms(3) Some, of d] assms(4) by blast
  then show ?thesis using assms(1) [OF assms(4)] assms(2) [OF sub_in_nodes [OF Some]] Some by (simp add: vmap_def)
qed

lemma radix_attach:
  assumes r: "radix ps pm st t fl" and n: "sub cs t = Br l a r" "sub (cs @ [b]) t = Tip"
    and x: "x \<notin> set (nodes t @ fl)" "taken ps pm st x"
  defines "st' \<equiv> set_branch b a (Some x) (new_node x a st)" and "t' \<equiv> graft (cs @ [b]) (Br Tip x Tip) t"
  shows "radix ps pm st' t' fl" "vmap st' t' = vmap st t" "sub (cs @ [b]) t' = Br Tip x Tip"
proof -
  have a: "a \<in> set (nodes t)" "a \<noteq> x" using sub_in_nodes [of cs t a] n x by auto
  have s: "small (Br Tip x Tip)" "small (sub (cs @ [b]) t)" using n by (auto simp: small_def)
  have f: "rn_parent st' y = rn_parent st y \<and> rn_left st' y = rn_left st y \<and> rn_right st' y = rn_right st y \<and> rn_value st' y = rn_value st y"
    if "y \<noteq> a" "y \<noteq> x" for y
    using that by (simp add: st'_def field_defs)
  have "trie_at st' None t'"
    unfolding t'_def
  proof (rule holds_put [OF radix_holds [OF r] n(1) s(2)])
    show "branch b a st' = ptr (Br Tip x Tip)" "branch (\<not> b) a st' = branch (\<not> b) a st" "rn_parent st' a = rn_parent st a"
      "trie_at st' (Some a) (Br Tip x Tip)"
      using a by (simp_all add: st'_def field_defs)
  qed (use f x in auto)
  moreover have "ptr t' = ptr t" unfolding t'_def using n(1) by (rule ptr_put)
  moreover have "mset (nodes t') = mset (nodes t) + {#x#}" using nodes_put [OF n(1), of b "Br Tip x Tip"] n(2) by (simp add: t'_def)
  then have "set (nodes t') = insert x (set (nodes t))" "distinct (nodes t') \<longleftrightarrow> distinct (nodes t) \<and> x \<notin> set (nodes t)"
    by (metis add_mset_add_single set_mset_add_mset_insert set_mset_mset)
      (metis \<open>mset (nodes t') = mset (nodes t) + {#x#}\<close> add_mset_add_single distinct.simps(2) mset.simps(2) mset_eq_imp_distinct_iff)
  moreover have "flist st' (rt_free st') fl"
  proof (rule flist_cong [of st])
    show "flist st (rt_free st') fl" using r by (simp add: radix_def st'_def field_defs)
    fix y
    assume "y \<in> set fl"
    then have "y \<noteq> x" "y \<noteq> a" using x a r by (auto simp: radix_def)
    then show "rn_right st' y = rn_right st y" using f by simp
  qed
  moreover have m: "same_memory st' st" by (simp add: same_memory_def st'_def field_defs)
  moreover have "rt_root st' = rt_root st" by (simp add: st'_def field_defs)
  ultimately show "radix ps pm st' t' fl" using r x same_memory [OF m] by (auto simp: radix_def)
  show t': "sub (cs @ [b]) t' = Br Tip x Tip" unfolding t'_def using n(1) by (rule sub_put)
  show "vmap st' t' = vmap st t"
  proof
    fix bs
    show "vmap st' t' bs = vmap st t bs"
    proof (cases "bs = cs @ [b]")
      case True
      then show ?thesis using t' n(2) a by (simp add: vmap_def st'_def field_defs)
    next
      case False
      show ?thesis
      proof (rule vmap_cong [OF _ _ radix_holds(2) [OF r] False])
        show "ptr (sub ds t') = ptr (sub ds t)" if "ds \<noteq> cs @ [b]" for ds
          unfolding t'_def using n(1) s(2,1) that by (rule ptr_sub_put)
        show "rn_value st' y = rn_value st y" if "y \<in> set (nodes t)" for y
          using that x a f by (cases "y = a") (auto simp: st'_def field_defs)
      qed
    qed
  qed
qed

lemma sub_put_above: "sub cs t = Br l a r \<Longrightarrow> sub cs (graft (cs @ [b]) s t) = (if b then Br l a s else Br s a r)"
  by (induction cs t rule: sub.induct) auto

lemma radix_detach:
  assumes r: "radix ps pm st t fl" and n: "sub cs t = Br l a r" "sub (cs @ [b]) t = Br Tip x Tip"
  defines "st' \<equiv> (rn_set_right x (rt_free st) (if rn_right st a = Some x then rn_set_right a None st else rn_set_left a None st))\<lparr>rt_free := Some x\<rparr>"
    and "t' \<equiv> graft (cs @ [b]) Tip t"
  shows "radix ps pm st' t' (x # fl)" "vmap st' t' = (vmap st t)(cs @ [b] := None)" "rn_value st' = rn_value st" "rn_parent st' = rn_parent st"
proof -
  have xa: "x \<noteq> a" using sub_inject [OF radix_holds(2) [OF r], of cs a "cs @ [b]"] n by auto
  have "branch b a st = Some x" using branch_sub [OF radix_holds(1) [OF r] n(1)] n(2) by simp
  moreover have "branch True a st \<noteq> Some x" if "\<not> b"
    using sub_inject [OF radix_holds(2) [OF r], of "cs @ [True]" x "cs @ [b]"] branch_sub [OF radix_holds(1) [OF r] n(1), of True] n(2) that
    by auto
  ultimately have dir: "(if rn_right st a = Some x then rn_set_right a None st else rn_set_left a None st) = set_branch b a None st"
    by (cases b) (auto simp: branch_def set_branch_def)
  have st': "st' = (rn_set_right x (rt_free st) (set_branch b a None st))\<lparr>rt_free := Some x\<rparr>" unfolding st'_def dir ..
  show v: "rn_value st' = rn_value st" and p: "rn_parent st' = rn_parent st" by (simp_all add: st' field_defs)
  have a: "a \<in> set (nodes t)" "x \<in> set (nodes t)" using sub_in_nodes [of cs t a] sub_in_nodes [of "cs @ [b]" t x] n by auto
  have s: "small Tip" "small (sub (cs @ [b]) t)" using n by (auto simp: small_def)
  have f: "rn_left st' y = rn_left st y \<and> rn_right st' y = rn_right st y" if "y \<noteq> a" "y \<noteq> x" for y
    using that by (simp add: st' field_defs)
  have "trie_at st' None t'"
    unfolding t'_def
  proof (rule holds_put [OF radix_holds [OF r] n(1) s(2)])
    show "branch b a st' = ptr Tip" "branch (\<not> b) a st' = branch (\<not> b) a st"
      using xa by (simp_all add: st' field_defs)
  qed (use f n p in auto)
  moreover have "ptr t' = ptr t" unfolding t'_def using n(1) by (rule ptr_put)
  moreover have m: "mset (nodes t) = mset (nodes t') + {#x#}" using nodes_put [OF n(1), of b Tip] n(2) by (simp add: t'_def)
  then have "set (nodes t) = insert x (set (nodes t'))" "distinct (nodes t) \<longleftrightarrow> distinct (nodes t') \<and> x \<notin> set (nodes t')"
    by (metis add_mset_add_single set_mset_add_mset_insert set_mset_mset)
      (metis m add_mset_add_single distinct.simps(2) mset.simps(2) mset_eq_imp_distinct_iff)
  moreover have "flist st' (rt_free st') (x # fl)"
  proof -
    have "flist st' (rt_free st) fl"
    proof (rule flist_cong [of st])
      show "flist st (rt_free st) fl" using r by (simp add: radix_def)
      fix y
      assume "y \<in> set fl"
      then have "y \<noteq> x" "y \<noteq> a" using a r by (auto simp: radix_def)
      then show "rn_right st' y = rn_right st y" using f by simp
    qed
    then show ?thesis by (simp add: st' field_defs)
  qed
  moreover have m: "same_memory st' st" by (simp add: same_memory_def st' field_defs)
  moreover have "rt_root st' = rt_root st" by (simp add: st' field_defs)
  ultimately show "radix ps pm st' t' (x # fl)" using r same_memory [OF m] by (auto simp: radix_def)
  show "vmap st' t' = (vmap st t)(cs @ [b] := None)"
  proof
    fix bs
    have "vmap st' t' bs = vmap st t bs" if "bs \<noteq> cs @ [b]"
    proof (rule vmap_cong [OF _ _ radix_holds(2) [OF r] that])
      show "ptr (sub ds t') = ptr (sub ds t)" if "ds \<noteq> cs @ [b]" for ds
        unfolding t'_def using n(1) s(2,1) that by (rule ptr_sub_put)
    qed (simp add: v)
    moreover have "vmap st' t' (cs @ [b]) = None" using sub_put [OF n(1), of b Tip] by (simp add: t'_def vmap_def)
    ultimately show "vmap st' t' bs = ((vmap st t)(cs @ [b] := None)) bs" by simp
  qed
qed

lemma radix_set_value:
  assumes "radix ps pm st t fl" "ptr (sub bs t) = Some a"
  shows "radix ps pm (rn_set_value a v st) t fl"
    "vmap (rn_set_value a v st) t = (vmap st t)(bs := if v = NGX_RADIX_NO_VALUE then None else Some v)"
proof -
  have "trie_at (rn_set_value a v st) None t" by (rule holds_cong [OF radix_holds(1) [OF assms(1)]]) (simp add: rn_set_value_def)
  moreover have "flist (rn_set_value a v st) (rt_free st) fl"
    by (rule flist_cong [of st]) (use assms(1) in \<open>simp_all add: radix_def rn_set_value_def\<close>)
  moreover have m: "same_memory (rn_set_value a v st) st" by (simp add: same_memory_def rn_set_value_def)
  ultimately show "radix ps pm (rn_set_value a v st) t fl"
    using assms(1) same_memory [OF m] by (simp add: radix_def rn_set_value_def)
  show "vmap (rn_set_value a v st) t = (vmap st t)(bs := if v = NGX_RADIX_NO_VALUE then None else Some v)"
  proof
    fix cs
    have "vmap (rn_set_value a v st) t cs = vmap st t cs" if "cs \<noteq> bs"
      by (rule vmap_cong [OF _ _ radix_holds(2) [OF assms(1)] that]) (use assms(2) in \<open>auto simp: rn_set_value_def\<close>)
    then show "vmap (rn_set_value a v st) t cs = ((vmap st t)(bs := if v = NGX_RADIX_NO_VALUE then None else Some v)) cs"
      using assms(2) by (simp add: vmap_def rn_set_value_def)
  qed
qed

text \<open>The depth of a tree.\<close>

definition within :: "nat \<Rightarrow> trie \<Rightarrow> bool" where
  "within n t \<longleftrightarrow> (\<forall>bs. ptr (sub bs t) \<noteq> None \<longrightarrow> length bs \<le> n)"

lemma within_put:
  assumes "within n t" "sub cs t = Br l a r" "small (sub (cs @ [b]) t)" "small s" "s \<noteq> Tip \<Longrightarrow> length cs < n"
  shows "within n (graft (cs @ [b]) s t)"
  unfolding within_def
proof (intro allI impI)
  fix bs
  assume h: "ptr (sub bs (graft (cs @ [b]) s t)) \<noteq> None"
  show "length bs \<le> n"
  proof (cases "bs = cs @ [b]")
    case True
    then show ?thesis using h sub_put [OF assms(2), of b s] assms(5) by (cases s) auto
  next
    case False
    then show ?thesis using h ptr_sub_put [OF assms(2-4) False] assms(1) by (simp add: within_def)
  qed
qed

section \<open>The operations on lists of bits\<close>

lemma radix_pruned:
  assumes "radix ps pm st t fl" "sub (cs @ [b]) t = Br Tip x Tip" "within n t"
  shows "\<exists>st' t' fl'. radix_prune x st = Some st' \<and> radix ps pm st' t' fl' \<and> vmap st' t' = (vmap st t)(cs @ [b] := None) \<and> within n t'"
  using assms
proof (induction cs arbitrary: st t fl b x rule: rev_induct)
  have step: "\<exists>st1 l a r. sub cs t = Br l a r \<and> radix ps pm st1 (graft (cs @ [b]) Tip t) (x # fl)
      \<and> vmap st1 (graft (cs @ [b]) Tip t) = (vmap st t)(cs @ [b] := None) \<and> within n (graft (cs @ [b]) Tip t)
      \<and> radix_prune x st = (if rn_right st1 a \<noteq> None \<or> rn_left st1 a \<noteq> None then Some st1
           else if rn_value st1 a \<noteq> NGX_RADIX_NO_VALUE then Some st1
           else if rn_parent st1 a = None then Some st1 else radix_prune a st1)"
    if r: "radix ps pm st t fl" and n: "sub (cs @ [b]) t = Br Tip x Tip" and w: "within n t" for cs st t fl b x
  proof -
    obtain l a r' where a: "sub cs t = Br l a r'" using n by (cases "sub cs t") (auto simp: sub_append)
    note d = radix_detach [OF r a n]
    have par: "rn_parent st x = Some a" using parent_sub [OF radix_holds(1) [OF r] n] a by simp
    let ?s = "if rn_right st a = Some x then rn_set_right a None st else rn_set_left a None st"
    have fr: "rt_free ?s = rt_free st" by (simp add: rn_set_right_def rn_set_left_def)
    have "rn_parent ((rn_set_right x (rt_free st) ?s)\<lparr>rt_free := Some x\<rparr>) x = Some a" unfolding d(4) by (rule par)
    then have "radix_prune x st = (let st1 = (rn_set_right x (rt_free st) ?s)\<lparr>rt_free := Some x\<rparr>
        in if rn_right st1 a \<noteq> None \<or> rn_left st1 a \<noteq> None then Some st1
           else if rn_value st1 a \<noteq> NGX_RADIX_NO_VALUE then Some st1
           else if rn_parent st1 a = None then Some st1 else radix_prune a st1)"
      by (subst radix_prune.simps) (simp only: par option.case Let_def fr)
    moreover have "within n (graft (cs @ [b]) Tip t)" using w a by (rule within_put) (use n in \<open>auto simp: small_def\<close>)
    ultimately show ?thesis using a d(1,2) unfolding Let_def by blast
  qed
  {
    case Nil
    from step [of _ _ _ "[]", OF Nil] obtain st1 l a r where s: "sub [] t = Br l a r" "radix ps pm st1 (graft [b] Tip t) (x # fl)"
      "vmap st1 (graft [b] Tip t) = (vmap st t)([b] := None)" "within n (graft [b] Tip t)"
      "radix_prune x st = (if rn_right st1 a \<noteq> None \<or> rn_left st1 a \<noteq> None then Some st1
           else if rn_value st1 a \<noteq> NGX_RADIX_NO_VALUE then Some st1
           else if rn_parent st1 a = None then Some st1 else radix_prune a st1)" by auto
    have "sub [] (graft ([] @ [b]) Tip t) = (if b then Br l a Tip else Br Tip a r)" using s(1) by (rule sub_put_above)
    then have "rn_parent st1 a = None" using parent_sub [OF radix_holds(1) [OF s(2)], of "[]"] by (cases b) auto
    then have "radix_prune x st = Some st1" using s(5) by simp
    then show ?case using s(2-4) unfolding append_Nil by blast
  next
    case (snoc c cs)
    from step [OF snoc.prems] obtain st1 l a r where s: "sub (cs @ [c]) t = Br l a r" "radix ps pm st1 (graft ((cs @ [c]) @ [b]) Tip t) (x # fl)"
      "vmap st1 (graft ((cs @ [c]) @ [b]) Tip t) = (vmap st t)((cs @ [c]) @ [b] := None)" "within n (graft ((cs @ [c]) @ [b]) Tip t)"
      "radix_prune x st = (if rn_right st1 a \<noteq> None \<or> rn_left st1 a \<noteq> None then Some st1
           else if rn_value st1 a \<noteq> NGX_RADIX_NO_VALUE then Some st1
           else if rn_parent st1 a = None then Some st1 else radix_prune a st1)" by blast
    let ?t = "graft ((cs @ [c]) @ [b]) Tip t"
    obtain l' r' where a: "sub (cs @ [c]) ?t = Br l' a r'" using sub_put_above [OF s(1), of b Tip] by (cases b) auto
    show ?case
    proof (cases "rn_right st1 a = None \<and> rn_left st1 a = None \<and> rn_value st1 a = NGX_RADIX_NO_VALUE \<and> rn_parent st1 a \<noteq> None")
      case False
      then have "radix_prune x st = Some st1" using s(5) by auto
      with s show ?thesis by blast
    next
      case True
      have leaf: "ptr (if d then r' else l') = None" for d
      proof -
        have "sub ((cs @ [c]) @ [d]) ?t = (if d then r' else l')" unfolding sub_append [of "cs @ [c]" "[d]"] a by simp
        then show ?thesis using branch_sub [OF radix_holds(1) [OF s(2)] a, of d] True by (cases d) (simp_all add: branch_def)
      qed
      have "l' = Tip" using leaf [of False] by (cases l') auto
      moreover have "r' = Tip" using leaf [of True] by (cases r') auto
      ultimately have "sub (cs @ [c]) ?t = Br Tip a Tip" using a by simp
      from snoc.IH [OF s(2) this s(4)] obtain st' t' fl' where
        st': "radix_prune a st1 = Some st'" "radix ps pm st' t' fl'" "vmap st' t' = (vmap st1 ?t)(cs @ [c] := None)" "within n t'"
        by blast
      have "vmap st1 ?t (cs @ [c]) = None" using a True by (simp add: vmap_def)
      then have "vmap st' t' = vmap st1 ?t" using st'(3) by auto
      moreover have "radix_prune x st = Some st'" using s(5) True st'(1) by simp
      ultimately show ?thesis using st'(2,4) s(3) by metis
    qed
  }
qed

text \<open>The loops of the insertion and of the search for a node, over a list of bits.\<close>

fun g_walk :: "ngx_radix_tree_t \<Rightarrow> bool list \<Rightarrow> nat \<Rightarrow> nat \<times> bool \<times> bool list" where
  "g_walk st [] node = (node, True, [])"
| "g_walk st (b # bs) node = (case branch b node st of None \<Rightarrow> (node, False, b # bs) | Some nxt \<Rightarrow> g_walk st bs nxt)"

fun g_extend :: "nat \<Rightarrow> (nat \<Rightarrow> nat option) \<Rightarrow> bool list \<Rightarrow> nat \<Rightarrow> ngx_radix_tree_t \<Rightarrow> nat option \<times> ngx_radix_tree_t" where
  "g_extend ps pm [] node st = (Some node, st)"
| "g_extend ps pm (b # bs) node st =
     (case ngx_radix_alloc ps pm st of
        (None, st) \<Rightarrow> (None, st)
      | (Some nxt, st) \<Rightarrow> g_extend ps pm bs nxt (set_branch b node (Some nxt) (new_node nxt node st)))"

definition g_insert :: "nat \<Rightarrow> (nat \<Rightarrow> nat option) \<Rightarrow> ngx_radix_tree_t \<Rightarrow> bool list \<Rightarrow> 64 word \<Rightarrow> radix_rc \<times> ngx_radix_tree_t" where
  "g_insert ps pm st bs v =
     (case g_walk st bs (rt_root st) of (node, found, rest) \<Rightarrow>
        if found then if rn_value st node \<noteq> NGX_RADIX_NO_VALUE then (Radix_busy, st) else (Radix_ok, rn_set_value node v st)
        else case g_extend ps pm rest node st of
          (None, st) \<Rightarrow> (Radix_error, st)
        | (Some node, st) \<Rightarrow> (Radix_ok, rn_set_value node v st))"

fun g_seek :: "ngx_radix_tree_t \<Rightarrow> bool list \<Rightarrow> nat option \<Rightarrow> nat option" where
  "g_seek st bs None = None"
| "g_seek st [] (Some a) = Some a"
| "g_seek st (b # bs) (Some a) = g_seek st bs (branch b a st)"

lemma g_seek: "trie_at st p t \<Longrightarrow> g_seek st bs (ptr t) = ptr (sub bs t)"
proof (induction bs t arbitrary: p rule: sub.induct)
  case (1 t)
  then show ?case by (cases t) auto
qed (auto simp: branch_def)

lemma g_walk:
  assumes "trie_at st p t" "sub cs t = Br l a r" "g_walk st bs a = (node, found, rest)"
  shows "\<exists>ds. bs = ds @ rest \<and> ptr (sub (cs @ ds) t) = Some node \<and>
    (found \<longrightarrow> rest = []) \<and> (\<not> found \<longrightarrow> (\<exists>b rest'. rest = b # rest' \<and> sub (cs @ ds @ [b]) t = Tip))"
  using assms(2,3)
proof (induction bs arbitrary: cs l a r)
  case Nil
  then show ?case by auto
next
  case (Cons b bs)
  have br: "branch b a st = ptr (sub (cs @ [b]) t)" by (rule branch_sub [OF assms(1) Cons.prems(1)])
  show ?case
  proof (cases "sub (cs @ [b]) t")
    case Tip
    then show ?thesis using Cons.prems br by auto
  next
    case (Br l' a' r')
    then have "g_walk st bs a' = (node, found, rest)" using Cons.prems(2) br by simp
    from Cons.IH [OF Br this] obtain ds where "bs = ds @ rest" "ptr (sub ((cs @ [b]) @ ds) t) = Some node"
      "(found \<longrightarrow> rest = []) \<and> (\<not> found \<longrightarrow> (\<exists>c rest'. rest = c # rest' \<and> sub ((cs @ [b]) @ ds @ [c]) t = Tip))" by blast
    then show ?thesis by (intro exI [of _ "b # ds"]) simp
  qed
qed

lemma g_extend:
  assumes "pages_ok ps pm" "radix ps pm st t fl" "ptr (sub cs t) = Some node" "within n t" "length (cs @ bs) \<le> n"
    and "\<And>b bs'. bs = b # bs' \<Longrightarrow> sub (cs @ [b]) t = Tip" "g_extend ps pm bs node st = (res, st')"
  shows "\<exists>t' fl'. radix ps pm st' t' fl' \<and> vmap st' t' = vmap st t \<and> within n t' \<and> (\<forall>x. res = Some x \<longrightarrow> ptr (sub (cs @ bs) t') = Some x)"
  using assms(2-7)
proof (induction bs arbitrary: cs node st t fl)
  case Nil
  then show ?case by auto
next
  case (Cons b bs)
  obtain l r where n: "sub cs t = Br l node r" using Cons.prems(2) by (cases "sub cs t") auto
  have tip: "sub (cs @ [b]) t = Tip" using Cons.prems(5) by blast
  obtain res1 st1 where al: "ngx_radix_alloc ps pm st = (res1, st1)" by fastforce
  from radix_alloc [OF assms(1) Cons.prems(1) al] obtain fl1 where same: "same_nodes st1 st" and r1: "radix ps pm st1 t fl1"
    and fresh: "\<And>x. res1 = Some x \<Longrightarrow> x \<notin> set (nodes t @ fl1) \<and> taken ps pm st1 x" by blast
  have v1: "vmap st1 t = vmap st t" using same by (intro ext) (simp add: same_nodes_def vmap_def split: option.split)
  show ?case
  proof (cases res1)
    case None
    then have "res = None" "st' = st1" using Cons.prems(6) al by auto
    with r1 v1 Cons.prems(3) show ?thesis by blast
  next
    case (Some x)
    let ?st = "set_branch b node (Some x) (new_node x node st1)" and ?t = "graft (cs @ [b]) (Br Tip x Tip) t"
    from fresh [OF Some] have x: "x \<notin> set (nodes t @ fl1)" "taken ps pm st1 x" by auto
    note at = radix_attach [OF r1 n tip x]
    have w: "within n ?t" using Cons.prems(3) n by (rule within_put) (use tip Cons.prems(4) in \<open>auto simp: small_def\<close>)
    have tips: "sub ((cs @ [b]) @ [c]) ?t = Tip" for c using at(3) by (simp add: sub_append [of "cs @ [b]" "[c]"] del: append_assoc)
    have go: "g_extend ps pm bs x ?st = (res, st')" using Cons.prems(6) al Some by simp
    have "ptr (sub (cs @ [b]) ?t) = Some x" using at(3) by simp
    from Cons.IH [OF at(1) this w _ tips go] Cons.prems(4) obtain t' fl' where
      "radix ps pm st' t' fl'" "vmap st' t' = vmap ?st ?t" "within n t'" "\<forall>y. res = Some y \<longrightarrow> ptr (sub ((cs @ [b]) @ bs) t') = Some y"
      by auto
    with at(2) v1 show ?thesis by (intro exI [of _ t'] exI [of _ fl']) simp
  qed
qed

text \<open>Insertion as an operation on the map; a value of \<^verbatim>\<open>NGX_RADIX_NO_VALUE\<close> makes the nodes only.\<close>

definition as_value :: "64 word \<Rightarrow> 64 word option" where
  "as_value v = (if v = NGX_RADIX_NO_VALUE then None else Some v)"

lemma g_insert:
  assumes "pages_ok ps pm" "radix ps pm st t fl" "within n t" "length bs \<le> n" "g_insert ps pm st bs v = (rc, st')"
  shows "\<exists>t' fl'. radix ps pm st' t' fl' \<and> within n t' \<and> (rc = Radix_busy \<longleftrightarrow> vmap st t bs \<noteq> None)
    \<and> vmap st' t' = (if rc = Radix_ok then (vmap st t)(bs := as_value v) else vmap st t)"
proof -
  obtain l r where root: "sub [] t = Br l (rt_root st) r" using assms(2) by (cases t) (auto simp: radix_def)
  obtain node found rest where w: "g_walk st bs (rt_root st) = (node, found, rest)" by (cases "g_walk st bs (rt_root st)") auto
  from g_walk [OF radix_holds(1) [OF assms(2)] root w] obtain ds where ds: "bs = ds @ rest" "ptr (sub ds t) = Some node"
    and stop: "found \<Longrightarrow> rest = []" "\<not> found \<Longrightarrow> \<exists>b rest'. rest = b # rest' \<and> sub (ds @ [b]) t = Tip" by auto
  show ?thesis
  proof (cases found)
    case True
    then have at: "ptr (sub bs t) = Some node" using ds stop by simp
    then have val: "vmap st t bs = as_value (rn_value st node)" by (simp add: vmap_def as_value_def)
    show ?thesis
    proof (cases "rn_value st node = NGX_RADIX_NO_VALUE")
      case empty: True
      then have "rc = Radix_ok" "st' = rn_set_value node v st" using assms(5) w True by (auto simp: g_insert_def)
      with radix_set_value [OF assms(2) at, of v] assms(3) val empty show ?thesis by (auto simp: as_value_def)
    next
      case False
      then have "rc = Radix_busy" "st' = st" using assms(5) w True by (auto simp: g_insert_def)
      with assms(2,3) val False show ?thesis by (auto simp: as_value_def)
    qed
  next
    case False
    then obtain b rest' where rest: "rest = b # rest'" "sub (ds @ [b]) t = Tip" using stop by auto
    have "sub bs t = sub rest' (sub (ds @ [b]) t)" using sub_append [of "ds @ [b]" rest' t] ds(1) rest(1) by simp
    then have none: "vmap st t bs = None" using rest(2) by (simp add: vmap_def)
    obtain res st1 where ex: "g_extend ps pm rest node st = (res, st1)" by fastforce
    from g_extend [OF assms(1,2) ds(2) assms(3) _ _ ex] ds(1) assms(4) rest obtain t' fl' where
      r: "radix ps pm st1 t' fl'" "vmap st1 t' = vmap st t" "within n t'" "\<And>x. res = Some x \<Longrightarrow> ptr (sub bs t') = Some x" by auto
    show ?thesis
    proof (cases res)
      case None
      then have "rc = Radix_error" "st' = st1" using assms(5) w False ex by (auto simp: g_insert_def)
      with r none show ?thesis by auto
    next
      case (Some x)
      then have "rc = Radix_ok" "st' = rn_set_value x v st1" using assms(5) w False ex by (auto simp: g_insert_def)
      with radix_set_value [OF r(1) r(4) [OF Some], of v] r(2,3) none show ?thesis by (auto simp: as_value_def)
    qed
  qed
qed

text \<open>Deletion. Only for the empty way in a tree of one node there is no result: the loop follows the parent of the root.\<close>

lemma leaf_iff:
  assumes "trie_at st p t" "sub bs t = Br l a r"
  shows "rn_right st a = None \<and> rn_left st a = None \<longleftrightarrow> l = Tip \<and> r = Tip"
proof -
  have "branch True a st = ptr r" "branch False a st = ptr l"
    using branch_sub [OF assms, of True] branch_sub [OF assms, of False] assms(2) by (simp_all add: sub_append)
  then show ?thesis by (cases l; cases r) (auto simp: branch_def)
qed

lemma g_remove:
  assumes "radix ps pm st t fl" "within n t"
  shows "(radix_remove (g_seek st bs (Some (rt_root st))) st = None \<longleftrightarrow>
      bs = [] \<and> rn_left st (rt_root st) = None \<and> rn_right st (rt_root st) = None)
    \<and> (\<forall>rc st'. radix_remove (g_seek st bs (Some (rt_root st))) st = Some (rc, st') \<longrightarrow>
        (\<exists>t' fl'. radix ps pm st' t' fl' \<and> within n t' \<and> vmap st' t' = (vmap st t)(bs := None)
          \<and> rc \<in> {Radix_ok, Radix_error} \<and> (vmap st t bs \<noteq> None \<longrightarrow> rc = Radix_ok)))"
proof -
  have root: "Some (rt_root st) = ptr t" using assms(1) by (simp add: radix_def)
  note h = radix_holds(1) [OF assms(1)]
  have seek: "g_seek st bs (Some (rt_root st)) = ptr (sub bs t)" unfolding root using h by (rule g_seek)
  show ?thesis
  proof (cases "sub bs t")
    case Tip
    then have none: "vmap st t bs = None" by (simp add: vmap_def)
    then have "(vmap st t)(bs := None) = vmap st t" by auto
    moreover have "bs \<noteq> []" using Tip root by auto
    moreover have "radix_remove (g_seek st bs (Some (rt_root st))) st = Some (Radix_error, st)"
      using Tip seek by (simp add: radix_remove_def)
    ultimately show ?thesis using none assms by (simp only: option.inject prod.inject) blast
  next
    case (Br l a r)
    then have at: "ptr (sub bs t) = Some a" by simp
    note leaf = leaf_iff [OF h Br]
    show ?thesis
    proof (cases "l = Tip \<and> r = Tip")
      case False
      then have inner: "rn_right st a \<noteq> None \<or> rn_left st a \<noteq> None" using leaf by argo
      have ra: "a = rt_root st" if "bs = []" using that Br root by simp
      show ?thesis
      proof (cases "rn_value st a = NGX_RADIX_NO_VALUE")
        case True
        then have "vmap st t bs = None" using at by (simp add: vmap_def)
        then have "(vmap st t)(bs := None) = vmap st t" by auto
        moreover have "radix_remove (Some a) st = Some (Radix_error, st)" using inner True by (simp add: radix_remove_def)
        ultimately show ?thesis using seek at assms inner ra \<open>vmap st t bs = None\<close> by auto
      next
        case val: False
        then have "radix_remove (Some a) st = Some (Radix_ok, rn_set_value a NGX_RADIX_NO_VALUE st)" using inner by (simp add: radix_remove_def)
        with radix_set_value [OF assms(1) at, of NGX_RADIX_NO_VALUE] show ?thesis using seek at assms(2) inner ra by auto
      qed
    next
      case True
      then have no: "rn_right st a = None" "rn_left st a = None" using leaf by auto
      show ?thesis
      proof (cases bs rule: rev_cases)
        case Nil
        then have a: "a = rt_root st" "rn_parent st a = None" using Br root h by auto
        then have "radix_prune a st = None" by (simp add: radix_prune.simps)
        then have "radix_remove (Some a) st = None" using no by (simp add: radix_remove_def)
        then have "radix_remove (g_seek st bs (Some (rt_root st))) st = None" unfolding seek at .
        then show ?thesis using Nil a(1) no by simp
      next
        case (snoc cs b)
        then have "sub (cs @ [b]) t = Br Tip a Tip" using Br True by simp
        from radix_pruned [OF assms(1) this assms(2)] obtain st' t' fl' where
          "radix_prune a st = Some st'" "radix ps pm st' t' fl'" "vmap st' t' = (vmap st t)(bs := None)" "within n t'"
          unfolding snoc by blast
        moreover have "radix_remove (Some a) st = map_option (Pair Radix_ok) (radix_prune a st)" using no by (simp add: radix_remove_def)
        ultimately show ?thesis using seek at snoc by auto
      qed
    qed
  qed
qed

section \<open>Lookup\<close>

text \<open>The value of the longest prefix that has one.\<close>

definition lpm :: "(bool list \<Rightarrow> 64 word option) \<Rightarrow> bool list \<Rightarrow> 64 word" where
  "lpm m bs =
     (case filter (\<lambda>k. m (take k bs) \<noteq> None) (rev [0..<length bs + 1]) of
        [] \<Rightarrow> NGX_RADIX_NO_VALUE
      | k # _ \<Rightarrow> the (m (take k bs)))"

text \<open>The loop of the lookup, over a list of bits; \<open>over\<close> tells what happens at a node beyond the last bit.\<close>

fun g_find :: "bool \<Rightarrow> ngx_radix_tree_t \<Rightarrow> bool list \<Rightarrow> 64 word \<Rightarrow> nat option \<Rightarrow> 64 word option" where
  "g_find over st bs v None = Some v"
| "g_find over st [] v (Some a) = (if over then Some (if rn_value st a \<noteq> NGX_RADIX_NO_VALUE then rn_value st a else v) else None)"
| "g_find over st (b # bs) v (Some a) =
     g_find over st bs (if rn_value st a \<noteq> NGX_RADIX_NO_VALUE then rn_value st a else v) (branch b a st)"

text \<open>The same match, from the shortest prefix on.\<close>

fun best :: "(bool list \<Rightarrow> 64 word option) \<Rightarrow> 64 word \<Rightarrow> bool list \<Rightarrow> bool list \<Rightarrow> 64 word" where
  "best m v cs [] = (case m cs of None \<Rightarrow> v | Some w \<Rightarrow> w)"
| "best m v cs (b # bs) = best m (case m cs of None \<Rightarrow> v | Some w \<Rightarrow> w) (cs @ [b]) bs"

lemma best_last:
  "best m v cs bs =
     (case filter (\<lambda>k. m (take k (cs @ bs)) \<noteq> None) (rev [length cs..<length (cs @ bs) + 1]) of
        [] \<Rightarrow> v | k # _ \<Rightarrow> the (m (take k (cs @ bs))))"
proof (induction m v cs bs rule: best.induct)
  case (1 m v cs)
  then show ?case by (auto split: option.split)
next
  case (2 m v cs b bs)
  have up: "rev [length cs..<length (cs @ b # bs) + 1] = rev [length (cs @ [b])..<length ((cs @ [b]) @ bs) + 1] @ [length cs]"
    by (simp add: upt_conv_Cons [of "length cs"] del: upt_Suc)
  show ?case
    unfolding best.simps 2 up
    by (auto split: option.split list.split simp: Cons_eq_append_conv append_eq_Cons_conv)
qed

lemma best_lpm: "best m NGX_RADIX_NO_VALUE [] bs = lpm m bs"
  unfolding best_last lpm_def append_Nil list.size ..

lemma g_find:
  assumes "trie_at st p t"
  shows "g_find over st bs v (ptr (sub cs t)) =
    (if over \<or> sub (cs @ bs) t = Tip then Some (best (vmap st t) v cs bs) else None)"
proof (induction bs arbitrary: cs v)
  case Nil
  then show ?case by (cases "sub cs t") (auto simp: vmap_def)
next
  case (Cons b bs)
  show ?case
  proof (cases "sub cs t")
    case Tip
    have none: "vmap st t (cs @ ds) = None" for ds using Tip by (simp add: vmap_def sub_append)
    have "best (vmap st t) v (cs @ ds) es = v" for ds es
    proof (induction es arbitrary: ds)
      case (Cons e es)
      then show ?case using none Cons [of "ds @ [e]"] by simp
    qed (use none in simp)
    from this [of "[]" "b # bs"] show ?thesis using Tip by (simp add: sub_append)
  next
    case (Br l a r)
    have "vmap st t cs = (if rn_value st a = NGX_RADIX_NO_VALUE then None else Some (rn_value st a))" using Br by (simp add: vmap_def)
    moreover have "branch b a st = ptr (sub (cs @ [b]) t)" using assms Br by (rule branch_sub)
    ultimately show ?thesis using Br Cons [of _ "cs @ [b]"] by simp
  qed
qed

end
