(* ===== verification/Ngx_Radix_Keys.thy ===== *)
theory Ngx_Radix_Keys
  imports Ngx_Radix_Props
begin

text \<open>
  The radix trees for keys of 32 and of 128 bits: the loops over the bits of a key under a mask are the loops over lists
  of bits of \<open>Ngx_Radix_Props\<close>. The locale \<open>radix_keys\<close> states what both sizes share, and derives the contract
  of the trees as maps; its two interpretations give the properties at the end.
\<close>

unbundle bit_operations_syntax

section \<open>Bits of keys\<close>

definition bits32 :: "32 word \<Rightarrow> bool list" where
  "bits32 key = map (\<lambda>d. bit key (31 - d)) [0..<32]"

definition bits128 :: "u_char list \<Rightarrow> bool list" where
  "bits128 key = map (\<lambda>d. bit (key ! (d div 8)) (7 - d mod 8)) [0..<128]"

text \<open>The bits of a key up to the first one that is not in the mask.\<close>

definition masked :: "bool list \<Rightarrow> bool list \<Rightarrow> bool list" where
  "masked ks ms = map fst (takeWhile snd (zip ks ms))"

lemma masked_Nil [simp]: "masked [] ms = []"
  by (simp add: masked_def)

lemma masked_length: "length (masked ks ms) \<le> length ks"
  unfolding masked_def by (rule order.trans [OF _ length_takeWhile_le [of snd "zip ks ms", THEN order.trans]]) auto

lemma masked_drop:
  assumes "d < length ks" "length ms = length ks"
  shows "masked (drop d ks) (drop d ms) = (if ms ! d then ks ! d # masked (drop (Suc d) ks) (drop (Suc d) ms) else [])"
  using assms by (simp add: masked_def Cons_nth_drop_Suc [symmetric])

lemma bits_length [simp]: "length (bits32 key) = 32" "length (bits128 bs) = 128"
  by (simp_all add: bits32_def bits128_def)

text \<open>The moving bit of the code, after \<open>d\<close> steps.\<close>

definition top32 :: "nat \<Rightarrow> 32 word" where
  "top32 d = drop_bit d 0x80000000"

definition top8 :: "nat \<Rightarrow> u_char" where
  "top8 d = drop_bit d 0x80"

lemma top32_simps [simp]: "top32 0 = 0x80000000" "top32 32 = 0" "drop_bit (Suc 0) (top32 d) = top32 (Suc d)"
  by (simp add: top32_def, code_simp, simp add: top32_def drop_bit_drop_bit del: drop_bit_numeral_bit0)

lemma and_bit32:
  assumes "d < 32"
  shows "key AND top32 d \<noteq> 0 \<longleftrightarrow> bits32 key ! d"
proof -
  have "\<forall>d \<in> set [0..<32]. top32 d = push_bit (31 - d) 1" by code_simp
  then have "top32 d = push_bit (31 - d) 1" using assms by simp
  then show ?thesis using assms by (simp add: bits32_def bit_iff_and_push_bit_not_eq_0)
qed

lemma and_bit128:
  assumes "d < 128"
  shows "key ! (d div 8) AND top8 (d mod 8) \<noteq> 0 \<longleftrightarrow> bits128 key ! d"
proof -
  have "\<forall>j \<in> set [0..<8]. top8 j = push_bit (7 - j) 1" by code_simp
  then have "top8 (d mod 8) = push_bit (7 - d mod 8) 1" by simp
  then show ?thesis using assms by (simp add: bits128_def bit_iff_and_push_bit_not_eq_0)
qed

section \<open>Keys of 32 bits\<close>

definition way32 :: "32 word \<Rightarrow> 32 word \<Rightarrow> nat \<Rightarrow> bool list" where
  "way32 key msk d = masked (drop d (bits32 key)) (drop d (bits32 msk))"

lemma way32_32 [simp]: "way32 key msk 32 = []"
  by (simp add: way32_def)

lemma way32_step:
  "d < 32 \<Longrightarrow> way32 key msk d = (if top32 d AND msk \<noteq> 0 then (key AND top32 d \<noteq> 0) # way32 key msk (Suc d) else [])"
  by (simp add: way32_def masked_drop and_bit32 and.commute [of "top32 d"])

lemma r32_walk_way:
  assumes "d \<le> 32"
  shows "\<exists>d' \<le> 32. r32_walk st key msk (top32 d) node =
      (fst (g_walk st (way32 key msk d) node), fst (snd (g_walk st (way32 key msk d) node)), top32 d')
    \<and> snd (snd (g_walk st (way32 key msk d) node)) = way32 key msk d'"
  using assms
proof (induction "32 - d" arbitrary: d node)
  case 0
  then have "d = 32" by simp
  then show ?case by (intro exI [of _ 32]) (simp add: r32_walk.simps [of _ _ _ 0])
next
  case (Suc k)
  then have d: "d < 32" by simp
  show ?case
  proof (cases "top32 d AND msk \<noteq> 0")
    case False
    then show ?thesis using d by (intro exI [of _ d]) (simp add: r32_walk.simps [of _ _ _ "top32 d"] way32_step [OF d])
  next
    case True
    have w: "way32 key msk d = (key AND top32 d \<noteq> 0) # way32 key msk (Suc d)" using way32_step [OF d] True by simp
    show ?thesis
    proof (cases "branch (key AND top32 d \<noteq> 0) node st")
      case None
      then show ?thesis using d True w by (intro exI [of _ d]) (simp add: r32_walk.simps [of _ _ _ "top32 d"])
    next
      case (Some nxt)
      then have "r32_walk st key msk (top32 d) node = r32_walk st key msk (top32 (Suc d)) nxt"
        using True by (simp add: r32_walk.simps [of _ _ _ "top32 d"])
      moreover have "g_walk st (way32 key msk d) node = g_walk st (way32 key msk (Suc d)) nxt" using w Some by simp
      ultimately show ?thesis using Suc.hyps(1) [of "Suc d" nxt] Suc.hyps(2) d by simp
    qed
  qed
qed

lemma r32_extend_way:
  assumes "d \<le> 32"
  shows "r32_extend ps pm key msk (top32 d) node st = g_extend ps pm (way32 key msk d) node st"
  using assms
proof (induction "32 - d" arbitrary: d node st)
  case 0
  then have "d = 32" by simp
  then show ?case by (simp add: r32_extend.simps [of _ _ _ _ 0])
next
  case (Suc k)
  then have d: "d < 32" by simp
  have IH: "r32_extend ps pm key msk (top32 (Suc d)) x s = g_extend ps pm (way32 key msk (Suc d)) x s" for x s
    using Suc.hyps d by simp
  show ?case by (subst r32_extend.simps) (auto simp: way32_step [OF d] IH split: prod.split option.split)
qed

lemma r32_seek_way:
  assumes "d \<le> 32"
  shows "r32_seek st key msk (top32 d) node = g_seek st (way32 key msk d) node"
  using assms
proof (induction "32 - d" arbitrary: d node)
  case 0
  then have "d = 32" by simp
  then show ?case by (cases node) (simp_all add: r32_seek.simps [of _ _ _ 0])
next
  case (Suc k)
  then have d: "d < 32" by simp
  have IH: "r32_seek st key msk (top32 (Suc d)) x = g_seek st (way32 key msk (Suc d)) x" for x
    using Suc.hyps d by simp
  show ?case by (subst r32_seek.simps) (auto simp: way32_step [OF d] IH split: option.split)
qed

lemma r32_find_bits:
  assumes "trie_at st p t" "within 32 t" "length cs \<le> 32"
  shows "r32_find_loop st key (top32 (length cs)) v (ptr (sub cs t)) =
    g_find True st (drop (length cs) (bits32 key)) v (ptr (sub cs t))"
  using assms(3)
proof (induction "32 - length cs" arbitrary: cs v)
  case 0
  then have l: "length cs = 32" by simp
  show ?case
  proof (cases "sub cs t")
    case Tip
    then show ?thesis by (simp add: r32_find_loop.simps)
  next
    case (Br l a r)
    have "branch b a st = None" for b
      using branch_sub [OF assms(1) Br, of b] assms(2) \<open>length cs = 32\<close> unfolding within_def
      by (metis Suc_n_not_le_n length_append_singleton)
    then show ?thesis using Br \<open>length cs = 32\<close> by (simp add: r32_find_loop.simps)
  qed
next
  case (Suc k)
  then have d: "length cs < 32" by simp
  have bs: "drop (length cs) (bits32 key) = (key AND top32 (length cs) \<noteq> 0) # drop (Suc (length cs)) (bits32 key)"
    using d by (simp add: and_bit32 Cons_nth_drop_Suc)
  show ?case
  proof (cases "sub cs t")
    case Tip
    then show ?thesis by (simp add: r32_find_loop.simps)
  next
    case (Br l a r)
    have "r32_find_loop st key (top32 (Suc (length cs))) w (ptr (sub (cs @ [b]) t)) =
        g_find True st (drop (Suc (length cs)) (bits32 key)) w (ptr (sub (cs @ [b]) t))" for b w
      using Suc.hyps(1) [of "cs @ [b]" w] Suc.hyps(2) d by simp
    then show ?thesis using branch_sub [OF assms(1) Br] Br
      by (subst r32_find_loop.simps) (simp add: bs del: drop_Suc)
  qed
qed

lemma r32_operations:
  "ngx_radix32tree_insert ps pm st key msk v = g_insert ps pm st (masked (bits32 key) (bits32 msk)) v"
  "ngx_radix32tree_delete st key msk = radix_remove (g_seek st (masked (bits32 key) (bits32 msk)) (Some (rt_root st))) st"
proof -
  have way: "masked (bits32 key) (bits32 msk) = way32 key msk 0" by (simp add: way32_def)
  from r32_walk_way [of 0 st key msk "rt_root st"] obtain node found d where
    "d \<le> 32" "r32_walk st key msk 0x80000000 (rt_root st) = (node, found, top32 d)"
    "g_walk st (way32 key msk 0) (rt_root st) = (node, found, way32 key msk d)" by (auto simp: prod_eq_iff)
  then show "ngx_radix32tree_insert ps pm st key msk v = g_insert ps pm st (masked (bits32 key) (bits32 msk)) v"
    unfolding ngx_radix32tree_insert_def g_insert_def way by (simp add: r32_extend_way)
  show "ngx_radix32tree_delete st key msk = radix_remove (g_seek st (masked (bits32 key) (bits32 msk)) (Some (rt_root st))) st"
    unfolding ngx_radix32tree_delete_def way using r32_seek_way [of 0 st key msk] by simp
qed

lemma r32_find:
  assumes "radix ps pm st t fl" "within 32 t"
  shows "ngx_radix32tree_find st key = g_find True st (bits32 key) NGX_RADIX_NO_VALUE (Some (rt_root st))"
  using r32_find_bits [OF radix_holds(1) [OF assms(1)] assms(2), of "[]" key] assms(1)
  by (simp add: ngx_radix32tree_find_def radix_def)

section \<open>Keys of 128 bits\<close>

text \<open>The byte and the bit of step \<open>d\<close>, and those of the step after it.\<close>

lemma top8_next:
  assumes "d < 128"
  shows "drop_bit (Suc 0) (top8 (d mod 8)) = 0 \<longleftrightarrow> d mod 8 = 7"
    and "d mod 8 = 7 \<Longrightarrow> Suc d div 8 = Suc (d div 8) \<and> top8 (Suc d mod 8) = 0x80"
    and "d mod 8 \<noteq> 7 \<Longrightarrow> Suc d div 8 = d div 8 \<and> top8 (Suc d mod 8) = drop_bit (Suc 0) (top8 (d mod 8))"
    and "d mod 8 = 7 \<Longrightarrow> Suc (d div 8) = 16 \<longleftrightarrow> Suc d = 128" "d div 8 < 16"
proof -
  have "\<forall>j \<in> set [0..<8]. (drop_bit (Suc 0) (top8 j) = 0 \<longleftrightarrow> j = 7) \<and> drop_bit (Suc 0) (top8 j) = top8 (Suc j)" by code_simp
  then have j: "(drop_bit (Suc 0) (top8 j) = 0 \<longleftrightarrow> j = 7) \<and> drop_bit (Suc 0) (top8 j) = top8 (Suc j)" if "j < 8" for j
    using that by (auto dest!: bspec [of _ _ j])
  show "drop_bit (Suc 0) (top8 (d mod 8)) = 0 \<longleftrightarrow> d mod 8 = 7" by (rule j [THEN conjunct1]) simp
  show "d mod 8 = 7 \<Longrightarrow> Suc d div 8 = Suc (d div 8) \<and> top8 (Suc d mod 8) = 0x80"
    by (simp add: div_Suc mod_Suc top8_def)
  show "d mod 8 \<noteq> 7 \<Longrightarrow> Suc d div 8 = d div 8 \<and> top8 (Suc d mod 8) = drop_bit (Suc 0) (top8 (d mod 8))"
    using j [of "d mod 8"] by (simp add: div_Suc mod_Suc)
  show "d mod 8 = 7 \<Longrightarrow> Suc (d div 8) = 16 \<longleftrightarrow> Suc d = 128" "d div 8 < 16" using assms by presburger+
qed

definition way128 :: "u_char list \<Rightarrow> u_char list \<Rightarrow> nat \<Rightarrow> bool list" where
  "way128 key msk d = masked (drop d (bits128 key)) (drop d (bits128 msk))"

lemma way128_128 [simp]: "way128 key msk 128 = []"
  by (simp add: way128_def)

lemma way128_step:
  "d < 128 \<Longrightarrow> way128 key msk d =
     (if top8 (d mod 8) AND msk ! (d div 8) \<noteq> 0 then (key ! (d div 8) AND top8 (d mod 8) \<noteq> 0) # way128 key msk (Suc d) else [])"
  by (simp add: way128_def masked_drop and_bit128 and.commute [of "top8 (d mod 8)"])

text \<open>One step of each loop, with the next byte and bit named by the number of the step.\<close>

lemma r128_walk_step:
  assumes "d < 128"
  shows "r128_walk st key msk (d div 8) (top8 (d mod 8)) node =
     (if top8 (d mod 8) AND msk ! (d div 8) \<noteq> 0 then
        case branch (key ! (d div 8) AND top8 (d mod 8) \<noteq> 0) node st of
          None \<Rightarrow> Some (node, False, d div 8, top8 (d mod 8))
        | Some nxt \<Rightarrow> if Suc d = 128 then Some (nxt, True, 16, 0)
                      else r128_walk st key msk (Suc d div 8) (top8 (Suc d mod 8)) nxt
      else Some (node, True, d div 8, top8 (d mod 8)))"
  using top8_next [OF assms] by (subst r128_walk.simps) (cases "d mod 8 = 7"; auto split: option.split)

lemma r128_extend_step:
  assumes "d < 128"
  shows "r128_extend ps pm key msk (d div 8) (top8 (d mod 8)) node st =
     (if top8 (d mod 8) AND msk ! (d div 8) \<noteq> 0 then
        case ngx_radix_alloc ps pm st of
          (None, st) \<Rightarrow> Some (None, st)
        | (Some nxt, st) \<Rightarrow>
            let st = set_branch (key ! (d div 8) AND top8 (d mod 8) \<noteq> 0) node (Some nxt) (new_node nxt node st)
            in if Suc d = 128 then Some (Some nxt, st)
               else r128_extend ps pm key msk (Suc d div 8) (top8 (Suc d mod 8)) nxt st
      else Some (Some node, st))"
  using top8_next [OF assms] by (subst r128_extend.simps) (cases "d mod 8 = 7"; auto simp: Let_def split: prod.split option.split)

lemma r128_seek_step:
  assumes "d < 128"
  shows "r128_seek st key msk (d div 8) (top8 (d mod 8)) (Some a) =
     (if top8 (d mod 8) AND msk ! (d div 8) \<noteq> 0 then
        let nxt = branch (key ! (d div 8) AND top8 (d mod 8) \<noteq> 0) a st
        in if Suc d = 128 then Some nxt else r128_seek st key msk (Suc d div 8) (top8 (Suc d mod 8)) nxt
      else Some (Some a))"
  using top8_next [OF assms] by (subst r128_seek.simps) (cases "d mod 8 = 7"; auto simp: Let_def)

lemma r128_find_step:
  assumes "d < 128"
  shows "r128_find_loop st key (d div 8) (top8 (d mod 8)) v (Some a) =
     r128_find_loop st key (Suc d div 8) (top8 (Suc d mod 8))
       (if rn_value st a \<noteq> NGX_RADIX_NO_VALUE then rn_value st a else v)
       (branch (key ! (d div 8) AND top8 (d mod 8) \<noteq> 0) a st)"
  using top8_next [OF assms] by (subst r128_find_loop.simps) (cases "d mod 8 = 7"; auto simp: Let_def)

lemma r128_walk_way:
  assumes "d < 128"
  shows "\<exists>i bt. r128_walk st key msk (d div 8) (top8 (d mod 8)) node =
      Some (fst (g_walk st (way128 key msk d) node), fst (snd (g_walk st (way128 key msk d) node)), i, bt)
    \<and> (\<not> fst (snd (g_walk st (way128 key msk d) node)) \<longrightarrow>
        (\<exists>d' < 128. i = d' div 8 \<and> bt = top8 (d' mod 8) \<and> snd (snd (g_walk st (way128 key msk d) node)) = way128 key msk d'))"
  using assms
proof (induction "127 - d" arbitrary: d node rule: less_induct)
  case less
  let ?c = "key ! (d div 8) AND top8 (d mod 8) \<noteq> 0"
  show ?case
  proof (cases "top8 (d mod 8) AND msk ! (d div 8) \<noteq> 0")
    case False
    then show ?thesis using less.prems by (simp add: r128_walk_step way128_step)
  next
    case True
    then have w: "way128 key msk d = ?c # way128 key msk (Suc d)" using way128_step less.prems by simp
    show ?thesis
    proof (cases "branch ?c node st")
      case None
      then show ?thesis using less.prems True w by (auto simp: r128_walk_step)
    next
      case (Some nxt)
      show ?thesis
      proof (cases "Suc d = 128")
        case end_key: True
        have "r128_walk st key msk (d div 8) (top8 (d mod 8)) node = Some (nxt, True, 16, 0)"
          unfolding r128_walk_step [OF less.prems] using True Some end_key by simp
        moreover have "g_walk st (way128 key msk d) node = (nxt, True, [])" unfolding w using Some end_key by simp
        ultimately show ?thesis by simp
      next
        case False
        with less.hyps [of "Suc d" nxt] less.prems show ?thesis using True w Some by (simp add: r128_walk_step)
      qed
    qed
  qed
qed

lemma r128_extend_way:
  assumes "d < 128"
  shows "r128_extend ps pm key msk (d div 8) (top8 (d mod 8)) node st = Some (g_extend ps pm (way128 key msk d) node st)"
  using assms
proof (induction "127 - d" arbitrary: d node st rule: less_induct)
  case less
  have IH: "r128_extend ps pm key msk (Suc d div 8) (top8 (Suc d mod 8)) x s = Some (g_extend ps pm (way128 key msk (Suc d)) x s)"
    if "Suc d \<noteq> 128" for x s using less.hyps [of "Suc d"] less.prems that by simp
  show ?case
    unfolding r128_extend_step [OF less.prems] way128_step [OF less.prems]
    by (cases "Suc d = 128") (auto simp: IH Let_def split: prod.split option.split)
qed

lemma r128_seek_way:
  assumes "d < 128"
  shows "r128_seek st key msk (d div 8) (top8 (d mod 8)) node = Some (g_seek st (way128 key msk d) node)"
  using assms
proof (induction "127 - d" arbitrary: d node rule: less_induct)
  case less
  have IH: "r128_seek st key msk (Suc d div 8) (top8 (Suc d mod 8)) x = Some (g_seek st (way128 key msk (Suc d)) x)"
    if "Suc d \<noteq> 128" for x using less.hyps [of "Suc d"] less.prems that by simp
  have last: "g_seek st [] x = x" for x by (cases x) auto
  show ?case
  proof (cases node)
    case None
    then show ?thesis by (simp add: r128_seek.simps)
  next
    case (Some a)
    show ?thesis
      unfolding Some r128_seek_step [OF less.prems] way128_step [OF less.prems]
      by (cases "Suc d = 128") (auto simp: IH last Let_def)
  qed
qed

lemma r128_find_bits:
  assumes "d \<le> 128"
  shows "r128_find_loop st key (d div 8) (top8 (d mod 8)) v node = g_find False st (drop d (bits128 key)) v node"
  using assms
proof (induction "128 - d" arbitrary: d v node)
  case 0
  then have "d = 128" by simp
  then show ?case by (cases node) (simp_all add: r128_find_loop.simps)
next
  case (Suc k)
  then have d: "d < 128" by simp
  have bs: "drop d (bits128 key) = (key ! (d div 8) AND top8 (d mod 8) \<noteq> 0) # drop (Suc d) (bits128 key)"
    using d by (simp add: and_bit128 Cons_nth_drop_Suc)
  show ?case
  proof (cases node)
    case None
    then show ?thesis by (simp add: r128_find_loop.simps)
  next
    case (Some a)
    then show ?thesis unfolding bs using Suc.hyps(1) [of "Suc d"] Suc.hyps(2) d by (simp add: r128_find_step)
  qed
qed

lemma top8_0: "top8 0 = 0x80"
  by (simp add: top8_def)

lemma r128_operations:
  "ngx_radix128tree_insert ps pm st key msk v = Some (g_insert ps pm st (masked (bits128 key) (bits128 msk)) v)"
  "ngx_radix128tree_delete st key msk = radix_remove (g_seek st (masked (bits128 key) (bits128 msk)) (Some (rt_root st))) st"
  "ngx_radix128tree_find st key = g_find False st (bits128 key) NGX_RADIX_NO_VALUE (Some (rt_root st))"
proof -
  have way: "masked (bits128 key) (bits128 msk) = way128 key msk 0" by (simp add: way128_def)
  obtain node found rest where g: "g_walk st (way128 key msk 0) (rt_root st) = (node, found, rest)"
    by (cases "g_walk st (way128 key msk 0) (rt_root st)") auto
  from r128_walk_way [of 0 st key msk "rt_root st"] obtain i bt where
    w: "r128_walk st key msk 0 0x80 (rt_root st) = Some (node, found, i, bt)"
    and rest: "\<not> found \<Longrightarrow> \<exists>d < 128. i = d div 8 \<and> bt = top8 (d mod 8) \<and> rest = way128 key msk d"
    unfolding g by (auto simp: top8_0)
  show "ngx_radix128tree_insert ps pm st key msk v = Some (g_insert ps pm st (masked (bits128 key) (bits128 msk)) v)"
  proof (cases found)
    case True
    then show ?thesis unfolding ngx_radix128tree_insert_def g_insert_def way by (simp add: g w)
  next
    case False
    with rest obtain d where "d < 128" "i = d div 8" "bt = top8 (d mod 8)" "rest = way128 key msk d" by blast
    then have "r128_extend ps pm key msk i bt node st = Some (g_extend ps pm rest node st)" by (simp add: r128_extend_way)
    with False show ?thesis unfolding ngx_radix128tree_insert_def g_insert_def way
      by (simp add: g w split: prod.split option.split)
  qed
  show "ngx_radix128tree_delete st key msk = radix_remove (g_seek st (masked (bits128 key) (bits128 msk)) (Some (rt_root st))) st"
    unfolding ngx_radix128tree_delete_def way using r128_seek_way [of 0 st key msk] by (simp add: top8_0)
  show "ngx_radix128tree_find st key = g_find False st (bits128 key) NGX_RADIX_NO_VALUE (Some (rt_root st))"
    unfolding ngx_radix128tree_find_def using r128_find_bits [of 0 st key] by (simp add: top8_0)
qed

section \<open>The contract\<close>

text \<open>A tree of the given depth that stores a map from bit strings to values.\<close>

definition stores :: "nat \<Rightarrow> (nat \<Rightarrow> nat option) \<Rightarrow> nat \<Rightarrow> ngx_radix_tree_t \<Rightarrow> (bool list \<Rightarrow> 64 word option) \<Rightarrow> bool" where
  "stores ps pm n st m \<longleftrightarrow> (\<exists>t fl. radix ps pm st t fl \<and> within n t \<and> vmap st t = m)"

text \<open>While \<^verbatim>\<open>ngx_pmemalign\<close> succeeds, no allocation fails.\<close>

lemma alloc_total:
  assumes "\<forall>i. pm i \<noteq> None" "32 \<le> rt_size st \<longrightarrow> rt_start st \<noteq> None"
  shows "\<exists>x st'. ngx_radix_alloc ps pm st = (Some x, st') \<and> (32 \<le> rt_size st' \<longrightarrow> rt_start st' \<noteq> None)"
proof -
  obtain p where "pm (rt_pages st) = Some p" using assms(1) by blast
  then show ?thesis using assms(2) by (cases "rt_free st"; cases "rt_start st") (auto simp: ngx_radix_alloc_def Let_def)
qed

lemma g_extend_total:
  assumes "\<forall>i. pm i \<noteq> None" "32 \<le> rt_size st \<longrightarrow> rt_start st \<noteq> None"
  shows "fst (g_extend ps pm bs node st) \<noteq> None"
  using assms(2)
proof (induction bs arbitrary: node st)
  case (Cons b bs)
  from alloc_total [OF assms(1) Cons.prems, where ps = ps] obtain x st' where
    x: "ngx_radix_alloc ps pm st = (Some x, st')" "32 \<le> rt_size st' \<longrightarrow> rt_start st' \<noteq> None" by blast
  let ?st = "set_branch b node (Some x) (new_node x node st')"
  have "32 \<le> rt_size ?st \<longrightarrow> rt_start ?st \<noteq> None" using x(2) by (cases b) (simp_all add: field_defs)
  from Cons.IH [OF this] show ?case using x(1) by simp
qed simp

lemma g_insert_total:
  assumes "\<forall>i. pm i \<noteq> None" "radix ps pm st t fl"
  shows "fst (g_insert ps pm st bs v) \<noteq> Radix_error"
proof -
  have "32 \<le> rt_size st \<longrightarrow> rt_start st \<noteq> None" using assms(2) by (auto simp: radix_def page_rest_def)
  note ext = g_extend_total [OF assms(1) this, where ps = ps]
  obtain node found rest where w: "g_walk st bs (rt_root st) = (node, found, rest)" by (cases "g_walk st bs (rt_root st)") auto
  obtain res st' where e: "g_extend ps pm rest node st = (res, st')" by fastforce
  then have "res \<noteq> None" using ext [of rest node] by simp
  then show ?thesis using w e by (auto simp: g_insert_def)
qed

locale radix_keys =
  fixes width :: nat
    and over :: bool
    and bits :: "'k \<Rightarrow> bool list"
    and ins :: "nat \<Rightarrow> (nat \<Rightarrow> nat option) \<Rightarrow> ngx_radix_tree_t \<Rightarrow> 'k \<Rightarrow> 'k \<Rightarrow> 64 word \<Rightarrow> (radix_rc \<times> ngx_radix_tree_t) option"
    and del :: "ngx_radix_tree_t \<Rightarrow> 'k \<Rightarrow> 'k \<Rightarrow> (radix_rc \<times> ngx_radix_tree_t) option"
    and find :: "ngx_radix_tree_t \<Rightarrow> 'k \<Rightarrow> 64 word option"
  assumes bits_width: "length (bits k) = width"
    and ins_way: "ins ps pm st k msk v = Some (g_insert ps pm st (masked (bits k) (bits msk)) v)"
    and del_way: "del st k msk = radix_remove (g_seek st (masked (bits k) (bits msk)) (Some (rt_root st))) st"
    and find_way: "radix ps pm st t fl \<Longrightarrow> within width t \<Longrightarrow>
      find st k = g_find over st (bits k) NGX_RADIX_NO_VALUE (Some (rt_root st))"
begin

lemma insert_map:
  assumes "pages_ok ps pm" "stores ps pm width st m"
  shows "\<exists>rc st'. ins ps pm st k msk v = Some (rc, st')
    \<and> (rc = Radix_busy \<longleftrightarrow> m (masked (bits k) (bits msk)) \<noteq> None) \<and> (rc = Radix_error \<longrightarrow> (\<exists>i. pm i = None))
    \<and> stores ps pm width st' (if rc = Radix_ok then m(masked (bits k) (bits msk) := as_value v) else m)"
proof -
  let ?w = "masked (bits k) (bits msk)"
  from assms(2) obtain t fl where t: "radix ps pm st t fl" "within width t" "vmap st t = m" by (auto simp: stores_def)
  obtain rc st' where g: "g_insert ps pm st ?w v = (rc, st')" by fastforce
  have "length ?w \<le> width" using masked_length [of "bits k"] bits_width by simp
  from g_insert [OF assms(1) t(1,2) this g] have "(rc = Radix_busy \<longleftrightarrow> m ?w \<noteq> None)
    \<and> stores ps pm width st' (if rc = Radix_ok then m(?w := as_value v) else m)" unfolding stores_def t(3) by blast
  moreover have "rc = Radix_error \<longrightarrow> (\<exists>i. pm i = None)" using g_insert_total [OF _ t(1), of ?w v] g by (metis fst_conv)
  ultimately show ?thesis using ins_way g by auto
qed

lemma delete_map:
  assumes "stores ps pm width st m"
  shows "(del st k msk = None \<longleftrightarrow>
      masked (bits k) (bits msk) = [] \<and> rn_left st (rt_root st) = None \<and> rn_right st (rt_root st) = None)
    \<and> (\<forall>rc st'. del st k msk = Some (rc, st') \<longrightarrow> rc \<in> {Radix_ok, Radix_error}
        \<and> (m (masked (bits k) (bits msk)) \<noteq> None \<longrightarrow> rc = Radix_ok) \<and> stores ps pm width st' (m(masked (bits k) (bits msk) := None)))"
proof -
  from assms obtain t fl where t: "radix ps pm st t fl" "within width t" "vmap st t = m" by (auto simp: stores_def)
  from g_remove [OF t(1,2), of "masked (bits k) (bits msk)"] show ?thesis
    unfolding stores_def t(3) del_way by blast
qed

lemma find_map:
  assumes "stores ps pm width st m"
  shows "find st k = (if over \<or> g_seek st (bits k) (Some (rt_root st)) = None then Some (lpm m (bits k)) else None)"
proof -
  from assms obtain t fl where t: "radix ps pm st t fl" "within width t" "vmap st t = m" by (auto simp: stores_def)
  have root: "Some (rt_root st) = ptr t" using t(1) by (simp add: radix_def)
  note h = radix_holds(1) [OF t(1)]
  have "g_seek st (bits k) (Some (rt_root st)) = None \<longleftrightarrow> sub (bits k) t = Tip"
    unfolding root g_seek [OF h] by (cases "sub (bits k) t") auto
  then show ?thesis
    unfolding find_way [OF t(1,2)] using g_find [OF h, of over "bits k" NGX_RADIX_NO_VALUE "[]"] root best_lpm t(3) by simp
qed

end

interpretation r32: radix_keys 32 True bits32 "\<lambda>ps pm st key msk v. Some (ngx_radix32tree_insert ps pm st key msk v)"
  ngx_radix32tree_delete ngx_radix32tree_find
  by unfold_locales (simp_all add: r32_operations r32_find)

interpretation r128: radix_keys 128 False bits128 ngx_radix128tree_insert ngx_radix128tree_delete ngx_radix128tree_find
  by unfold_locales (simp_all add: r128_operations)

section \<open>Creation\<close>

lemma stores_mono: "stores ps pm n st m \<Longrightarrow> n \<le> n' \<Longrightarrow> stores ps pm n' st m"
  unfolding stores_def within_def using order.trans [of _ n n'] by blast

lemma lone_root:
  "within n (Br Tip a Tip)" "rn_value st a = NGX_RADIX_NO_VALUE \<Longrightarrow> vmap st (Br Tip a Tip) = Map.empty"
proof -
  have no: "ptr (sub bs (Br Tip a Tip)) = None" if "bs \<noteq> []" for bs using that by (cases bs) auto
  then show "within n (Br Tip a Tip)" unfolding within_def by (metis le0 list.size(3))
  show "vmap st (Br Tip a Tip) = Map.empty" if "rn_value st a = NGX_RADIX_NO_VALUE"
  proof
    fix bs
    show "vmap st (Br Tip a Tip) bs = None" using that no by (cases "bs = []") (simp_all add: vmap_def)
  qed
qed

text \<open>The inner loop ends because \<open>2 ^ 32\<close> steps of any size lead back to the key 0.\<close>

definition empty_or_null :: "nat \<Rightarrow> (nat \<Rightarrow> nat option) \<Rightarrow> ngx_radix_tree_t option \<Rightarrow> bool" where
  "empty_or_null ps pm r \<longleftrightarrow> (case r of None \<Rightarrow> \<exists>i. pm i = None | Some st \<Rightarrow> stores ps pm 32 st Map.empty)"

lemma radix_fill_ends:
  assumes "pages_ok ps pm"
  shows "stores ps pm 32 st Map.empty \<Longrightarrow> key + of_nat k * inc = 0 \<Longrightarrow> 0 < k \<Longrightarrow>
    \<exists>r. radix_fill ps pm key msk inc st = Some r \<and> empty_or_null ps pm r"
proof (induction k arbitrary: key st)
  case (Suc k)
  have none: "(if b then Map.empty(w := as_value NGX_RADIX_NO_VALUE) else Map.empty) = Map.empty" for b and w :: "bool list"
    by (simp add: as_value_def fun_upd_idem)
  from r32.insert_map [OF assms Suc.prems(1), of key msk NGX_RADIX_NO_VALUE] obtain rc st' where
    ins: "ngx_radix32tree_insert ps pm st key msk NGX_RADIX_NO_VALUE = (rc, st')" "rc \<noteq> Radix_busy"
      "rc = Radix_error \<Longrightarrow> \<exists>i. pm i = None" "stores ps pm 32 st' Map.empty"
    unfolding none option.inject by blast
  show ?case
  proof (cases "rc = Radix_ok")
    case False
    then have "rc = Radix_error" using ins(2) by (cases rc) auto
    then show ?thesis using ins by (subst radix_fill.simps) (simp add: empty_or_null_def)
  next
    case ok: True
    show ?thesis
    proof (cases "key + inc = 0")
      case True
      then show ?thesis using ins ok by (subst radix_fill.simps) (simp add: empty_or_null_def)
    next
      case False
      have "key + inc + of_nat k * inc = 0" using Suc.prems(2) by (simp add: algebra_simps)
      moreover from this have "0 < k" using False by (cases k) auto
      ultimately show ?thesis using Suc.IH [OF ins(4)] ins(1) ok False by (subst radix_fill.simps) simp
    qed
  qed
qed simp

lemma radix_preallocate_ends:
  assumes "pages_ok ps pm"
  shows "stores ps pm 32 st Map.empty \<Longrightarrow> \<exists>r. radix_preallocate ps pm (int n) msk inc st = Some r \<and> empty_or_null ps pm r"
proof (induction n arbitrary: msk inc st)
  case 0
  then show ?case by (simp add: radix_preallocate.simps empty_or_null_def)
next
  case (Suc n)
  let ?m = "drop_bit 1 msk OR 0x80000000"
  have zero: "of_nat (2 ^ 32) = (0 :: 32 word)" unfolding word_of_nat_eq_0_iff by simp
  have "(0 :: 32 word) + of_nat (2 ^ 32) * inc = 0" unfolding zero by simp
  from radix_fill_ends [OF assms Suc.prems this, of ?m] obtain r where
    r: "radix_fill ps pm 0 ?m inc st = Some r" "empty_or_null ps pm r" by auto
  show ?case
  proof (cases r)
    case None
    then show ?thesis using r by (subst radix_preallocate.simps) simp
  next
    case (Some st')
    then have "stores ps pm 32 st' Map.empty" using r(2) by (simp add: empty_or_null_def)
    from Suc.IH [OF this] show ?thesis using r(1) Some by (subst radix_preallocate.simps) (simp add: Let_def)
  qed
qed

lemma radix_root:
  assumes "pages_ok ps pm" "ngx_radix_alloc ps pm (mem\<lparr>rt_free := None, rt_start := None, rt_size := 0\<rparr>) = (Some a, t)"
  shows "stores ps pm 32 (rn_set_value a NGX_RADIX_NO_VALUE (rn_set_parent a None (rn_set_left a None (rn_set_right a None (t\<lparr>rt_root := a\<rparr>))))) Map.empty"
    (is "stores _ _ _ ?st _")
proof -
  from assms(2) have t: "pm (rt_pages mem) = Some a" "rt_pages t = rt_pages mem + 1" "rt_free t = None"
    "rt_start t = Some (a + 32)" "rt_size t = ps - 32"
    by (auto simp: ngx_radix_alloc_def split: option.splits)
  have ps: "32 \<le> ps" using assms(1) by (simp add: pages_ok_def)
  have "taken ps pm ?st a" unfolding taken_def
    using t ps by (intro exI [of _ "rt_pages mem"] exI [of _ a]) (simp add: field_defs)
  moreover have "page_rest ps pm ?st" using t ps by (simp add: page_rest_def field_defs)
  ultimately have "radix ps pm ?st (Br Tip a Tip) []" using t by (simp add: radix_def field_defs)
  moreover have "rn_value ?st a = NGX_RADIX_NO_VALUE" by (simp add: field_defs)
  ultimately show ?thesis unfolding stores_def using lone_root by blast
qed

lemma radix_create_ends:
  assumes "pages_ok ps pm" "-1 \<le> preallocate"
  shows "\<exists>r. ngx_radix_tree_create ps pm True preallocate mem = Some r \<and> empty_or_null ps pm r"
proof -
  obtain res t where al: "ngx_radix_alloc ps pm (mem\<lparr>rt_free := None, rt_start := None, rt_size := 0\<rparr>) = (res, t)" by fastforce
  show ?thesis
  proof (cases res)
    case None
    then have "pm (rt_pages mem) = None" using al by (auto simp: ngx_radix_alloc_def split: option.splits)
    then show ?thesis using al None by (auto simp: ngx_radix_tree_create_def empty_or_null_def)
  next
    case (Some a)
    note st = radix_root [OF assms(1) al [unfolded Some]]
    define n where "n = (if preallocate = -1 then if ps div 32 = 128 then 6 else if ps div 32 = 256 then 7 else 8 else preallocate)"
    have "0 \<le> n" using assms(2) by (auto simp: n_def)
    then obtain k where k: "n = int k" by (metis nonneg_int_cases)
    from radix_preallocate_ends [OF assms(1) st, of k 0 "0x80000000"] st show ?thesis
      unfolding ngx_radix_tree_create_def using al Some k n_def
      by (cases "preallocate = 0") (simp_all add: Let_def empty_or_null_def split del: if_split)
  qed
qed

section \<open>Properties\<close>

definition page_sample :: "nat \<Rightarrow> nat option" where
  "page_sample i = Some (4096 * (i + 1))"

definition radix_sample :: ngx_radix_tree_t where
  "radix_sample = \<lparr>rn_right = (\<lambda>_. None), rn_left = (\<lambda>_. None), rn_parent = (\<lambda>_. None), rn_value = (\<lambda>_. NGX_RADIX_NO_VALUE),
     rt_root = 4096, rt_free = None, rt_start = Some 4128, rt_size = 4064, rt_pages = 1\<rparr>"

lemma page_sample_ok: "pages_ok 4096 page_sample"
  by (auto simp: pages_ok_def page_sample_def)

lemma value_sample: "as_value 7 = Some 7"
  by (simp add: as_value_def)

lemma radix_sample_stores: "stores 4096 page_sample n radix_sample Map.empty"
proof -
  have "radix 4096 page_sample radix_sample (Br Tip 4096 Tip) []"
    by (auto simp: radix_def radix_sample_def taken_def page_rest_def page_sample_def)
  moreover have "rn_value radix_sample 4096 = NGX_RADIX_NO_VALUE" by (simp add: radix_sample_def)
  ultimately show ?thesis unfolding stores_def using lone_root by blast
qed

text \<open>
C17: \<^verbatim>\<open>ngx_radix32tree_insert\<close>, \<^verbatim>\<open>ngx_radix32tree_delete\<close> and \<^verbatim>\<open>ngx_radix32tree_find\<close> implement a map from networks (the bits
  of a key up to the first bit outside of the mask) to values. In a tree that stores the map \<open>m\<close>, with pages from
  \<^verbatim>\<open>ngx_pmemalign\<close> that do not overlap: insertion answers \<^verbatim>\<open>NGX_BUSY\<close> exactly if the network has a value, fails only
  if a page is refused, and otherwise enters the value; deletion removes the network, answers \<^verbatim>\<open>NGX_OK\<close> if it had a value,
  and has no result exactly for the empty network in a tree that is only a root (the parent of the root is followed);
  a lookup gives the value of the longest network of the map that the address is in. The links between the nodes, the list
  of free nodes and the rest of the page stay consistent throughout.
\<close>

theorem radix32_map:
  assumes "pages_ok ps pm" "stores ps pm 32 st m"
  shows "(\<exists>rc st'. ngx_radix32tree_insert ps pm st key msk v = (rc, st')
      \<and> (rc = Radix_busy \<longleftrightarrow> m (masked (bits32 key) (bits32 msk)) \<noteq> None) \<and> (rc = Radix_error \<longrightarrow> (\<exists>i. pm i = None))
      \<and> stores ps pm 32 st' (if rc = Radix_ok then m(masked (bits32 key) (bits32 msk) := as_value v) else m))
    \<and> (ngx_radix32tree_delete st key msk = None \<longleftrightarrow>
      masked (bits32 key) (bits32 msk) = [] \<and> rn_left st (rt_root st) = None \<and> rn_right st (rt_root st) = None)
    \<and> (\<forall>rc st'. ngx_radix32tree_delete st key msk = Some (rc, st') \<longrightarrow> rc \<in> {Radix_ok, Radix_error}
      \<and> (m (masked (bits32 key) (bits32 msk)) \<noteq> None \<longrightarrow> rc = Radix_ok)
      \<and> stores ps pm 32 st' (m(masked (bits32 key) (bits32 msk) := None)))
    \<and> ngx_radix32tree_find st key = Some (lpm m (bits32 key))"
  using r32.insert_map [OF assms, of key msk v] r32.delete_map [OF assms(2), of key msk] r32.find_map [OF assms(2), of key]
  unfolding option.inject by simp

theorem radix32_map_witness:
  "(\<exists>st'. ngx_radix32tree_insert 4096 page_sample radix_sample 0xC0A80000 0xFFFF0000 7 = (Radix_ok, st')
      \<and> stores 4096 page_sample 32 st' [masked (bits32 0xC0A80000) (bits32 0xFFFF0000) \<mapsto> 7])
    \<and> ngx_radix32tree_find radix_sample 0xC0A80000 = Some (lpm Map.empty (bits32 0xC0A80000))"
proof -
  note all = radix32_map [OF page_sample_ok radix_sample_stores, of "0xC0A80000" "0xFFFF0000" 7]
  from all obtain rc st' where "ngx_radix32tree_insert 4096 page_sample radix_sample 0xC0A80000 0xFFFF0000 7 = (rc, st')"
    "rc \<noteq> Radix_busy" "rc \<noteq> Radix_error"
    "stores 4096 page_sample 32 st' (if rc = Radix_ok then [masked (bits32 0xC0A80000) (bits32 0xFFFF0000) \<mapsto> 7] else Map.empty)"
    unfolding value_sample page_sample_def [abs_def] by blast
  then show ?thesis using all by (cases rc) auto
qed

text \<open>
C18: \<^verbatim>\<open>ngx_radix128tree_insert\<close>, \<^verbatim>\<open>ngx_radix128tree_delete\<close> and \<^verbatim>\<open>ngx_radix128tree_find\<close> implement the same map for
  addresses of 16 bytes. Insertion never reads outside of the key and the mask. A lookup gives the value of the longest network
  that the address is in, unless the tree has a node for the whole address: then the loop goes on behind the last byte of
  the key, which the model shows as no result.
\<close>

theorem radix128_map:
  assumes "pages_ok ps pm" "stores ps pm 128 st m"
  shows "(\<exists>rc st'. ngx_radix128tree_insert ps pm st key msk v = Some (rc, st')
      \<and> (rc = Radix_busy \<longleftrightarrow> m (masked (bits128 key) (bits128 msk)) \<noteq> None) \<and> (rc = Radix_error \<longrightarrow> (\<exists>i. pm i = None))
      \<and> stores ps pm 128 st' (if rc = Radix_ok then m(masked (bits128 key) (bits128 msk) := as_value v) else m))
    \<and> (ngx_radix128tree_delete st key msk = None \<longleftrightarrow>
      masked (bits128 key) (bits128 msk) = [] \<and> rn_left st (rt_root st) = None \<and> rn_right st (rt_root st) = None)
    \<and> (\<forall>rc st'. ngx_radix128tree_delete st key msk = Some (rc, st') \<longrightarrow> rc \<in> {Radix_ok, Radix_error}
      \<and> (m (masked (bits128 key) (bits128 msk)) \<noteq> None \<longrightarrow> rc = Radix_ok)
      \<and> stores ps pm 128 st' (m(masked (bits128 key) (bits128 msk) := None)))
    \<and> ngx_radix128tree_find st key =
      (if g_seek st (bits128 key) (Some (rt_root st)) = None then Some (lpm m (bits128 key)) else None)"
  using r128.insert_map [OF assms, of key msk v] r128.delete_map [OF assms(2), of key msk] r128.find_map [OF assms(2), of key]
  by simp

theorem radix128_map_witness:
  "(\<exists>st'. ngx_radix128tree_insert 4096 page_sample radix_sample (replicate 16 0x20) (replicate 4 0xFF @ replicate 12 0) 7 = Some (Radix_ok, st')
      \<and> stores 4096 page_sample 128 st' [masked (bits128 (replicate 16 0x20)) (bits128 (replicate 4 0xFF @ replicate 12 0)) \<mapsto> 7])
    \<and> ngx_radix128tree_find radix_sample (replicate 16 0x20) =
      (if g_seek radix_sample (bits128 (replicate 16 0x20)) (Some (rt_root radix_sample)) = None
       then Some (lpm Map.empty (bits128 (replicate 16 0x20))) else None)"
proof -
  note all = radix128_map [OF page_sample_ok radix_sample_stores, of "replicate 16 0x20" "replicate 4 0xFF @ replicate 12 0" 7]
  from all obtain rc st' where
    "ngx_radix128tree_insert 4096 page_sample radix_sample (replicate 16 0x20) (replicate 4 0xFF @ replicate 12 0) 7 = Some (rc, st')"
    "rc \<noteq> Radix_busy" "rc \<noteq> Radix_error" "stores 4096 page_sample 128 st'
      (if rc = Radix_ok then [masked (bits128 (replicate 16 0x20)) (bits128 (replicate 4 0xFF @ replicate 12 0)) \<mapsto> 7] else Map.empty)"
    unfolding value_sample page_sample_def [abs_def] by blast
  moreover from all have "ngx_radix128tree_find radix_sample (replicate 16 0x20) =
      (if g_seek radix_sample (bits128 (replicate 16 0x20)) (Some (rt_root radix_sample)) = None
       then Some (lpm Map.empty (bits128 (replicate 16 0x20))) else None)" by blast
  ultimately show ?thesis by (cases rc) (simp_all only: simp_thms radix_rc.distinct if_True, blast)
qed

text \<open>
C19: \<^verbatim>\<open>ngx_radix_tree_create\<close> returns, for a number of bits to preallocate from -1 (the default for the size of a page) on. The result
  is \<^verbatim>\<open>NULL\<close> only if there is no room for the tree or a page is refused; otherwise it is a well-formed tree for keys of both
  sizes that stores the empty map.
\<close>

theorem radix_tree_created:
  assumes "pages_ok ps pm" "-1 \<le> preallocate"
  shows "\<exists>r. ngx_radix_tree_create ps pm room preallocate mem = Some r \<and> (room \<and> (\<forall>i. pm i \<noteq> None) \<longrightarrow> r \<noteq> None)
    \<and> (\<forall>st. r = Some st \<longrightarrow> stores ps pm 32 st Map.empty \<and> stores ps pm 128 st Map.empty)"
proof (cases room)
  case True
  from radix_create_ends [OF assms, of mem] obtain r where
    "ngx_radix_tree_create ps pm True preallocate mem = Some r" "empty_or_null ps pm r" by blast
  then show ?thesis using True stores_mono [of ps pm 32 _ _ 128] by (cases r) (auto simp: empty_or_null_def)
qed (simp add: ngx_radix_tree_create_def)

theorem radix_tree_created_witness:
  "\<exists>r. ngx_radix_tree_create 4096 page_sample True (-1) radix_sample = Some r \<and> r \<noteq> None
    \<and> (\<forall>st. r = Some st \<longrightarrow> stores 4096 page_sample 32 st Map.empty)"
  using radix_tree_created [OF page_sample_ok, of "-1" True radix_sample] by (auto simp: page_sample_def)

end
