(* ===== verification/Spec2Isabelle.thy ===== *)
theory Spec2Isabelle
  imports Ngx_Request_Line_Props Ngx_Header_Line_Props Ngx_Status_Line Ngx_Chunked
    Ngx_Uri Ngx_Process_Uri Ngx_Sprintf Ngx_Base64 Ngx_Escape
    Ngx_Unsafe_Uri Ngx_Parse_Time Ngx_Parse Ngx_Event_Timer Ngx_Event_Posted
    Ngx_Http_Arg Ngx_Times Ngx_Crc32 Ngx_Utf8 Ngx_Radix_Keys
begin

text \<open>
  A verification library for the C sources of the repository, which are kept under
  \<^verbatim>\<open>src/reference/\<close>. The part that is modelled is the core logic of nginx
  (\<^verbatim>\<open>src/reference/nginx-master/src\<close>): the code that takes bytes from the network or the
  configuration, the routines on strings it uses, and the tree and the queues that keep timers and
  pending events, and the tree that finds the network of an address.

  \<^bold>\<open>The program and its parts.\<close> A worker process of nginx reads a request line, header lines and a
  body from a client, byte by byte and across any division into buffers; it normalises the URI before
  it looks for a file, and talks to upstream servers whose answers start with a status line. Strings,
  numbers, dates and sizes are read and written by small routines that all other parts call. The worker
  waits until the first of its timers expires; the timers are nodes of a red-black tree. Events that
  must not be handled at once are put on a queue, which the worker empties between two waits.

  \<^bold>\<open>Theories and sources.\<close>
  \<^item> \<open>Ngx_Prelude\<close>: bytes, return codes, \<^verbatim>\<open>ngx_str_t\<close>, bitmaps and the lemmas on lists and words that
    all theories share. \<open>Ngx_Scan\<close>: a loop over the bytes between \<^verbatim>\<open>b->pos\<close> and \<^verbatim>\<open>b->last\<close> that a
    \<^verbatim>\<open>switch\<close> on a state drives, and the law that such a loop may be interrupted and resumed
    anywhere. \<open>Ngx_Request\<close>: the part of \<^verbatim>\<open>ngx_http_request_t\<close> the parsers use.
  \<^item> \<open>Ngx_Request_Line\<close>, \<open>Ngx_Request_Line_Props\<close>: \<^verbatim>\<open>ngx_http_parse_request_line\<close> of
    \<^verbatim>\<open>http/ngx_http_parse.c\<close>, one definition per state of the \<^verbatim>\<open>switch\<close>.
  \<^item> \<open>Ngx_Header_Line\<close>, \<open>Ngx_Header_Line_Props\<close>: \<^verbatim>\<open>ngx_http_parse_header_line\<close>.
  \<^item> \<open>Ngx_Status_Line\<close>: \<^verbatim>\<open>ngx_http_parse_status_line\<close>. \<open>Ngx_Chunked\<close>: \<^verbatim>\<open>ngx_http_parse_chunked\<close>.
  \<^item> \<open>Ngx_Uri\<close>: \<^verbatim>\<open>ngx_http_parse_uri\<close>. \<open>Ngx_Complex_Uri\<close>, \<open>Ngx_Complex_Uri_Props\<close>:
    \<^verbatim>\<open>ngx_http_parse_complex_uri\<close>. \<open>Ngx_Process_Uri\<close>: \<^verbatim>\<open>ngx_http_process_request_uri\<close> of
    \<^verbatim>\<open>http/ngx_http_request.c\<close>, which joins the request line parser and the normaliser.
    \<open>Ngx_Unsafe_Uri\<close>: \<^verbatim>\<open>ngx_http_parse_unsafe_uri\<close>.
  \<^item> \<open>Ngx_Http_Arg\<close>: the readers of arguments, cookies and directive lines of
    \<^verbatim>\<open>http/ngx_http_parse.c\<close>, and the variables of \<^verbatim>\<open>http/ngx_http_variables.c\<close> that call them.
  \<^item> \<open>Ngx_Number\<close>, \<open>Ngx_Sprintf\<close>, \<open>Ngx_Base64\<close>, \<open>Ngx_Escape\<close>, \<open>Ngx_Compare\<close>, \<open>Ngx_Utf8\<close>: the
    routines of \<^verbatim>\<open>core/ngx_string.c\<close>. \<open>Ngx_Parse_Time\<close>: \<^verbatim>\<open>core/ngx_parse_time.c\<close>.
    \<open>Ngx_Times\<close>: the calendar and the formatted dates of \<^verbatim>\<open>core/ngx_times.c\<close>. \<open>Ngx_Parse\<close>:
    \<^verbatim>\<open>core/ngx_parse.c\<close>. \<open>Ngx_Crc32\<close>: \<^verbatim>\<open>core/ngx_crc32.c\<close> and \<^verbatim>\<open>core/ngx_crc32.h\<close>.
  \<^item> \<open>Ngx_Rbtree\<close>, \<open>Ngx_Rbtree_Insert\<close>, \<open>Ngx_Rbtree_Delete\<close>: \<^verbatim>\<open>core/ngx_rbtree.c\<close> and
    \<^verbatim>\<open>core/ngx_rbtree.h\<close>. \<open>Ngx_Event_Timer\<close>: \<^verbatim>\<open>event/ngx_event_timer.c\<close> and
    \<^verbatim>\<open>event/ngx_event_timer.h\<close>.
  \<^item> \<open>Ngx_Queue\<close>: the circular lists of \<^verbatim>\<open>core/ngx_queue.c\<close> and \<^verbatim>\<open>core/ngx_queue.h\<close>.
    \<open>Ngx_Event_Posted\<close>: \<^verbatim>\<open>event/ngx_event_posted.c\<close> and \<^verbatim>\<open>event/ngx_event_posted.h\<close>.
  \<^item> \<open>Ngx_Radix_Tree\<close>, \<open>Ngx_Radix_Props\<close>, \<open>Ngx_Radix_Keys\<close>: \<^verbatim>\<open>core/ngx_radix_tree.c\<close> and
    \<^verbatim>\<open>core/ngx_radix_tree.h\<close>, with the operations for keys of 32 and of 128 bits.

  \<^bold>\<open>How code becomes definitions.\<close> A pointer into a buffer is an offset, a pointer that may be
  \<^verbatim>\<open>NULL\<close> an option; a read or write outside of its buffer is an explicit fault, so that the safety
  theorems can exclude it. \<^verbatim>\<open>off_t\<close>, \<^verbatim>\<open>ssize_t\<close> and \<^verbatim>\<open>time_t\<close> are integers with the overflow of a
  64-bit platform written out as a fault; unsigned keys, hashes and times are words. The nodes of the
  red-black tree, of the queues and of the radix trees are addresses and each field of the nodes is a function on addresses, so that the
  aliasing of the pointers is that of the code; to follow \<^verbatim>\<open>NULL\<close> and not to return are the result
  \<^term>\<open>None\<close>. The sources are taken as built without Win32, with path separator slash.

  \<^bold>\<open>What the theorems show.\<close> For the parsers: feeding the bytes in pieces gives the result of one call;
  accepted input has the shape the rest of the server relies on, with all recorded pointers inside
  the bytes received; every well-formed input of the main form is accepted; no computation of a length
  overflows. For the URI: the one-pass normaliser refines a reference that splits the path into
  segments, the result has no dot segments, and the check for URIs of other origin refuses
  what climbs. For the strings: encoders and decoders are inverse to each other, the readers are exact
  up to overflow, formatted output stays in its buffer, the comparisons are orders of the folded
  bytes, a search finds the first occurrence, and the decoder of UTF-8 agrees with the routines that
  count and copy characters. For arguments and headers: the first match is found. For dates
  and sizes: exact results, and a date that is printed is read back. For the checksums: the two tables
  compute the same polynomial remainder. For the
  red-black tree: insertion, deletion and the walk return, keep the red-black invariant and the links,
  and refine operations on the sequence of nodes; the timers stay sorted across the wrap-around of the
  clock, the next timer is found, and the loop that expires timers ends. For the queues: the
  operations keep the links in both directions and refine operations on sequences, the merge sort is
  stable; the loop that handles posted events ends and leaves its queue empty. For the
  radix trees: insertion, deletion and lookup implement a map from networks to values with the match of
  the longest prefix, in memory that is taken from pages and a list of free nodes; the creation of
  a tree returns an empty one.

  \<^bold>\<open>Interfaces.\<close> \<open>byte_parser\<close> and \<open>resumable_parser\<close> (\<open>Ngx_Scan\<close>), \<open>digit_reader\<close> (\<open>Ngx_Number\<close>), \<open>base64_alphabet\<close> (\<open>Ngx_Base64\<close>), \<open>escaper\<close> and
  \<open>percent_map\<close> (\<open>Ngx_Escape\<close>), \<open>byte_key\<close>, \<open>string_order\<close> and \<open>string_order_n\<close> (\<open>Ngx_Compare\<close>),
  \<open>key_order\<close> (\<open>Ngx_Rbtree_Insert\<close>), \<open>timer_handler\<close> (\<open>Ngx_Event_Timer\<close>), \<open>posted_handler\<close>
  (\<open>Ngx_Event_Posted\<close>) and \<open>radix_keys\<close> (\<open>Ngx_Radix_Keys\<close>) are locales; each is interpreted on the definitions of the code.

  \<^bold>\<open>Bounds and loops.\<close> No definition has fuel. Loops over bytes are structural or have a measure; the
  loops of the trees, of the timers, of the queues and of the posted events are \<^verbatim>\<open>partial_function\<close>s in the option type, and the
  theorems say that they return.

  \<^bold>\<open>Not modelled.\<close> The event loop and the kernel interfaces, TLS and QUIC, the HTTP, mail and stream
  modules, HTTP/2 and HTTP/3 framing, upstream connections, configuration parsing, memory pools, hash
  tables and caches of nginx: most of that code is bound to sockets, files, OpenSSL and the
  configuration, and what its logic computes is left for a later extension. Logging. The other
  vendored C projects (libuv, libfyaml, yyjson); the Pascal units of the repository, which are not C.
  The doubles of \<^verbatim>\<open>%f\<close> in the formatted output, the event handlers, and the memory the
  radix trees get from the pool are parameters.
\<close>

end
